(* ===== verification/Rtt_Prelude.thy ===== *)
theory Rtt_Prelude
  imports Main "HOL-Library.Word" "HOL-Library.Monad_Syntax"
begin

unbundle bit_operations_syntax

text \<open>
  Shared vocabulary of the RT-Thread development: the named theorem collections, the error
  codes of \<^verbatim>\<open>src/rt-thread/include/rtdef.h\<close>, the model of \<^verbatim>\<open>RT_ASSERT\<close>, and the generic facts on
  lists, options and machine words that several components use.

  A C function that can stop at an assertion, or whose behaviour C leaves undefined in some
  states, is a function into \<open>option\<close>; \<open>None\<close> is that stop, never an error code. An error
  code is a value of type \<open>rt_err\<close>.
\<close>

named_theorems kernel_simps \<open>unfolding rules for the kernel's basic state updates\<close>
named_theorems inv_intros \<open>preservation of the kernel invariants by the operations\<close>
named_theorems frame_simps \<open>state components an operation leaves alone\<close>

section \<open>Types shared by all components\<close>

type_synonym u8 = "8 word"
type_synonym u16 = "16 word"
type_synonym u32 = "32 word"

text \<open>
  The codes of \<^verbatim>\<open>rt_err_t\<close>. The C returns and stores their negations; the model writes
  \<open>RT_ERROR\<close> for the value \<^verbatim>\<open>-RT_ERROR\<close>, and so on.
\<close>

datatype rt_err = RT_EOK | RT_ERROR | RT_ETIMEOUT | RT_EFULL | RT_EEMPTY | RT_ENOMEM
  | RT_ENOSYS | RT_EBUSY | RT_EIO | RT_EINTR | RT_EINVAL

section \<open>Assertions and undefined behaviour\<close>

text \<open>
  \<^verbatim>\<open>RT_ASSERT(EX)\<close> with no hook installed prints and loops for ever
  (\<^verbatim>\<open>rt_assert_handler\<close>), so the code after it does not run.
\<close>

definition rt_assert :: "bool \<Rightarrow> unit option" where
  "rt_assert b = (if b then Some () else None)"

lemma rt_assert_Some [simp]: "rt_assert b = Some u \<longleftrightarrow> b"
  by (simp add: rt_assert_def)

lemma rt_assert_True [simp]: "rt_assert True = Some ()"
  by (simp add: rt_assert_def)

lemma rt_assert_False [simp]: "rt_assert False = None"
  by (simp add: rt_assert_def)

lemma rt_assert_bind [simp]:
  "(rt_assert b \<bind> f) = (if b then f () else None)"
  by (simp add: rt_assert_def)

lemma bind_SomeE:
  assumes "(x \<bind> f) = Some y"
  obtains z where "x = Some z" and "f z = Some y"
  using assms by (cases x) auto

lemma if_None_Some [simp]:
  "(if b then x else None) = Some y \<longleftrightarrow> b \<and> x = Some y"
  "(if b then None else x) = Some y \<longleftrightarrow> \<not> b \<and> x = Some y"
  by auto

section \<open>Lists\<close>

text \<open>Inserting a node right before another one, the way \<^verbatim>\<open>rt_list_insert_before\<close> does.\<close>

fun list_insert_where :: "('a \<Rightarrow> bool) \<Rightarrow> 'a \<Rightarrow> 'a list \<Rightarrow> 'a list" where
  "list_insert_where P x [] = [x]"
| "list_insert_where P x (y # ys) = (if P y then x # y # ys else y # list_insert_where P x ys)"

lemma set_list_insert_where [simp]: "set (list_insert_where P x ys) = insert x (set ys)"
  by (induction ys) auto

lemma distinct_list_insert_where [simp]:
  "distinct (list_insert_where P x ys) \<longleftrightarrow> distinct ys \<and> x \<notin> set ys"
  by (induction ys) auto

lemma length_list_insert_where [simp]: "length (list_insert_where P x ys) = Suc (length ys)"
  by (induction ys) auto

lemma list_insert_where_not_Nil [simp]: "list_insert_where P x ys \<noteq> []"
  by (cases ys) auto

lemma list_insert_where_split:
  "\<exists>as bs. ys = as @ bs \<and> list_insert_where P x ys = as @ x # bs
     \<and> (\<forall>a\<in>set as. \<not> P a) \<and> (bs \<noteq> [] \<longrightarrow> P (hd bs))"
proof (induction ys)
  case Nil
  then show ?case by simp
next
  case (Cons y ys)
  show ?case
  proof (cases "P y")
    case True
    then show ?thesis by (intro exI [of _ "[]"] exI [of _ "y # ys"]) simp
  next
    case False
    from Cons.IH obtain as bs where "ys = as @ bs" "list_insert_where P x ys = as @ x # bs"
      "\<forall>a\<in>set as. \<not> P a" "bs \<noteq> [] \<longrightarrow> P (hd bs)" by blast
    with False show ?thesis
      by (intro exI [of _ "y # as"] exI [of _ bs]) simp
  qed
qed

lemma removeAll_list_insert_where [simp]:
  "x \<notin> set ys \<Longrightarrow> removeAll x (list_insert_where P x ys) = ys"
  by (induction ys) auto

lemma removeAll_eq_Nil_iff: "removeAll x xs = [] \<longleftrightarrow> set xs \<subseteq> {x}"
  by (induction xs) auto

lemma removeAll_idem_notin [simp]: "x \<notin> set xs \<Longrightarrow> removeAll x xs = xs"
  by (rule removeAll_id)

section \<open>Linked lists of nodes\<close>

fun list_chain :: "(nat \<Rightarrow> nat option) \<Rightarrow> nat option \<Rightarrow> nat list \<Rightarrow> bool" where
  "list_chain nx p [] \<longleftrightarrow> p = None"
| "list_chain nx p (n # ns) \<longleftrightarrow> p = Some n \<and> list_chain nx (nx n) ns"

lemma list_chain_upd [simp]:
  "n \<notin> set ns \<Longrightarrow> list_chain (nx(n := q)) p ns = list_chain nx p ns"
  by (induction ns arbitrary: p) auto

lemma list_chain_snoc:
  assumes "list_chain nx p ns" "ns \<noteq> []" "distinct ns" "n \<notin> set ns" "nx n = None"
  shows "list_chain (nx(last ns := Some n)) p (ns @ [n])"
  using assms
proof (induction ns arbitrary: p)
  case (Cons a ns)
  show ?case
  proof (cases "ns = []")
    case True
    with Cons.prems show ?thesis by auto
  next
    case False
    then have "last ns \<noteq> a" using Cons.prems(3) last_in_set by fastforce
    with False Cons show ?thesis by auto
  qed
qed simp

text \<open>The nodes met on the way, at most \<open>i\<close> of them.\<close>

fun list_walk :: "(nat \<Rightarrow> nat option) \<Rightarrow> nat option \<Rightarrow> nat \<Rightarrow> nat list" where
  "list_walk nx p 0 = []"
| "list_walk nx p (Suc i) = (case p of None \<Rightarrow> [] | Some n \<Rightarrow> n # list_walk nx (nx n) i)"

lemma list_walk_chain: "list_chain nx p ns \<Longrightarrow> list_walk nx p (length ns) = ns"
  by (induction ns arbitrary: p) auto

section \<open>Machine words\<close>

lemma bit_push_bit_1 [simp]:
  "bit (2 ^ p :: 'a::len word) i \<longleftrightarrow> i = p \<and> p < LENGTH('a)"
  by (auto simp: bit_exp_iff)

lemma word_mask_set_get:
  fixes v s m :: "'a::len word"
  assumes "v AND m = v"
  shows "(v OR (s AND NOT m)) AND m = v"
proof -
  have "(v OR (s AND NOT m)) AND m = v AND m"
    by (rule bit_eqI) (auto simp: bit_simps)
  with assms show ?thesis by simp
qed

text \<open>Subtraction of two values held in 32 bits, wrapping as \<^verbatim>\<open>rt_uint32_t\<close> does.\<close>

definition sub32 :: "nat \<Rightarrow> nat \<Rightarrow> nat" where
  "sub32 a b = (a + 2 ^ 32 - b mod 2 ^ 32) mod 2 ^ 32"

lemma sub32_exact [simp]: "b \<le> a \<Longrightarrow> a < 2 ^ 32 \<Longrightarrow> sub32 a b = a - b"
proof -
  assume *: "b \<le> a" "a < 2 ^ 32"
  then have "a + 2 ^ 32 - b mod 2 ^ 32 = (a - b) + 2 ^ 32" by simp
  then have "sub32 a b = ((a - b) + 2 ^ 32) mod 2 ^ 32" by (simp only: sub32_def)
  also have "\<dots> = (a - b) mod 2 ^ 32" by (rule mod_add_self2)
  finally show ?thesis using * by simp
qed

lemma sub32_less [simp]: "sub32 a b < 2 ^ 32"
  by (simp add: sub32_def)

text \<open>\<^verbatim>\<open>RT_ALIGN(size, 4)\<close> and \<^verbatim>\<open>RT_ALIGN_DOWN(size, 4)\<close> on a 32-bit value.\<close>

definition rt_align4 :: "u32 \<Rightarrow> u32" where
  "rt_align4 n = (n + 3) AND NOT 3"

definition rt_align4_down :: "u32 \<Rightarrow> u32" where
  "rt_align4_down n = n AND NOT 3"

lemma word_and_not_3: "w AND NOT 3 = drop_bit 2 w * (4 :: u32)"
proof -
  have s: "Suc (Suc (n - 2)) = n" if "2 \<le> n" for n using that by simp
  have "w AND NOT (mask 2) = push_bit 2 (drop_bit 2 w)"
    by (rule bit_eqI) (auto simp: bit_simps not_less s)
  moreover have "push_bit 2 v = v * 4" for v :: u32 by (simp add: push_bit_eq_mult)
  moreover have "mask 2 = (3 :: u32)" by (simp add: mask_eq_exp_minus_1)
  ultimately show ?thesis by simp
qed

lemma unat_and_not_3: "unat (w AND NOT 3 :: u32) = unat w div 4 * 4"
proof -
  have d: "unat (drop_bit 2 w) = unat w div 4" by (simp only: unat_drop_bit_eq) (simp add: drop_bit_eq_div)
  have "unat w < 2 ^ 32" using unsigned_less [of w] by simp
  then have "unat (drop_bit 2 w) * unat (4 :: u32) < 2 ^ LENGTH(32)" by (simp add: d)
  then have "unat (drop_bit 2 w * 4) = unat (drop_bit 2 w) * unat (4 :: u32)"
    by (rule unat_mult_lem [THEN iffD1])
  then show ?thesis unfolding word_and_not_3 by (simp only: d) simp
qed

lemma unat_add_3:
  assumes "n \<le> (0xfffffffc :: u32)"
  shows "unat (n + 3) = unat n + 3"
proof -
  have "unat n \<le> 0xfffffffc" using assms by (simp add: word_le_nat_alt)
  then show ?thesis by (simp add: unat_word_ariths)
qed

lemma unat_align4:
  assumes "n \<le> 0xfffffffc"
  shows "unat (rt_align4 n) = (unat n + 3) div 4 * 4" "unat n \<le> unat (rt_align4 n)"
    "unat (rt_align4 n) < unat n + 4" "unat (rt_align4 n) mod 4 = 0"
proof -
  show e: "unat (rt_align4 n) = (unat n + 3) div 4 * 4"
    unfolding rt_align4_def by (simp only: unat_and_not_3 unat_add_3 [OF assms])
  show "unat n \<le> unat (rt_align4 n)" "unat (rt_align4 n) < unat n + 4" unfolding e by linarith+
  show "unat (rt_align4 n) mod 4 = 0" unfolding e by (rule mod_mult_self2_is_0)
qed

lemma unat_align4_down:
  "unat (rt_align4_down n) = unat n div 4 * 4" "unat (rt_align4_down n) \<le> unat n"
  "unat (rt_align4_down n) mod 4 = 0"
proof -
  show e: "unat (rt_align4_down n) = unat n div 4 * 4"
    unfolding rt_align4_down_def by (rule unat_and_not_3)
  show "unat (rt_align4_down n) \<le> unat n" "unat (rt_align4_down n) mod 4 = 0" unfolding e by simp_all
qed

end
