(* ===== verification/Rtt_Kernel.thy ===== *)
theory Rtt_Kernel
  imports Rtt_Prelude
begin

unbundle bit_operations_syntax

text \<open>
  The kernel's data: the structures of \<^verbatim>\<open>include/rtdef.h\<close> and the static variables of
  \<^verbatim>\<open>scheduler.c\<close>, \<^verbatim>\<open>clock.c\<close>, \<^verbatim>\<open>irq.c\<close>, \<^verbatim>\<open>timer.c\<close> and \<^verbatim>\<open>idle.c\<close>, as one state record.
  An object of the C (a thread, a semaphore, ...) is named by a number that stands for its
  address; the record maps each name to the structure stored there. An intrusive list of the C
  is the list of the names of its nodes, head first. A thread's \<^verbatim>\<open>tlist\<close> node is linked into one list at a time: the ready list of its
  priority, the suspend list of one IPC object, or the defunct list.
\<close>

type_synonym tid = nat

section \<open>Threads\<close>

abbreviation "RT_THREAD_PRIORITY_MAX \<equiv> (32 :: nat)"

definition RT_THREAD_INIT :: u8 where "RT_THREAD_INIT = 0x00"
definition RT_THREAD_READY :: u8 where "RT_THREAD_READY = 0x01"
definition RT_THREAD_SUSPEND :: u8 where "RT_THREAD_SUSPEND = 0x02"
definition RT_THREAD_RUNNING :: u8 where "RT_THREAD_RUNNING = 0x03"
definition RT_THREAD_CLOSE :: u8 where "RT_THREAD_CLOSE = 0x04"
definition RT_THREAD_STAT_MASK :: u8 where "RT_THREAD_STAT_MASK = 0x07"
definition RT_THREAD_STAT_YIELD :: u8 where "RT_THREAD_STAT_YIELD = 0x08"
definition RT_THREAD_STAT_SIGNAL_PENDING :: u8 where "RT_THREAD_STAT_SIGNAL_PENDING = 0x40"

lemmas stat_defs = RT_THREAD_INIT_def RT_THREAD_READY_def RT_THREAD_SUSPEND_def
  RT_THREAD_RUNNING_def RT_THREAD_CLOSE_def RT_THREAD_STAT_MASK_def RT_THREAD_STAT_YIELD_def
  RT_THREAD_STAT_SIGNAL_PENDING_def

record thread =
  stat :: u8
  current_priority :: nat
  number_mask :: u32
  error :: rt_err
  event_set :: u32
  event_info :: u8
  init_tick :: u32
  remaining_tick :: u32
  stack_addr :: u32
  stack_size :: u32
  sp :: u32
  stack_guard :: u8
  static_object :: bool

section \<open>Timers\<close>

text \<open>A timer is the one built into a thread or one of its own (\<^verbatim>\<open>rt_timer_init\<close>).\<close>

datatype timer_id = ThreadTimer tid | UserTimer nat

record timer =
  tm_flag :: u8
  tm_init_tick :: u32
  tm_timeout_tick :: u32
  tm_static :: bool

section \<open>IPC objects\<close>

text \<open>
  The suspend lists of the kernel's objects; \<open>PoolWait\<close> is a memory pool's, and the last three are
  those of the driver framework's completions and data queues.
\<close>

datatype waitq_id = SemWait nat | MutexWait nat | EventWait nat
  | MbRecvWait nat | MbSendWait nat | MqRecvWait nat | MqSendWait nat | PoolWait nat
  | CompletionWait nat | DqPopWait nat | DqPushWait nat

datatype ipc_flag = RT_IPC_FLAG_FIFO | RT_IPC_FLAG_PRIO

text \<open>
  What the object header says of an IPC object: registered statically by an init function,
  allocated by a create function, or neither (detached, deleted, never initialised). The
  assertions on \<^verbatim>\<open>rt_object_get_type\<close> and \<^verbatim>\<open>rt_object_is_systemobject\<close> read it.
\<close>

datatype obj_state = Obj_static | Obj_dynamic | Obj_none

record semaphore =
  sem_object :: obj_state
  sem_flag :: ipc_flag
  sem_value :: u16

record mutex =
  mtx_object :: obj_state
  mtx_value :: u16
  mtx_original_priority :: nat
  mtx_hold :: u8
  mtx_owner :: "tid option"

record event =
  ev_object :: obj_state
  ev_flag :: ipc_flag
  ev_set :: u32

text \<open>A mailbox: \<open>mb_msg_pool\<close> is the array of \<^verbatim>\<open>rt_ubase_t\<close> messages.\<close>

record mailbox =
  mb_object :: obj_state
  mb_flag :: ipc_flag
  mb_msg_pool :: "u32 list"
  mb_size :: nat
  mb_entry :: nat
  mb_in_offset :: nat
  mb_out_offset :: nat

text \<open>
  A message queue: message nodes are named by their index in the pool; \<open>mq_next\<close> holds the
  \<^verbatim>\<open>next\<close> pointers of \<^verbatim>\<open>struct rt_mq_message\<close> and \<open>mq_data\<close> the bytes after each header.
\<close>

record msgqueue =
  mq_object :: obj_state
  mq_flag :: ipc_flag
  mq_msg_size :: nat
  mq_max_msgs :: nat
  mq_entry :: nat
  mq_head :: "nat option"
  mq_tail :: "nat option"
  mq_free :: "nat option"
  mq_next :: "nat \<Rightarrow> nat option"
  mq_data :: "nat \<Rightarrow> u8 list"

text \<open>
  A memory pool: blocks are named by their index; \<open>mp_word\<close> is the pointer-sized word in front of
  each block, which links a free block to the next one and names the pool of an allocated one.
\<close>

datatype mp_word = Mp_next "nat option" | Mp_owner nat

record mempool =
  mp_object :: obj_state
  mp_start_address :: u32
  mp_pool_size :: u32
  mp_block_size :: u32
  mp_block_total_count :: nat
  mp_block_free_count :: nat
  mp_block_list :: "nat option"
  mp_words :: "nat \<Rightarrow> mp_word"

section \<open>Objects of the driver framework\<close>

text \<open>
  The structures of \<^verbatim>\<open>components/drivers/include/ipc\<close>. A completion is its flag. A data queue is an
  array of pairs of a pointer and a length with the two indices, which are bit fields of 15 bits.
\<close>

record data_queue =
  dq_magic :: u32
  dq_size :: nat
  dq_lwm :: nat
  dq_get_index :: nat
  dq_is_empty :: bool
  dq_put_index :: nat
  dq_is_full :: bool
  dq_queue :: "(u32 \<times> u32) list"

text \<open>
  A wait queue is a list of nodes, each with the thread to wake and a function that says, by 0, that
  the key wakes it. A node is named by its address.
\<close>

record wqueue_node =
  wn_polling_thread :: tid
  wn_wakeup :: "u32 \<Rightarrow> int"

record wqueue =
  wq_flag :: u32
  wq_waiting_list :: "nat list"

text \<open>A work queue and a work item; the item's timer is the \<open>UserTimer\<close> of the same name.\<close>

record work =
  wk_flags :: u16
  wk_workqueue :: "nat option"

record workqueue =
  wkq_work_list :: "nat list"
  wkq_delayed_list :: "nat list"
  wkq_work_current :: "nat option"
  wkq_sem :: nat
  wkq_work_thread :: tid

record devstore =
  completions :: "nat \<Rightarrow> u32"
  dataqueues :: "nat \<Rightarrow> data_queue"
  wqueues :: "nat \<Rightarrow> wqueue"
  wqnodes :: "nat \<Rightarrow> wqueue_node"
  works :: "nat \<Rightarrow> work"
  workqueues :: "nat \<Rightarrow> workqueue"

section \<open>The kernel state\<close>

record kernel =
  rt_tick :: u32
  rt_current_thread :: "tid option"
  rt_current_priority :: nat
  rt_scheduler_lock_nest :: u16
  rt_interrupt_nest :: u8
  rt_thread_priority_table :: "nat \<Rightarrow> tid list"
  rt_thread_ready_priority_group :: u32
  threads :: "tid \<Rightarrow> thread"
  timers :: "timer_id \<Rightarrow> timer"
  timer_list :: "timer_id list"
  timer_tmp :: "timer_id list"
  waitq :: "waitq_id \<Rightarrow> tid list"
  rt_thread_defunct :: "tid list"
  sems :: "nat \<Rightarrow> semaphore"
  mutexes :: "nat \<Rightarrow> mutex"
  events :: "nat \<Rightarrow> event"
  mailboxes :: "nat \<Rightarrow> mailbox"
  msgqueues :: "nat \<Rightarrow> msgqueue"
  mempools :: "nat \<Rightarrow> mempool"
  devs :: devstore

abbreviation "ready_list \<equiv> rt_thread_priority_table"
abbreviation "ready_group \<equiv> rt_thread_ready_priority_group"

definition upd_thread :: "tid \<Rightarrow> (thread \<Rightarrow> thread) \<Rightarrow> kernel \<Rightarrow> kernel" where
  "upd_thread t f k = k\<lparr>threads := (threads k)(t := f (threads k t))\<rparr>"

definition thread_stat :: "kernel \<Rightarrow> tid \<Rightarrow> u8" where
  "thread_stat k t = stat (threads k t) AND RT_THREAD_STAT_MASK"

definition thread_prio :: "kernel \<Rightarrow> tid \<Rightarrow> nat" where
  "thread_prio k t = current_priority (threads k t)"

text \<open>\<open>x->stat = st | (x->stat & ~RT_THREAD_STAT_MASK)\<close>\<close>

definition set_stat :: "u8 \<Rightarrow> thread \<Rightarrow> thread" where
  "set_stat st x = x\<lparr>stat := st OR (stat x AND NOT RT_THREAD_STAT_MASK)\<rparr>"

text \<open>\<^verbatim>\<open>rt_list_remove(&thread->tlist)\<close>: unlinks the node from the list it is in, if any.\<close>

definition tlist_remove :: "tid \<Rightarrow> kernel \<Rightarrow> kernel" where
  "tlist_remove t k = k\<lparr>rt_thread_priority_table := (\<lambda>p. removeAll t (ready_list k p)),
      waitq := (\<lambda>q. removeAll t (waitq k q)),
      rt_thread_defunct := removeAll t (rt_thread_defunct k)\<rparr>"

text \<open>\<^verbatim>\<open>rt_thread_self\<close> is a read of \<^verbatim>\<open>rt_current_thread\<close>.\<close>

definition rt_thread_self :: "kernel \<Rightarrow> tid option" where
  "rt_thread_self k = rt_current_thread k"

text \<open>
  A call that can block ends at its \<^verbatim>\<open>rt_schedule\<close>: \<open>Waiting f\<close> means that the caller has been put
  to sleep with the local variables \<open>f\<close>. The code after that \<^verbatim>\<open>rt_schedule\<close>, which the thread runs
  when it is the running one again, is a definition of its own, named \<open>..._resume\<close>.
\<close>

datatype ('f, 'a) outcome = Returned 'a | Waiting 'f

section \<open>Context checks (rtdebug.h)\<close>

definition rt_interrupt_get_nest :: "kernel \<Rightarrow> u8" where
  "rt_interrupt_get_nest k = rt_interrupt_nest k"

definition rt_interrupt_enter :: "kernel \<Rightarrow> kernel" where
  "rt_interrupt_enter k = k\<lparr>rt_interrupt_nest := rt_interrupt_nest k + 1\<rparr>"

definition rt_interrupt_leave :: "kernel \<Rightarrow> kernel" where
  "rt_interrupt_leave k = k\<lparr>rt_interrupt_nest := rt_interrupt_nest k - 1\<rparr>"

definition rt_critical_level :: "kernel \<Rightarrow> u16" where
  "rt_critical_level k = rt_scheduler_lock_nest k"

definition debug_not_in_interrupt :: "kernel \<Rightarrow> unit option" where
  "debug_not_in_interrupt k = rt_assert (rt_interrupt_get_nest k = 0)"

definition debug_in_thread_context :: "kernel \<Rightarrow> unit option" where
  "debug_in_thread_context k =
     do { rt_assert (rt_thread_self k \<noteq> None); debug_not_in_interrupt k }"

definition debug_scheduler_available :: "bool \<Rightarrow> kernel \<Rightarrow> unit option" where
  "debug_scheduler_available need_check k =
     (if need_check
      then do { rt_assert (rt_critical_level k = 0); debug_in_thread_context k }
      else Some ())"

lemmas debug_defs = debug_not_in_interrupt_def debug_in_thread_context_def
  debug_scheduler_available_def rt_interrupt_get_nest_def rt_critical_level_def rt_thread_self_def

section \<open>Basic facts\<close>

lemma stat_consts_distinct [simp]:
  "RT_THREAD_INIT \<noteq> RT_THREAD_READY" "RT_THREAD_INIT \<noteq> RT_THREAD_SUSPEND"
  "RT_THREAD_INIT \<noteq> RT_THREAD_RUNNING" "RT_THREAD_INIT \<noteq> RT_THREAD_CLOSE"
  "RT_THREAD_READY \<noteq> RT_THREAD_INIT" "RT_THREAD_READY \<noteq> RT_THREAD_SUSPEND"
  "RT_THREAD_READY \<noteq> RT_THREAD_RUNNING" "RT_THREAD_READY \<noteq> RT_THREAD_CLOSE"
  "RT_THREAD_SUSPEND \<noteq> RT_THREAD_INIT" "RT_THREAD_SUSPEND \<noteq> RT_THREAD_READY"
  "RT_THREAD_SUSPEND \<noteq> RT_THREAD_RUNNING" "RT_THREAD_SUSPEND \<noteq> RT_THREAD_CLOSE"
  "RT_THREAD_RUNNING \<noteq> RT_THREAD_INIT" "RT_THREAD_RUNNING \<noteq> RT_THREAD_READY"
  "RT_THREAD_RUNNING \<noteq> RT_THREAD_SUSPEND" "RT_THREAD_RUNNING \<noteq> RT_THREAD_CLOSE"
  "RT_THREAD_CLOSE \<noteq> RT_THREAD_INIT" "RT_THREAD_CLOSE \<noteq> RT_THREAD_READY"
  "RT_THREAD_CLOSE \<noteq> RT_THREAD_SUSPEND" "RT_THREAD_CLOSE \<noteq> RT_THREAD_RUNNING"
  by (simp_all add: stat_defs)

lemma stat_consts_masked [simp]:
  "RT_THREAD_INIT AND RT_THREAD_STAT_MASK = RT_THREAD_INIT"
  "RT_THREAD_READY AND RT_THREAD_STAT_MASK = RT_THREAD_READY"
  "RT_THREAD_SUSPEND AND RT_THREAD_STAT_MASK = RT_THREAD_SUSPEND"
  "RT_THREAD_RUNNING AND RT_THREAD_STAT_MASK = RT_THREAD_RUNNING"
  "RT_THREAD_CLOSE AND RT_THREAD_STAT_MASK = RT_THREAD_CLOSE"
  by (simp_all add: stat_defs)

lemma stat_set_stat [simp]:
  assumes "st AND RT_THREAD_STAT_MASK = st"
  shows "stat (set_stat st x) AND RT_THREAD_STAT_MASK = st"
  using word_mask_set_get [OF assms] by (simp add: set_stat_def)

lemma set_stat_fields [simp]:
  "current_priority (set_stat st x) = current_priority x"
  "number_mask (set_stat st x) = number_mask x"
  "error (set_stat st x) = error x"
  "event_set (set_stat st x) = event_set x"
  "event_info (set_stat st x) = event_info x"
  "init_tick (set_stat st x) = init_tick x"
  "remaining_tick (set_stat st x) = remaining_tick x"
  "stack_addr (set_stat st x) = stack_addr x"
  "stack_size (set_stat st x) = stack_size x"
  "sp (set_stat st x) = sp x"
  "stack_guard (set_stat st x) = stack_guard x"
  "static_object (set_stat st x) = static_object x"
  by (simp_all add: set_stat_def)

lemma yield_bit_off_stat [simp]:
  "(s AND NOT RT_THREAD_STAT_YIELD) AND RT_THREAD_STAT_MASK = s AND RT_THREAD_STAT_MASK"
proof -
  have "NOT RT_THREAD_STAT_YIELD AND RT_THREAD_STAT_MASK = RT_THREAD_STAT_MASK"
    by (simp add: stat_defs)
  then show ?thesis by (metis and.assoc)
qed

lemma yield_bit_on_stat [simp]:
  "(s OR RT_THREAD_STAT_YIELD) AND RT_THREAD_STAT_MASK = s AND RT_THREAD_STAT_MASK"
proof -
  have "RT_THREAD_STAT_YIELD AND RT_THREAD_STAT_MASK = 0"
    by (simp add: stat_defs)
  then show ?thesis by (simp add: bit.conj_disj_distrib2)
qed

lemma threads_upd_thread [simp]:
  "threads (upd_thread t f k) t' = (if t' = t then f (threads k t) else threads k t')"
  by (simp add: upd_thread_def)

lemma upd_thread_frame [simp]:
  "rt_tick (upd_thread t f k) = rt_tick k"
  "rt_current_thread (upd_thread t f k) = rt_current_thread k"
  "rt_current_priority (upd_thread t f k) = rt_current_priority k"
  "rt_scheduler_lock_nest (upd_thread t f k) = rt_scheduler_lock_nest k"
  "rt_interrupt_nest (upd_thread t f k) = rt_interrupt_nest k"
  "ready_list (upd_thread t f k) = ready_list k"
  "ready_group (upd_thread t f k) = ready_group k"
  "timers (upd_thread t f k) = timers k"
  "timer_list (upd_thread t f k) = timer_list k"
  "timer_tmp (upd_thread t f k) = timer_tmp k"
  "waitq (upd_thread t f k) = waitq k"
  "rt_thread_defunct (upd_thread t f k) = rt_thread_defunct k"
  "sems (upd_thread t f k) = sems k"
  "mutexes (upd_thread t f k) = mutexes k"
  "events (upd_thread t f k) = events k"
  "mailboxes (upd_thread t f k) = mailboxes k"
  "msgqueues (upd_thread t f k) = msgqueues k"
  "mempools (upd_thread t f k) = mempools k"
  "devs (upd_thread t f k) = devs k"
  by (simp_all add: upd_thread_def)

lemma tlist_remove_frame [simp]:
  "rt_tick (tlist_remove t k) = rt_tick k"
  "rt_current_thread (tlist_remove t k) = rt_current_thread k"
  "rt_current_priority (tlist_remove t k) = rt_current_priority k"
  "rt_scheduler_lock_nest (tlist_remove t k) = rt_scheduler_lock_nest k"
  "rt_interrupt_nest (tlist_remove t k) = rt_interrupt_nest k"
  "ready_list (tlist_remove t k) p = removeAll t (ready_list k p)"
  "ready_group (tlist_remove t k) = ready_group k"
  "threads (tlist_remove t k) = threads k"
  "timers (tlist_remove t k) = timers k"
  "timer_list (tlist_remove t k) = timer_list k"
  "timer_tmp (tlist_remove t k) = timer_tmp k"
  "waitq (tlist_remove t k) q = removeAll t (waitq k q)"
  "rt_thread_defunct (tlist_remove t k) = removeAll t (rt_thread_defunct k)"
  "sems (tlist_remove t k) = sems k"
  "mutexes (tlist_remove t k) = mutexes k"
  "events (tlist_remove t k) = events k"
  "mailboxes (tlist_remove t k) = mailboxes k"
  "msgqueues (tlist_remove t k) = msgqueues k"
  "mempools (tlist_remove t k) = mempools k"
  "devs (tlist_remove t k) = devs k"
  by (simp_all add: tlist_remove_def)

lemma thread_stat_upd [simp]:
  "thread_stat (upd_thread t f k) t' =
     (if t' = t then stat (f (threads k t)) AND RT_THREAD_STAT_MASK else thread_stat k t')"
  by (simp add: thread_stat_def)

lemma thread_prio_upd [simp]:
  "thread_prio (upd_thread t f k) t' =
     (if t' = t then current_priority (f (threads k t)) else thread_prio k t')"
  by (simp add: thread_prio_def)

lemma thread_stat_tlist_remove [simp]: "thread_stat (tlist_remove t k) = thread_stat k"
  by (simp add: thread_stat_def fun_eq_iff)

lemma thread_prio_tlist_remove [simp]: "thread_prio (tlist_remove t k) = thread_prio k"
  by (simp add: thread_prio_def fun_eq_iff)

end
