(* ===== verification/Rtt_Ffs.thy ===== *)
theory Rtt_Ffs
  imports Rtt_Prelude
begin

unbundle bit_operations_syntax

text \<open>
  \<^verbatim>\<open>__rt_ffs\<close> of \<^verbatim>\<open>src/kservice.c\<close> (the variant without \<^verbatim>\<open>RT_USING_TINY_FFS\<close>): the index, counted
  from 1, of the lowest bit set in a 32-bit value, looked up byte by byte in a table. The
  scheduler finds the highest ready priority with it. The lemmas show that the table is right at
  each of its 256 entries and that the four byte cases together find the lowest bit.
\<close>

definition lowest_bit_bitmap :: "nat list" where
  "lowest_bit_bitmap = [
    0, 0, 1, 0, 2, 0, 1, 0, 3, 0, 1, 0, 2, 0, 1, 0,
    4, 0, 1, 0, 2, 0, 1, 0, 3, 0, 1, 0, 2, 0, 1, 0,
    5, 0, 1, 0, 2, 0, 1, 0, 3, 0, 1, 0, 2, 0, 1, 0,
    4, 0, 1, 0, 2, 0, 1, 0, 3, 0, 1, 0, 2, 0, 1, 0,
    6, 0, 1, 0, 2, 0, 1, 0, 3, 0, 1, 0, 2, 0, 1, 0,
    4, 0, 1, 0, 2, 0, 1, 0, 3, 0, 1, 0, 2, 0, 1, 0,
    5, 0, 1, 0, 2, 0, 1, 0, 3, 0, 1, 0, 2, 0, 1, 0,
    4, 0, 1, 0, 2, 0, 1, 0, 3, 0, 1, 0, 2, 0, 1, 0,
    7, 0, 1, 0, 2, 0, 1, 0, 3, 0, 1, 0, 2, 0, 1, 0,
    4, 0, 1, 0, 2, 0, 1, 0, 3, 0, 1, 0, 2, 0, 1, 0,
    5, 0, 1, 0, 2, 0, 1, 0, 3, 0, 1, 0, 2, 0, 1, 0,
    4, 0, 1, 0, 2, 0, 1, 0, 3, 0, 1, 0, 2, 0, 1, 0,
    6, 0, 1, 0, 2, 0, 1, 0, 3, 0, 1, 0, 2, 0, 1, 0,
    4, 0, 1, 0, 2, 0, 1, 0, 3, 0, 1, 0, 2, 0, 1, 0,
    5, 0, 1, 0, 2, 0, 1, 0, 3, 0, 1, 0, 2, 0, 1, 0,
    4, 0, 1, 0, 2, 0, 1, 0, 3, 0, 1, 0, 2, 0, 1, 0
  ]"

definition rt_ffs :: "u32 \<Rightarrow> nat" where
  "rt_ffs value =
     (if value = 0 then 0
      else if value AND 0xff \<noteq> 0
        then lowest_bit_bitmap ! unat (value AND 0xff) + 1
      else if value AND 0xff00 \<noteq> 0
        then lowest_bit_bitmap ! unat (drop_bit 8 (value AND 0xff00)) + 9
      else if value AND 0xff0000 \<noteq> 0
        then lowest_bit_bitmap ! unat (drop_bit 16 (value AND 0xff0000)) + 17
      else lowest_bit_bitmap ! unat (drop_bit 24 (value AND 0xff000000)) + 25)"

text \<open>\<open>lowest_bit_at x n\<close>: bit \<open>n\<close> is set in \<open>x\<close> and no bit below it is.\<close>

definition lowest_bit_at :: "u32 \<Rightarrow> nat \<Rightarrow> bool" where
  "lowest_bit_at x n \<longleftrightarrow> bit x n \<and> (\<forall>i<n. \<not> bit x i)"

fun nat_low_bit :: "nat \<Rightarrow> nat \<Rightarrow> bool" where
  "nat_low_bit n 0 = odd n"
| "nat_low_bit n (Suc i) = (even n \<and> nat_low_bit (n div 2) i)"

lemma nat_low_bit_iff: "nat_low_bit n i \<longleftrightarrow> bit n i \<and> (\<forall>j<i. \<not> bit n j)"
proof (induction i arbitrary: n)
  case 0
  then show ?case by (simp add: bit_0)
next
  case (Suc i)
  have "(\<forall>j<Suc i. \<not> bit n j) \<longleftrightarrow> even n \<and> (\<forall>j<i. \<not> bit n (Suc j))"
    by (auto simp: bit_0 less_Suc_eq_0_disj)
  with Suc show ?case by (auto simp: bit_Suc)
qed

lemma lowest_bit_bitmap_check:
  "list_all (\<lambda>n. nat_low_bit n (lowest_bit_bitmap ! n) \<and> lowest_bit_bitmap ! n < 8) [1..<256]"
  unfolding lowest_bit_bitmap_def by code_simp

lemma lowest_bit_bitmap_spec:
  assumes "0 < n" and "n < 256"
  shows "bit n (lowest_bit_bitmap ! n)" and "i < lowest_bit_bitmap ! n \<Longrightarrow> \<not> bit n i"
    and "lowest_bit_bitmap ! n < 8"
  using lowest_bit_bitmap_check assms by (auto simp: list_all_iff nat_low_bit_iff)

text \<open>One byte of the value, at bit offset \<open>8 * b\<close>, with every lower byte zero.\<close>

lemma byte_lowest_bit:
  fixes v :: u32
  assumes byte: "\<And>i. bit (w :: u32) i \<longleftrightarrow> i < 8 \<and> bit v (i + off)"
    and nz: "w \<noteq> 0" and off: "off + 8 \<le> 32" and low: "\<And>i. i < off \<Longrightarrow> \<not> bit v i"
  shows "lowest_bit_at v (lowest_bit_bitmap ! unat w + off)"
proof -
  have w: "bit w i = bit (unat w) i" for i
    by (simp add: bit_unsigned_iff)
  have "take_bit 8 w = w"
    by (rule bit_eqI) (auto simp: bit_take_bit_iff byte)
  then have "unat w = take_bit 8 (unat w)" by (metis unsigned_take_bit_eq)
  also have "\<dots> < 2 ^ 8" by (rule take_bit_nat_less_exp)
  finally have lt: "unat w < 256" by simp
  have pos: "0 < unat w" using nz by (simp add: unat_gt_0)
  note spec = lowest_bit_bitmap_spec [OF pos lt]
  let ?n = "lowest_bit_bitmap ! unat w"
  have "bit v (?n + off)" using spec(1) byte w by blast
  moreover have "\<not> bit v i" if "i < ?n + off" for i
  proof (cases "i < off")
    case True
    then show ?thesis by (rule low)
  next
    case False
    then obtain j where j: "i = j + off" by (metis le_add_diff_inverse2 not_less)
    with that have "j < ?n" by simp
    with spec(2,3) have "\<not> bit w j" "j < 8" by (auto simp: w)
    with byte j show ?thesis by blast
  qed
  ultimately show ?thesis by (simp add: lowest_bit_at_def)
qed


text \<open>
  Correctness of \<^verbatim>\<open>__rt_ffs\<close>: zero for zero, and otherwise one more than the index of the lowest
  set bit, whichever of the four bytes it lies in.
\<close>

lemma rt_ffs_zero [simp]: "rt_ffs 0 = 0"
  by (simp add: rt_ffs_def)

text \<open>The four bytes, each the mask of eight bits pushed to its offset.\<close>

lemma byte_masks:
  "push_bit 0 (mask 8) = (0xff :: u32)" "push_bit 8 (mask 8) = (0xff00 :: u32)"
  "push_bit 16 (mask 8) = (0xff0000 :: u32)" "push_bit 24 (mask 8) = (0xff000000 :: u32)"
  by (simp_all add: mask_eq_exp_minus_1)

lemma byte_at:
  "off + 8 \<le> 32 \<Longrightarrow>
     bit (drop_bit off (v AND push_bit off (mask 8)) :: u32) i \<longleftrightarrow> i < 8 \<and> bit v (i + off)"
  by (auto simp: bit_and_iff bit_push_bit_iff bit_mask_iff bit_drop_bit_eq add.commute)

lemma byte_bit:
  "off + 8 \<le> 32 \<Longrightarrow>
     bit (v AND push_bit off (mask 8) :: u32) i \<longleftrightarrow> off \<le> i \<and> i < off + 8 \<and> bit v i"
  by (auto simp: bit_and_iff bit_push_bit_iff bit_mask_iff)

lemma byte_zero:
  assumes "v AND push_bit off (mask 8) = (0 :: u32)" "off \<le> i" "i < off + 8" "off + 8 \<le> 32"
  shows "\<not> bit v i"
  using byte_bit [OF assms(4), of v i] assms by simp

lemma drop_byte_nonzero:
  assumes nz: "v AND push_bit off (mask 8) \<noteq> (0 :: u32)" and off: "off + 8 \<le> 32"
  shows "drop_bit off (v AND push_bit off (mask 8)) \<noteq> 0"
proof -
  obtain i where "bit (v AND push_bit off (mask 8)) i"
    using nz by (auto simp: bit_eq_iff)
  then have "bit (drop_bit off (v AND push_bit off (mask 8))) (i - off)"
    using byte_at [OF off, of v "i - off"] byte_bit [OF off, of v i] by auto
  then show ?thesis by auto
qed

lemma byte_index:
  assumes "v AND push_bit off (mask 8) \<noteq> (0 :: u32)" "off + 8 \<le> 32"
    and "\<And>i. i < off \<Longrightarrow> \<not> bit v i"
  shows "lowest_bit_at v
    (lowest_bit_bitmap ! unat (drop_bit off (v AND push_bit off (mask 8))) + off)"
  by (rule byte_lowest_bit [OF byte_at [OF assms(2)] drop_byte_nonzero [OF assms(1,2)] assms(2,3)])

lemma low_byte_clear:
  fixes v :: u32
  shows "v AND 0xff = 0 \<Longrightarrow> i < 8 \<Longrightarrow> \<not> bit v i"
    and "v AND 0xff00 = 0 \<Longrightarrow> 8 \<le> i \<Longrightarrow> i < 16 \<Longrightarrow> \<not> bit v i"
    and "v AND 0xff0000 = 0 \<Longrightarrow> 16 \<le> i \<Longrightarrow> i < 24 \<Longrightarrow> \<not> bit v i"
    and "v AND 0xff000000 = 0 \<Longrightarrow> 24 \<le> i \<Longrightarrow> \<not> bit v i"
  using byte_zero [of v 0 i] byte_zero [of v 8 i] byte_zero [of v 16 i] byte_zero [of v 24 i]
    bit_imp_le_length [of v i]
  unfolding byte_masks by auto

lemma rt_ffs_lowest_bit:
  assumes "v \<noteq> 0"
  shows "0 < rt_ffs v \<and> lowest_bit_at v (rt_ffs v - 1)"
proof -
  note idx = byte_index [of v 0, unfolded byte_masks] byte_index [of v 8, unfolded byte_masks]
    byte_index [of v 16, unfolded byte_masks] byte_index [of v 24, unfolded byte_masks]
  note clr = low_byte_clear [of v]
  consider "v AND 0xff \<noteq> 0" | "v AND 0xff = 0" "v AND 0xff00 \<noteq> 0"
    | "v AND 0xff = 0" "v AND 0xff00 = 0" "v AND 0xff0000 \<noteq> 0"
    | "v AND 0xff = 0" "v AND 0xff00 = 0" "v AND 0xff0000 = 0" "v AND 0xff000000 \<noteq> 0"
    | "v AND 0xff = 0" "v AND 0xff00 = 0" "v AND 0xff0000 = 0" "v AND 0xff000000 = 0"
    by blast
  then show ?thesis
  proof cases
    case 1
    then show ?thesis using assms idx(1) by (simp add: rt_ffs_def add.commute)
  next
    case 2
    then have "lowest_bit_at v (lowest_bit_bitmap ! unat (drop_bit 8 (v AND 0xff00)) + 8)"
      using idx(2) clr(1) by simp
    with 2 assms show ?thesis by (simp add: rt_ffs_def add.commute)
  next
    case 3
    then have "\<And>i. i < 16 \<Longrightarrow> \<not> bit v i" using clr(1,2) by (metis not_less)
    with 3 have "lowest_bit_at v (lowest_bit_bitmap ! unat (drop_bit 16 (v AND 0xff0000)) + 16)"
      using idx(3) by simp
    with 3 assms show ?thesis by (simp add: rt_ffs_def add.commute)
  next
    case 4
    then have "\<And>i. i < 24 \<Longrightarrow> \<not> bit v i" using clr(1-3) by (metis not_less)
    with 4 have "lowest_bit_at v (lowest_bit_bitmap ! unat (drop_bit 24 (v AND 0xff000000)) + 24)"
      using idx(4) by simp
    with 4 assms show ?thesis by (simp add: rt_ffs_def add.commute)
  next
    case 5
    then have "\<not> bit v i" for i using clr by (metis not_less)
    then have "v = 0" by (simp add: bit_eq_iff)
    with assms show ?thesis by simp
  qed
qed

lemma lowest_bit_at_unique: "lowest_bit_at v m \<Longrightarrow> lowest_bit_at v n \<Longrightarrow> m = n"
  by (metis lowest_bit_at_def linorder_neqE_nat)

lemma rt_ffs_bit: "v \<noteq> 0 \<Longrightarrow> bit v (rt_ffs v - 1)"
  using rt_ffs_lowest_bit by (auto simp: lowest_bit_at_def)

lemma rt_ffs_least: "bit v p \<Longrightarrow> rt_ffs v - 1 \<le> p"
  by (metis bit_0_eq bot_apply bot_bool_def leI lowest_bit_at_def rt_ffs_lowest_bit)

end
