(* ===== verification/Rtt_Scheduler.thy ===== *)
theory Rtt_Scheduler
  imports Rtt_Kernel Rtt_Ffs
begin

unbundle bit_operations_syntax

text \<open>
  The uniprocessor scheduler, \<^verbatim>\<open>src/scheduler.c\<close> in the configuration of \<^verbatim>\<open>rtconfig.h\<close> (32
  priorities, no \<^verbatim>\<open>RT_USING_SMP\<close>, overflow check on): the ready queue with its priority bitmap,
  the choice of the next thread and the context switch, the scheduler lock. The invariant
  \<open>kinv\<close> ties the bitmap, the ready lists, the suspend lists and the threads' status words
  together; every operation keeps it, and \<^verbatim>\<open>rt_schedule\<close> leaves a most urgent thread running.
\<close>

section \<open>The ready queue\<close>

definition thread_number_mask :: "nat \<Rightarrow> u32" where
  "thread_number_mask p = push_bit p 1"

definition rt_schedule_insert_thread :: "tid \<Rightarrow> kernel \<Rightarrow> kernel" where
  "rt_schedule_insert_thread t k =
     (if rt_current_thread k = Some t
      then upd_thread t (set_stat RT_THREAD_RUNNING) k
      else
        (let k1 = upd_thread t (set_stat RT_THREAD_READY) k;
             p = thread_prio k1 t;
             k2 = k1\<lparr>rt_thread_priority_table := (ready_list k1)(p := ready_list k1 p @ [t])\<rparr>
         in k2\<lparr>rt_thread_ready_priority_group :=
                 ready_group k2 OR number_mask (threads k2 t)\<rparr>))"

definition rt_schedule_remove_thread :: "tid \<Rightarrow> kernel \<Rightarrow> kernel" where
  "rt_schedule_remove_thread t k =
     (let k1 = tlist_remove t k in
      if ready_list k1 (thread_prio k1 t) = []
      then k1\<lparr>rt_thread_ready_priority_group :=
               ready_group k1 AND NOT (number_mask (threads k1 t))\<rparr>
      else k1)"

section \<open>Stack check\<close>

datatype stack_state = Stack_overflow | Stack_near_end | Stack_ok

text \<open>
  \<^verbatim>\<open>_scheduler_stack_check\<close>, stacks growing downward. On overflow the C prints and, interrupts
  being disabled with a non-zero saved level, loops for ever.
\<close>

definition scheduler_stack_check :: "thread \<Rightarrow> stack_state" where
  "scheduler_stack_check x =
     (if stack_guard x \<noteq> 0x23 \<or> sp x \<le> stack_addr x \<or> stack_addr x + stack_size x < sp x
      then Stack_overflow
      else if sp x \<le> stack_addr x + 32 then Stack_near_end else Stack_ok)"

section \<open>Choosing and switching\<close>

text \<open>
  \<^verbatim>\<open>_scheduler_get_highest_priority_thread\<close>: the priority of the lowest bit of the group, and the
  first thread of that list. On an empty list the C takes the list head for a thread; the model
  stops.
\<close>

definition scheduler_get_highest_priority_thread :: "kernel \<Rightarrow> (tid \<times> nat) option" where
  "scheduler_get_highest_priority_thread k =
     (let highest_ready_priority = rt_ffs (ready_group k) - 1 in
      case ready_list k highest_ready_priority of
        [] \<Rightarrow> None
      | t # _ \<Rightarrow> Some (t, highest_ready_priority))"

definition rt_system_scheduler_init :: "kernel \<Rightarrow> kernel" where
  "rt_system_scheduler_init k = k\<lparr>rt_scheduler_lock_nest := 0,
     rt_thread_priority_table := (\<lambda>p. if p < RT_THREAD_PRIORITY_MAX then [] else ready_list k p),
     rt_thread_ready_priority_group := 0\<rparr>"

definition rt_system_scheduler_start :: "kernel \<Rightarrow> kernel option" where
  "rt_system_scheduler_start k = do {
     (to_thread, highest_ready_priority) \<leftarrow> scheduler_get_highest_priority_thread k;
     let k = k\<lparr>rt_current_thread := Some to_thread\<rparr>;
     let k = rt_schedule_remove_thread to_thread k;
     Some (upd_thread to_thread (\<lambda>x. x\<lparr>stat := RT_THREAD_RUNNING\<rparr>) k) }"

definition clear_yield :: "thread \<Rightarrow> thread" where
  "clear_yield x = x\<lparr>stat := stat x AND NOT RT_THREAD_STAT_YIELD\<rparr>"

text \<open>
  The switch part of \<^verbatim>\<open>rt_schedule\<close>: the current thread becomes \<open>to_thread\<close>; the old one goes
  back to the ready queue if it has to.
\<close>

definition schedule_switch :: "tid \<Rightarrow> nat \<Rightarrow> bool \<Rightarrow> tid \<Rightarrow> kernel \<Rightarrow> kernel option" where
  "schedule_switch to_thread highest_ready_priority need_insert_from_thread from_thread k = do {
     let k = k\<lparr>rt_current_priority := highest_ready_priority mod 256,
               rt_current_thread := Some to_thread\<rparr>;
     let k = (if need_insert_from_thread then rt_schedule_insert_thread from_thread k else k);
     let k = rt_schedule_remove_thread to_thread k;
     let k = upd_thread to_thread (set_stat RT_THREAD_RUNNING) k;
     rt_assert (scheduler_stack_check (threads k to_thread) \<noteq> Stack_overflow);
     Some k }"

text \<open>
  \<^verbatim>\<open>rt_schedule\<close>. The state returned is the one at the context switch; what the C runs after it
  belongs to the thread that was switched out and runs when that thread is switched in again.
\<close>

definition rt_schedule :: "kernel \<Rightarrow> kernel option" where
  "rt_schedule k =
     (if rt_scheduler_lock_nest k \<noteq> 0 then Some k
      else if ready_group k = 0 then Some k
      else do {
        (to_thread, highest_ready_priority) \<leftarrow> scheduler_get_highest_priority_thread k;
        cur \<leftarrow> rt_current_thread k;
        let running = (thread_stat k cur = RT_THREAD_RUNNING);
        let stay = (running \<and> (thread_prio k cur < highest_ready_priority
              \<or> thread_prio k cur = highest_ready_priority
                \<and> stat (threads k cur) AND RT_THREAD_STAT_YIELD = 0));
        let to_thread = (if stay then cur else to_thread);
        let need_insert_from_thread = (running \<and> \<not> stay);
        let k = (if running then upd_thread cur clear_yield k else k);
        if to_thread \<noteq> cur
        then schedule_switch to_thread highest_ready_priority need_insert_from_thread cur k
        else Some (upd_thread cur (set_stat RT_THREAD_RUNNING) (rt_schedule_remove_thread cur k)) })"

text \<open>
  The check \<^verbatim>\<open>rt_schedule\<close> makes when a thread is switched in again: a pending signal is
  cleared and \<^verbatim>\<open>rt_thread_handle_sig\<close> (\<^verbatim>\<open>signal.c\<close>) is to be run.
\<close>

definition rt_schedule_signal_check :: "kernel \<Rightarrow> (bool \<times> kernel) option" where
  "rt_schedule_signal_check k = do {
     cur \<leftarrow> rt_current_thread k;
     (if stat (threads k cur) AND RT_THREAD_STAT_SIGNAL_PENDING \<noteq> 0
      then Some (True, upd_thread cur
             (\<lambda>x. x\<lparr>stat := stat x AND NOT RT_THREAD_STAT_SIGNAL_PENDING\<rparr>) k)
      else Some (False, k)) }"

section \<open>The scheduler lock\<close>

definition rt_enter_critical :: "kernel \<Rightarrow> kernel" where
  "rt_enter_critical k = k\<lparr>rt_scheduler_lock_nest := rt_scheduler_lock_nest k + 1\<rparr>"

definition rt_exit_critical :: "kernel \<Rightarrow> kernel option" where
  "rt_exit_critical k =
     (let k = k\<lparr>rt_scheduler_lock_nest := rt_scheduler_lock_nest k - 1\<rparr> in
      if rt_scheduler_lock_nest k \<le>s 0
      then (let k = k\<lparr>rt_scheduler_lock_nest := 0\<rparr> in
            if rt_current_thread k \<noteq> None then rt_schedule k else Some k)
      else Some k)"

section \<open>The kernel invariant\<close>

text \<open>
  \<open>X\<close> is the set of threads an operation has taken off every list and not yet settled. The
  parts: a bit of the group is set where the ready list is not empty; a ready list holds, once,
  each READY thread of its priority; a live thread's \<^verbatim>\<open>number_mask\<close> is that of its priority; a
  thread on a suspend list is SUSPENDed and is on no other; only the current thread is RUNNING,
  and it is never READY; a defunct thread is CLOSEd.
\<close>

definition prio_mask_ok :: "kernel \<Rightarrow> tid \<Rightarrow> bool" where
  "prio_mask_ok k t \<longleftrightarrow> thread_prio k t < RT_THREAD_PRIORITY_MAX
     \<and> number_mask (threads k t) = thread_number_mask (thread_prio k t)"

definition group_inv :: "kernel \<Rightarrow> bool" where
  "group_inv k \<longleftrightarrow> (\<forall>p. bit (ready_group k) p \<longleftrightarrow> ready_list k p \<noteq> [])"

definition ready_inv :: "tid set \<Rightarrow> kernel \<Rightarrow> bool" where
  "ready_inv X k \<longleftrightarrow> (\<forall>p. distinct (ready_list k p)) \<and>
     (\<forall>p t. t \<in> set (ready_list k p)
        \<longleftrightarrow> t \<notin> X \<and> thread_stat k t = RT_THREAD_READY \<and> thread_prio k t = p)"

definition mask_inv :: "tid set \<Rightarrow> kernel \<Rightarrow> bool" where
  "mask_inv X k \<longleftrightarrow>
     (\<forall>t. t \<notin> X \<longrightarrow> thread_stat k t \<noteq> RT_THREAD_INIT \<longrightarrow> thread_stat k t \<noteq> RT_THREAD_CLOSE
        \<longrightarrow> prio_mask_ok k t)"

definition wait_inv :: "tid set \<Rightarrow> kernel \<Rightarrow> bool" where
  "wait_inv X k \<longleftrightarrow> (\<forall>q. distinct (waitq k q)) \<and>
     (\<forall>q t. t \<in> set (waitq k q) \<longrightarrow> t \<notin> X \<and> thread_stat k t = RT_THREAD_SUSPEND) \<and>
     (\<forall>q q' t. t \<in> set (waitq k q) \<longrightarrow> t \<in> set (waitq k q') \<longrightarrow> q = q')"

definition current_inv :: "tid set \<Rightarrow> kernel \<Rightarrow> bool" where
  "current_inv X k \<longleftrightarrow>
     (\<forall>t. t \<notin> X \<longrightarrow> thread_stat k t = RT_THREAD_RUNNING \<longrightarrow> rt_current_thread k = Some t) \<and>
     (\<forall>t. t \<notin> X \<longrightarrow> rt_current_thread k = Some t \<longrightarrow> thread_stat k t \<noteq> RT_THREAD_READY)"

definition defunct_inv :: "tid set \<Rightarrow> kernel \<Rightarrow> bool" where
  "defunct_inv X k \<longleftrightarrow> distinct (rt_thread_defunct k) \<and>
     (\<forall>t\<in>set (rt_thread_defunct k). t \<notin> X \<and> thread_stat k t = RT_THREAD_CLOSE)"

definition queue_inv :: "tid set \<Rightarrow> kernel \<Rightarrow> bool" where
  "queue_inv X k \<longleftrightarrow> group_inv k \<and> ready_inv X k \<and> mask_inv X k \<and> wait_inv X k
     \<and> defunct_inv X k"

definition kinv_except :: "tid set \<Rightarrow> kernel \<Rightarrow> bool" where
  "kinv_except X k \<longleftrightarrow> queue_inv X k \<and> current_inv X k"

abbreviation kinv :: "kernel \<Rightarrow> bool" where
  "kinv \<equiv> kinv_except {}"

lemmas kinv_part_defs = group_inv_def ready_inv_def mask_inv_def wait_inv_def current_inv_def
  defunct_inv_def prio_mask_ok_def

lemma queue_invI [intro?]:
  "group_inv k \<Longrightarrow> ready_inv X k \<Longrightarrow> mask_inv X k \<Longrightarrow> wait_inv X k \<Longrightarrow> defunct_inv X k
    \<Longrightarrow> queue_inv X k"
  by (simp add: queue_inv_def)

lemma queue_invD:
  assumes "queue_inv X k"
  shows "group_inv k" "ready_inv X k" "mask_inv X k" "wait_inv X k" "defunct_inv X k"
  using assms by (simp_all add: queue_inv_def)

lemma kinvI [intro?]: "queue_inv X k \<Longrightarrow> current_inv X k \<Longrightarrow> kinv_except X k"
  by (simp add: kinv_except_def)

lemma kinvD:
  assumes "kinv_except X k"
  shows "queue_inv X k" "current_inv X k"
  using assms by (simp_all add: kinv_except_def)

text \<open>The invariant reads the queues, the threads and the current thread only.\<close>

lemma queue_inv_cong:
  assumes "ready_list k' = ready_list k" "ready_group k' = ready_group k" "threads k' = threads k"
    "waitq k' = waitq k" "rt_thread_defunct k' = rt_thread_defunct k"
  shows "queue_inv X k' = queue_inv X k"
  using assms by (simp add: queue_inv_def kinv_part_defs thread_stat_def thread_prio_def)

lemma current_inv_cong:
  assumes "threads k' = threads k" "rt_current_thread k' = rt_current_thread k"
  shows "current_inv X k' = current_inv X k"
  using assms by (simp add: current_inv_def thread_stat_def)

lemma kinv_cong:
  assumes "ready_list k' = ready_list k" "ready_group k' = ready_group k" "threads k' = threads k"
    "waitq k' = waitq k" "rt_thread_defunct k' = rt_thread_defunct k"
    "rt_current_thread k' = rt_current_thread k"
  shows "kinv_except X k' = kinv_except X k"
  using queue_inv_cong [of k' k X] current_inv_cong [of k' k X] assms
  by (simp add: kinv_except_def)

lemma queue_inv_set_current [simp]:
  "queue_inv X (k\<lparr>rt_current_thread := c\<rparr>) = queue_inv X k"
  "queue_inv X (k\<lparr>rt_current_priority := p\<rparr>) = queue_inv X k"
  by (rule queue_inv_cong; simp)+

lemma kinv_frame [simp]:
  "kinv_except X (k\<lparr>rt_tick := a\<rparr>) = kinv_except X k"
  "kinv_except X (k\<lparr>rt_current_priority := p\<rparr>) = kinv_except X k"
  "kinv_except X (k\<lparr>rt_scheduler_lock_nest := n\<rparr>) = kinv_except X k"
  "kinv_except X (k\<lparr>rt_interrupt_nest := i\<rparr>) = kinv_except X k"
  "kinv_except X (k\<lparr>timers := tm\<rparr>) = kinv_except X k"
  "kinv_except X (k\<lparr>timer_list := l\<rparr>) = kinv_except X k"
  "kinv_except X (k\<lparr>timer_tmp := l\<rparr>) = kinv_except X k"
  "kinv_except X (k\<lparr>sems := s\<rparr>) = kinv_except X k"
  "kinv_except X (k\<lparr>mutexes := m\<rparr>) = kinv_except X k"
  "kinv_except X (k\<lparr>events := e\<rparr>) = kinv_except X k"
  "kinv_except X (k\<lparr>mailboxes := b\<rparr>) = kinv_except X k"
  "kinv_except X (k\<lparr>msgqueues := q\<rparr>) = kinv_except X k"
  "kinv_except X (k\<lparr>mempools := mp\<rparr>) = kinv_except X k"
  "kinv_except X (k\<lparr>devs := d\<rparr>) = kinv_except X k"
  by (rule kinv_cong; simp)+

subsection \<open>What the basic updates do to the invariant\<close>

lemma bit_number_mask [simp]:
  "bit (thread_number_mask p) i \<longleftrightarrow> i = p \<and> p < 32"
  by (auto simp: thread_number_mask_def)

lemma remove_thread_fields:
  "ready_list (rt_schedule_remove_thread t k) p = removeAll t (ready_list k p)"
  "waitq (rt_schedule_remove_thread t k) q = removeAll t (waitq k q)"
  "rt_thread_defunct (rt_schedule_remove_thread t k) = removeAll t (rt_thread_defunct k)"
  "threads (rt_schedule_remove_thread t k) = threads k"
  "thread_stat (rt_schedule_remove_thread t k) = thread_stat k"
  "thread_prio (rt_schedule_remove_thread t k) = thread_prio k"
  "rt_current_thread (rt_schedule_remove_thread t k) = rt_current_thread k"
  "prio_mask_ok (rt_schedule_remove_thread t k) = prio_mask_ok k"
  by (auto simp: rt_schedule_remove_thread_def Let_def thread_stat_def thread_prio_def fun_eq_iff
      prio_mask_ok_def)

lemma remove_thread_group:
  "ready_group (rt_schedule_remove_thread t k) =
     (if removeAll t (ready_list k (thread_prio k t)) = []
      then ready_group k AND NOT (number_mask (threads k t)) else ready_group k)"
  by (simp add: rt_schedule_remove_thread_def Let_def)

lemma ready_list_empty_ge:
  "group_inv k \<Longrightarrow> 32 \<le> p \<Longrightarrow> ready_list k p = []"
  using bit_imp_le_length [of "ready_group k" p] by (auto simp: group_inv_def)

lemma remove_thread_group_inv:
  assumes g: "group_inv k" and r: "ready_inv X k" and m: "prio_mask_ok k t"
  shows "group_inv (rt_schedule_remove_thread t k)"
  unfolding group_inv_def
proof
  fix p
  let ?q = "thread_prio k t"
  have mem: "t \<in> set (ready_list k p) \<Longrightarrow> p = ?q" for p
    using r by (auto simp: ready_inv_def)
  have nm: "number_mask (threads k t) = thread_number_mask ?q" and lt: "?q < 32"
    using m by (auto simp: prio_mask_ok_def)
  show "bit (ready_group (rt_schedule_remove_thread t k)) p
      \<longleftrightarrow> ready_list (rt_schedule_remove_thread t k) p \<noteq> []"
  proof (cases "p = ?q")
    case True
    show ?thesis
    proof (cases "removeAll t (ready_list k ?q) = []")
      case e: True
      with True show ?thesis
        by (simp add: remove_thread_fields remove_thread_group nm lt bit_and_iff bit_not_iff)
    next
      case ne: False
      then have "ready_list k ?q \<noteq> []" by auto
      with ne True g show ?thesis
        by (simp add: remove_thread_fields remove_thread_group group_inv_def)
    qed
  next
    case False
    with mem have "t \<notin> set (ready_list k p)" by blast
    then have "removeAll t (ready_list k p) = ready_list k p" by simp
    moreover have "bit (ready_group (rt_schedule_remove_thread t k)) p = bit (ready_group k) p"
      using False bit_imp_le_length [of "ready_group k" p]
      by (auto simp: remove_thread_group nm bit_and_iff bit_not_iff)
    ultimately show ?thesis using g by (simp add: remove_thread_fields group_inv_def)
  qed
qed

text \<open>Taking a thread off its list leaves the invariant for every other thread.\<close>

lemma remove_thread_queue_inv:
  assumes k: "queue_inv X k" and m: "prio_mask_ok k t" and X: "X \<subseteq> {t}"
  shows "queue_inv {t} (rt_schedule_remove_thread t k)"
proof
  note D = queue_invD [OF k]
  show "group_inv (rt_schedule_remove_thread t k)"
    by (rule remove_thread_group_inv [OF D(1,2) m])
  show "ready_inv {t} (rt_schedule_remove_thread t k)"
    using D(2) X by (auto simp: ready_inv_def remove_thread_fields distinct_removeAll)
  show "mask_inv {t} (rt_schedule_remove_thread t k)"
    using D(3) X by (auto simp: mask_inv_def remove_thread_fields)
  show "wait_inv {t} (rt_schedule_remove_thread t k)"
    using D(4) by (auto simp: wait_inv_def remove_thread_fields distinct_removeAll)
  show "defunct_inv {t} (rt_schedule_remove_thread t k)"
    using D(5) by (auto simp: defunct_inv_def remove_thread_fields distinct_removeAll)
qed

text \<open>A suspended thread is on no ready list, so taking it off its suspend list is enough.\<close>

lemma tlist_remove_queue_inv:
  assumes k: "queue_inv X k" and nr: "t \<notin> X \<Longrightarrow> thread_stat k t \<noteq> RT_THREAD_READY" and X: "X \<subseteq> {t}"
  shows "queue_inv {t} (tlist_remove t k)"
proof
  note D = queue_invD [OF k]
  have "t \<notin> set (ready_list k p)" for p using D(2) nr by (auto simp: ready_inv_def)
  then have rl: "removeAll t (ready_list k p) = ready_list k p" for p by simp
  show "group_inv (tlist_remove t k)" using D(1) by (simp add: group_inv_def rl)
  show "ready_inv {t} (tlist_remove t k)"
    using D(2) X by (auto simp: ready_inv_def distinct_removeAll)
  show "mask_inv {t} (tlist_remove t k)"
    using D(3) X by (auto simp: mask_inv_def prio_mask_ok_def)
  show "wait_inv {t} (tlist_remove t k)"
    using D(4) by (auto simp: wait_inv_def distinct_removeAll)
  show "defunct_inv {t} (tlist_remove t k)"
    using D(5) by (auto simp: defunct_inv_def distinct_removeAll)
qed

text \<open>A thread on no list may change arbitrarily.\<close>

lemma upd_thread_queue_inv:
  assumes "queue_inv {t} k"
  shows "queue_inv {t} (upd_thread t f k)"
proof
  note D = queue_invD [OF assms]
  have p: "prio_mask_ok (upd_thread t f k) t' = prio_mask_ok k t'" if "t' \<noteq> t" for t'
    using that by (simp add: prio_mask_ok_def)
  show "group_inv (upd_thread t f k)" using D(1) by (simp add: group_inv_def)
  show "ready_inv {t} (upd_thread t f k)" using D(2) by (auto simp: ready_inv_def)
  show "mask_inv {t} (upd_thread t f k)" using D(3) p by (auto simp: mask_inv_def)
  show "wait_inv {t} (upd_thread t f k)" using D(4) by (auto simp: wait_inv_def)
  show "defunct_inv {t} (upd_thread t f k)" using D(5) by (auto simp: defunct_inv_def)
qed

text \<open>A thread on no list joins the others again once its status says so.\<close>

lemma queue_inv_drop:
  assumes k: "queue_inv {t} k" and nr: "thread_stat k t \<noteq> RT_THREAD_READY"
    and m: "thread_stat k t \<noteq> RT_THREAD_INIT \<Longrightarrow> thread_stat k t \<noteq> RT_THREAD_CLOSE
      \<Longrightarrow> prio_mask_ok k t"
  shows "queue_inv {} k"
proof
  note D = queue_invD [OF k]
  show "group_inv k" by (rule D(1))
  show "ready_inv {} k" using D(2) nr by (auto simp: ready_inv_def)
  show "mask_inv {} k"
    unfolding mask_inv_def
  proof (intro allI impI)
    fix s assume "thread_stat k s \<noteq> RT_THREAD_INIT" "thread_stat k s \<noteq> RT_THREAD_CLOSE"
    then show "prio_mask_ok k s" using D(3) m by (cases "s = t") (auto simp: mask_inv_def)
  qed
  show "wait_inv {} k" using D(4) by (auto simp: wait_inv_def)
  show "defunct_inv {} k" using D(5) by (auto simp: defunct_inv_def)
qed

text \<open>
  An update that touches neither the status, nor the priority, nor the mask, of a thread that
  stays where it is.
\<close>

lemma upd_thread_kinv_same:
  assumes k: "kinv_except X k"
    and f: "stat (f (threads k t)) AND RT_THREAD_STAT_MASK = thread_stat k t"
      "current_priority (f (threads k t)) = thread_prio k t"
      "number_mask (f (threads k t)) = number_mask (threads k t)"
  shows "kinv_except X (upd_thread t f k)"
proof -
  have "thread_stat (upd_thread t f k) = thread_stat k"
    "thread_prio (upd_thread t f k) = thread_prio k"
    "prio_mask_ok (upd_thread t f k) = prio_mask_ok k"
    using f by (auto simp: fun_eq_iff prio_mask_ok_def)
  with k show ?thesis
    by (simp add: kinv_except_def queue_inv_def group_inv_def ready_inv_def mask_inv_def
        wait_inv_def current_inv_def defunct_inv_def)
qed

subsection \<open>Insertion\<close>

lemma insert_thread_current:
  "rt_current_thread k = Some t
    \<Longrightarrow> rt_schedule_insert_thread t k = upd_thread t (set_stat RT_THREAD_RUNNING) k"
  by (simp add: rt_schedule_insert_thread_def)

lemma insert_thread_fields:
  assumes "rt_current_thread k \<noteq> Some t"
  shows "ready_list (rt_schedule_insert_thread t k) p =
      (if p = thread_prio k t then ready_list k p @ [t] else ready_list k p)"
    "ready_group (rt_schedule_insert_thread t k) = ready_group k OR number_mask (threads k t)"
    "threads (rt_schedule_insert_thread t k) = (threads k)(t := set_stat RT_THREAD_READY (threads k t))"
    "waitq (rt_schedule_insert_thread t k) = waitq k"
    "rt_thread_defunct (rt_schedule_insert_thread t k) = rt_thread_defunct k"
    "rt_current_thread (rt_schedule_insert_thread t k) = rt_current_thread k"
  using assms by (auto simp: rt_schedule_insert_thread_def Let_def fun_eq_iff thread_prio_def)

lemma insert_thread_stat:
  assumes "rt_current_thread k \<noteq> Some t"
  shows "thread_stat (rt_schedule_insert_thread t k) t' =
      (if t' = t then RT_THREAD_READY else thread_stat k t')"
    "thread_prio (rt_schedule_insert_thread t k) t' = thread_prio k t'"
    "prio_mask_ok (rt_schedule_insert_thread t k) t' = prio_mask_ok k t'"
  using assms by (auto simp: thread_stat_def thread_prio_def prio_mask_ok_def insert_thread_fields)

lemma insert_thread_queue_inv:
  assumes k: "queue_inv {t} k" and m: "prio_mask_ok k t" and c: "rt_current_thread k \<noteq> Some t"
  shows "queue_inv {} (rt_schedule_insert_thread t k)"
proof
  note D = queue_invD [OF k]
  note F = insert_thread_fields [OF c] insert_thread_stat [OF c]
  have nin: "t \<notin> set (ready_list k p)" for p using D(2) by (auto simp: ready_inv_def)
  show "group_inv (rt_schedule_insert_thread t k)"
    using D(1) m by (auto simp: group_inv_def F bit_or_iff prio_mask_ok_def)
  show "ready_inv {} (rt_schedule_insert_thread t k)"
    using D(2) nin by (auto simp: ready_inv_def F)
  show "mask_inv {} (rt_schedule_insert_thread t k)"
    using D(3) m by (auto simp: mask_inv_def F)
  show "wait_inv {} (rt_schedule_insert_thread t k)"
    using D(4) unfolding wait_inv_def F by auto
  show "defunct_inv {} (rt_schedule_insert_thread t k)"
    using D(5) by (auto simp: defunct_inv_def F)
qed

text \<open>
  A thread taken off its list (or a suspended one) is put where it belongs: back as the running
  thread when it is the current one, else at the end of its ready list.
\<close>

lemma insert_thread_kinv [inv_intros]:
  assumes k: "kinv_except {t} k" and m: "prio_mask_ok k t"
  shows "kinv (rt_schedule_insert_thread t k)"
proof (cases "rt_current_thread k = Some t")
  case True
  let ?k = "upd_thread t (set_stat RT_THREAD_RUNNING) k"
  have "queue_inv {} ?k"
    by (rule queue_inv_drop [OF upd_thread_queue_inv [OF kinvD(1) [OF k]]])
      (use m in \<open>auto simp: prio_mask_ok_def thread_prio_def\<close>)
  moreover have "current_inv {} ?k"
    using kinvD(2) [OF k] True by (auto simp: current_inv_def)
  ultimately show ?thesis using True by (simp add: insert_thread_current kinv_except_def)
next
  case False
  have "queue_inv {} (rt_schedule_insert_thread t k)"
    by (rule insert_thread_queue_inv [OF kinvD(1) [OF k] m False])
  moreover have "current_inv {} (rt_schedule_insert_thread t k)"
    using kinvD(2) [OF k] False
    by (auto simp: current_inv_def insert_thread_fields insert_thread_stat)
  ultimately show ?thesis by (rule kinvI)
qed

section \<open>Scheduling\<close>

lemma highest_priority_thread_spec:
  assumes k: "queue_inv {} k"
    and h: "scheduler_get_highest_priority_thread k = Some (t, p)"
  shows "t \<in> set (ready_list k p)" "hd (ready_list k p) = t" "thread_stat k t = RT_THREAD_READY"
    "thread_prio k t = p" "prio_mask_ok k t" "p < 32"
    "\<And>s. thread_stat k s = RT_THREAD_READY \<Longrightarrow> p \<le> thread_prio k s"
proof -
  note D = queue_invD [OF k]
  from h have p: "p = rt_ffs (ready_group k) - 1" and t: "t \<in> set (ready_list k p)"
    and hd: "hd (ready_list k p) = t"
    by (auto simp: scheduler_get_highest_priority_thread_def Let_def split: list.splits)
  show "t \<in> set (ready_list k p)" "hd (ready_list k p) = t" by (fact t hd)+
  from t D(2) show st: "thread_stat k t = RT_THREAD_READY" and pr: "thread_prio k t = p"
    by (auto simp: ready_inv_def)
  with D(3) show m: "prio_mask_ok k t" by (auto simp: mask_inv_def)
  with pr show "p < 32" by (auto simp: prio_mask_ok_def)
  fix s assume "thread_stat k s = RT_THREAD_READY"
  then have "s \<in> set (ready_list k (thread_prio k s))" using D(2) by (auto simp: ready_inv_def)
  then have "ready_list k (thread_prio k s) \<noteq> []" by auto
  then have "bit (ready_group k) (thread_prio k s)" using D(1) by (simp add: group_inv_def)
  then show "p \<le> thread_prio k s" using p rt_ffs_least by blast
qed

text \<open>The queue never runs dry while its group is not empty, so the choice is always made.\<close>

lemma highest_priority_thread_exists:
  assumes "queue_inv {} k" "ready_group k \<noteq> 0"
  shows "\<exists>t p. scheduler_get_highest_priority_thread k = Some (t, p)"
proof -
  have "bit (ready_group k) (rt_ffs (ready_group k) - 1)"
    by (rule rt_ffs_bit [OF assms(2)])
  then have "ready_list k (rt_ffs (ready_group k) - 1) \<noteq> []"
    using queue_invD(1) [OF assms(1)] by (simp add: group_inv_def)
  then show ?thesis
    by (auto simp: scheduler_get_highest_priority_thread_def Let_def split: list.splits)
qed

text \<open>
  The state right after the old thread has gone back to the ready queue, before the new one
  leaves it.
\<close>

definition switch_requeue :: "nat \<Rightarrow> tid \<Rightarrow> bool \<Rightarrow> tid \<Rightarrow> kernel \<Rightarrow> kernel" where
  "switch_requeue p to b from_thread k =
     (let k = k\<lparr>rt_current_priority := p mod 256, rt_current_thread := Some to\<rparr>
      in if b then rt_schedule_insert_thread from_thread k else k)"

lemma schedule_switch_eq:
  "schedule_switch to p b from_thread k =
     (let k' = upd_thread to (set_stat RT_THREAD_RUNNING)
                 (rt_schedule_remove_thread to (switch_requeue p to b from_thread k))
      in if scheduler_stack_check (threads k' to) \<noteq> Stack_overflow then Some k' else None)"
  by (simp add: schedule_switch_def switch_requeue_def Let_def)
lemma queue_inv_take_running:
  assumes k: "queue_inv {} k" and r: "thread_stat k c = RT_THREAD_RUNNING"
  shows "queue_inv {c} k"
proof
  note D = queue_invD [OF k]
  show "group_inv k" by (rule D(1))
  show "ready_inv {c} k" using D(2) r by (auto simp: ready_inv_def)
  show "mask_inv {c} k" using D(3) by (auto simp: mask_inv_def)
  show "wait_inv {c} k" using D(4) r unfolding wait_inv_def by (metis singletonD stat_consts_distinct(15))
  show "defunct_inv {c} k" using D(5) r by (auto simp: defunct_inv_def)
qed

lemma switch_requeue_props:
  fixes p :: nat
  assumes k: "kinv k" and c: "rt_current_thread k = Some c" and ne: "to \<noteq> c"
    and b: "b \<longleftrightarrow> thread_stat k c = RT_THREAD_RUNNING"
  defines "k' \<equiv> switch_requeue p to b c k"
  shows "queue_inv {} k'" "rt_current_thread k' = Some to"
    "thread_stat k' t = (if b \<and> t = c then RT_THREAD_READY else thread_stat k t)"
    "thread_prio k' t = thread_prio k t" "prio_mask_ok k' t = prio_mask_ok k t"
proof -
  let ?k = "k\<lparr>rt_current_priority := p mod 256, rt_current_thread := Some to\<rparr>"
  have cur: "rt_current_thread ?k \<noteq> Some c" using ne by simp
  have same: "thread_stat ?k = thread_stat k" "thread_prio ?k = thread_prio k"
    "prio_mask_ok ?k = prio_mask_ok k"
    by (auto simp: thread_stat_def thread_prio_def prio_mask_ok_def fun_eq_iff)
  have q: "queue_inv {} ?k" using kinvD(1) [OF k] by simp
  show "queue_inv {} k'"
  proof (cases b)
    case True
    with b have r: "thread_stat k c = RT_THREAD_RUNNING" by simp
    have m: "prio_mask_ok k c" using queue_invD(3) [OF kinvD(1) [OF k]] r by (auto simp: mask_inv_def)
    have "queue_inv {} (rt_schedule_insert_thread c ?k)"
      by (rule insert_thread_queue_inv [OF queue_inv_take_running [OF q] _ cur])
        (use r m same in simp_all)
    with True show ?thesis by (simp add: k'_def switch_requeue_def)
  next
    case False
    with q show ?thesis by (simp add: k'_def switch_requeue_def)
  qed
  show "rt_current_thread k' = Some to"
    using insert_thread_fields(6) [OF cur] by (simp add: k'_def switch_requeue_def Let_def)
  show "thread_stat k' t = (if b \<and> t = c then RT_THREAD_READY else thread_stat k t)"
    "thread_prio k' t = thread_prio k t" "prio_mask_ok k' t = prio_mask_ok k t"
    using insert_thread_stat [OF cur] same
    by (simp_all add: k'_def switch_requeue_def Let_def)
qed

lemma schedule_switch_spec:
  assumes k: "kinv k" and c: "rt_current_thread k = Some c" and ne: "to \<noteq> c"
    and r: "thread_stat k to = RT_THREAD_READY"
    and b: "b \<longleftrightarrow> thread_stat k c = RT_THREAD_RUNNING"
    and s: "schedule_switch to p b c k = Some k'"
  shows "kinv k'" "rt_current_thread k' = Some to" "thread_stat k' to = RT_THREAD_RUNNING"
    "t \<noteq> to \<Longrightarrow> thread_stat k' t = (if b \<and> t = c then RT_THREAD_READY else thread_stat k t)"
    "thread_prio k' t = thread_prio k t"
proof -
  let ?q = "switch_requeue p to b c k"
  let ?k = "upd_thread to (set_stat RT_THREAD_RUNNING) (rt_schedule_remove_thread to ?q)"
  note Q = switch_requeue_props [OF k c ne b]
  have k': "k' = ?k" using s by (auto simp: schedule_switch_eq Let_def split: if_splits)
  have m: "prio_mask_ok k to" using queue_invD(3) [OF kinvD(1) [OF k]] r by (auto simp: mask_inv_def)
  have "queue_inv {to} ?k"
    by (rule upd_thread_queue_inv [OF remove_thread_queue_inv [OF Q(1)]]) (use m Q(5) in auto)
  then have "queue_inv {} ?k"
    by (rule queue_inv_drop)
      (use m Q(4,5) in \<open>auto simp: prio_mask_ok_def remove_thread_fields thread_prio_def\<close>)
  moreover have "current_inv {} ?k"
  proof -
    have st: "thread_stat ?k t = (if t = to then RT_THREAD_RUNNING
        else if b \<and> t = c then RT_THREAD_READY else thread_stat k t)" for t
      by (simp add: remove_thread_fields Q(3))
    have cur: "rt_current_thread ?k = Some to" by (simp add: remove_thread_fields Q(2))
    have only: "t = c" if "thread_stat k t = RT_THREAD_RUNNING" for t
      using kinvD(2) [OF k] c that by (simp add: current_inv_def)
    have to: "t = to" if run: "thread_stat ?k t = RT_THREAD_RUNNING" for t
    proof (rule ccontr)
      assume "t \<noteq> to"
      with run have "\<not> (b \<and> t = c)" "thread_stat k t = RT_THREAD_RUNNING"
        unfolding st by (metis stat_consts_distinct(7))+
      with only [of t] b show False by blast
    qed
    have "thread_stat ?k to \<noteq> RT_THREAD_READY" by (simp add: st)
    then show ?thesis unfolding current_inv_def cur by (metis to option.inject)
  qed
  ultimately show "kinv k'" unfolding k' by (rule kinvI)
  show "rt_current_thread k' = Some to" by (simp add: k' remove_thread_fields Q(2))
  show "thread_stat k' to = RT_THREAD_RUNNING" by (simp add: k' remove_thread_fields)
  show "t \<noteq> to \<Longrightarrow> thread_stat k' t = (if b \<and> t = c then RT_THREAD_READY else thread_stat k t)"
    by (simp add: k' remove_thread_fields Q(3))
  have "thread_prio k' t = thread_prio ?q t"
    by (auto simp: k' remove_thread_fields thread_prio_def)
  then show "thread_prio k' t = thread_prio k t" by (simp add: Q(4))
qed

text \<open>
  \<open>rt_schedule\<close> in cases: nothing to do, the current thread goes on, or a switch.
\<close>

definition stays_current :: "kernel \<Rightarrow> tid \<Rightarrow> nat \<Rightarrow> bool" where
  "stays_current k c p \<longleftrightarrow> thread_stat k c = RT_THREAD_RUNNING \<and>
     (thread_prio k c < p \<or>
      thread_prio k c = p \<and> stat (threads k c) AND RT_THREAD_STAT_YIELD = 0)"

lemma rt_schedule_cases:
  assumes s: "rt_schedule k = Some k'"
  obtains (locked) "rt_scheduler_lock_nest k \<noteq> 0" "k' = k"
  | (idle) "rt_scheduler_lock_nest k = 0" "ready_group k = 0" "k' = k"
  | (stay) c to p where "rt_scheduler_lock_nest k = 0" "ready_group k \<noteq> 0"
      "scheduler_get_highest_priority_thread k = Some (to, p)" "rt_current_thread k = Some c"
      "stays_current k c p"
      "k' = upd_thread c (set_stat RT_THREAD_RUNNING)
              (rt_schedule_remove_thread c (upd_thread c clear_yield k))"
  | (self) c p where "rt_scheduler_lock_nest k = 0" "ready_group k \<noteq> 0"
      "scheduler_get_highest_priority_thread k = Some (c, p)" "rt_current_thread k = Some c"
  | (switch) c to p k1 where "rt_scheduler_lock_nest k = 0" "ready_group k \<noteq> 0"
      "scheduler_get_highest_priority_thread k = Some (to, p)" "rt_current_thread k = Some c"
      "to \<noteq> c" "\<not> stays_current k c p"
      "k1 = (if thread_stat k c = RT_THREAD_RUNNING then upd_thread c clear_yield k else k)"
      "schedule_switch to p (thread_stat k c = RT_THREAD_RUNNING) c k1 = Some k'"
proof (cases "rt_scheduler_lock_nest k = 0 \<and> ready_group k \<noteq> 0")
  case False
  with s show thesis by (auto simp: rt_schedule_def split: if_splits intro: locked idle)
next
  case True
  then have l: "rt_scheduler_lock_nest k = 0" and g: "ready_group k \<noteq> 0" by auto
  from s True obtain to p c where
    h: "scheduler_get_highest_priority_thread k = Some (to, p)" "rt_current_thread k = Some c"
    by (auto simp: rt_schedule_def bind_eq_Some_conv split: if_splits)
  show thesis
  proof (cases "stays_current k c p")
    case st: True
    then have "k' = upd_thread c (set_stat RT_THREAD_RUNNING)
              (rt_schedule_remove_thread c (upd_thread c clear_yield k))"
      using s l g h by (auto simp: rt_schedule_def stays_current_def Let_def)
    then show thesis by (rule stay [OF l g h st])
  next
    case nst: False
    show thesis
    proof (cases "to = c")
      case True
      with h show thesis by (intro self [OF l g]) auto
    next
      case ne: False
      have "schedule_switch to p (thread_stat k c = RT_THREAD_RUNNING) c
          (if thread_stat k c = RT_THREAD_RUNNING then upd_thread c clear_yield k else k) = Some k'"
        using s l g h ne nst
        by (auto simp: rt_schedule_def stays_current_def Let_def split: if_splits)
      then show thesis by (rule switch [OF l g h ne nst refl])
    qed
  qed
qed


lemma clear_yield_fields [simp]:
  "current_priority (clear_yield x) = current_priority x"
  "number_mask (clear_yield x) = number_mask x"
  "stat (clear_yield x) AND RT_THREAD_STAT_MASK = stat x AND RT_THREAD_STAT_MASK"
  by (simp_all add: clear_yield_def)

lemma clear_yield_kinv:
  assumes "kinv_except X k"
  shows "kinv_except X (upd_thread c clear_yield k)"
  by (rule upd_thread_kinv_same [OF assms]) (simp_all add: thread_stat_def thread_prio_def)

lemma clear_yield_same [simp]:
  "thread_stat (upd_thread c clear_yield k) = thread_stat k"
  "thread_prio (upd_thread c clear_yield k) = thread_prio k"
  by (auto simp: fun_eq_iff thread_stat_def thread_prio_def)

lemma running_mask_ok:
  "kinv k \<Longrightarrow> thread_stat k c = RT_THREAD_RUNNING \<Longrightarrow> prio_mask_ok k c"
  using queue_invD(3) [OF kinvD(1)] by (simp add: mask_inv_def)

text \<open>The running thread goes on: no list changes, its status loses the yield mark only.\<close>

lemma stay_kinv:
  assumes k: "kinv k" and c: "rt_current_thread k = Some c" and r: "thread_stat k c = RT_THREAD_RUNNING"
  defines "k' \<equiv> upd_thread c (set_stat RT_THREAD_RUNNING)
      (rt_schedule_remove_thread c (upd_thread c clear_yield k))"
  shows "kinv k'" "thread_stat k' = thread_stat k" "thread_prio k' = thread_prio k"
    "rt_current_thread k' = Some c"
proof -
  let ?y = "upd_thread c clear_yield k"
  have m: "prio_mask_ok ?y c"
    using running_mask_ok [OF k r] by (auto simp: prio_mask_ok_def thread_prio_def)
  have y: "kinv ?y" by (rule clear_yield_kinv [OF k])
  have "queue_inv {c} k'"
    unfolding k'_def
    by (rule upd_thread_queue_inv [OF remove_thread_queue_inv [OF kinvD(1) [OF y] m]]) simp
  then have "queue_inv {} k'"
    by (rule queue_inv_drop)
      (use m in \<open>auto simp: k'_def prio_mask_ok_def remove_thread_fields thread_prio_def\<close>)
  moreover have "current_inv {} k'"
    using kinvD(2) [OF k] c by (auto simp: k'_def current_inv_def remove_thread_fields)
  ultimately show "kinv k'" by (rule kinvI)
  show "thread_stat k' = thread_stat k"
    using r by (auto simp: k'_def remove_thread_fields fun_eq_iff)
  show "thread_prio k' = thread_prio k"
    by (auto simp: k'_def remove_thread_fields fun_eq_iff thread_prio_def)
  show "rt_current_thread k' = Some c" using c by (simp add: k'_def remove_thread_fields)
qed

lemma rt_schedule_kinv [inv_intros]:
  assumes k: "kinv k" and s: "rt_schedule k = Some k'"
  shows "kinv k'"
  using s
proof (cases rule: rt_schedule_cases)
  case (stay c to p)
  then have "thread_stat k c = RT_THREAD_RUNNING" by (simp add: stays_current_def)
  with stay show ?thesis using stay_kinv(1) [OF k] by simp
next
  case (self c p)
  then have "thread_stat k c = RT_THREAD_READY"
    using highest_priority_thread_spec(3) [OF kinvD(1) [OF k]] by blast
  with self kinvD(2) [OF k] show ?thesis by (auto simp: current_inv_def)
next
  case (switch c to p k1)
  note H = highest_priority_thread_spec [OF kinvD(1) [OF k] switch(3)]
  have k1: "kinv k1" using k clear_yield_kinv [OF k] by (simp add: switch(7))
  show ?thesis
    by (rule schedule_switch_spec(1) [OF k1 _ switch(5) _ _ switch(8)])
      (use switch H in \<open>auto split: if_splits\<close>)
qed (use k in auto)

text \<open>
  The scheduler's choice: when it is unlocked and some thread can run, a RUNNING thread is
  current afterwards and no READY thread is more urgent.
\<close>

lemma rt_schedule_highest:
  assumes k: "kinv k" and s: "rt_schedule k = Some k'" and u: "rt_scheduler_lock_nest k = 0"
    and c: "rt_current_thread k = Some c"
    and ex: "thread_stat k c = RT_THREAD_RUNNING \<or> ready_group k \<noteq> 0"
  shows "\<exists>c'. rt_current_thread k' = Some c' \<and> thread_stat k' c' = RT_THREAD_RUNNING
    \<and> (\<forall>t. thread_stat k' t = RT_THREAD_READY \<longrightarrow> thread_prio k' c' \<le> thread_prio k' t)"
  using s
proof (cases rule: rt_schedule_cases)
  case locked
  with u show ?thesis by simp
next
  case idle
  have "ready_list k p = []" for p
    using queue_invD(1) [OF kinvD(1) [OF k]] idle by (auto simp: group_inv_def)
  then have "thread_stat k t \<noteq> RT_THREAD_READY" for t
    using queue_invD(2) [OF kinvD(1) [OF k]] by (force simp: ready_inv_def)
  with idle c ex show ?thesis by auto
next
  case (stay d to p)
  note H = highest_priority_thread_spec [OF kinvD(1) [OF k] stay(3)]
  have r: "thread_stat k d = RT_THREAD_RUNNING" and le: "thread_prio k d \<le> p"
    using stay(5) by (auto simp: stays_current_def)
  note S = stay_kinv [OF k stay(4) r, folded stay(6)]
  have "rt_current_thread k' = Some d" by (rule S(4))
  moreover have "thread_stat k' d = RT_THREAD_RUNNING" using r by (simp add: S(2))
  moreover have "thread_prio k' d \<le> thread_prio k' t" if "thread_stat k' t = RT_THREAD_READY" for t
    using H(7) [of t] le that by (simp add: S(2,3))
  ultimately show ?thesis by blast
next
  case (self d p)
  then have "thread_stat k d = RT_THREAD_READY"
    using highest_priority_thread_spec(3) [OF kinvD(1) [OF k]] by blast
  with self kinvD(2) [OF k] show ?thesis by (auto simp: current_inv_def)
next
  case (switch d to p k1)
  note H = highest_priority_thread_spec [OF kinvD(1) [OF k] switch(3)]
  have k1: "kinv k1" using k clear_yield_kinv [OF k] by (simp add: switch(7))
  have same: "thread_stat k1 = thread_stat k" "thread_prio k1 = thread_prio k"
    "rt_current_thread k1 = Some d"
    using switch(4) by (auto simp: switch(7))
  have rdy: "thread_stat k1 to = RT_THREAD_READY" using H(3) by (simp add: same)
  have b: "(thread_stat k d = RT_THREAD_RUNNING) \<longleftrightarrow> thread_stat k1 d = RT_THREAD_RUNNING"
    by (simp add: same)
  note S = schedule_switch_spec [OF k1 same(3) switch(5) rdy b switch(8)]
  have "thread_prio k' to \<le> thread_prio k' t" if t: "thread_stat k' t = RT_THREAD_READY" for t
  proof (cases "thread_stat k d = RT_THREAD_RUNNING \<and> t = d")
    case True
    with switch(6) have "p \<le> thread_prio k t" by (auto simp: stays_current_def)
    with H(4) show ?thesis by (simp add: S(5) same)
  next
    case False
    have "t \<noteq> to" using t S(3) by auto
    with S(4) False t have "thread_stat k t = RT_THREAD_READY" by (auto simp: same split: if_splits)
    with H(4,7) show ?thesis by (simp add: S(5) same)
  qed
  with S(2,3) show ?thesis by blast
qed

lemma rt_schedule_locked: "rt_scheduler_lock_nest k \<noteq> 0 \<Longrightarrow> rt_schedule k = Some k"
  by (simp add: rt_schedule_def)

text \<open>The ready lists after a switch: the old thread at the end of its list, the new one gone.\<close>

lemma schedule_switch_lists:
  assumes s: "schedule_switch to p b c k = Some k'" and ne: "to \<noteq> c"
  shows "ready_list k' q =
    removeAll to (if b \<and> q = thread_prio k c then ready_list k q @ [c] else ready_list k q)"
    "waitq k' w = removeAll to (waitq k w)"
proof -
  let ?k0 = "k\<lparr>rt_current_priority := p mod 256, rt_current_thread := Some to\<rparr>"
  have cur: "rt_current_thread ?k0 \<noteq> Some c" using ne by simp
  have k': "k' = upd_thread to (set_stat RT_THREAD_RUNNING)
      (rt_schedule_remove_thread to (switch_requeue p to b c k))"
    using s by (auto simp: schedule_switch_eq Let_def split: if_splits)
  have pr: "thread_prio ?k0 c = thread_prio k c" by (simp add: thread_prio_def)
  show "ready_list k' q =
    removeAll to (if b \<and> q = thread_prio k c then ready_list k q @ [c] else ready_list k q)"
    using ne by (simp add: k' remove_thread_fields switch_requeue_def Let_def pr
        insert_thread_fields(1) [OF cur])
  show "waitq k' w = removeAll to (waitq k w)"
    by (simp add: k' remove_thread_fields switch_requeue_def Let_def insert_thread_fields(4) [OF cur])
qed

text \<open>
  Round robin: a running thread marked as having yielded gives way to the first thread of its own
  priority and goes to the end of that list.
\<close>

lemma rt_schedule_round_robin:
  assumes k: "kinv k" and s: "rt_schedule k = Some k'" and u: "rt_scheduler_lock_nest k = 0"
    and c: "rt_current_thread k = Some c" and r: "thread_stat k c = RT_THREAD_RUNNING"
    and y: "stat (threads k c) AND RT_THREAD_STAT_YIELD \<noteq> 0"
    and l: "ready_list k (thread_prio k c) = t # ts"
    and top: "\<And>p. p < thread_prio k c \<Longrightarrow> ready_list k p = []"
  shows "rt_current_thread k' = Some t" "ready_list k' (thread_prio k c) = ts @ [c]"
proof -
  note D = queue_invD [OF kinvD(1) [OF k]]
  let ?p = "thread_prio k c"
  have bit: "bit (ready_group k) ?p" using D(1) l by (simp add: group_inv_def)
  then have g: "ready_group k \<noteq> 0" by auto
  have "ready_list k (rt_ffs (ready_group k) - 1) \<noteq> []"
    using D(1) rt_ffs_bit [OF g] by (simp add: group_inv_def)
  then have p: "rt_ffs (ready_group k) - 1 = ?p"
    using top rt_ffs_least [OF bit] le_neq_implies_less by blast
  then have h: "scheduler_get_highest_priority_thread k = Some (t, ?p)"
    by (simp add: scheduler_get_highest_priority_thread_def Let_def l)
  have rdy: "t \<in> set (ready_list k ?p)" by (simp add: l)
  then have st: "thread_stat k t = RT_THREAD_READY" using D(2) by (simp add: ready_inv_def)
  have dist: "t \<notin> set ts" using D(2) l by (metis ready_inv_def distinct.simps(2))
  have ne: "t \<noteq> c" using st r by auto
  have sw: "schedule_switch t ?p True c (upd_thread c clear_yield k) = Some k'"
    using s u g h c r y ne by (simp add: rt_schedule_def Let_def)
  note k1 = clear_yield_kinv [OF k, of c]
  show "rt_current_thread k' = Some t"
    using schedule_switch_spec(2) [OF k1 _ ne _ _ sw] c r st by simp
  show "ready_list k' ?p = ts @ [c]"
    using schedule_switch_lists(1) [OF sw ne, of ?p] l ne dist by simp
qed

text \<open>With every stack intact \<^verbatim>\<open>rt_schedule\<close> does return.\<close>

definition stacks_ok :: "kernel \<Rightarrow> bool" where
  "stacks_ok k \<longleftrightarrow> (\<forall>t. scheduler_stack_check (threads k t) \<noteq> Stack_overflow)"

lemma stack_check_set_stat [simp]:
  "scheduler_stack_check (set_stat st x) = scheduler_stack_check x"
  by (simp add: scheduler_stack_check_def)

lemma stack_check_clear_yield [simp]:
  "scheduler_stack_check (clear_yield x) = scheduler_stack_check x"
  by (simp add: scheduler_stack_check_def clear_yield_def)

lemma switch_requeue_stacks:
  "scheduler_stack_check (threads (switch_requeue p to b c k) t) =
   scheduler_stack_check (threads k t)"
  by (simp add: switch_requeue_def rt_schedule_insert_thread_def Let_def)

lemma schedule_switch_returns:
  assumes "stacks_ok k"
  shows "\<exists>k'. schedule_switch to p b c k = Some k'"
  using assms
  by (simp add: schedule_switch_eq Let_def remove_thread_fields switch_requeue_stacks stacks_ok_def)

lemma rt_schedule_returns:
  assumes k: "kinv k" and ok: "stacks_ok k" and c: "rt_current_thread k = Some c"
  shows "\<exists>k'. rt_schedule k = Some k'"
proof (cases "rt_scheduler_lock_nest k = 0 \<and> ready_group k \<noteq> 0")
  case False
  then show ?thesis by (auto simp: rt_schedule_def)
next
  case True
  then obtain t p where h: "scheduler_get_highest_priority_thread k = Some (t, p)"
    using highest_priority_thread_exists [OF kinvD(1) [OF k]] by blast
  have ok': "stacks_ok (upd_thread c clear_yield k)" using ok by (simp add: stacks_ok_def)
  show ?thesis
    using True h c schedule_switch_returns [OF ok] schedule_switch_returns [OF ok']
    by (simp add: rt_schedule_def Let_def)
qed

text \<open>The scheduler lock.\<close>

lemma rt_enter_critical_kinv [inv_intros]: "kinv k \<Longrightarrow> kinv (rt_enter_critical k)"
  by (simp add: rt_enter_critical_def)

lemma rt_exit_critical_kinv [inv_intros]:
  assumes "kinv k" and "rt_exit_critical k = Some k'"
  shows "kinv k'"
proof (cases "rt_scheduler_lock_nest k - 1 \<le>s 0 \<and> rt_current_thread k \<noteq> None")
  case True
  with assms(2) have "rt_schedule (k\<lparr>rt_scheduler_lock_nest := 0\<rparr>) = Some k'"
    by (simp add: rt_exit_critical_def Let_def)
  then show ?thesis by (rule rt_schedule_kinv [rotated]) (simp add: assms(1))
next
  case False
  with assms show ?thesis by (auto simp: rt_exit_critical_def Let_def split: if_splits)
qed

lemma rt_enter_critical_locks:
  "rt_scheduler_lock_nest k + 1 \<noteq> 0 \<Longrightarrow> rt_schedule (rt_enter_critical k) = Some (rt_enter_critical k)"
  by (rule rt_schedule_locked) (simp add: rt_enter_critical_def)

section \<open>Start-up\<close>

lemma rt_system_scheduler_start_kinv:
  assumes k: "kinv k" and nc: "rt_current_thread k = None"
    and s: "rt_system_scheduler_start k = Some k'"
  shows "kinv k'"
    "\<exists>c. rt_current_thread k' = Some c \<and> thread_stat k' c = RT_THREAD_RUNNING \<and>
       (\<forall>t. thread_stat k' t = RT_THREAD_READY \<longrightarrow> thread_prio k' c \<le> thread_prio k' t)"
proof -
  obtain c p where h: "scheduler_get_highest_priority_thread k = Some (c, p)"
    and k': "k' = upd_thread c (\<lambda>x. x\<lparr>stat := RT_THREAD_RUNNING\<rparr>)
      (rt_schedule_remove_thread c (k\<lparr>rt_current_thread := Some c\<rparr>))"
    using s by (auto simp: rt_system_scheduler_start_def Let_def bind_eq_Some_conv)
  note H = highest_priority_thread_spec [OF kinvD(1) [OF k] h]
  have q: "queue_inv {} (k\<lparr>rt_current_thread := Some c\<rparr>)" using kinvD(1) [OF k] by simp
  have same: "thread_stat (k\<lparr>rt_current_thread := Some c\<rparr>) = thread_stat k"
    "thread_prio (k\<lparr>rt_current_thread := Some c\<rparr>) = thread_prio k"
    by (simp_all add: thread_stat_def thread_prio_def fun_eq_iff)
  have m: "prio_mask_ok (k\<lparr>rt_current_thread := Some c\<rparr>) c"
    using H(5) by (simp add: prio_mask_ok_def same)
  have st: "thread_stat k' t = (if t = c then RT_THREAD_RUNNING else thread_stat k t)"
    and pr: "thread_prio k' t = thread_prio k t"
    and cur: "rt_current_thread k' = Some c" for t
    by (auto simp: k' remove_thread_fields same thread_prio_def)
  have "queue_inv {c} k'"
    unfolding k' by (rule upd_thread_queue_inv [OF remove_thread_queue_inv [OF q m]]) simp
  then have "queue_inv {} k'"
    by (rule queue_inv_drop)
      (use H(5) in \<open>auto simp: prio_mask_ok_def k' remove_thread_fields thread_prio_def\<close>)
  moreover have "current_inv {} k'"
    using kinvD(2) [OF k] nc unfolding current_inv_def cur st by auto
  ultimately show "kinv k'" by (rule kinvI)
  show "\<exists>c. rt_current_thread k' = Some c \<and> thread_stat k' c = RT_THREAD_RUNNING \<and>
       (\<forall>t. thread_stat k' t = RT_THREAD_READY \<longrightarrow> thread_prio k' c \<le> thread_prio k' t)"
    using H(4,7) by (auto simp: cur st pr)
qed

section \<open>What scheduling leaves alone\<close>

text \<open>
  \<open>sched_frame k k'\<close>: from \<open>k\<close> to \<open>k'\<close> only the queues, the current thread and the threads' status
  words may have changed.
\<close>

definition same_thread_data :: "thread \<Rightarrow> thread \<Rightarrow> bool" where
  "same_thread_data x y \<longleftrightarrow> current_priority y = current_priority x
     \<and> number_mask y = number_mask x \<and> error y = error x
     \<and> event_set y = event_set x \<and> event_info y = event_info x \<and> init_tick y = init_tick x
     \<and> remaining_tick y = remaining_tick x \<and> static_object y = static_object x
     \<and> stack_addr y = stack_addr x \<and> stack_size y = stack_size x \<and> sp y = sp x
     \<and> stack_guard y = stack_guard x"

definition sched_frame :: "kernel \<Rightarrow> kernel \<Rightarrow> bool" where
  "sched_frame k k' \<longleftrightarrow> rt_tick k' = rt_tick k
     \<and> rt_scheduler_lock_nest k' = rt_scheduler_lock_nest k
     \<and> rt_interrupt_nest k' = rt_interrupt_nest k \<and> timers k' = timers k
     \<and> timer_list k' = timer_list k \<and> timer_tmp k' = timer_tmp k \<and> sems k' = sems k
     \<and> mutexes k' = mutexes k \<and> events k' = events k \<and> mailboxes k' = mailboxes k
     \<and> msgqueues k' = msgqueues k \<and> mempools k' = mempools k \<and> devs k' = devs k
     \<and> (\<forall>t. same_thread_data (threads k t) (threads k' t))"

lemma sched_frame_refl [simp]: "sched_frame k k"
  by (simp add: sched_frame_def same_thread_data_def)

lemma sched_frame_trans [trans]: "sched_frame k k1 \<Longrightarrow> sched_frame k1 k2 \<Longrightarrow> sched_frame k k2"
  by (simp add: sched_frame_def same_thread_data_def)

lemma same_thread_data_refl [simp]: "same_thread_data x x"
  by (simp add: same_thread_data_def)

lemma same_thread_data_set_stat [simp]:
  "same_thread_data x (set_stat st x)" "same_thread_data x (clear_yield x)"
  "same_thread_data x (x\<lparr>stat := s\<rparr>)"
  by (simp_all add: same_thread_data_def clear_yield_def)

lemma sched_frame_upd [simp]:
  "same_thread_data (threads k t) (f (threads k t)) \<Longrightarrow> sched_frame k (upd_thread t f k)"
  by (simp add: sched_frame_def)

lemma sched_frame_tlist_remove [simp]: "sched_frame k (tlist_remove t k)"
  by (simp add: sched_frame_def)

lemma sched_frame_remove [simp]: "sched_frame k (rt_schedule_remove_thread t k)"
  by (simp add: sched_frame_def rt_schedule_remove_thread_def Let_def)

lemma sched_frame_insert [simp]: "sched_frame k (rt_schedule_insert_thread t k)"
  by (simp add: sched_frame_def rt_schedule_insert_thread_def Let_def)

lemma sched_frame_requeue: "sched_frame k (switch_requeue p to b c k)"
  by (simp add: sched_frame_def switch_requeue_def rt_schedule_insert_thread_def Let_def)

lemma schedule_switch_frame:
  assumes "schedule_switch to p b c k = Some k'"
  shows "sched_frame k k'"
proof -
  have k': "k' = upd_thread to (set_stat RT_THREAD_RUNNING)
      (rt_schedule_remove_thread to (switch_requeue p to b c k))"
    using assms by (auto simp: schedule_switch_eq Let_def split: if_splits)
  let ?q = "switch_requeue p to b c k"
  have "sched_frame k ?q" by (rule sched_frame_requeue)
  also have "sched_frame ?q (rt_schedule_remove_thread to ?q)" by simp
  also have "sched_frame (rt_schedule_remove_thread to ?q) k'" unfolding k' by simp
  finally show ?thesis .
qed

lemma rt_schedule_frame:
  assumes "rt_schedule k = Some k'"
  shows "sched_frame k k'"
  using assms
proof (cases rule: rt_schedule_cases)
  case (stay c to p)
  have "sched_frame k (upd_thread c clear_yield k)" by simp
  also have "sched_frame \<dots> (rt_schedule_remove_thread c \<dots>)" by simp
  also have "sched_frame \<dots> (upd_thread c (set_stat RT_THREAD_RUNNING) \<dots>)" by simp
  finally show ?thesis by (simp only: stay(6))
next
  case (self c p)
  then have "k' = upd_thread c (set_stat RT_THREAD_RUNNING)
      (rt_schedule_remove_thread c (if thread_stat k c = RT_THREAD_RUNNING then upd_thread c clear_yield k else k))"
    using assms by (auto simp: rt_schedule_def Let_def split: if_splits)
  moreover have "sched_frame k (if thread_stat k c = RT_THREAD_RUNNING then upd_thread c clear_yield k else k)"
    by simp
  ultimately show ?thesis
    by (metis sched_frame_trans sched_frame_remove sched_frame_upd same_thread_data_set_stat(1))
next
  case (switch c to p k1)
  have "sched_frame k k1" by (simp add: switch(7))
  also have "sched_frame k1 k'" by (rule schedule_switch_frame [OF switch(8)])
  finally show ?thesis .
qed simp_all

text \<open>Under the invariant, scheduling moves READY and RUNNING threads only.\<close>

lemma rt_schedule_others:
  assumes k: "kinv k" and s: "rt_schedule k = Some k'"
  shows "thread_stat k t \<noteq> RT_THREAD_READY \<Longrightarrow> thread_stat k t \<noteq> RT_THREAD_RUNNING
      \<Longrightarrow> thread_stat k' t = thread_stat k t"
    "waitq k' = waitq k" "thread_prio k' t = thread_prio k t"
proof -
  have "(thread_stat k t \<noteq> RT_THREAD_READY \<longrightarrow> thread_stat k t \<noteq> RT_THREAD_RUNNING
      \<longrightarrow> thread_stat k' t = thread_stat k t) \<and> waitq k' = waitq k"
    using s
  proof (cases rule: rt_schedule_cases)
    case (stay c to p)
    then have r: "thread_stat k c = RT_THREAD_RUNNING" by (simp add: stays_current_def)
    have "c \<notin> set (waitq k q)" for q
      using queue_invD(4) [OF kinvD(1) [OF k]] r by (force simp: wait_inv_def)
    then have "waitq k' = waitq k" by (auto simp: stay(6) remove_thread_fields fun_eq_iff)
    with stay_kinv(2) [OF k stay(4) r] show ?thesis by (simp add: stay(6))
  next
    case (self c p)
    then have "thread_stat k c = RT_THREAD_READY"
      using highest_priority_thread_spec(3) [OF kinvD(1) [OF k]] by blast
    with self kinvD(2) [OF k] show ?thesis by (auto simp: current_inv_def)
  next
    case (switch c to p k1)
    note H = highest_priority_thread_spec [OF kinvD(1) [OF k] switch(3)]
    have k1: "kinv k1" using k clear_yield_kinv [OF k] by (simp add: switch(7))
    have same: "thread_stat k1 = thread_stat k" "waitq k1 = waitq k"
      "rt_current_thread k1 = Some c"
      using switch(4) by (auto simp: switch(7))
    have "to \<notin> set (waitq k q)" for q
      using queue_invD(4) [OF kinvD(1) [OF k]] H(3) by (force simp: wait_inv_def)
    then have "waitq k' = waitq k"
      using schedule_switch_lists(2) [OF switch(8,5)] same(2) by (simp add: fun_eq_iff)
    moreover have "thread_stat k' t = thread_stat k t"
      if "thread_stat k t \<noteq> RT_THREAD_READY" "thread_stat k t \<noteq> RT_THREAD_RUNNING"
    proof -
      have "thread_stat k1 to = RT_THREAD_READY"
        "(thread_stat k c = RT_THREAD_RUNNING) \<longleftrightarrow> thread_stat k1 c = RT_THREAD_RUNNING"
        using H(3) by (simp_all add: same)
      from schedule_switch_spec(4) [OF k1 same(3) switch(5) this switch(8), of t] that H(3)
      show ?thesis by (metis same(1))
    qed
    ultimately show ?thesis by blast
  qed auto
  then show "thread_stat k t \<noteq> RT_THREAD_READY \<Longrightarrow> thread_stat k t \<noteq> RT_THREAD_RUNNING
      \<Longrightarrow> thread_stat k' t = thread_stat k t" "waitq k' = waitq k"
    by auto
  show "thread_prio k' t = thread_prio k t"
    using rt_schedule_frame [OF s] by (simp add: sched_frame_def same_thread_data_def thread_prio_def)
qed


lemma rt_schedule_runnable:
  assumes k: "kinv k" and s: "rt_schedule k = Some k'"
    and t: "thread_stat k t = RT_THREAD_READY \<or> thread_stat k t = RT_THREAD_RUNNING"
  shows "thread_stat k' t = RT_THREAD_READY \<or> thread_stat k' t = RT_THREAD_RUNNING"
  using s
proof (cases rule: rt_schedule_cases)
  case (stay c to p)
  then have r: "thread_stat k c = RT_THREAD_RUNNING" by (simp add: stays_current_def)
  with stay_kinv(2) [OF k stay(4) r] t show ?thesis by (simp add: stay(6))
next
  case (self c p)
  then have "thread_stat k c = RT_THREAD_READY"
    using highest_priority_thread_spec(3) [OF kinvD(1) [OF k]] by blast
  with self kinvD(2) [OF k] show ?thesis by (auto simp: current_inv_def)
next
  case (switch c to p k1)
  have k1: "kinv k1" using k clear_yield_kinv [OF k] by (simp add: switch(7))
  have same: "thread_stat k1 = thread_stat k" "rt_current_thread k1 = Some c"
    using switch(4) by (auto simp: switch(7))
  have pre: "thread_stat k1 to = RT_THREAD_READY"
    "(thread_stat k c = RT_THREAD_RUNNING) \<longleftrightarrow> thread_stat k1 c = RT_THREAD_RUNNING"
    using highest_priority_thread_spec(3) [OF kinvD(1) [OF k] switch(3)] by (simp_all add: same)
  note S = schedule_switch_spec(3,4) [OF k1 same(2) switch(5) pre switch(8)]
  show ?thesis
  proof (cases "t = to")
    case True
    then show ?thesis using S(1) by simp
  next
    case False
    then show ?thesis using S(2) [OF False] t by (simp add: same(1))
  qed
qed (use t in auto)

lemma sched_frameD:
  assumes "sched_frame k k'"
  shows "rt_tick k' = rt_tick k" "rt_scheduler_lock_nest k' = rt_scheduler_lock_nest k"
    "rt_interrupt_nest k' = rt_interrupt_nest k" "timers k' = timers k"
    "timer_list k' = timer_list k" "timer_tmp k' = timer_tmp k" "sems k' = sems k"
    "mutexes k' = mutexes k" "events k' = events k" "mailboxes k' = mailboxes k"
    "msgqueues k' = msgqueues k" "error (threads k' t) = error (threads k t)"
    "event_set (threads k' t) = event_set (threads k t)"
    "event_info (threads k' t) = event_info (threads k t)"
    "static_object (threads k' t) = static_object (threads k t)"
    "thread_prio k' t = thread_prio k t" "mempools k' = mempools k" "devs k' = devs k"
  using assms by (simp_all add: sched_frame_def same_thread_data_def thread_prio_def)

lemmas remove_thread_frame [simp] = sched_frameD [OF sched_frame_remove]
lemmas insert_thread_frame [simp] = sched_frameD [OF sched_frame_insert]

lemma stack_check_same: "same_thread_data x y \<Longrightarrow> scheduler_stack_check y = scheduler_stack_check x"
  by (simp add: same_thread_data_def scheduler_stack_check_def)

lemma sched_frame_stacks_ok: "sched_frame k k' \<Longrightarrow> stacks_ok k' = stacks_ok k"
  by (metis sched_frame_def stack_check_same stacks_ok_def)

end
