(* ===== verification/Rtt_Timer.thy ===== *)
theory Rtt_Timer
  imports Rtt_Kernel
begin

unbundle bit_operations_syntax

text \<open>
  Hard timers, \<^verbatim>\<open>src/timer.c\<close> with \<^verbatim>\<open>RT_TIMER_SKIP_LIST_LEVEL\<close> 1 and without
  \<^verbatim>\<open>RT_USING_TIMER_SOFT\<close>, and the tick variable of \<^verbatim>\<open>src/clock.c\<close>. The skip list has one level, so
  it is the sorted list \<open>timer_list\<close>; \<open>timer_tmp\<close> is the local list of \<^verbatim>\<open>rt_timer_check\<close> that holds
  a timer while its timeout function runs. A timer's function is a parameter of the check, since
  the program's users supply it.
\<close>

definition RT_TIMER_FLAG_ACTIVATED :: u8 where "RT_TIMER_FLAG_ACTIVATED = 0x1"
definition RT_TIMER_FLAG_DEACTIVATED :: u8 where "RT_TIMER_FLAG_DEACTIVATED = 0x0"
definition RT_TIMER_FLAG_PERIODIC :: u8 where "RT_TIMER_FLAG_PERIODIC = 0x2"
definition RT_TIMER_FLAG_ONE_SHOT :: u8 where "RT_TIMER_FLAG_ONE_SHOT = 0x0"

definition RT_TICK_MAX :: u32 where "RT_TICK_MAX = 0xffffffff"

definition half_tick_max :: u32 where "half_tick_max = RT_TICK_MAX div 2"

datatype timer_cmd = RT_TIMER_CTRL_SET_TIME | RT_TIMER_CTRL_GET_TIME | RT_TIMER_CTRL_SET_ONESHOT
  | RT_TIMER_CTRL_SET_PERIODIC | RT_TIMER_CTRL_GET_STATE | RT_TIMER_CTRL_GET_REMAIN_TIME
  | Timer_ctrl_unknown

section \<open>The tick\<close>

definition rt_tick_get :: "kernel \<Rightarrow> u32" where
  "rt_tick_get k = rt_tick k"

definition rt_tick_set :: "u32 \<Rightarrow> kernel \<Rightarrow> kernel" where
  "rt_tick_set n k = k\<lparr>rt_tick := n\<rparr>"

section \<open>Timer operations\<close>

definition upd_timer :: "timer_id \<Rightarrow> (timer \<Rightarrow> timer) \<Rightarrow> kernel \<Rightarrow> kernel" where
  "upd_timer t f k = k\<lparr>timers := (timers k)(t := f (timers k t))\<rparr>"

definition timer_flag_set :: "timer \<Rightarrow> u8 \<Rightarrow> bool" where
  "timer_flag_set x f \<longleftrightarrow> tm_flag x AND f \<noteq> 0"

definition clear_activated :: "timer \<Rightarrow> timer" where
  "clear_activated x = x\<lparr>tm_flag := tm_flag x AND NOT RT_TIMER_FLAG_ACTIVATED\<rparr>"

definition set_activated :: "timer \<Rightarrow> timer" where
  "set_activated x = x\<lparr>tm_flag := tm_flag x OR RT_TIMER_FLAG_ACTIVATED\<rparr>"

text \<open>\<^verbatim>\<open>_timer_init\<close>, with the object's static mark that \<^verbatim>\<open>rt_object_init\<close> or
  \<^verbatim>\<open>rt_object_allocate\<close> gave it.\<close>

definition timer_init_fields :: "timer_id \<Rightarrow> bool \<Rightarrow> u32 \<Rightarrow> u8 \<Rightarrow> kernel \<Rightarrow> kernel" where
  "timer_init_fields t is_static time flag k =
     upd_timer t (\<lambda>_. \<lparr>tm_flag = flag AND NOT RT_TIMER_FLAG_ACTIVATED, tm_init_tick = time,
       tm_timeout_tick = 0, tm_static = is_static\<rparr>) k"

definition rt_timer_init :: "timer_id \<Rightarrow> u32 \<Rightarrow> u8 \<Rightarrow> kernel \<Rightarrow> kernel option" where
  "rt_timer_init t time flag k = do {
     rt_assert (time < half_tick_max);
     Some (timer_init_fields t True time flag k) }"

text \<open>\<^verbatim>\<open>_timer_remove\<close>: the timer leaves the list it is in.\<close>

definition timer_remove :: "timer_id \<Rightarrow> kernel \<Rightarrow> kernel" where
  "timer_remove t k = k\<lparr>timer_list := removeAll t (timer_list k),
     timer_tmp := removeAll t (timer_tmp k)\<rparr>"

definition rt_timer_detach :: "timer_id \<Rightarrow> kernel \<Rightarrow> (rt_err \<times> kernel) option" where
  "rt_timer_detach t k = do {
     rt_assert (tm_static (timers k t));
     Some (RT_EOK, upd_timer t clear_activated (timer_remove t k)) }"

text \<open>\<^verbatim>\<open>rt_timer_create\<close> once the object has been allocated under the name \<open>t\<close>; \<open>None\<close> as the
  first argument is a failed allocation.\<close>

definition rt_timer_create ::
    "timer_id option \<Rightarrow> u32 \<Rightarrow> u8 \<Rightarrow> kernel \<Rightarrow> (timer_id option \<times> kernel) option" where
  "rt_timer_create alloc time flag k = do {
     rt_assert (time < half_tick_max);
     (case alloc of
        None \<Rightarrow> Some (None, k)
      | Some t \<Rightarrow> Some (Some t, timer_init_fields t False time flag k)) }"

definition rt_timer_delete :: "timer_id \<Rightarrow> kernel \<Rightarrow> (rt_err \<times> kernel) option" where
  "rt_timer_delete t k = do {
     rt_assert (\<not> tm_static (timers k t));
     Some (RT_EOK, upd_timer t clear_activated (timer_remove t k)) }"

text \<open>
  The search loop of \<^verbatim>\<open>rt_timer_start\<close>: pass every timer that expires no later, and stop at the
  first one that expires later, differences being taken modulo \<open>2 ^ 32\<close>.
\<close>

definition timer_goes_before :: "u32 \<Rightarrow> u32 \<Rightarrow> bool" where
  "timer_goes_before new_tick t_tick \<longleftrightarrow>
     t_tick - new_tick \<noteq> 0 \<and> t_tick - new_tick < half_tick_max"

definition timer_insert :: "timer_id \<Rightarrow> kernel \<Rightarrow> kernel" where
  "timer_insert t k = k\<lparr>timer_list :=
     list_insert_where
       (\<lambda>s. timer_goes_before (tm_timeout_tick (timers k t)) (tm_timeout_tick (timers k s)))
       t (timer_list k)\<rparr>"

definition rt_timer_start :: "timer_id \<Rightarrow> kernel \<Rightarrow> rt_err \<times> kernel" where
  "rt_timer_start t k =
     (let k = timer_remove t k;
          k = upd_timer t clear_activated k;
          k = upd_timer t (\<lambda>x. x\<lparr>tm_timeout_tick := rt_tick_get k + tm_init_tick x\<rparr>) k;
          k = timer_insert t k;
          k = upd_timer t set_activated k
      in (RT_EOK, k))"

definition rt_timer_stop :: "timer_id \<Rightarrow> kernel \<Rightarrow> rt_err \<times> kernel" where
  "rt_timer_stop t k =
     (if \<not> timer_flag_set (timers k t) RT_TIMER_FLAG_ACTIVATED then (RT_ERROR, k)
      else (RT_EOK, upd_timer t clear_activated (timer_remove t k)))"

text \<open>
  \<^verbatim>\<open>rt_timer_control\<close>: the word \<open>arg\<close> points to is an input and an output. The case
  \<^verbatim>\<open>GET_STATE\<close> has no \<^verbatim>\<open>break\<close> and runs on into \<^verbatim>\<open>GET_REMAIN_TIME\<close>.
\<close>

definition timer_get_remain_time :: "u32 \<Rightarrow> timer \<Rightarrow> (u32 \<times> timer) option" where
  "timer_get_remain_time arg x = (let arg = tm_timeout_tick x in Some (arg, x))"

fun timer_control_body :: "timer_cmd \<Rightarrow> u32 \<Rightarrow> timer \<Rightarrow> (u32 \<times> timer) option" where
  "timer_control_body RT_TIMER_CTRL_GET_TIME arg x = Some (tm_init_tick x, x)"
| "timer_control_body RT_TIMER_CTRL_SET_TIME arg x =
     do { rt_assert (arg < half_tick_max); Some (arg, x\<lparr>tm_init_tick := arg\<rparr>) }"
| "timer_control_body RT_TIMER_CTRL_SET_ONESHOT arg x =
     Some (arg, x\<lparr>tm_flag := tm_flag x AND NOT RT_TIMER_FLAG_PERIODIC\<rparr>)"
| "timer_control_body RT_TIMER_CTRL_SET_PERIODIC arg x =
     Some (arg, x\<lparr>tm_flag := tm_flag x OR RT_TIMER_FLAG_PERIODIC\<rparr>)"
| "timer_control_body RT_TIMER_CTRL_GET_STATE arg x =
     (let arg = (if timer_flag_set x RT_TIMER_FLAG_ACTIVATED
                 then ucast RT_TIMER_FLAG_ACTIVATED else ucast RT_TIMER_FLAG_DEACTIVATED)
      in timer_get_remain_time arg x)"
| "timer_control_body RT_TIMER_CTRL_GET_REMAIN_TIME arg x = timer_get_remain_time arg x"
| "timer_control_body Timer_ctrl_unknown arg x = Some (arg, x)"

definition rt_timer_control ::
    "timer_id \<Rightarrow> timer_cmd \<Rightarrow> u32 \<Rightarrow> kernel \<Rightarrow> (rt_err \<times> u32 \<times> kernel) option" where
  "rt_timer_control t cmd arg k = do {
     (arg', x) \<leftarrow> timer_control_body cmd arg (timers k t);
     Some (RT_EOK, arg', upd_timer t (\<lambda>_. x) k) }"

section \<open>Expiry\<close>

definition timer_expired :: "u32 \<Rightarrow> timer \<Rightarrow> bool" where
  "timer_expired current_tick x \<longleftrightarrow> current_tick - tm_timeout_tick x < half_tick_max"

text \<open>What \<^verbatim>\<open>rt_timer_check\<close> does to a timer before and after its timeout function runs.\<close>

definition timer_take :: "timer_id \<Rightarrow> kernel \<Rightarrow> kernel" where
  "timer_take t k =
     (let k = timer_remove t k;
          k = (if timer_flag_set (timers k t) RT_TIMER_FLAG_PERIODIC then k
               else upd_timer t clear_activated k)
      in k\<lparr>timer_tmp := t # timer_tmp k\<rparr>)"

definition timer_put_back :: "timer_id \<Rightarrow> kernel \<Rightarrow> kernel" where
  "timer_put_back t k =
     (if timer_tmp k = [] then k
      else
        (let k = timer_remove t k in
         if timer_flag_set (timers k t) RT_TIMER_FLAG_PERIODIC
            \<and> timer_flag_set (timers k t) RT_TIMER_FLAG_ACTIVATED
         then snd (rt_timer_start t (upd_timer t clear_activated k))
         else k))"

type_synonym timeout_funcs = "timer_id \<Rightarrow> kernel \<Rightarrow> kernel option"

text \<open>
  The loop. \<open>None\<close> is a timeout function that stops at an assertion, or a loop that never ends (a
  periodic timer of zero ticks is restarted already expired).
\<close>

partial_function (option) timer_check_loop ::
    "timeout_funcs \<Rightarrow> u32 \<Rightarrow> kernel \<Rightarrow> kernel option" where
  "timer_check_loop timeout_func current_tick k =
     (case timer_list k of
        [] \<Rightarrow> Some k
      | t # _ \<Rightarrow>
          if timer_expired current_tick (timers k t)
          then do {
            k' \<leftarrow> timeout_func t (timer_take t k);
            timer_check_loop timeout_func (rt_tick_get k') (timer_put_back t k') }
          else Some k)"

definition rt_timer_check :: "timeout_funcs \<Rightarrow> kernel \<Rightarrow> kernel option" where
  "rt_timer_check timeout_func k =
     timer_check_loop timeout_func (rt_tick_get k) (k\<lparr>timer_tmp := []\<rparr>)"

definition timer_list_next_timeout :: "kernel \<Rightarrow> u32 option" where
  "timer_list_next_timeout k =
     (case timer_list k of [] \<Rightarrow> None | t # _ \<Rightarrow> Some (tm_timeout_tick (timers k t)))"

definition rt_timer_next_timeout_tick :: "kernel \<Rightarrow> u32" where
  "rt_timer_next_timeout_tick k =
     (case timer_list_next_timeout k of None \<Rightarrow> RT_TICK_MAX | Some n \<Rightarrow> n)"

definition rt_system_timer_init :: "kernel \<Rightarrow> kernel" where
  "rt_system_timer_init k = k\<lparr>timer_list := []\<rparr>"

section \<open>Facts about single operations\<close>

lemma upd_timer_fields [simp]:
  "timers (upd_timer t f k) s = (if s = t then f (timers k t) else timers k s)"
  "timer_list (upd_timer t f k) = timer_list k"
  "timer_tmp (upd_timer t f k) = timer_tmp k"
  "rt_tick (upd_timer t f k) = rt_tick k"
  "threads (upd_timer t f k) = threads k"
  "rt_current_thread (upd_timer t f k) = rt_current_thread k"
  by (simp_all add: upd_timer_def)

lemma timer_remove_fields [simp]:
  "timers (timer_remove t k) = timers k"
  "timer_list (timer_remove t k) = removeAll t (timer_list k)"
  "timer_tmp (timer_remove t k) = removeAll t (timer_tmp k)"
  "rt_tick (timer_remove t k) = rt_tick k"
  "threads (timer_remove t k) = threads k"
  "rt_current_thread (timer_remove t k) = rt_current_thread k"
  by (simp_all add: timer_remove_def)

lemma timer_insert_fields [simp]:
  "timers (timer_insert t k) = timers k"
  "timer_tmp (timer_insert t k) = timer_tmp k"
  "rt_tick (timer_insert t k) = rt_tick k"
  "threads (timer_insert t k) = threads k"
  "rt_current_thread (timer_insert t k) = rt_current_thread k"
  by (simp_all add: timer_insert_def)

lemma flag_activated [simp]:
  "timer_flag_set (clear_activated x) RT_TIMER_FLAG_ACTIVATED = False"
  "timer_flag_set (set_activated x) RT_TIMER_FLAG_ACTIVATED = True"
  "timer_flag_set (x\<lparr>tm_timeout_tick := n\<rparr>) f = timer_flag_set x f"
  "timer_flag_set (x\<lparr>tm_init_tick := n\<rparr>) f = timer_flag_set x f"
  "tm_timeout_tick (clear_activated x) = tm_timeout_tick x"
  "tm_timeout_tick (set_activated x) = tm_timeout_tick x"
  "tm_init_tick (clear_activated x) = tm_init_tick x"
  "tm_init_tick (set_activated x) = tm_init_tick x"
  "tm_static (clear_activated x) = tm_static x"
  "tm_static (set_activated x) = tm_static x"
proof -
  have "(f OR 1) AND 1 = (1 :: u8)" for f :: u8
    by (rule bit_eqI) (auto simp: bit_simps)
  then show "timer_flag_set (set_activated x) RT_TIMER_FLAG_ACTIVATED = True"
    by (simp add: timer_flag_set_def set_activated_def RT_TIMER_FLAG_ACTIVATED_def)
  have c: "(f AND NOT 1) AND 1 = (0 :: u8)" for f :: u8
    by (rule bit_eqI) (auto simp: bit_simps)
  show "timer_flag_set (clear_activated x) RT_TIMER_FLAG_ACTIVATED = False"
    by (cases x) (simp only: timer_flag_set_def clear_activated_def RT_TIMER_FLAG_ACTIVATED_def
        timer.simps c not_True_eq_False simp_thms)
qed (simp_all add: timer_flag_set_def clear_activated_def set_activated_def)

lemma flag_periodic_clear [simp]:
  "timer_flag_set (clear_activated x) RT_TIMER_FLAG_PERIODIC = timer_flag_set x RT_TIMER_FLAG_PERIODIC"
proof -
  have "(f AND NOT 1) AND 2 = f AND (2 :: u8)" for f :: u8
    by (simp add: ac_simps)
  then show ?thesis
    by (simp add: timer_flag_set_def clear_activated_def RT_TIMER_FLAG_ACTIVATED_def
        RT_TIMER_FLAG_PERIODIC_def)
qed

abbreviation activated :: "kernel \<Rightarrow> timer_id \<Rightarrow> bool" where
  "activated k t \<equiv> timer_flag_set (timers k t) RT_TIMER_FLAG_ACTIVATED"

section \<open>The invariant of the timer list\<close>

definition timer_inv :: "kernel \<Rightarrow> bool" where
  "timer_inv k \<longleftrightarrow> distinct (timer_list k) \<and>
     (\<forall>t. activated k t \<longrightarrow> t \<in> set (timer_list k) \<union> set (timer_tmp k)) \<and>
     (\<forall>t\<in>set (timer_list k). activated k t \<and> t \<notin> set (timer_tmp k))"

lemma rt_timer_start_eq:
  "snd (rt_timer_start t k) =
     (let k1 = upd_timer t (\<lambda>x. (clear_activated x)\<lparr>tm_timeout_tick := rt_tick k + tm_init_tick x\<rparr>)
                 (timer_remove t k)
      in upd_timer t set_activated (timer_insert t k1))"
  by (simp add: rt_timer_start_def Let_def upd_timer_def timer_remove_def timer_insert_def
      rt_tick_get_def)

lemma rt_timer_start_fields:
  "timers (snd (rt_timer_start t k)) s =
     (if s = t then set_activated
        ((clear_activated (timers k t))\<lparr>tm_timeout_tick := rt_tick k + tm_init_tick (timers k t)\<rparr>)
      else timers k s)"
  "timer_tmp (snd (rt_timer_start t k)) = removeAll t (timer_tmp k)"
  "rt_tick (snd (rt_timer_start t k)) = rt_tick k"
  "set (timer_list (snd (rt_timer_start t k))) = insert t (set (timer_list k))"
  "threads (snd (rt_timer_start t k)) = threads k"
  "fst (rt_timer_start t k) = RT_EOK"
  by (simp_all add: rt_timer_start_eq Let_def) (auto simp: timer_insert_def rt_timer_start_def Let_def)

lemma rt_timer_start_list:
  "timer_list (snd (rt_timer_start t k)) =
     list_insert_where
       (\<lambda>s. timer_goes_before (rt_tick k + tm_init_tick (timers k t))
              (if s = t then rt_tick k + tm_init_tick (timers k t)
               else tm_timeout_tick (timers k s)))
       t (removeAll t (timer_list k))"
  by (simp add: rt_timer_start_eq Let_def timer_insert_def if_distrib cong: if_cong)

lemma rt_timer_start_inv:
  assumes "timer_inv k"
  shows "timer_inv (snd (rt_timer_start t k))"
  using assms
  by (auto simp: timer_inv_def rt_timer_start_fields rt_timer_start_list distinct_removeAll split: if_splits)

lemma rt_timer_start_active:
  "activated (snd (rt_timer_start t k)) t \<and> t \<in> set (timer_list (snd (rt_timer_start t k)))"
  by (simp add: rt_timer_start_fields)

lemma timer_drop_inv:
  assumes "timer_inv k"
  shows "timer_inv (upd_timer t clear_activated (timer_remove t k))"
  using assms by (auto simp: timer_inv_def distinct_removeAll)

lemma rt_timer_stop_inv:
  assumes "timer_inv k"
  shows "timer_inv (snd (rt_timer_stop t k))"
  using timer_drop_inv [OF assms] assms by (simp add: rt_timer_stop_def)

lemma rt_timer_stop_inactive:
  assumes "timer_inv k" "timer_tmp k = []"
  shows "\<not> activated (snd (rt_timer_stop t k)) t" "t \<notin> set (timer_list (snd (rt_timer_stop t k)))"
  using assms by (auto simp: rt_timer_stop_def timer_inv_def)

text \<open>Stopping an active timer and starting it again moves it to its new place, once.\<close>

lemma rt_timer_detach_inv:
  "timer_inv k \<Longrightarrow> rt_timer_detach t k = Some (e, k') \<Longrightarrow> timer_inv k'"
  by (auto simp: rt_timer_detach_def intro: timer_drop_inv)

lemma rt_timer_delete_inv:
  "timer_inv k \<Longrightarrow> rt_timer_delete t k = Some (e, k') \<Longrightarrow> timer_inv k'"
  by (auto simp: rt_timer_delete_def intro: timer_drop_inv)


section \<open>Order of expiry\<close>

text \<open>
  A pending timer's distance from the current tick, modulo the tick's \<open>2 ^ 32\<close>. As long as every
  distance is below half the range, the comparison of \<^verbatim>\<open>rt_timer_start\<close> orders timers by it.
\<close>

definition timer_remaining :: "kernel \<Rightarrow> timer_id \<Rightarrow> nat" where
  "timer_remaining k t = unat (tm_timeout_tick (timers k t) - rt_tick k)"

definition timers_pending :: "kernel \<Rightarrow> bool" where
  "timers_pending k \<longleftrightarrow> (\<forall>t\<in>set (timer_list k). timer_remaining k t < unat half_tick_max)"

definition timers_sorted :: "kernel \<Rightarrow> bool" where
  "timers_sorted k \<longleftrightarrow> sorted (map (timer_remaining k) (timer_list k))"

lemma half_tick_max_value: "half_tick_max = 0x7fffffff"
  by (simp add: half_tick_max_def RT_TICK_MAX_def)

text \<open>The comparison is right whenever both distances are below half the range.\<close>

lemma timer_goes_before_iff:
  assumes "unat (a - n) < unat half_tick_max" "unat (b - n) < unat half_tick_max"
  shows "timer_goes_before a b \<longleftrightarrow> unat (a - n) < unat (b - n)"
proof -
  define x y where "x = a - n" and "y = b - n"
  have xy: "unat x < 0x7fffffff" "unat y < 0x7fffffff"
    using assms by (simp_all add: x_def y_def half_tick_max_value)
  have "y - x \<noteq> 0 \<and> y - x < 0x7fffffff \<longleftrightarrow> unat x < unat y"
  proof -
    have "unat (y - x) = (if unat x \<le> unat y then unat y - unat x else unat y + 2 ^ 32 - unat x)"
      by (simp add: unat_sub_if')
    moreover have "y - x \<noteq> 0 \<longleftrightarrow> unat y \<noteq> unat x"
      by (metis right_minus_eq word_unat_eq_iff)
    ultimately show ?thesis using xy by (auto simp: word_less_nat_alt)
  qed
  moreover have "b - a = y - x" by (simp add: x_def y_def)
  ultimately show ?thesis
    unfolding timer_goes_before_def half_tick_max_value by (simp only: x_def y_def)
qed

lemma sorted_list_insert_where:
  assumes "sorted (map f ys)" "\<And>y. y \<in> set ys \<Longrightarrow> P y \<longleftrightarrow> f x < f y"
  shows "sorted (map f (list_insert_where P x ys))"
  using assms
proof (induction ys)
  case (Cons y ys)
  then show ?case
    by (cases "P y") (auto simp: set_list_insert_where)
qed simp

lemma rt_timer_start_sorted:
  assumes s: "timers_sorted k" and p: "timers_pending k"
    and i: "tm_init_tick (timers k t) < half_tick_max"
  shows "timers_sorted (snd (rt_timer_start t k)) \<and> timers_pending (snd (rt_timer_start t k))"
proof -
  let ?k = "snd (rt_timer_start t k)"
  have rem: "timer_remaining ?k s = (if s = t then unat (tm_init_tick (timers k t))
      else timer_remaining k s)" for s
    by (simp add: timer_remaining_def rt_timer_start_fields)
  have it: "unat (tm_init_tick (timers k t)) < unat half_tick_max"
    using i by (simp add: word_less_nat_alt)
  have "timers_pending ?k"
    using p it by (auto simp: timers_pending_def rem rt_timer_start_fields)
  moreover have "timers_sorted ?k"
    unfolding timers_sorted_def rt_timer_start_list
  proof (rule sorted_list_insert_where)
    have "map (timer_remaining ?k) (removeAll t (timer_list k))
        = map (timer_remaining k) (removeAll t (timer_list k))"
      by (intro map_cong refl) (auto simp: rem)
    moreover have "sorted (map (timer_remaining k) (removeAll t (timer_list k)))"
      using s by (simp add: timers_sorted_def sorted_filter removeAll_filter_not_eq)
    ultimately show "sorted (map (timer_remaining ?k) (removeAll t (timer_list k)))" by (simp only:)
    fix y assume y: "y \<in> set (removeAll t (timer_list k))"
    with p have "timer_remaining k y < unat half_tick_max" by (simp add: timers_pending_def)
    with it timer_goes_before_iff [of "rt_tick k + tm_init_tick (timers k t)" "rt_tick k"
        "tm_timeout_tick (timers k y)"]
    have "timer_goes_before (rt_tick k + tm_init_tick (timers k t)) (tm_timeout_tick (timers k y))
      \<longleftrightarrow> unat (tm_init_tick (timers k t)) < timer_remaining k y"
      by (simp add: timer_remaining_def)
    with y show "timer_goes_before (rt_tick k + tm_init_tick (timers k t))
        (if y = t then rt_tick k + tm_init_tick (timers k t) else tm_timeout_tick (timers k y))
      \<longleftrightarrow> timer_remaining ?k t < timer_remaining ?k y"
      by (simp add: rem)
  qed
  ultimately show ?thesis by blast
qed

text \<open>Timers that expire at the same tick keep the order in which they were started.\<close>

lemma rt_timer_start_after_equals:
  assumes p: "timers_pending k" and i: "tm_init_tick (timers k t) < half_tick_max"
    and s: "timers_sorted k"
  shows "\<exists>as bs. removeAll t (timer_list k) = as @ bs
    \<and> timer_list (snd (rt_timer_start t k)) = as @ t # bs
    \<and> (\<forall>a\<in>set as. timer_remaining k a \<le> unat (tm_init_tick (timers k t)))
    \<and> (\<forall>b\<in>set bs. unat (tm_init_tick (timers k t)) < timer_remaining k b)"
proof -
  let ?n = "rt_tick k + tm_init_tick (timers k t)"
  let ?P = "\<lambda>s. timer_goes_before ?n (if s = t then ?n else tm_timeout_tick (timers k s))"
  let ?xs = "removeAll t (timer_list k)"
  have P: "?P y \<longleftrightarrow> unat (tm_init_tick (timers k t)) < timer_remaining k y" if "y \<in> set ?xs" for y
    using timer_goes_before_iff [of ?n "rt_tick k" "tm_timeout_tick (timers k y)"] that p i
    by (auto simp: timers_pending_def timer_remaining_def word_less_nat_alt)
  obtain as bs where ab: "?xs = as @ bs" "list_insert_where ?P t ?xs = as @ t # bs"
    "\<forall>a\<in>set as. \<not> ?P a" "bs \<noteq> [] \<longrightarrow> ?P (hd bs)"
    using list_insert_where_split [of ?xs ?P t] by blast
  have srt: "sorted (map (timer_remaining k) bs)"
    using s ab(1) by (metis timers_sorted_def sorted_filter removeAll_filter_not_eq sorted_append map_append)
  have lo: "\<forall>a\<in>set as. timer_remaining k a \<le> unat (tm_init_tick (timers k t))"
    using ab(1,3) P by (metis Un_iff leI set_append)
  have "unat (tm_init_tick (timers k t)) < timer_remaining k b" if b: "b \<in> set bs" for b
  proof -
    have ne: "bs \<noteq> []" using b by auto
    then have "hd bs \<in> set ?xs" by (simp add: ab(1))
    with P ab(4) ne have "unat (tm_init_tick (timers k t)) < timer_remaining k (hd bs)" by blast
    also have "\<dots> \<le> timer_remaining k b"
      using srt b by (cases bs) auto
    finally show ?thesis .
  qed
  with lo ab show ?thesis by (metis rt_timer_start_list)
qed

section \<open>What the check fires\<close>

text \<open>
  A timeout function is \<^emph>\<open>timer neutral\<close> if it leaves the timers and the tick alone, as
  \<^verbatim>\<open>_thread_timeout\<close> does. \<open>fire_all\<close> is the reference: every timer of a list is taken, its
  function runs, and it is dropped.
\<close>

definition timer_neutral :: "timeout_funcs \<Rightarrow> bool" where
  "timer_neutral f \<longleftrightarrow> (\<forall>t k k'. f t k = Some k' \<longrightarrow>
     timers k' = timers k \<and> timer_list k' = timer_list k \<and> timer_tmp k' = timer_tmp k
     \<and> rt_tick k' = rt_tick k)"

fun fire_all :: "timeout_funcs \<Rightarrow> timer_id list \<Rightarrow> kernel \<Rightarrow> kernel option" where
  "fire_all f [] k = Some k"
| "fire_all f (t # ts) k = do { k' \<leftarrow> f t (timer_take t k); fire_all f ts (timer_remove t k') }"

lemma timer_take_fields:
  "timer_list (timer_take t k) = removeAll t (timer_list k)"
  "s \<noteq> t \<Longrightarrow> timers (timer_take t k) s = timers k s"
  "timer_tmp (timer_take t k) = t # removeAll t (timer_tmp k)"
  "rt_tick (timer_take t k) = rt_tick k"
  "timer_flag_set (timers (timer_take t k) t) RT_TIMER_FLAG_PERIODIC
     = timer_flag_set (timers k t) RT_TIMER_FLAG_PERIODIC"
  "tm_timeout_tick (timers (timer_take t k) s) = tm_timeout_tick (timers k s)"
  by (auto simp: timer_take_def Let_def)

lemma timer_put_back_one_shot:
  assumes "timer_tmp k = [t]" "\<not> timer_flag_set (timers k t) RT_TIMER_FLAG_PERIODIC"
  shows "timer_put_back t k = timer_remove t k"
  using assms by (simp add: timer_put_back_def Let_def)

text \<open>
  With one-shot timers only, the check fires exactly the expired front of the list, in list order,
  and leaves the rest.
\<close>

lemma timer_check_loop_fires:
  assumes "timer_neutral f" and "distinct (timer_list k)" and "timer_tmp k = []"
    and "\<forall>t\<in>set (timer_list k). \<not> timer_flag_set (timers k t) RT_TIMER_FLAG_PERIODIC"
  shows "timer_check_loop f (rt_tick k) k =
    fire_all f (takeWhile (\<lambda>t. timer_expired (rt_tick k) (timers k t)) (timer_list k)) k"
  using assms(2-)
proof (induction "timer_list k" arbitrary: k)
  case Nil
  then show ?case by (subst timer_check_loop.simps) (simp flip: Nil.hyps)
next
  case (Cons t ts)
  note l = Cons.hyps(2) [symmetric]
  have tn: "t \<notin> set ts" using Cons.prems(1) l by simp
  show ?case
  proof (cases "timer_expired (rt_tick k) (timers k t)")
    case False
    then show ?thesis by (subst timer_check_loop.simps) (simp add: l)
  next
    case True
    have step: "timer_check_loop f (rt_tick k) k = do {
        k' \<leftarrow> f t (timer_take t k);
        timer_check_loop f (rt_tick k') (timer_put_back t k') }"
      using True by (subst timer_check_loop.simps) (simp add: l rt_tick_get_def)
    show ?thesis
    proof (cases "f t (timer_take t k)")
      case None
      with step True show ?thesis by (simp add: l)
    next
      case (Some k1)
      have n: "timers k1 = timers (timer_take t k)" "timer_list k1 = ts" "timer_tmp k1 = [t]"
        "rt_tick k1 = rt_tick k"
        using assms(1) Some Cons.prems(2) l tn
        by (auto simp: timer_neutral_def timer_take_fields)
      have os: "\<not> timer_flag_set (timers k1 t) RT_TIMER_FLAG_PERIODIC"
        using Cons.prems(3) l by (simp add: n(1) timer_take_fields)
      let ?k2 = "timer_remove t k1"
      have pb: "timer_put_back t k1 = ?k2" by (rule timer_put_back_one_shot [OF n(3) os])
      have same: "timers ?k2 s = timers k s" if "s \<in> set ts" for s
        using that tn n(1) timer_take_fields(2) timer_remove_fields(1) by metis
      have "timer_check_loop f (rt_tick ?k2) ?k2 =
          fire_all f (takeWhile (\<lambda>s. timer_expired (rt_tick ?k2) (timers ?k2 s)) (timer_list ?k2)) ?k2"
      proof (rule Cons.hyps(1))
        show "ts = timer_list ?k2" using tn by (simp add: n(2))
        show "distinct (timer_list ?k2)" using Cons.prems(1) l by (simp add: n(2))
        show "timer_tmp ?k2 = []" by (simp add: n(3))
        show "\<forall>s\<in>set (timer_list ?k2). \<not> timer_flag_set (timers ?k2 s) RT_TIMER_FLAG_PERIODIC"
          using Cons.prems(3) l same by (auto simp: n(2))
      qed
      moreover have "takeWhile (\<lambda>s. timer_expired (rt_tick ?k2) (timers ?k2 s)) (timer_list ?k2)
          = takeWhile (\<lambda>s. timer_expired (rt_tick k) (timers k s)) ts"
        using tn same by (auto simp: n(2,4) intro!: takeWhile_cong)
      ultimately show ?thesis using Some True by (simp add: step pb n(4) l)
    qed
  qed
qed

text \<open>On a sorted list the expired timers are a prefix, so every expired timer fires.\<close>

lemma takeWhile_eq_filter_sorted:
  assumes "sorted (map g xs)" "\<And>x. x \<in> set xs \<Longrightarrow> P x \<longleftrightarrow> g x \<le> (n :: nat)"
  shows "takeWhile P xs = filter P xs"
  using assms
proof (induction xs)
  case (Cons x xs)
  show ?case
  proof (cases "P x")
    case True
    with Cons show ?thesis by simp
  next
    case False
    with Cons.prems have "\<not> P y" if "y \<in> set xs" for y
      using that by (fastforce simp: not_le)
    with False show ?thesis by (simp add: filter_empty_conv)
  qed
qed simp

text \<open>
  Expiry measured in ticks: \<open>d\<close> ticks after the state \<open>k\<close>, a pending timer has expired exactly if
  it had at most \<open>d\<close> ticks to go, also when the tick counter wraps around in between.
\<close>

lemma timer_expired_after:
  assumes "unat (to - n) < unat half_tick_max" "d < half_tick_max"
  shows "n + d - to < half_tick_max \<longleftrightarrow> unat (to - n) \<le> unat d"
proof -
  define x where "x = to - n"
  have e: "n + d - to = d - x" by (simp add: x_def)
  have "unat x < 0x7fffffff" "unat d < 0x7fffffff"
    using assms by (simp_all add: x_def half_tick_max_value word_less_nat_alt)
  moreover have "unat (d - x) = (if unat x \<le> unat d then unat d - unat x else unat d + 2 ^ 32 - unat x)"
    by (simp add: unat_sub_if')
  ultimately have "d - x < 0x7fffffff \<longleftrightarrow> unat x \<le> unat d"
    by (auto simp: word_less_nat_alt)
  then show ?thesis unfolding e half_tick_max_value by (simp only: x_def)
qed

lemma rt_timer_check_after:
  assumes f: "timer_neutral f" and i: "timer_inv k" and p: "timers_pending k" and s: "timers_sorted k"
    and o: "\<forall>t\<in>set (timer_list k). \<not> timer_flag_set (timers k t) RT_TIMER_FLAG_PERIODIC"
    and d: "d < half_tick_max"
  defines "k0 \<equiv> (rt_tick_set (rt_tick k + d) k)\<lparr>timer_tmp := []\<rparr>"
  shows "rt_timer_check f (rt_tick_set (rt_tick k + d) k) =
    fire_all f (filter (\<lambda>t. timer_remaining k t \<le> unat d) (timer_list k)) k0"
proof -
  have fields: "timer_list k0 = timer_list k" "timers k0 = timers k" "timer_tmp k0 = []"
    "rt_tick k0 = rt_tick k + d"
    by (simp_all add: k0_def rt_tick_set_def)
  have e: "timer_expired (rt_tick k0) (timers k0 t) \<longleftrightarrow> timer_remaining k t \<le> unat d"
    if "t \<in> set (timer_list k)" for t
    using that p timer_expired_after [OF _ d]
    by (auto simp: timer_expired_def fields timers_pending_def timer_remaining_def)
  have "rt_timer_check f (rt_tick_set (rt_tick k + d) k) = timer_check_loop f (rt_tick k0) k0"
    by (simp add: rt_timer_check_def k0_def rt_tick_get_def rt_tick_set_def)
  also have "\<dots> = fire_all f (takeWhile (\<lambda>t. timer_expired (rt_tick k0) (timers k0 t)) (timer_list k)) k0"
    using timer_check_loop_fires [OF f, of k0] i o by (simp add: fields timer_inv_def)
  also have "takeWhile (\<lambda>t. timer_expired (rt_tick k0) (timers k0 t)) (timer_list k)
      = filter (\<lambda>t. timer_expired (rt_tick k0) (timers k0 t)) (timer_list k)"
    using s e by (intro takeWhile_eq_filter_sorted [where g = "timer_remaining k"])
      (auto simp: timers_sorted_def)
  also have "\<dots> = filter (\<lambda>t. timer_remaining k t \<le> unat d) (timer_list k)"
    using e by (intro filter_cong refl) auto
  finally show ?thesis .
qed

section \<open>Timer control\<close>

text \<open>The missing \<^verbatim>\<open>break\<close>: asking for the state of a timer returns its timeout tick.\<close>

lemma rt_timer_control_get_state:
  "rt_timer_control t RT_TIMER_CTRL_GET_STATE arg k =
   Some (RT_EOK, tm_timeout_tick (timers k t), upd_timer t (\<lambda>_. timers k t) k)"
  by (simp add: rt_timer_control_def timer_get_remain_time_def Let_def)

lemma rt_timer_control_set_time:
  "rt_timer_control t RT_TIMER_CTRL_SET_TIME n k =
   (if n < half_tick_max
    then Some (RT_EOK, n, upd_timer t (\<lambda>x. x\<lparr>tm_init_tick := n\<rparr>) k) else None)"
  by (simp add: rt_timer_control_def upd_timer_def)

end
