(* ===== verification/Rtt_Thread.thy ===== *)
theory Rtt_Thread
  imports Rtt_Scheduler Rtt_Timer
begin

unbundle bit_operations_syntax

text \<open>
  Threads, \<^verbatim>\<open>src/thread.c\<close>, with the defunct list of \<^verbatim>\<open>src/idle.c\<close>: creation, start, suspend and
  resume, sleeping on the built-in timer, priority change, exit. What the library outside these
  files supplies (an allocated object, a stack, the initial stack pointer of
  \<^verbatim>\<open>rt_hw_stack_init\<close>) is an argument. The lemmas show that every operation keeps the scheduler's
  invariant, the timer list's, and that a thread with an active timeout is suspended, so that the
  assertion of \<^verbatim>\<open>_thread_timeout\<close> cannot fail.
\<close>

section \<open>The defunct list (idle.c)\<close>

definition rt_thread_defunct_enqueue :: "tid \<Rightarrow> kernel \<Rightarrow> kernel" where
  "rt_thread_defunct_enqueue t k = k\<lparr>rt_thread_defunct := t # rt_thread_defunct k\<rparr>"

definition rt_thread_defunct_dequeue :: "kernel \<Rightarrow> tid option \<times> kernel" where
  "rt_thread_defunct_dequeue k =
     (case rt_thread_defunct k of
        [] \<Rightarrow> (None, k)
      | t # _ \<Rightarrow> (Some t, tlist_remove t k))"

section \<open>Suspend and resume\<close>

definition rt_thread_suspend :: "tid \<Rightarrow> kernel \<Rightarrow> (rt_err \<times> kernel) option" where
  "rt_thread_suspend t k = do {
     rt_assert (rt_thread_self k = Some t);
     (if thread_stat k t \<noteq> RT_THREAD_READY \<and> thread_stat k t \<noteq> RT_THREAD_RUNNING
      then Some (RT_ERROR, k)
      else
        (let k = rt_schedule_remove_thread t k;
             k = upd_thread t (set_stat RT_THREAD_SUSPEND) k;
             k = snd (rt_timer_stop (ThreadTimer t) k)
         in Some (RT_EOK, k))) }"

definition rt_thread_resume :: "tid \<Rightarrow> kernel \<Rightarrow> rt_err \<times> kernel" where
  "rt_thread_resume t k =
     (if thread_stat k t \<noteq> RT_THREAD_SUSPEND then (RT_ERROR, k)
      else
        (let k = tlist_remove t k;
             k = snd (rt_timer_stop (ThreadTimer t) k);
             k = rt_schedule_insert_thread t k
         in (RT_EOK, k)))"

section \<open>Creation and start\<close>

definition set_error :: "rt_err \<Rightarrow> thread \<Rightarrow> thread" where
  "set_error e x = x\<lparr>error := e\<rparr>"

text \<open>\<^verbatim>\<open>_thread_init\<close>: the stack is filled with \<^verbatim>\<open>'#'\<close>, and \<open>sp0\<close> is what \<^verbatim>\<open>rt_hw_stack_init\<close>
  returns.\<close>

definition thread_init ::
    "tid \<Rightarrow> bool \<Rightarrow> u32 \<Rightarrow> u32 \<Rightarrow> u32 \<Rightarrow> nat \<Rightarrow> u32 \<Rightarrow> kernel \<Rightarrow> (rt_err \<times> kernel) option" where
  "thread_init t is_static stack_start stk_size sp0 priority tick k = do {
     rt_assert (priority < RT_THREAD_PRIORITY_MAX);
     let k = upd_thread t (\<lambda>_. \<lparr>stat = RT_THREAD_INIT, current_priority = priority,
       number_mask = 0, error = RT_EOK, event_set = 0, event_info = 0, init_tick = tick,
       remaining_tick = tick, stack_addr = stack_start, stack_size = stk_size, sp = sp0,
       stack_guard = 0x23, static_object = is_static\<rparr>) k;
     k \<leftarrow> rt_timer_init (ThreadTimer t) 0 RT_TIMER_FLAG_ONE_SHOT k;
     Some (RT_EOK, k) }"

definition rt_thread_init ::
    "tid \<Rightarrow> u32 \<Rightarrow> u32 \<Rightarrow> u32 \<Rightarrow> nat \<Rightarrow> u32 \<Rightarrow> kernel \<Rightarrow> (rt_err \<times> kernel) option" where
  "rt_thread_init t stack_start stk_size sp0 priority tick k = do {
     rt_assert (stack_start \<noteq> 0);
     thread_init t True stack_start stk_size sp0 priority tick k }"

text \<open>\<^verbatim>\<open>rt_thread_create\<close>: \<open>obj\<close> and \<open>stk\<close> are the results of the two allocations.\<close>

definition rt_thread_create ::
    "tid option \<Rightarrow> u32 option \<Rightarrow> u32 \<Rightarrow> u32 \<Rightarrow> nat \<Rightarrow> u32 \<Rightarrow> kernel
      \<Rightarrow> (tid option \<times> kernel) option" where
  "rt_thread_create obj stk stk_size sp0 priority tick k =
     (case obj of
        None \<Rightarrow> Some (None, k)
      | Some t \<Rightarrow>
          (case stk of
             None \<Rightarrow> Some (None, k)
           | Some stack_start \<Rightarrow> do {
               (_, k) \<leftarrow> thread_init t False stack_start stk_size sp0 priority tick k;
               Some (Some t, k) }))"

definition rt_thread_startup :: "tid \<Rightarrow> kernel \<Rightarrow> (rt_err \<times> kernel) option" where
  "rt_thread_startup t k = do {
     rt_assert (thread_stat k t = RT_THREAD_INIT);
     let k = upd_thread t
       (\<lambda>x. x\<lparr>number_mask := thread_number_mask (current_priority x), stat := RT_THREAD_SUSPEND\<rparr>) k;
     let k = snd (rt_thread_resume t k);
     k \<leftarrow> (if rt_thread_self k \<noteq> None then rt_schedule k else Some k);
     Some (RT_EOK, k) }"

section \<open>Ending a thread\<close>

definition thread_close :: "tid \<Rightarrow> kernel \<Rightarrow> kernel option" where
  "thread_close t k = do {
     (_, k) \<leftarrow> rt_timer_detach (ThreadTimer t) k;
     let k = upd_thread t (\<lambda>x. x\<lparr>stat := RT_THREAD_CLOSE\<rparr>) k;
     Some (rt_thread_defunct_enqueue t k) }"

definition thread_exit :: "kernel \<Rightarrow> kernel option" where
  "thread_exit k = do {
     t \<leftarrow> rt_thread_self k;
     k \<leftarrow> thread_close t (rt_schedule_remove_thread t k);
     rt_schedule k }"

definition thread_dispose :: "tid \<Rightarrow> kernel \<Rightarrow> (rt_err \<times> kernel) option" where
  "thread_dispose t k =
     (if thread_stat k t = RT_THREAD_CLOSE then Some (RT_EOK, k)
      else do {
        let k = (if thread_stat k t \<noteq> RT_THREAD_INIT then rt_schedule_remove_thread t k else k);
        k \<leftarrow> thread_close t k;
        Some (RT_EOK, k) })"

definition rt_thread_detach :: "tid \<Rightarrow> kernel \<Rightarrow> (rt_err \<times> kernel) option" where
  "rt_thread_detach t k = do {
     rt_assert (static_object (threads k t));
     thread_dispose t k }"

definition rt_thread_delete :: "tid \<Rightarrow> kernel \<Rightarrow> (rt_err \<times> kernel) option" where
  "rt_thread_delete t k = do {
     rt_assert (\<not> static_object (threads k t));
     thread_dispose t k }"

section \<open>Timeouts, yielding and sleeping\<close>

definition thread_timeout :: "tid \<Rightarrow> kernel \<Rightarrow> kernel option" where
  "thread_timeout t k = do {
     rt_assert (thread_stat k t = RT_THREAD_SUSPEND);
     let k = upd_thread t (set_error RT_ETIMEOUT) k;
     let k = tlist_remove t k;
     let k = rt_schedule_insert_thread t k;
     rt_schedule k }"

definition rt_thread_yield :: "kernel \<Rightarrow> (rt_err \<times> kernel) option" where
  "rt_thread_yield k = do {
     t \<leftarrow> rt_thread_self k;
     let k = upd_thread t (\<lambda>x. x\<lparr>remaining_tick := init_tick x,
                               stat := stat x OR RT_THREAD_STAT_YIELD\<rparr>) k;
     k \<leftarrow> rt_schedule k;
     Some (RT_EOK, k) }"

text \<open>Starting the current thread's own timer, as every blocking call with a timeout does.\<close>

definition start_thread_timer :: "tid \<Rightarrow> u32 \<Rightarrow> kernel \<Rightarrow> kernel option" where
  "start_thread_timer t tick k = do {
     (_, _, k) \<leftarrow> rt_timer_control (ThreadTimer t) RT_TIMER_CTRL_SET_TIME tick k;
     Some (snd (rt_timer_start (ThreadTimer t) k)) }"

definition rt_thread_sleep :: "u32 \<Rightarrow> kernel \<Rightarrow> ((tid, rt_err) outcome \<times> kernel) option" where
  "rt_thread_sleep tick k = do {
     t \<leftarrow> rt_thread_self k;
     let k = upd_thread t (set_error RT_EOK) k;
     (_, k) \<leftarrow> rt_thread_suspend t k;
     k \<leftarrow> start_thread_timer t tick k;
     k \<leftarrow> rt_schedule k;
     Some (Waiting t, k) }"

definition rt_thread_sleep_resume :: "tid \<Rightarrow> kernel \<Rightarrow> rt_err \<times> kernel" where
  "rt_thread_sleep_resume t k =
     (let k = (if error (threads k t) = RT_ETIMEOUT then upd_thread t (set_error RT_EOK) k else k)
      in (error (threads k t), k))"

definition rt_thread_delay :: "u32 \<Rightarrow> kernel \<Rightarrow> ((tid, rt_err) outcome \<times> kernel) option" where
  "rt_thread_delay tick k = rt_thread_sleep tick k"

text \<open>\<^verbatim>\<open>rt_thread_delay_until\<close>; the word behind \<^verbatim>\<open>tick\<close> is an input and the second output. Its
  continuation is that of \<^verbatim>\<open>rt_thread_sleep\<close>.\<close>

definition rt_thread_delay_until ::
    "u32 \<Rightarrow> u32 \<Rightarrow> kernel \<Rightarrow> ((tid, rt_err) outcome \<times> u32 \<times> kernel) option" where
  "rt_thread_delay_until tick inc_tick k = do {
     t \<leftarrow> rt_thread_self k;
     let k = upd_thread t (set_error RT_EOK) k;
     let cur_tick = rt_tick_get k;
     (if cur_tick - tick < inc_tick
      then do {
        let tick = tick + inc_tick;
        let left_tick = tick - cur_tick;
        (_, k) \<leftarrow> rt_thread_suspend t k;
        k \<leftarrow> start_thread_timer t left_tick k;
        k \<leftarrow> rt_schedule k;
        Some (Waiting t, tick, k) }
      else Some (Returned (error (threads k t)), cur_tick, k)) }"

section \<open>Control\<close>

datatype thread_cmd = RT_THREAD_CTRL_STARTUP | RT_THREAD_CTRL_CLOSE
  | RT_THREAD_CTRL_CHANGE_PRIORITY nat | Thread_ctrl_unknown

definition set_priority :: "nat \<Rightarrow> thread \<Rightarrow> thread" where
  "set_priority p x = x\<lparr>current_priority := p, number_mask := thread_number_mask p\<rparr>"

text \<open>The change of priority. The C shifts 1 by the new priority, undefined from 32 on.\<close>

definition thread_change_priority :: "tid \<Rightarrow> nat \<Rightarrow> kernel \<Rightarrow> kernel option" where
  "thread_change_priority t p k = do {
     rt_assert (p < 32);
     Some (if thread_stat k t = RT_THREAD_READY
           then rt_schedule_insert_thread t
                  (upd_thread t (set_priority p) (rt_schedule_remove_thread t k))
           else upd_thread t (set_priority p) k) }"

definition rt_thread_control :: "tid \<Rightarrow> thread_cmd \<Rightarrow> kernel \<Rightarrow> (rt_err \<times> kernel) option" where
  "rt_thread_control t cmd k =
     (case cmd of
        RT_THREAD_CTRL_CHANGE_PRIORITY p \<Rightarrow> do {
          k \<leftarrow> thread_change_priority t p k;
          Some (RT_EOK, k) }
      | RT_THREAD_CTRL_STARTUP \<Rightarrow> rt_thread_startup t k
      | RT_THREAD_CTRL_CLOSE \<Rightarrow> do {
          (e, k) \<leftarrow> (if static_object (threads k t) then rt_thread_detach t k
                    else rt_thread_delete t k);
          k \<leftarrow> rt_schedule k;
          Some (e, k) }
      | Thread_ctrl_unknown \<Rightarrow> Some (RT_EOK, k))"

section \<open>The timer list and the threads\<close>

text \<open>
  An active thread timer belongs to a suspended thread. \<open>kernel_ok\<close> collects what every kernel
  operation keeps.
\<close>

definition sleep_inv :: "tid set \<Rightarrow> kernel \<Rightarrow> bool" where
  "sleep_inv X k \<longleftrightarrow>
     (\<forall>t. t \<notin> X \<longrightarrow> ThreadTimer t \<in> set (timer_list k) \<longrightarrow> thread_stat k t = RT_THREAD_SUSPEND)"

definition kernel_ok :: "kernel \<Rightarrow> bool" where
  "kernel_ok k \<longleftrightarrow> kinv k \<and> timer_inv k \<and> sleep_inv {} k"

lemma kernel_okI [intro?]: "kinv k \<Longrightarrow> timer_inv k \<Longrightarrow> sleep_inv {} k \<Longrightarrow> kernel_ok k"
  by (simp add: kernel_ok_def)

lemma kernel_okD:
  assumes "kernel_ok k"
  shows "kinv k" "timer_inv k" "sleep_inv {} k"
  using assms by (simp_all add: kernel_ok_def)

lemma timer_inv_cong:
  assumes "timers k' = timers k" "timer_list k' = timer_list k" "timer_tmp k' = timer_tmp k"
  shows "timer_inv k' = timer_inv k"
  using assms by (simp add: timer_inv_def)

lemma timer_inv_sched: "sched_frame k k' \<Longrightarrow> timer_inv k' = timer_inv k"
  by (rule timer_inv_cong) (auto dest: sched_frameD)

lemma rt_schedule_kernel_ok [inv_intros]:
  assumes k: "kernel_ok k" and s: "rt_schedule k = Some k'"
  shows "kernel_ok k'"
proof
  show "kinv k'" by (rule rt_schedule_kinv [OF kernel_okD(1) [OF k] s])
  show "timer_inv k'" using timer_inv_sched [OF rt_schedule_frame [OF s]] kernel_okD(2) [OF k] by simp
  show "sleep_inv {} k'"
    using kernel_okD(3) [OF k] rt_schedule_others(1) [OF kernel_okD(1) [OF k] s]
      sched_frameD(5) [OF rt_schedule_frame [OF s]]
    by (simp add: sleep_inv_def)
qed

text \<open>Timer operations do not touch the scheduler's state.\<close>

lemma kinv_upd_timer [simp]: "kinv_except X (upd_timer t f k) = kinv_except X k"
  by (simp add: upd_timer_def)

lemma kinv_timer_remove [simp]: "kinv_except X (timer_remove t k) = kinv_except X k"
  by (simp add: timer_remove_def)

lemma kinv_timer_insert [simp]: "kinv_except X (timer_insert t k) = kinv_except X k"
  by (simp add: timer_insert_def)

lemma kinv_timer_start [simp]: "kinv_except X (snd (rt_timer_start t k)) = kinv_except X k"
  by (simp add: rt_timer_start_def Let_def)

lemma kinv_timer_stop [simp]: "kinv_except X (snd (rt_timer_stop t k)) = kinv_except X k"
  by (simp add: rt_timer_stop_def)

text \<open>The fields the timer operations leave alone.\<close>

lemma timer_op_fields [simp]:
  "threads (snd (rt_timer_stop s k)) = threads k"
  "rt_current_thread (snd (rt_timer_stop s k)) = rt_current_thread k"
  "waitq (snd (rt_timer_stop s k)) = waitq k"
  "ready_list (snd (rt_timer_stop s k)) = ready_list k"
  "rt_tick (snd (rt_timer_stop s k)) = rt_tick k"
  "threads (snd (rt_timer_start s k)) = threads k"
  "rt_current_thread (snd (rt_timer_start s k)) = rt_current_thread k"
  "waitq (snd (rt_timer_start s k)) = waitq k"
  "ready_list (snd (rt_timer_start s k)) = ready_list k"
  "rt_tick (snd (rt_timer_start s k)) = rt_tick k"
  by (simp_all add: rt_timer_stop_def rt_timer_start_def Let_def upd_timer_def timer_remove_def
      timer_insert_def)

lemma thread_stat_timer_ops [simp]:
  "thread_stat (snd (rt_timer_stop s k)) = thread_stat k"
  "thread_stat (snd (rt_timer_start s k)) = thread_stat k"
  "thread_stat (upd_timer s f k) = thread_stat k"
  "thread_stat (timer_remove s k) = thread_stat k"
  by (simp_all add: thread_stat_def fun_eq_iff)

lemma timer_stop_list:
  assumes "timer_inv k"
  shows "set (timer_list (snd (rt_timer_stop t k))) = set (timer_list k) - {t}"
  using assms by (auto simp: rt_timer_stop_def timer_inv_def)

section \<open>Suspend and resume keep the invariant\<close>

lemma rt_thread_suspend_ok:
  assumes k: "kernel_ok k" and s: "rt_thread_suspend t k = Some (e, k')"
  shows "kernel_ok k'" "rt_current_thread k' = Some t"
    "e = RT_EOK \<Longrightarrow> thread_stat k' t = RT_THREAD_SUSPEND \<and> (\<forall>q. t \<notin> set (waitq k' q))
       \<and> ThreadTimer t \<notin> set (timer_list k')"
    "e = RT_EOK \<longleftrightarrow> thread_stat k t = RT_THREAD_RUNNING"
    "e \<noteq> RT_EOK \<Longrightarrow> k' = k"
    "waitq k' = waitq k"
    "t' \<noteq> t \<Longrightarrow> thread_stat k' t' = thread_stat k t'"
proof -
  note K = kernel_okD [OF k]
  have c: "rt_current_thread k = Some t" using s by (auto simp: rt_thread_suspend_def rt_thread_self_def)
  have nr: "thread_stat k t \<noteq> RT_THREAD_READY"
    using kinvD(2) [OF K(1)] c by (auto simp: current_inv_def)
  let ?r = "upd_thread t (set_stat RT_THREAD_SUSPEND) (rt_schedule_remove_thread t k)"
  let ?s = "snd (rt_timer_stop (ThreadTimer t) ?r)"
  show e: "e = RT_EOK \<longleftrightarrow> thread_stat k t = RT_THREAD_RUNNING"
    using s nr by (auto simp: rt_thread_suspend_def Let_def split: if_splits)
  show ne: "e \<noteq> RT_EOK \<Longrightarrow> k' = k"
    using s by (auto simp: rt_thread_suspend_def Let_def split: if_splits)
  have k': "k' = ?s" if "e = RT_EOK"
    using s that by (auto simp: rt_thread_suspend_def Let_def split: if_splits)
  have tr: "timer_inv ?r" using K(2) timer_inv_sched
    by (metis sched_frame_remove sched_frame_upd sched_frame_trans same_thread_data_set_stat(1))
  have main: "kernel_ok ?s" if r: "thread_stat k t = RT_THREAD_RUNNING"
  proof
    have m: "prio_mask_ok k t" by (rule running_mask_ok [OF K(1) r])
    have "queue_inv {t} ?r"
      by (rule upd_thread_queue_inv [OF remove_thread_queue_inv [OF kinvD(1) [OF K(1)] m]]) simp
    then have "queue_inv {} ?r"
      by (rule queue_inv_drop)
        (use m in \<open>auto simp: prio_mask_ok_def remove_thread_fields thread_prio_def\<close>)
    moreover have "current_inv {} ?r"
      using kinvD(2) [OF K(1)] c unfolding current_inv_def
      by (auto simp: remove_thread_fields)
    ultimately have "kinv ?r" by (rule kinvI)
    then show "kinv ?s" by simp
    show "timer_inv ?s" by (rule rt_timer_stop_inv [OF tr])
    show "sleep_inv {} ?s"
      using K(3) timer_stop_list [OF tr, of "ThreadTimer t"]
      by (auto simp: sleep_inv_def remove_thread_fields)
  qed
  show "kernel_ok k'" using main e k' ne k by metis
  show "rt_current_thread k' = Some t" using c k' ne by (metis remove_thread_fields(7) timer_op_fields(2) upd_thread_frame(2))
  have nw: "t \<notin> set (waitq k q)" if "thread_stat k t = RT_THREAD_RUNNING" for q
    using queue_invD(4) [OF kinvD(1) [OF K(1)]] that by (force simp: wait_inv_def)
  show "e = RT_EOK \<Longrightarrow> thread_stat k' t = RT_THREAD_SUSPEND \<and> (\<forall>q. t \<notin> set (waitq k' q))
       \<and> ThreadTimer t \<notin> set (timer_list k')"
    using k' timer_stop_list [OF tr, of "ThreadTimer t"] by (auto simp: remove_thread_fields)
  show "waitq k' = waitq k"
    using k' ne e nw by (cases "e = RT_EOK") (auto simp: remove_thread_fields fun_eq_iff)
  show "t' \<noteq> t \<Longrightarrow> thread_stat k' t' = thread_stat k t'"
    using k' ne by (cases "e = RT_EOK") (auto simp: remove_thread_fields)
qed

lemma suspended_mask_ok:
  "kinv k \<Longrightarrow> thread_stat k t = RT_THREAD_SUSPEND \<Longrightarrow> prio_mask_ok k t"
  using queue_invD(3) [OF kinvD(1)] by (simp add: mask_inv_def)

lemma tlist_remove_kinv:
  assumes k: "kinv k" and nr: "thread_stat k t \<noteq> RT_THREAD_READY"
  shows "kinv_except {t} (tlist_remove t k)"
proof
  show "queue_inv {t} (tlist_remove t k)"
    by (rule tlist_remove_queue_inv [OF kinvD(1) [OF k]]) (use nr in auto)
  show "current_inv {t} (tlist_remove t k)"
    using kinvD(2) [OF k] by (simp add: current_inv_def)
qed

text \<open>Waking a suspended thread: the common end of \<^verbatim>\<open>rt_thread_resume\<close> and \<^verbatim>\<open>_thread_timeout\<close>.\<close>

lemma wake_kinv:
  assumes k: "kinv k" and s: "thread_stat k t = RT_THREAD_SUSPEND"
  shows "kinv (rt_schedule_insert_thread t (tlist_remove t k))"
proof (rule insert_thread_kinv)
  show "kinv_except {t} (tlist_remove t k)" by (rule tlist_remove_kinv [OF k]) (simp add: s)
  show "prio_mask_ok (tlist_remove t k) t"
    using suspended_mask_ok [OF k s] by (simp add: prio_mask_ok_def)
qed

lemma insert_thread_stat_all:
  "thread_stat (rt_schedule_insert_thread t k) t' =
     (if t' \<noteq> t then thread_stat k t'
      else if rt_current_thread k = Some t then RT_THREAD_RUNNING else RT_THREAD_READY)"
  by (cases "rt_current_thread k = Some t") (simp_all add: insert_thread_current insert_thread_stat)

lemma insert_thread_waitq [simp]:
  "waitq (rt_schedule_insert_thread t k) = waitq k"
  "rt_current_thread (rt_schedule_insert_thread t k) = rt_current_thread k"
  by (cases "rt_current_thread k = Some t"; simp add: insert_thread_current insert_thread_fields)+

lemma rt_thread_resume_ok:
  fixes t :: tid
  assumes k: "kernel_ok k"
  defines "k' \<equiv> snd (rt_thread_resume t k)"
  shows "kernel_ok k'" "rt_current_thread k' = rt_current_thread k"
    "thread_stat k t = RT_THREAD_SUSPEND \<Longrightarrow>
       thread_stat k' t = (if rt_current_thread k = Some t then RT_THREAD_RUNNING else RT_THREAD_READY)"
    "t' \<noteq> t \<Longrightarrow> thread_stat k' t' = thread_stat k t'"
    "thread_stat k t = RT_THREAD_SUSPEND \<Longrightarrow> waitq k' q = removeAll t (waitq k q)"
    "fst (rt_thread_resume t k) = RT_EOK \<longleftrightarrow> thread_stat k t = RT_THREAD_SUSPEND"
    "thread_stat k t \<noteq> RT_THREAD_SUSPEND \<Longrightarrow> k' = k"
proof -
  note K = kernel_okD [OF k]
  let ?r = "tlist_remove t k"
  let ?s = "snd (rt_timer_stop (ThreadTimer t) ?r)"
  have k': "k' = (if thread_stat k t = RT_THREAD_SUSPEND then rt_schedule_insert_thread t ?s else k)"
    by (simp add: k'_def rt_thread_resume_def Let_def)
  have tr: "timer_inv ?r" using K(2) by (simp add: timer_inv_def)
  have st: "thread_stat k' t' = (if thread_stat k t = RT_THREAD_SUSPEND then
      (if t' \<noteq> t then thread_stat k t'
       else if rt_current_thread k = Some t then RT_THREAD_RUNNING else RT_THREAD_READY)
      else thread_stat k t')" for t'
    by (simp add: k' insert_thread_stat_all)
  show "rt_current_thread k' = rt_current_thread k" by (simp add: k')
  show "thread_stat k t = RT_THREAD_SUSPEND \<Longrightarrow>
       thread_stat k' t = (if rt_current_thread k = Some t then RT_THREAD_RUNNING else RT_THREAD_READY)"
    "t' \<noteq> t \<Longrightarrow> thread_stat k' t' = thread_stat k t'"
    by (simp_all add: st)
  show "thread_stat k t = RT_THREAD_SUSPEND \<Longrightarrow> waitq k' q = removeAll t (waitq k q)"
    by (simp add: k')
  show "fst (rt_thread_resume t k) = RT_EOK \<longleftrightarrow> thread_stat k t = RT_THREAD_SUSPEND"
    by (simp add: rt_thread_resume_def Let_def)
  show "thread_stat k t \<noteq> RT_THREAD_SUSPEND \<Longrightarrow> k' = k" by (simp add: k')
  show "kernel_ok k'"
  proof (cases "thread_stat k t = RT_THREAD_SUSPEND")
    case False
    with k show ?thesis by (simp add: k')
  next
    case True
    then have k'': "k' = rt_schedule_insert_thread t ?s" by (simp add: k')
    show ?thesis
    proof
      have "kinv_except {t} ?s" using tlist_remove_kinv [OF K(1)] True by simp
      moreover have "prio_mask_ok ?s t"
        using suspended_mask_ok [OF K(1) True] by (simp add: prio_mask_ok_def thread_prio_def)
      ultimately show "kinv k'" unfolding k'' by (rule insert_thread_kinv)
      show "timer_inv k'"
        using rt_timer_stop_inv [OF tr] by (simp add: k'' timer_inv_sched [OF sched_frame_insert])
      show "sleep_inv {} k'"
        using K(3) timer_stop_list [OF tr, of "ThreadTimer t"]
        by (auto simp: sleep_inv_def k'' insert_thread_stat_all)
    qed
  qed
qed

section \<open>The other operations keep the invariant\<close>

text \<open>Updates of a thread's bookkeeping fields.\<close>

lemma upd_thread_kernel_ok:
  assumes k: "kernel_ok k"
    and f: "stat (f (threads k t)) AND RT_THREAD_STAT_MASK = thread_stat k t"
      "current_priority (f (threads k t)) = thread_prio k t"
      "number_mask (f (threads k t)) = number_mask (threads k t)"
  shows "kernel_ok (upd_thread t f k)"
proof
  note K = kernel_okD [OF k]
  show "kinv (upd_thread t f k)" by (rule upd_thread_kinv_same [where f = f, OF K(1) f])
  show "timer_inv (upd_thread t f k)" using K(2) by (simp add: timer_inv_def)
  show "sleep_inv {} (upd_thread t f k)" using K(3) f(1) by (simp add: sleep_inv_def)
qed

lemma set_error_fields [simp]:
  "stat (set_error e x) = stat x" "current_priority (set_error e x) = current_priority x"
  "number_mask (set_error e x) = number_mask x" "error (set_error e x) = e"
  "event_set (set_error e x) = event_set x" "event_info (set_error e x) = event_info x"
  "static_object (set_error e x) = static_object x"
  by (simp_all add: set_error_def)

lemma set_error_kernel_ok [simp]: "kernel_ok k \<Longrightarrow> kernel_ok (upd_thread t (set_error e) k)"
  by (rule upd_thread_kernel_ok) (simp_all add: thread_stat_def thread_prio_def)

lemma set_error_same [simp]:
  "thread_stat (upd_thread t (set_error e) k) = thread_stat k"
  "thread_prio (upd_thread t (set_error e) k) = thread_prio k"
  by (auto simp: thread_stat_def thread_prio_def fun_eq_iff)

text \<open>Starting the timer of a suspended thread.\<close>

lemma start_thread_timer_ok:
  assumes k: "kernel_ok k" and s: "thread_stat k t = RT_THREAD_SUSPEND"
    and st: "start_thread_timer t n k = Some k'"
  shows "kernel_ok k'" "threads k' = threads k" "rt_current_thread k' = rt_current_thread k"
    "waitq k' = waitq k" "ready_list k' = ready_list k"
    "set (timer_list k') = insert (ThreadTimer t) (set (timer_list k))"
    "tm_timeout_tick (timers k' (ThreadTimer t)) = rt_tick k + n" "n < half_tick_max"
    "rt_tick k' = rt_tick k"
proof -
  note K = kernel_okD [OF k]
  let ?u = "upd_timer (ThreadTimer t) (\<lambda>x. x\<lparr>tm_init_tick := n\<rparr>) k"
  have k': "k' = snd (rt_timer_start (ThreadTimer t) ?u)" and n: "n < half_tick_max"
    using st by (auto simp: start_thread_timer_def rt_timer_control_set_time split: if_splits)
  have ti: "timer_inv ?u" using K(2) by (auto simp: timer_inv_def)
  show "threads k' = threads k" "rt_current_thread k' = rt_current_thread k" by (simp_all add: k')
  show "waitq k' = waitq k" "ready_list k' = ready_list k" "rt_tick k' = rt_tick k"
    by (simp_all add: k' upd_timer_def)
  show l: "set (timer_list k') = insert (ThreadTimer t) (set (timer_list k))"
    by (simp add: k' rt_timer_start_fields)
  show "tm_timeout_tick (timers k' (ThreadTimer t)) = rt_tick k + n"
    by (simp add: k' rt_timer_start_fields)
  show "n < half_tick_max" by (rule n)
  show "kernel_ok k'"
  proof
    show "kinv k'" using K(1) by (simp add: k')
    show "timer_inv k'" unfolding k' by (rule rt_timer_start_inv [OF ti])
    have "thread_stat k' = thread_stat k" by (simp add: k')
    then show "sleep_inv {} k'" using K(3) s l by (auto simp: sleep_inv_def)
  qed
qed

lemma rt_thread_yield_ok [inv_intros]:
  assumes "kernel_ok k" "rt_thread_yield k = Some (e, k')"
  shows "kernel_ok k'"
proof -
  obtain t where t: "rt_schedule (upd_thread t (\<lambda>x. x\<lparr>remaining_tick := init_tick x,
      stat := stat x OR RT_THREAD_STAT_YIELD\<rparr>) k) = Some k'"
    using assms(2) by (auto simp: rt_thread_yield_def Let_def bind_eq_Some_conv)
  show ?thesis
    by (rule rt_schedule_kernel_ok [OF upd_thread_kernel_ok [OF assms(1)] t])
      (simp_all add: thread_stat_def thread_prio_def)
qed

lemma thread_timeout_ok [inv_intros]:
  assumes k: "kernel_ok k" and r: "thread_timeout t k = Some k'" and l: "ThreadTimer t \<notin> set (timer_list k)"
  shows "kernel_ok k'"
proof -
  let ?e = "upd_thread t (set_error RT_ETIMEOUT) k"
  let ?i = "rt_schedule_insert_thread t (tlist_remove t ?e)"
  have s: "thread_stat k t = RT_THREAD_SUSPEND" and r': "rt_schedule ?i = Some k'"
    using r by (auto simp: thread_timeout_def Let_def split: if_splits)
  have e: "kernel_ok ?e" using k by simp
  have "kernel_ok ?i"
  proof
    show "kinv ?i" by (rule wake_kinv [OF kernel_okD(1) [OF e]]) (simp add: s)
    show "timer_inv ?i"
      using kernel_okD(2) [OF e] by (simp add: timer_inv_sched [OF sched_frame_insert] timer_inv_def)
    show "sleep_inv {} ?i"
      using kernel_okD(3) [OF e] l by (auto simp: sleep_inv_def insert_thread_stat_all)
  qed
  then show ?thesis using r' by (rule rt_schedule_kernel_ok)
qed

text \<open>The timeout of a suspended thread makes it ready with \<^verbatim>\<open>-RT_ETIMEOUT\<close>, off its suspend list.\<close>

lemma thread_timeout_wakes:
  assumes k: "kinv k" and r: "thread_timeout t k = Some k'"
  shows "error (threads k' t) = RT_ETIMEOUT"
    "thread_stat k' t = RT_THREAD_READY \<or> thread_stat k' t = RT_THREAD_RUNNING"
    "waitq k' q = removeAll t (waitq k q)"
proof -
  let ?e = "upd_thread t (set_error RT_ETIMEOUT) k"
  let ?i = "rt_schedule_insert_thread t (tlist_remove t ?e)"
  have s: "thread_stat k t = RT_THREAD_SUSPEND" and r': "rt_schedule ?i = Some k'"
    using r by (auto simp: thread_timeout_def Let_def split: if_splits)
  have i: "kinv ?i"
    by (rule wake_kinv) (use k s in \<open>auto intro!: upd_thread_kinv_same simp: thread_stat_def thread_prio_def set_error_def\<close>)
  show "error (threads k' t) = RT_ETIMEOUT"
    using sched_frameD(12) [OF rt_schedule_frame [OF r'], of t] by simp
  show "waitq k' q = removeAll t (waitq k q)"
    using rt_schedule_others(2) [OF i r'] by simp
  show "thread_stat k' t = RT_THREAD_READY \<or> thread_stat k' t = RT_THREAD_RUNNING"
    using rt_schedule_runnable [OF i r', of t] by (simp add: insert_thread_stat_all split: if_splits)
qed

lemma rt_thread_sleep_ok [inv_intros]:
  assumes k: "kernel_ok k" and r: "rt_thread_sleep n k = Some (res, k')"
    and run: "rt_current_thread k = Some t" "thread_stat k t = RT_THREAD_RUNNING"
  shows "kernel_ok k'" "res = Waiting t" "thread_stat k' t = RT_THREAD_SUSPEND"
    "ThreadTimer t \<in> set (timer_list k')"
    "tm_timeout_tick (timers k' (ThreadTimer t)) = rt_tick k + n"
proof -
  let ?e = "upd_thread t (set_error RT_EOK) k"
  obtain e k1 k2 where s: "rt_thread_suspend t ?e = Some (e, k1)"
    and st: "start_thread_timer t n k1 = Some k2" and sc: "rt_schedule k2 = Some k'"
    and res: "res = Waiting t"
    using r run by (auto simp: rt_thread_sleep_def rt_thread_self_def Let_def bind_eq_Some_conv)
  note S = rt_thread_suspend_ok [OF set_error_kernel_ok [OF k] s]
  have e: "e = RT_EOK" using S(4) run by simp
  then have sus: "thread_stat k1 t = RT_THREAD_SUSPEND" using S(3) by blast
  note T = start_thread_timer_ok [OF S(1) sus st]
  have sus2: "thread_stat k2 t = RT_THREAD_SUSPEND" using sus T(2) by (simp add: thread_stat_def)
  show "kernel_ok k'" by (rule rt_schedule_kernel_ok [OF T(1) sc])
  show "res = Waiting t" by (rule res)
  show "thread_stat k' t = RT_THREAD_SUSPEND"
    using rt_schedule_others(1) [OF kernel_okD(1) [OF T(1)] sc, of t] sus2 by simp
  note F = sched_frameD [OF rt_schedule_frame [OF sc]]
  show "ThreadTimer t \<in> set (timer_list k')" by (simp add: F(5) T(6))
  have "rt_tick k1 = rt_tick k"
    using s by (auto simp: rt_thread_suspend_def Let_def split: if_splits)
  then show "tm_timeout_tick (timers k' (ThreadTimer t)) = rt_tick k + n"
    by (simp add: F(4) T(7))
qed

text \<open>Closing a thread that is on no list.\<close>

lemma thread_close_ok:
  assumes q: "queue_inv {t} k" and c: "current_inv {t} k" and ti: "timer_inv k" and sl: "sleep_inv {t} k"
    and r: "thread_close t k = Some k'"
  shows "kernel_ok k'" "thread_stat k' t = RT_THREAD_CLOSE" "t \<in> set (rt_thread_defunct k')"
    "rt_current_thread k' = rt_current_thread k"
    "ThreadTimer t \<notin> set (timer_list k')"
proof -
  let ?t = "upd_timer (ThreadTimer t) clear_activated (timer_remove (ThreadTimer t) k)"
  let ?c = "upd_thread t (\<lambda>x. x\<lparr>stat := RT_THREAD_CLOSE\<rparr>) ?t"
  have k': "k' = ?c\<lparr>rt_thread_defunct := t # rt_thread_defunct ?c\<rparr>"
    using r by (auto simp: thread_close_def rt_timer_detach_def rt_thread_defunct_enqueue_def Let_def
        split: if_splits)
  have cl: "thread_stat k' s = (if s = t then RT_THREAD_CLOSE else thread_stat k s)" for s
    by (simp add: k' thread_stat_def)
  have "queue_inv {t} ?t"
    by (subst queue_inv_cong [of _ k]) (simp_all add: q upd_timer_def timer_remove_def)
  then have q': "queue_inv {t} ?c" by (rule upd_thread_queue_inv)
  have "queue_inv {} k'"
  proof
    note D = queue_invD [OF q']
    have f: "ready_list k' = ready_list ?c" "ready_group k' = ready_group ?c" "waitq k' = waitq ?c"
      "thread_stat k' = thread_stat ?c" "thread_prio k' = thread_prio ?c"
      "prio_mask_ok k' = prio_mask_ok ?c"
      by (auto simp: k' thread_stat_def thread_prio_def prio_mask_ok_def fun_eq_iff)
    have ct: "thread_stat ?c t = RT_THREAD_CLOSE" by simp
    show "group_inv k'" using D(1) by (simp add: group_inv_def f)
    show "ready_inv {} k'" using D(2) ct by (auto simp: ready_inv_def f)
    show "mask_inv {} k'" using D(3) ct unfolding mask_inv_def f by (metis singletonD)
    show "wait_inv {} k'" using D(4) unfolding wait_inv_def f by blast
    show "defunct_inv {} k'" using D(5) ct by (auto simp: defunct_inv_def k' thread_stat_def)
  qed
  moreover have cur: "rt_current_thread k' = rt_current_thread k" by (simp add: k')
  moreover have "current_inv {} k'" using c by (auto simp: current_inv_def cl cur)
  ultimately have "kinv k'" by (simp add: kinvI)
  moreover have "timer_inv k'" using timer_drop_inv [OF ti, of "ThreadTimer t"] by (simp add: k' timer_inv_def)
  moreover have tl': "timer_list k' = removeAll (ThreadTimer t) (timer_list k)"
    by (simp add: k' timer_remove_def)
  then have "sleep_inv {} k'" using sl by (auto simp: sleep_inv_def cl)
  ultimately show "kernel_ok k'" by (rule kernel_okI)
  show "thread_stat k' t = RT_THREAD_CLOSE" "rt_current_thread k' = rt_current_thread k"
    by (simp_all add: cl cur)
  show "t \<in> set (rt_thread_defunct k')" "ThreadTimer t \<notin> set (timer_list k')" by (simp_all add: k')
qed

lemma sleep_inv_mono: "sleep_inv X k \<Longrightarrow> X \<subseteq> Y \<Longrightarrow> sleep_inv Y k"
  by (auto simp: sleep_inv_def)

lemma kinv_take_init:
  assumes k: "kinv k" and i: "thread_stat k t = RT_THREAD_INIT"
  shows "kinv_except {t} k"
proof
  note D = queue_invD [OF kinvD(1) [OF k]]
  show "queue_inv {t} k"
  proof
    show "group_inv k" by (rule D(1))
    show "ready_inv {t} k" using D(2) i by (auto simp: ready_inv_def)
    show "mask_inv {t} k" using D(3) by (auto simp: mask_inv_def)
    show "wait_inv {t} k" using D(4) i unfolding wait_inv_def by (metis singletonD stat_consts_distinct(2))
    show "defunct_inv {t} k" using D(5) i by (auto simp: defunct_inv_def)
  qed
  show "current_inv {t} k" using kinvD(2) [OF k] by (auto simp: current_inv_def)
qed

lemma remove_thread_kinv_except:
  assumes k: "kinv k" and st: "thread_stat k t \<noteq> RT_THREAD_INIT" "thread_stat k t \<noteq> RT_THREAD_CLOSE"
  shows "kinv_except {t} (rt_schedule_remove_thread t k)"
proof
  have m: "prio_mask_ok k t"
    using queue_invD(3) [OF kinvD(1) [OF k]] st by (simp add: mask_inv_def)
  show "queue_inv {t} (rt_schedule_remove_thread t k)"
    by (rule remove_thread_queue_inv [OF kinvD(1) [OF k] m]) simp
  show "current_inv {t} (rt_schedule_remove_thread t k)"
    using kinvD(2) [OF k] by (simp add: current_inv_def remove_thread_fields)
qed

lemma thread_dispose_ok:
  assumes k: "kernel_ok k" and r: "thread_dispose t k = Some (e, k')"
  shows "kernel_ok k'" "thread_stat k' t = RT_THREAD_CLOSE" "e = RT_EOK"
proof -
  note K = kernel_okD [OF k]
  let ?k = "if thread_stat k t \<noteq> RT_THREAD_INIT then rt_schedule_remove_thread t k else k"
  have x: "kinv_except {t} ?k" if "thread_stat k t \<noteq> RT_THREAD_CLOSE"
    using that kinv_take_init [OF K(1)] remove_thread_kinv_except [OF K(1)] by simp
  have ti: "timer_inv ?k" using K(2) by (simp add: timer_inv_sched [OF sched_frame_remove])
  have sl: "sleep_inv {t} ?k"
    using K(3) by (auto simp: sleep_inv_def remove_thread_fields)
  consider (closed) "thread_stat k t = RT_THREAD_CLOSE" "k' = k" "e = RT_EOK"
    | (live) "thread_stat k t \<noteq> RT_THREAD_CLOSE" "thread_close t ?k = Some k'" "e = RT_EOK"
    using r unfolding thread_dispose_def Let_def
    by (cases "thread_stat k t = RT_THREAD_CLOSE") (auto simp: bind_eq_Some_conv)
  then have "kernel_ok k' \<and> thread_stat k' t = RT_THREAD_CLOSE \<and> e = RT_EOK"
  proof cases
    case closed
    with k show ?thesis by simp
  next
    case live
    from thread_close_ok(1,2) [OF kinvD [OF x [OF live(1)]] ti sl live(2)] live(3)
    show ?thesis by blast
  qed
  then show "kernel_ok k'" "thread_stat k' t = RT_THREAD_CLOSE" "e = RT_EOK" by blast+
qed

lemma rt_thread_detach_ok [inv_intros]:
  "kernel_ok k \<Longrightarrow> rt_thread_detach t k = Some (e, k') \<Longrightarrow> kernel_ok k'"
  by (auto simp: rt_thread_detach_def split: if_splits dest: thread_dispose_ok)

lemma rt_thread_delete_ok [inv_intros]:
  "kernel_ok k \<Longrightarrow> rt_thread_delete t k = Some (e, k') \<Longrightarrow> kernel_ok k'"
  by (auto simp: rt_thread_delete_def split: if_splits dest: thread_dispose_ok)

lemma thread_exit_ok [inv_intros]:
  assumes k: "kernel_ok k" and c: "rt_current_thread k = Some t"
    and run: "thread_stat k t = RT_THREAD_RUNNING" and r: "thread_exit k = Some k'"
  shows "kernel_ok k'" "thread_stat k' t = RT_THREAD_CLOSE"
proof -
  note K = kernel_okD [OF k]
  let ?k = "rt_schedule_remove_thread t k"
  obtain k1 where cl: "thread_close t ?k = Some k1" and sc: "rt_schedule k1 = Some k'"
    using r c by (auto simp: thread_exit_def rt_thread_self_def bind_eq_Some_conv)
  have x: "kinv_except {t} ?k" by (rule remove_thread_kinv_except [OF K(1)]) (simp_all add: run)
  have ti: "timer_inv ?k" using K(2) by (simp add: timer_inv_sched [OF sched_frame_remove])
  have sl: "sleep_inv {t} ?k" using K(3) by (auto simp: sleep_inv_def remove_thread_fields)
  note C = thread_close_ok [OF kinvD [OF x] ti sl cl]
  show "kernel_ok k'" by (rule rt_schedule_kernel_ok [OF C(1) sc])
  show "thread_stat k' t = RT_THREAD_CLOSE"
    using rt_schedule_others(1) [OF kernel_okD(1) [OF C(1)] sc, of t] C(2) by simp
qed

definition startup_fields :: "thread \<Rightarrow> thread" where
  "startup_fields x = x\<lparr>number_mask := thread_number_mask (current_priority x),
     stat := RT_THREAD_SUSPEND\<rparr>"

lemma startup_fields_ok:
  assumes k: "kernel_ok k" and i: "thread_stat k t = RT_THREAD_INIT"
    and p: "thread_prio k t < RT_THREAD_PRIORITY_MAX"
  shows "kernel_ok (upd_thread t startup_fields k)"
    "thread_stat (upd_thread t startup_fields k) t = RT_THREAD_SUSPEND"
proof -
  note K = kernel_okD [OF k]
  let ?u = "upd_thread t startup_fields k"
  have "queue_inv {t} ?u" by (rule upd_thread_queue_inv [OF kinvD(1) [OF kinv_take_init [OF K(1) i]]])
  then have "queue_inv {} ?u"
    by (rule queue_inv_drop) (use p in \<open>auto simp: prio_mask_ok_def thread_prio_def startup_fields_def\<close>)
  moreover have "current_inv {} ?u"
    using kinvD(2) [OF K(1)] by (auto simp: current_inv_def startup_fields_def)
  ultimately have "kinv ?u" by (rule kinvI)
  moreover have "timer_inv ?u" using K(2) by (simp add: timer_inv_def)
  moreover have "sleep_inv {} ?u" using K(3) by (auto simp: sleep_inv_def startup_fields_def)
  ultimately show "kernel_ok ?u" by (rule kernel_okI)
  show "thread_stat ?u t = RT_THREAD_SUSPEND" by (simp add: startup_fields_def)
qed

lemma rt_thread_startup_cases:
  assumes r: "rt_thread_startup t k = Some (e, k')"
  shows "thread_stat k t = RT_THREAD_INIT"
    "(let r = snd (rt_thread_resume t (upd_thread t startup_fields k))
      in if rt_current_thread r \<noteq> None then rt_schedule r else Some r) = Some k'"
  using r by (auto simp: rt_thread_startup_def Let_def bind_eq_Some_conv rt_thread_self_def
      startup_fields_def [abs_def] split: if_splits)

lemma rt_thread_startup_ok [inv_intros]:
  assumes k: "kernel_ok k" and r: "rt_thread_startup t k = Some (e, k')"
    and p: "thread_prio k t < RT_THREAD_PRIORITY_MAX"
  shows "kernel_ok k'" "thread_stat k' t = RT_THREAD_READY \<or> thread_stat k' t = RT_THREAD_RUNNING"
proof -
  let ?r = "snd (rt_thread_resume t (upd_thread t startup_fields k))"
  note C = rt_thread_startup_cases [OF r]
  note U = startup_fields_ok [OF k C(1) p]
  have sc: "(if rt_current_thread ?r \<noteq> None then rt_schedule ?r else Some ?r) = Some k'"
    using C(2) by (simp only: Let_def)
  note R = rt_thread_resume_ok [OF U(1), where t = t]
  have st: "thread_stat ?r t = RT_THREAD_READY \<or> thread_stat ?r t = RT_THREAD_RUNNING"
    using R(3) [OF U(2)] by (auto split: if_splits)
  show "kernel_ok k'"
    using sc R(1) rt_schedule_kernel_ok [OF R(1)] by (auto split: if_splits)
  show "thread_stat k' t = RT_THREAD_READY \<or> thread_stat k' t = RT_THREAD_RUNNING"
    using sc st rt_schedule_runnable [OF kernel_okD(1) [OF R(1)] _ st] by (auto split: if_splits)
qed

text \<open>A change of priority keeps every thread on the list its status and priority ask for.\<close>

lemma thread_change_priority_ok [inv_intros]:
  assumes k: "kernel_ok k" and r: "thread_change_priority t p k = Some k'"
  shows "kernel_ok k'" "thread_prio k' t = p" "t' \<noteq> t \<Longrightarrow> thread_prio k' t' = thread_prio k t'"
    "rt_current_thread k' = rt_current_thread k" "waitq k' = waitq k"
    "thread_stat k' = thread_stat k"
proof -
  note K = kernel_okD [OF k]
  have p: "p < 32" using r by (auto simp: thread_change_priority_def split: if_splits)
  have sp: "stat (set_priority p x) = stat x" "current_priority (set_priority p x) = p"
    "number_mask (set_priority p x) = thread_number_mask p" for x
    by (simp_all add: set_priority_def)
  have "kernel_ok k' \<and> thread_prio k' t = p \<and> (t' \<noteq> t \<longrightarrow> thread_prio k' t' = thread_prio k t')
    \<and> rt_current_thread k' = rt_current_thread k \<and> waitq k' = waitq k \<and> thread_stat k' = thread_stat k"
  proof (cases "thread_stat k t = RT_THREAD_READY")
    case True
    let ?r = "rt_schedule_remove_thread t k"
    let ?u = "upd_thread t (set_priority p) ?r"
    have k': "k' = rt_schedule_insert_thread t ?u"
      using r True by (auto simp: thread_change_priority_def split: if_splits)
    have nc: "rt_current_thread k \<noteq> Some t" using kinvD(2) [OF K(1)] True by (auto simp: current_inv_def)
    have x: "kinv_except {t} ?r" by (rule remove_thread_kinv_except [OF K(1)]) (simp_all add: True)
    have "kinv_except {t} ?u"
    proof
      show "queue_inv {t} ?u" by (rule upd_thread_queue_inv [OF kinvD(1) [OF x]])
      show "current_inv {t} ?u" using kinvD(2) [OF x] by (auto simp: current_inv_def)
    qed
    moreover have "prio_mask_ok ?u t" using p by (simp add: prio_mask_ok_def sp)
    ultimately have "kinv k'" unfolding k' by (rule insert_thread_kinv)
    moreover have fr: "timer_list k' = timer_list k" "timers k' = timers k" "timer_tmp k' = timer_tmp k"
      by (simp_all add: k')
    moreover have st: "thread_stat k' = thread_stat k"
      using nc True by (simp add: k' insert_thread_stat_all remove_thread_fields fun_eq_iff sp)
    moreover have "timer_inv k'" using K(2) fr by (simp add: timer_inv_def)
    moreover have "sleep_inv {} k'" using K(3) fr st by (simp add: sleep_inv_def)
    moreover have "t \<notin> set (waitq k q)" for q
      using queue_invD(4) [OF kinvD(1) [OF K(1)]] True by (force simp: wait_inv_def)
    then have "waitq k' = waitq k" by (simp add: k' remove_thread_fields fun_eq_iff)
    ultimately show ?thesis
      using nc by (auto simp: kernel_ok_def k' remove_thread_fields sp)
  next
    case False
    let ?u = "upd_thread t (set_priority p) k"
    have k': "k' = ?u" using r False by (auto simp: thread_change_priority_def split: if_splits)
    have st: "thread_stat k' = thread_stat k" by (auto simp: k' sp thread_stat_def fun_eq_iff)
    have mk: "prio_mask_ok k' s \<longleftrightarrow> s = t \<or> prio_mask_ok k s" for s
      using p by (auto simp: k' prio_mask_ok_def sp)
    note D = queue_invD [OF kinvD(1) [OF K(1)]]
    have "queue_inv {} k'"
    proof
      show "group_inv k'" using D(1) by (simp add: group_inv_def k')
      have "t \<notin> set (ready_list k q)" for q using D(2) False by (auto simp: ready_inv_def)
      then show "ready_inv {} k'" using D(2) False
        unfolding ready_inv_def st by (auto simp: k' sp)
      show "mask_inv {} k'" using D(3) by (auto simp: mask_inv_def st mk)
      show "wait_inv {} k'" using D(4) by (simp add: wait_inv_def st) (simp add: k')
      show "defunct_inv {} k'" using D(5) by (simp add: defunct_inv_def st) (simp add: k')
    qed
    moreover have "current_inv {} k'" using kinvD(2) [OF K(1)] unfolding current_inv_def st by (simp add: k')
    ultimately have "kinv k'" by (rule kinvI)
    moreover have "timer_inv k'" using K(2) by (simp add: timer_inv_def k')
    moreover have "sleep_inv {} k'" using K(3) unfolding sleep_inv_def st by (simp add: k')
    ultimately have "kernel_ok k'" by (rule kernel_okI)
    with st show ?thesis by (simp add: k' sp)
  qed
  then show "kernel_ok k'" "thread_prio k' t = p" "t' \<noteq> t \<Longrightarrow> thread_prio k' t' = thread_prio k t'"
    "rt_current_thread k' = rt_current_thread k" "waitq k' = waitq k" "thread_stat k' = thread_stat k"
    by blast+
qed

end
