(* ===== verification/Rtt_Ipc.thy ===== *)
theory Rtt_Ipc
  imports Rtt_Thread
begin

unbundle bit_operations_syntax

text \<open>
  The suspend lists all IPC objects share, from \<^verbatim>\<open>src/ipc.c\<close>: a list is kept in order of arrival or,
  with \<^verbatim>\<open>RT_IPC_FLAG_PRIO\<close>, in order of priority with equal priorities in order of arrival. The
  lemmas say which threads each operation moves, and what it leaves alone.
\<close>

section \<open>Suspend lists\<close>

definition upd_waitq :: "waitq_id \<Rightarrow> tid list \<Rightarrow> kernel \<Rightarrow> kernel" where
  "upd_waitq q ts k = k\<lparr>waitq := (waitq k)(q := ts)\<rparr>"

definition ipc_object_init :: "waitq_id \<Rightarrow> kernel \<Rightarrow> kernel" where
  "ipc_object_init q k = upd_waitq q [] k"

text \<open>The result of \<^verbatim>\<open>rt_thread_suspend\<close> is not looked at.\<close>

definition ipc_list_suspend :: "waitq_id \<Rightarrow> tid \<Rightarrow> ipc_flag \<Rightarrow> kernel \<Rightarrow> kernel option" where
  "ipc_list_suspend q t flag k = do {
     (_, k) \<leftarrow> rt_thread_suspend t k;
     Some (case flag of
       RT_IPC_FLAG_FIFO \<Rightarrow> upd_waitq q (waitq k q @ [t]) k
     | RT_IPC_FLAG_PRIO \<Rightarrow>
         upd_waitq q (list_insert_where (\<lambda>s. thread_prio k t < thread_prio k s) t (waitq k q)) k) }"

text \<open>On an empty list the C takes the list head for a thread; the model stops.\<close>

definition ipc_list_resume :: "waitq_id \<Rightarrow> kernel \<Rightarrow> kernel option" where
  "ipc_list_resume q k =
     (case waitq k q of
        [] \<Rightarrow> None
      | t # _ \<Rightarrow> Some (snd (rt_thread_resume t k)))"

text \<open>The loop ends when the list is empty; it would not end on a thread that cannot be resumed.\<close>

partial_function (option) ipc_list_resume_all :: "waitq_id \<Rightarrow> kernel \<Rightarrow> kernel option" where
  "ipc_list_resume_all q k =
     (case waitq k q of
        [] \<Rightarrow> Some k
      | t # _ \<Rightarrow>
          ipc_list_resume_all q (snd (rt_thread_resume t (upd_thread t (set_error RT_ERROR) k))))"

text \<open>
  What every blocking call does with the calling thread before it schedules: suspend it on the
  object's list and, for a positive (signed) timeout, start its timer.
\<close>

definition ipc_block :: "waitq_id \<Rightarrow> tid \<Rightarrow> ipc_flag \<Rightarrow> u32 \<Rightarrow> kernel \<Rightarrow> kernel option" where
  "ipc_block q t flag timeout k = do {
     k \<leftarrow> ipc_list_suspend q t flag k;
     (if 0 <s timeout then start_thread_timer t timeout k else Some k) }"

text \<open>What is left of a timeout, in \<^verbatim>\<open>rt_int32_t\<close>, after a sleep that began at tick \<open>tick_delta\<close>.\<close>

definition timeout_left :: "u32 \<Rightarrow> u32 \<Rightarrow> kernel \<Rightarrow> u32" where
  "timeout_left timeout tick_delta k =
     (if 0 <s timeout
      then (let timeout = timeout - (rt_tick_get k - tick_delta)
            in if timeout <s 0 then 0 else timeout)
      else timeout)"

text \<open>Waking a receiver, or a sender, after a message has been put, or taken.\<close>

definition ipc_wake_one :: "waitq_id \<Rightarrow> kernel \<Rightarrow> kernel option" where
  "ipc_wake_one q k =
     (if waitq k q \<noteq> []
      then do { k \<leftarrow> ipc_list_resume q k; rt_schedule k }
      else Some k)"

section \<open>What the shared operations leave alone\<close>

abbreviation periodic :: "kernel \<Rightarrow> timer_id \<Rightarrow> bool" where
  "periodic k t \<equiv> timer_flag_set (timers k t) RT_TIMER_FLAG_PERIODIC"

text \<open>No thread timer has become periodic, and no timer has joined the list of those being fired.\<close>

definition timer_frame :: "kernel \<Rightarrow> kernel \<Rightarrow> bool" where
  "timer_frame k k' \<longleftrightarrow> set (timer_tmp k') \<subseteq> set (timer_tmp k)
     \<and> (\<forall>t. periodic k' (ThreadTimer t) \<longrightarrow> periodic k (ThreadTimer t))"

lemma timer_frame_same [simp]:
  "timers k' = timers k \<Longrightarrow> timer_tmp k' = timer_tmp k \<Longrightarrow> timer_frame k k'"
  by (simp add: timer_frame_def)

lemma timer_frame_trans [trans]: "timer_frame k k1 \<Longrightarrow> timer_frame k1 k2 \<Longrightarrow> timer_frame k k2"
  by (auto simp: timer_frame_def)

text \<open>
  \<open>ipc_frame k k'\<close>: from \<open>k\<close> to \<open>k'\<close> only queues, timers, the current thread and the status words may
  have changed.
\<close>

definition ipc_frame :: "kernel \<Rightarrow> kernel \<Rightarrow> bool" where
  "ipc_frame k k' \<longleftrightarrow> rt_tick k' = rt_tick k
     \<and> rt_scheduler_lock_nest k' = rt_scheduler_lock_nest k
     \<and> rt_interrupt_nest k' = rt_interrupt_nest k \<and> sems k' = sems k
     \<and> mutexes k' = mutexes k \<and> events k' = events k \<and> mailboxes k' = mailboxes k
     \<and> msgqueues k' = msgqueues k \<and> mempools k' = mempools k \<and> devs k' = devs k
     \<and> timer_frame k k' \<and> (\<forall>t. same_thread_data (threads k t) (threads k' t))"

text \<open>The event a thread waits for is kept in the thread.\<close>

definition event_data_same :: "kernel \<Rightarrow> kernel \<Rightarrow> bool" where
  "event_data_same k k' \<longleftrightarrow> (\<forall>t. event_set (threads k' t) = event_set (threads k t)
     \<and> event_info (threads k' t) = event_info (threads k t))"

lemma event_data_same_simps [simp]:
  "threads k' = threads k \<Longrightarrow> event_data_same k k'"
  "event_data_same k (upd_thread t f k) \<longleftrightarrow> event_set (f (threads k t)) = event_set (threads k t)
     \<and> event_info (f (threads k t)) = event_info (threads k t)"
  by (auto simp: event_data_same_def)

lemma event_data_same_trans [trans]:
  "event_data_same k k1 \<Longrightarrow> event_data_same k1 k2 \<Longrightarrow> event_data_same k k2"
  by (simp add: event_data_same_def)

lemma ipc_frame_refl [simp]: "ipc_frame k k"
  by (simp add: ipc_frame_def)

lemma ipc_frame_trans [trans]: "ipc_frame k k1 \<Longrightarrow> ipc_frame k1 k2 \<Longrightarrow> ipc_frame k k2"
  by (auto simp: ipc_frame_def same_thread_data_def intro: timer_frame_trans)

lemma ipc_frameD:
  assumes "ipc_frame k k'"
  shows "rt_tick k' = rt_tick k" "rt_scheduler_lock_nest k' = rt_scheduler_lock_nest k"
    "rt_interrupt_nest k' = rt_interrupt_nest k" "sems k' = sems k"
    "mutexes k' = mutexes k" "events k' = events k" "mailboxes k' = mailboxes k"
    "msgqueues k' = msgqueues k" "error (threads k' t) = error (threads k t)"
    "event_set (threads k' t) = event_set (threads k t)"
    "event_info (threads k' t) = event_info (threads k t)"
    "thread_prio k' = thread_prio k" "mempools k' = mempools k" "devs k' = devs k"
  using assms by (auto simp: ipc_frame_def same_thread_data_def thread_prio_def fun_eq_iff)

lemma sched_ipc_frame: "sched_frame k k' \<Longrightarrow> ipc_frame k k'"
  by (simp add: sched_frame_def ipc_frame_def)

lemma rt_schedule_ipc_frame: "rt_schedule k = Some k' \<Longrightarrow> ipc_frame k k'"
  by (rule sched_ipc_frame [OF rt_schedule_frame])

lemma flag_periodic_set [simp]:
  "timer_flag_set (set_activated x) RT_TIMER_FLAG_PERIODIC = timer_flag_set x RT_TIMER_FLAG_PERIODIC"
proof -
  have "(f OR 1) AND 2 = f AND (2 :: u8)" for f :: u8
    by (simp add: bit.conj_disj_distrib2)
  then show ?thesis
    by (simp add: timer_flag_set_def set_activated_def RT_TIMER_FLAG_ACTIVATED_def
        RT_TIMER_FLAG_PERIODIC_def)
qed

lemma ipc_frame_basic [simp]:
  "ipc_frame k (rt_schedule_remove_thread t k)" "ipc_frame k (rt_schedule_insert_thread t k)"
  "ipc_frame k (tlist_remove t k)" "ipc_frame k (upd_waitq q ts k)"
  "ipc_frame k (snd (rt_timer_stop tm k))" "ipc_frame k (snd (rt_timer_start tm k))"
  by (simp_all add: sched_ipc_frame)
    (auto simp: ipc_frame_def upd_waitq_def rt_timer_stop_def rt_timer_start_def Let_def
      upd_timer_def timer_remove_def timer_insert_def timer_frame_def)

lemma ipc_frame_upd_timer [simp]:
  "tm_flag (g (timers k tm)) = tm_flag (timers k tm) \<Longrightarrow> ipc_frame k (upd_timer tm g k)"
  by (auto simp: ipc_frame_def upd_timer_def timer_frame_def timer_flag_set_def)

lemma ipc_frame_upd_thread [simp]:
  "same_thread_data (threads k t) (f (threads k t)) \<Longrightarrow> ipc_frame k (upd_thread t f k)"
  by (simp add: sched_ipc_frame)

lemma rt_thread_suspend_frame: "rt_thread_suspend t k = Some (e, k') \<Longrightarrow> ipc_frame k k'"
proof -
  assume a: "rt_thread_suspend t k = Some (e, k')"
  let ?r = "rt_schedule_remove_thread t k"
  let ?u = "upd_thread t (set_stat RT_THREAD_SUSPEND) ?r"
  have "ipc_frame k ?r" by simp
  also have "ipc_frame ?r ?u" by simp
  also have "ipc_frame ?u (snd (rt_timer_stop (ThreadTimer t) ?u))" by simp
  finally show ?thesis using a by (auto simp: rt_thread_suspend_def Let_def split: if_splits)
qed

lemma rt_thread_resume_frame [simp]: "ipc_frame k (snd (rt_thread_resume t k))"
proof -
  let ?r = "tlist_remove t k"
  let ?s = "snd (rt_timer_stop (ThreadTimer t) ?r)"
  have "ipc_frame k ?r" by simp
  also have "ipc_frame ?r ?s" by simp
  also have "ipc_frame ?s (rt_schedule_insert_thread t ?s)" by simp
  finally show ?thesis by (simp add: rt_thread_resume_def Let_def)
qed

lemma start_thread_timer_frame: "start_thread_timer t n k = Some k' \<Longrightarrow> ipc_frame k k'"
proof -
  assume "start_thread_timer t n k = Some k'"
  then have k': "k' = snd (rt_timer_start (ThreadTimer t)
      (upd_timer (ThreadTimer t) (\<lambda>x. x\<lparr>tm_init_tick := n\<rparr>) k))"
    by (auto simp: start_thread_timer_def rt_timer_control_set_time split: if_splits)
  show ?thesis unfolding k' by (rule ipc_frame_trans [OF ipc_frame_upd_timer ipc_frame_basic(6)]) simp
qed

lemma upd_waitq_fields [simp]:
  "waitq (upd_waitq q ts k) q' = (if q' = q then ts else waitq k q')"
  "rt_current_thread (upd_waitq q ts k) = rt_current_thread k"
  "threads (upd_waitq q ts k) = threads k"
  "thread_stat (upd_waitq q ts k) = thread_stat k"
  "thread_prio (upd_waitq q ts k) = thread_prio k"
  "timer_list (upd_waitq q ts k) = timer_list k"
  "timers (upd_waitq q ts k) = timers k"
  "timer_tmp (upd_waitq q ts k) = timer_tmp k"
  "ready_list (upd_waitq q ts k) = ready_list k"
  "ready_group (upd_waitq q ts k) = ready_group k"
  "rt_thread_defunct (upd_waitq q ts k) = rt_thread_defunct k"
  by (simp_all add: upd_waitq_def thread_stat_def thread_prio_def fun_eq_iff)

lemma queue_inv_upd_waitq:
  assumes q: "queue_inv {} k" and d: "distinct ts"
    and s: "\<And>s. s \<in> set ts \<Longrightarrow> thread_stat k s = RT_THREAD_SUSPEND"
    and o: "\<And>s q'. s \<in> set ts \<Longrightarrow> s \<in> set (waitq k q') \<Longrightarrow> q' = q"
  shows "queue_inv {} (upd_waitq q ts k)"
proof
  note D = queue_invD [OF q]
  show "group_inv (upd_waitq q ts k)" using D(1) by (simp add: group_inv_def)
  show "ready_inv {} (upd_waitq q ts k)" using D(2) by (simp add: ready_inv_def)
  show "mask_inv {} (upd_waitq q ts k)" using D(3) by (simp add: mask_inv_def prio_mask_ok_def)
  show "defunct_inv {} (upd_waitq q ts k)" using D(5) by (simp add: defunct_inv_def)
  show "wait_inv {} (upd_waitq q ts k)"
    unfolding wait_inv_def
  proof (intro conjI allI impI)
    show "distinct (waitq (upd_waitq q ts k) q')" for q'
      using D(4) d by (simp add: wait_inv_def)
    show "t \<notin> {}" for t by simp
    show "thread_stat (upd_waitq q ts k) t = RT_THREAD_SUSPEND"
      if "t \<in> set (waitq (upd_waitq q ts k) q')" for q' t
      using that D(4) s by (auto simp: wait_inv_def split: if_splits)
    show "q1 = q2" if "t \<in> set (waitq (upd_waitq q ts k) q1)" "t \<in> set (waitq (upd_waitq q ts k) q2)"
      for q1 q2 t
    proof (cases "q1 = q"; cases "q2 = q")
      assume "q1 \<noteq> q" "q2 \<noteq> q"
      then show ?thesis using that D(4) by (auto simp: wait_inv_def)
    next
      assume "q1 = q" "q2 \<noteq> q"
      then show ?thesis using that o by simp
    next
      assume "q1 \<noteq> q" "q2 = q"
      then show ?thesis using that o by simp
    qed simp
  qed
qed

lemma upd_waitq_kernel_ok:
  assumes k: "kernel_ok k" and d: "distinct ts"
    and s: "\<And>s. s \<in> set ts \<Longrightarrow> thread_stat k s = RT_THREAD_SUSPEND"
    and o: "\<And>s q'. s \<in> set ts \<Longrightarrow> s \<in> set (waitq k q') \<Longrightarrow> q' = q"
  shows "kernel_ok (upd_waitq q ts k)"
proof
  note K = kernel_okD [OF k]
  show "kinv (upd_waitq q ts k)"
  proof
    show "queue_inv {} (upd_waitq q ts k)"
      by (rule queue_inv_upd_waitq [OF kinvD(1) [OF K(1)] d]) (blast intro: s o)+
    show "current_inv {} (upd_waitq q ts k)" using kinvD(2) [OF K(1)] by (simp add: current_inv_def)
  qed
  show "timer_inv (upd_waitq q ts k)" using K(2) by (simp add: timer_inv_def)
  show "sleep_inv {} (upd_waitq q ts k)" using K(3) by (simp add: sleep_inv_def)
qed

section \<open>Joining a suspend list\<close>

definition waitq_enqueue :: "ipc_flag \<Rightarrow> (tid \<Rightarrow> nat) \<Rightarrow> tid \<Rightarrow> tid list \<Rightarrow> tid list" where
  "waitq_enqueue flag prio t ts =
     (case flag of
        RT_IPC_FLAG_FIFO \<Rightarrow> ts @ [t]
      | RT_IPC_FLAG_PRIO \<Rightarrow> list_insert_where (\<lambda>s. prio t < prio s) t ts)"

lemma set_waitq_enqueue [simp]: "set (waitq_enqueue flag prio t ts) = insert t (set ts)"
  by (auto simp: waitq_enqueue_def split: ipc_flag.split)

lemma distinct_waitq_enqueue [simp]:
  "distinct (waitq_enqueue flag prio t ts) \<longleftrightarrow> distinct ts \<and> t \<notin> set ts"
  by (auto simp: waitq_enqueue_def split: ipc_flag.split)

lemma waitq_enqueue_nonempty [simp]: "waitq_enqueue flag prio t ts \<noteq> []"
  by (simp add: waitq_enqueue_def split: ipc_flag.split)

text \<open>A running thread that suspends itself on a list.\<close>

lemma ipc_list_suspend_ok:
  assumes k: "kernel_ok k" and r: "thread_stat k t = RT_THREAD_RUNNING"
    and s: "ipc_list_suspend q t flag k = Some k'"
  shows "kernel_ok k'" "ipc_frame k k'" "rt_current_thread k' = Some t"
    "thread_stat k' t = RT_THREAD_SUSPEND"
    "waitq k' q' = (if q' = q then waitq_enqueue flag (thread_prio k) t (waitq k q) else waitq k q')"
    "t' \<noteq> t \<Longrightarrow> thread_stat k' t' = thread_stat k t'"
proof -
  obtain e k1 where su: "rt_thread_suspend t k = Some (e, k1)"
    and k': "k' = upd_waitq q (waitq_enqueue flag (thread_prio k1) t (waitq k1 q)) k1"
    using s by (cases flag) (auto simp: ipc_list_suspend_def waitq_enqueue_def bind_eq_Some_conv)
  note S = rt_thread_suspend_ok [OF k su]
  have e: "e = RT_EOK" using S(4) r by simp
  note ss = S(3) [OF e]
  note F = ipc_frameD [OF rt_thread_suspend_frame [OF su]]
  note W = queue_invD(4) [OF kinvD(1) [OF kernel_okD(1) [OF S(1)]]]
  show "kernel_ok k'"
    unfolding k'
  proof (rule upd_waitq_kernel_ok [OF S(1)])
    show "distinct (waitq_enqueue flag (thread_prio k1) t (waitq k1 q))"
      using W ss by (simp add: wait_inv_def)
    show "thread_stat k1 s = RT_THREAD_SUSPEND"
      if "s \<in> set (waitq_enqueue flag (thread_prio k1) t (waitq k1 q))" for s
      using that W ss by (auto simp: wait_inv_def)
    show "q' = q" if "s \<in> set (waitq_enqueue flag (thread_prio k1) t (waitq k1 q))"
      "s \<in> set (waitq k1 q')" for s q'
    proof (cases "s = t")
      case True
      with that ss show ?thesis by simp
    next
      case False
      with that have "s \<in> set (waitq k1 q)" by simp
      with that(2) W show ?thesis unfolding wait_inv_def by blast
    qed
  qed
  show "ipc_frame k k'"
    unfolding k' by (rule ipc_frame_trans [OF rt_thread_suspend_frame [OF su]]) simp
  show "rt_current_thread k' = Some t" by (simp add: k' S(2))
  show "thread_stat k' t = RT_THREAD_SUSPEND" using ss by (simp add: k')
  show "waitq k' q' = (if q' = q then waitq_enqueue flag (thread_prio k) t (waitq k q) else waitq k q')"
    by (simp add: k' F(12) S(6))
  show "t' \<noteq> t \<Longrightarrow> thread_stat k' t' = thread_stat k t'" by (simp add: k' S(7))
qed

lemma ipc_block_ok:
  assumes k: "kernel_ok k" and r: "thread_stat k t = RT_THREAD_RUNNING"
    and s: "ipc_block q t flag timeout k = Some k'"
  shows "kernel_ok k'" "ipc_frame k k'" "rt_current_thread k' = Some t"
    "thread_stat k' t = RT_THREAD_SUSPEND"
    "waitq k' = (waitq k)(q := waitq_enqueue flag (thread_prio k) t (waitq k q))"
    "t' \<noteq> t \<Longrightarrow> thread_stat k' t' = thread_stat k t'"
proof -
  obtain k1 where s1: "ipc_list_suspend q t flag k = Some k1"
    and s2: "(if 0 <s timeout then start_thread_timer t timeout k1 else Some k1) = Some k'"
    using s by (auto simp: ipc_block_def bind_eq_Some_conv)
  note S = ipc_list_suspend_ok [OF k r s1]
  have "kernel_ok k' \<and> ipc_frame k k' \<and> rt_current_thread k' = Some t
    \<and> thread_stat k' = thread_stat k1 \<and> waitq k' = waitq k1"
  proof (cases "0 <s timeout")
    case True
    then have st: "start_thread_timer t timeout k1 = Some k'" using s2 by simp
    note T = start_thread_timer_ok [OF S(1) S(4) st]
    show ?thesis
      using T(1,3,4) S(3) ipc_frame_trans [OF S(2) start_thread_timer_frame [OF st]]
      by (simp add: thread_stat_def T(2) fun_eq_iff)
  next
    case False
    with s2 S(1,2,3) show ?thesis by simp
  qed
  with S(4) S(6) show "kernel_ok k'" "ipc_frame k k'" "rt_current_thread k' = Some t"
    "thread_stat k' t = RT_THREAD_SUSPEND"
    "t' \<noteq> t \<Longrightarrow> thread_stat k' t' = thread_stat k t'"
    "waitq k' = (waitq k)(q := waitq_enqueue flag (thread_prio k) t (waitq k q))"
    by (auto simp: S(5) fun_eq_iff)
qed

section \<open>Leaving a suspend list\<close>

lemma ipc_list_resume_ok:
  assumes k: "kernel_ok k" and w: "waitq k q = t # ts" and r: "ipc_list_resume q k = Some k'"
  shows "kernel_ok k'" "ipc_frame k k'" "rt_current_thread k' = rt_current_thread k"
    "waitq k' = (waitq k)(q := ts)"
    "thread_stat k' t = RT_THREAD_READY \<or> thread_stat k' t = RT_THREAD_RUNNING"
    "t' \<noteq> t \<Longrightarrow> thread_stat k' t' = thread_stat k t'"
proof -
  have k': "k' = snd (rt_thread_resume t k)" using r w by (simp add: ipc_list_resume_def)
  note W = queue_invD(4) [OF kinvD(1) [OF kernel_okD(1) [OF k]]]
  have s: "thread_stat k t = RT_THREAD_SUSPEND"
    using W w unfolding wait_inv_def by (metis list.set_intros(1))
  have d: "t \<notin> set ts" using W w by (metis distinct.simps(2) wait_inv_def)
  have o: "t \<notin> set (waitq k q')" if "q' \<noteq> q" for q'
    using W w that by (metis list.set_intros(1) wait_inv_def)
  note R = rt_thread_resume_ok [where t = t, OF k, folded k']
  show "kernel_ok k'" "ipc_frame k k'" "rt_current_thread k' = rt_current_thread k"
    using R(1,2) by (simp_all add: k')
  show "waitq k' = (waitq k)(q := ts)"
    using o d by (auto simp: fun_eq_iff R(5) [OF s] w)
  show "thread_stat k' t = RT_THREAD_READY \<or> thread_stat k' t = RT_THREAD_RUNNING"
    using R(3) [OF s] by simp
  show "t' \<noteq> t \<Longrightarrow> thread_stat k' t' = thread_stat k t'" by (rule R(4))
qed

text \<open>Under the invariant the loop of \<^verbatim>\<open>_ipc_list_resume_all\<close> ends, with every waiter ready.\<close>

lemma ipc_list_resume_all_ok:
  assumes "kernel_ok k"
  shows "\<exists>k'. ipc_list_resume_all q k = Some k' \<and> kernel_ok k' \<and> waitq k' = (waitq k)(q := [])
    \<and> rt_current_thread k' = rt_current_thread k
    \<and> (\<forall>t\<in>set (waitq k q). error (threads k' t) = RT_ERROR
         \<and> (thread_stat k' t = RT_THREAD_READY \<or> thread_stat k' t = RT_THREAD_RUNNING))
    \<and> (\<forall>t. t \<notin> set (waitq k q) \<longrightarrow> thread_stat k' t = thread_stat k t
         \<and> error (threads k' t) = error (threads k t))
    \<and> thread_prio k' = thread_prio k \<and> sems k' = sems k \<and> mutexes k' = mutexes k
    \<and> events k' = events k \<and> mailboxes k' = mailboxes k \<and> msgqueues k' = msgqueues k
    \<and> mempools k' = mempools k \<and> devs k' = devs k \<and> rt_scheduler_lock_nest k' = rt_scheduler_lock_nest k
    \<and> rt_interrupt_nest k' = rt_interrupt_nest k \<and> rt_tick k' = rt_tick k
    \<and> event_data_same k k' \<and> timer_frame k k'"
  using assms
proof (induction "waitq k q" arbitrary: k)
  case Nil
  then have "ipc_list_resume_all q k = Some k" by (subst ipc_list_resume_all.simps) simp
  then show ?case using Nil by (auto simp: fun_upd_idem)
next
  case (Cons t ts)
  note w = Cons.hyps(2) [symmetric]
  let ?e = "upd_thread t (set_error RT_ERROR) k"
  have e: "kernel_ok ?e" using Cons.prems by simp
  have we: "waitq ?e q = t # ts" by (simp add: w)
  let ?r = "snd (rt_thread_resume t ?e)"
  have re: "ipc_list_resume q ?e = Some ?r" by (simp add: ipc_list_resume_def w)
  note R = ipc_list_resume_ok [OF e we re]
  have step: "ipc_list_resume_all q k = ipc_list_resume_all q ?r"
    by (subst ipc_list_resume_all.simps) (simp add: w)
  have "ts = waitq ?r q" by (simp add: R(4))
  from Cons.hyps(1) [OF this R(1)] obtain k' where k': "ipc_list_resume_all q ?r = Some k'" and
    i: "kernel_ok k'" "waitq k' = (waitq ?r)(q := [])" "rt_current_thread k' = rt_current_thread ?r"
    "\<forall>t\<in>set (waitq ?r q). error (threads k' t) = RT_ERROR
         \<and> (thread_stat k' t = RT_THREAD_READY \<or> thread_stat k' t = RT_THREAD_RUNNING)"
    "\<forall>t. t \<notin> set (waitq ?r q) \<longrightarrow> thread_stat k' t = thread_stat ?r t
         \<and> error (threads k' t) = error (threads ?r t)"
    "thread_prio k' = thread_prio ?r" "sems k' = sems ?r" "mutexes k' = mutexes ?r"
    "events k' = events ?r" "mailboxes k' = mailboxes ?r" "msgqueues k' = msgqueues ?r"
    "mempools k' = mempools ?r" "devs k' = devs ?r"
    "rt_scheduler_lock_nest k' = rt_scheduler_lock_nest ?r"
    "rt_interrupt_nest k' = rt_interrupt_nest ?r" "rt_tick k' = rt_tick ?r"
    and ed: "event_data_same ?r k'" and tf: "timer_frame ?r k'"
    by blast
  note F = ipc_frameD [OF R(2)]
  have d: "t \<notin> set ts"
    using queue_invD(4) [OF kinvD(1) [OF kernel_okD(1) [OF Cons.prems]]] w
    by (metis distinct.simps(2) wait_inv_def)
  show ?case
  proof (intro exI [of _ k'] conjI)
    show "ipc_list_resume_all q k = Some k'" by (simp add: step k')
    show "waitq k' = (waitq k)(q := [])" by (simp add: i(2) R(4))
    show "rt_current_thread k' = rt_current_thread k" by (simp add: i(3) R(3))
    show "\<forall>t\<in>set (waitq k q). error (threads k' t) = RT_ERROR
         \<and> (thread_stat k' t = RT_THREAD_READY \<or> thread_stat k' t = RT_THREAD_RUNNING)"
      using i(4,5) R(5) d by (simp add: w R(4) F(9))
    show "\<forall>t. t \<notin> set (waitq k q) \<longrightarrow> thread_stat k' t = thread_stat k t
         \<and> error (threads k' t) = error (threads k t)"
      using i(5) R(6) by (simp add: w R(4) F(9))
    show "event_data_same k k'"
      using ed by (simp add: event_data_same_def F(10,11))
    have "timer_frame ?e ?r" using R(2) by (simp add: ipc_frame_def)
    then show "timer_frame k k'" using tf by (auto simp: timer_frame_def)
  qed (simp_all add: i F(1-8) F(12-14))
qed

lemma ipc_list_resume_all_eq:
  assumes k: "kernel_ok k" and r: "ipc_list_resume_all q k = Some k'"
  shows "kernel_ok k'" "waitq k' = (waitq k)(q := [])" "rt_current_thread k' = rt_current_thread k"
    "t \<in> set (waitq k q) \<Longrightarrow> error (threads k' t) = RT_ERROR
         \<and> (thread_stat k' t = RT_THREAD_READY \<or> thread_stat k' t = RT_THREAD_RUNNING)"
    "t \<notin> set (waitq k q) \<Longrightarrow> thread_stat k' t = thread_stat k t
         \<and> error (threads k' t) = error (threads k t)"
    "thread_prio k' = thread_prio k" "sems k' = sems k" "mutexes k' = mutexes k"
    "events k' = events k" "mailboxes k' = mailboxes k" "msgqueues k' = msgqueues k"
    "rt_scheduler_lock_nest k' = rt_scheduler_lock_nest k"
    "rt_interrupt_nest k' = rt_interrupt_nest k" "rt_tick k' = rt_tick k"
    "mempools k' = mempools k" "event_data_same k k'" "timer_frame k k'" "devs k' = devs k"
  using ipc_list_resume_all_ok [OF k, of q] r by auto

section \<open>The order of a suspend list\<close>

definition waitq_sorted :: "kernel \<Rightarrow> waitq_id \<Rightarrow> bool" where
  "waitq_sorted k q \<longleftrightarrow> sorted (map (thread_prio k) (waitq k q))"

text \<open>
  The order \<^verbatim>\<open>RT_IPC_FLAG_PRIO\<close> keeps: a new waiter goes after every waiter that is as urgent and
  before every less urgent one.
\<close>

lemma waitq_enqueue_prio:
  assumes "sorted (map prio ts)"
  shows "waitq_enqueue RT_IPC_FLAG_PRIO prio t ts =
      filter (\<lambda>s. prio s \<le> prio t) ts @ t # filter (\<lambda>s. prio t < prio s) ts"
    "sorted (map prio (waitq_enqueue RT_IPC_FLAG_PRIO prio t ts))"
proof -
  have "list_insert_where (\<lambda>s. prio t < prio s) t ts =
      filter (\<lambda>s. prio s \<le> prio t) ts @ t # filter (\<lambda>s. prio t < prio s) ts"
    using assms
  proof (induction ts)
    case (Cons s ts)
    show ?case
    proof (cases "prio t < prio s")
      case True
      with Cons.prems have "\<forall>x\<in>set ts. prio t < prio x" by fastforce
      with True show ?thesis by (auto simp: filter_empty_conv not_le filter_id_conv)
    next
      case False
      with Cons show ?thesis by simp
    qed
  qed simp
  then show "waitq_enqueue RT_IPC_FLAG_PRIO prio t ts =
      filter (\<lambda>s. prio s \<le> prio t) ts @ t # filter (\<lambda>s. prio t < prio s) ts"
    by (simp add: waitq_enqueue_def)
  show "sorted (map prio (waitq_enqueue RT_IPC_FLAG_PRIO prio t ts))"
    unfolding waitq_enqueue_def ipc_flag.case
    by (rule sorted_list_insert_where [OF assms]) simp
qed


section \<open>Operations that add no waiter\<close>

text \<open>
  \<open>thread_level k k'\<close>: the objects are the same and no thread has joined a suspend list. Everything
  the scheduler, the timers and a thread's own timeouts do is of this kind.
\<close>

datatype ipc_class = Sem_class | Mutex_class | Event_class | Mailbox_class | Queue_class | Pool_class
  | Completion_class | Dataqueue_class | Wqueue_class | Work_class

fun waitq_class :: "waitq_id \<Rightarrow> ipc_class" where
  "waitq_class (SemWait s) = Sem_class"
| "waitq_class (MutexWait s) = Mutex_class"
| "waitq_class (EventWait s) = Event_class"
| "waitq_class (MbRecvWait s) = Mailbox_class"
| "waitq_class (MbSendWait s) = Mailbox_class"
| "waitq_class (MqRecvWait s) = Queue_class"
| "waitq_class (MqSendWait s) = Queue_class"
| "waitq_class (PoolWait s) = Pool_class"
| "waitq_class (CompletionWait s) = Completion_class"
| "waitq_class (DqPopWait s) = Dataqueue_class"
| "waitq_class (DqPushWait s) = Dataqueue_class"

fun same_store :: "ipc_class \<Rightarrow> kernel \<Rightarrow> kernel \<Rightarrow> bool" where
  "same_store Sem_class k k' \<longleftrightarrow> sems k' = sems k"
| "same_store Mutex_class k k' \<longleftrightarrow> mutexes k' = mutexes k"
| "same_store Event_class k k' \<longleftrightarrow> events k' = events k \<and> event_data_same k k'"
| "same_store Mailbox_class k k' \<longleftrightarrow> mailboxes k' = mailboxes k"
| "same_store Queue_class k k' \<longleftrightarrow> msgqueues k' = msgqueues k"
| "same_store Pool_class k k' \<longleftrightarrow> mempools k' = mempools k"
| "same_store Completion_class k k' \<longleftrightarrow> completions (devs k') = completions (devs k)"
| "same_store Dataqueue_class k k' \<longleftrightarrow> dataqueues (devs k') = dataqueues (devs k)"
| "same_store Wqueue_class k k' \<longleftrightarrow> wqueues (devs k') = wqueues (devs k) \<and> wqnodes (devs k') = wqnodes (devs k)"
| "same_store Work_class k k' \<longleftrightarrow> works (devs k') = works (devs k) \<and> workqueues (devs k') = workqueues (devs k)"

text \<open>\<open>class_frame A k k'\<close>: the objects and the waiters of no class but \<open>A\<close> are affected.\<close>

definition class_frame :: "ipc_class \<Rightarrow> kernel \<Rightarrow> kernel \<Rightarrow> bool" where
  "class_frame A k k' \<longleftrightarrow> timer_frame k k' \<and> (\<forall>B. B \<noteq> A \<longrightarrow> same_store B k k')
     \<and> (\<forall>q. waitq_class q \<noteq> A \<longrightarrow> set (waitq k' q) \<subseteq> set (waitq k q))"

definition stores_same :: "kernel \<Rightarrow> kernel \<Rightarrow> bool" where
  "stores_same k k' \<longleftrightarrow> sems k' = sems k \<and> mutexes k' = mutexes k \<and> events k' = events k
     \<and> mailboxes k' = mailboxes k \<and> msgqueues k' = msgqueues k \<and> mempools k' = mempools k
     \<and> devs k' = devs k \<and> event_data_same k k'"

definition obj_frame :: "kernel \<Rightarrow> kernel \<Rightarrow> bool" where
  "obj_frame k k' \<longleftrightarrow> stores_same k k' \<and> timer_frame k k'"

lemma stores_same_store: "stores_same k k' \<Longrightarrow> same_store A k k'"
  by (cases A) (simp_all add: stores_same_def)

lemma stores_same_trans: "stores_same k k1 \<Longrightarrow> stores_same k1 k2 \<Longrightarrow> stores_same k k2"
  by (auto simp: stores_same_def intro: event_data_same_trans)

definition thread_level :: "kernel \<Rightarrow> kernel \<Rightarrow> bool" where
  "thread_level k k' \<longleftrightarrow> obj_frame k k' \<and> (\<forall>q. set (waitq k' q) \<subseteq> set (waitq k q))"

lemma thread_level_refl [simp]: "thread_level k k"
  by (simp add: thread_level_def obj_frame_def stores_same_def)

lemma thread_level_trans [trans]:
  "thread_level k k1 \<Longrightarrow> thread_level k1 k2 \<Longrightarrow> thread_level k k2"
  by (auto simp: thread_level_def obj_frame_def intro: stores_same_trans timer_frame_trans)

lemma obj_frame_trans [trans]: "obj_frame k k1 \<Longrightarrow> obj_frame k1 k2 \<Longrightarrow> obj_frame k k2"
  by (auto simp: obj_frame_def intro: stores_same_trans timer_frame_trans)

lemma ipc_frame_obj: "ipc_frame k k' \<Longrightarrow> obj_frame k k'"
  by (simp add: ipc_frame_def obj_frame_def stores_same_def event_data_same_def same_thread_data_def)

lemma obj_frameD:
  assumes "obj_frame k k'"
  shows "sems k' = sems k" "mutexes k' = mutexes k" "events k' = events k"
    "mailboxes k' = mailboxes k" "msgqueues k' = msgqueues k" "mempools k' = mempools k"
    "same_store B k k'" "devs k' = devs k"
  using assms by (cases B; simp add: obj_frame_def stores_same_def)+

lemma same_store_trans: "same_store A k k1 \<Longrightarrow> same_store A k1 k2 \<Longrightarrow> same_store A k k2"
  by (cases A) (auto intro: event_data_same_trans)

lemma class_frame_trans [trans]:
  "class_frame A k k1 \<Longrightarrow> class_frame A k1 k2 \<Longrightarrow> class_frame A k k2"
  unfolding class_frame_def by (meson same_store_trans subset_trans timer_frame_trans)

lemma thread_level_class: "thread_level k k' \<Longrightarrow> class_frame A k k'"
  by (simp add: thread_level_def class_frame_def obj_frameD(7)) (simp add: obj_frame_def)

lemma class_frame_block:
  assumes "obj_frame k k'" and "waitq k' = (waitq k)(q := ts)" and "waitq_class q = A"
  shows "class_frame A k k'"
  using assms obj_frameD(7) [OF assms(1)] by (auto simp: class_frame_def obj_frame_def)

lemma obj_frame_upd_thread [simp]:
  "event_set (f (threads k t)) = event_set (threads k t)
    \<Longrightarrow> event_info (f (threads k t)) = event_info (threads k t) \<Longrightarrow> obj_frame k (upd_thread t f k)"
  "obj_frame k (upd_waitq q ts k)"
  by (simp_all add: obj_frame_def stores_same_def upd_waitq_def)

lemma thread_levelI: "ipc_frame k k' \<Longrightarrow> (\<And>q. set (waitq k' q) \<subseteq> set (waitq k q)) \<Longrightarrow> thread_level k k'"
  by (simp add: thread_level_def ipc_frame_obj)

lemma rt_schedule_thread_level:
  "kernel_ok k \<Longrightarrow> rt_schedule k = Some k' \<Longrightarrow> thread_level k k'"
  using rt_schedule_others(2) [OF kernel_okD(1)] by (intro thread_levelI rt_schedule_ipc_frame) auto

lemma upd_thread_thread_level [simp]:
  "event_set (f (threads k t)) = event_set (threads k t)
    \<Longrightarrow> event_info (f (threads k t)) = event_info (threads k t) \<Longrightarrow> thread_level k (upd_thread t f k)"
  by (simp add: thread_level_def)

lemma rt_thread_resume_thread_level:
  "kernel_ok k \<Longrightarrow> thread_level k (snd (rt_thread_resume t k))"
  using rt_thread_resume_ok(5,7) [of k t]
  by (intro thread_levelI rt_thread_resume_frame) (cases "thread_stat k t = RT_THREAD_SUSPEND"; auto)

lemma rt_thread_suspend_thread_level:
  "kernel_ok k \<Longrightarrow> rt_thread_suspend t k = Some (e, k') \<Longrightarrow> thread_level k k'"
  using rt_thread_suspend_ok(6) by (intro thread_levelI rt_thread_suspend_frame) auto

lemma thread_timeout_thread_level:
  assumes k: "kernel_ok k" and r: "thread_timeout t k = Some k'"
  shows "thread_level k k'"
proof -
  let ?e = "upd_thread t (set_error RT_ETIMEOUT) k"
  let ?i = "rt_schedule_insert_thread t (tlist_remove t ?e)"
  have r': "rt_schedule ?i = Some k'"
    using r by (auto simp: thread_timeout_def Let_def split: if_splits)
  have "obj_frame ?e ?i"
    by (rule ipc_frame_obj, rule ipc_frame_trans [OF ipc_frame_basic(3) ipc_frame_basic(2)])
  moreover have "obj_frame ?i k'" by (rule ipc_frame_obj [OF rt_schedule_ipc_frame [OF r']])
  ultimately show ?thesis
    using thread_timeout_wakes(3) [OF kernel_okD(1) [OF k] r]
    by (auto simp: thread_level_def obj_frame_def stores_same_def event_data_same_def
        timer_frame_def)
qed

section \<open>Suspend lists that are empty while the object is available\<close>

text \<open>
  The contract every class of IPC object shares: as long as an object has what its waiters wait
  for, nobody waits. The client lemmas say that the contract survives whatever the scheduler does,
  and a thread that blocks on an object that is not available.
\<close>

definition waits_guarded :: "(nat \<Rightarrow> waitq_id) \<Rightarrow> (kernel \<Rightarrow> nat \<Rightarrow> bool) \<Rightarrow> kernel \<Rightarrow> bool" where
  "waits_guarded q avail k \<longleftrightarrow> (\<forall>s. avail k s \<longrightarrow> waitq k (q s) = [])"

locale guarded_waitq =
  fixes cls :: ipc_class and q :: "nat \<Rightarrow> waitq_id" and avail :: "kernel \<Rightarrow> nat \<Rightarrow> bool"
  assumes avail_store: "same_store cls k k' \<Longrightarrow> avail k' s = avail k s"
    and queue_class: "waitq_class (q s) = cls"
    and queues_distinct: "q s = q s' \<Longrightarrow> s = s'"
begin

lemma guarded_class_frame:
  assumes g: "waits_guarded q avail k" and s: "same_store cls k k'"
    and w: "\<And>s. set (waitq k' (q s)) \<subseteq> set (waitq k (q s))"
  shows "waits_guarded q avail k'"
  using g w avail_store [OF s] unfolding waits_guarded_def by (metis set_empty subset_empty)

lemma guarded_other_class:
  assumes "waits_guarded q avail k" and "class_frame A k k'" and "A \<noteq> cls"
  shows "waits_guarded q avail k'"
proof (rule guarded_class_frame [OF assms(1)])
  show "same_store cls k k'" using assms(2,3) by (simp add: class_frame_def)
  show "set (waitq k' (q s)) \<subseteq> set (waitq k (q s))" for s
    using assms(2,3) queue_class [of s] by (simp add: class_frame_def)
qed

lemma guarded_thread_level:
  assumes "waits_guarded q avail k" and "thread_level k k'"
  shows "waits_guarded q avail k'"
  using assms(2) by (intro guarded_class_frame [OF assms(1)]) (auto simp: thread_level_def obj_frameD(7))

lemma guarded_block:
  assumes "waits_guarded q avail k" and "\<not> avail k s" and "same_store cls k k'"
    and "waitq k' = (waitq k)(q s := ts)"
  shows "waits_guarded q avail k'"
  using assms(1,2,4) avail_store [OF assms(3)] queues_distinct by (auto simp: waits_guarded_def)

lemma guarded_update:
  assumes "waits_guarded q avail k" and "\<And>s'. s' \<noteq> s \<Longrightarrow> avail k' s' = avail k s'"
    and "\<And>s'. s' \<noteq> s \<Longrightarrow> set (waitq k' (q s')) \<subseteq> set (waitq k (q s'))"
    and "avail k' s \<Longrightarrow> waitq k' (q s) = []"
  shows "waits_guarded q avail k'"
  unfolding waits_guarded_def
proof (intro allI impI)
  fix s'
  assume a: "avail k' s'"
  show "waitq k' (q s') = []"
  proof (cases "s' = s")
    case True
    with a assms(4) show ?thesis by simp
  next
    case False
    with a assms(1,2,3) show ?thesis
      unfolding waits_guarded_def by (metis set_empty subset_empty)
  qed
qed

end

section \<open>Blocking and waking, then scheduling\<close>

text \<open>The two ends every IPC operation has: put the caller to sleep, or wake the first waiter.\<close>

lemma kernel_ok_stores [simp]:
  "kernel_ok (k\<lparr>sems := x1\<rparr>) = kernel_ok k" "kernel_ok (k\<lparr>mutexes := x2\<rparr>) = kernel_ok k"
  "kernel_ok (k\<lparr>events := x3\<rparr>) = kernel_ok k" "kernel_ok (k\<lparr>mailboxes := x4\<rparr>) = kernel_ok k"
  "kernel_ok (k\<lparr>msgqueues := x5\<rparr>) = kernel_ok k" "kernel_ok (k\<lparr>mempools := x6\<rparr>) = kernel_ok k"
  "kernel_ok (k\<lparr>devs := x7\<rparr>) = kernel_ok k"
  by (simp_all add: kernel_ok_def timer_inv_def sleep_inv_def thread_stat_def)

lemma ipc_wait_ok:
  assumes k: "kernel_ok k" and r: "thread_stat k t = RT_THREAD_RUNNING"
    and b: "ipc_block q t flag timeout k = Some k1" and s: "rt_schedule k1 = Some k'"
  shows "kernel_ok k'" "ipc_frame k k'" "thread_stat k' t = RT_THREAD_SUSPEND"
    "waitq k' = (waitq k)(q := waitq_enqueue flag (thread_prio k) t (waitq k q))"
    "class_frame (waitq_class q) k k'"
proof -
  note B = ipc_block_ok [OF k r b]
  show "kernel_ok k'" by (rule rt_schedule_kernel_ok [OF B(1) s])
  show f: "ipc_frame k k'" by (rule ipc_frame_trans [OF B(2) rt_schedule_ipc_frame [OF s]])
  note O = rt_schedule_others [OF kernel_okD(1) [OF B(1)] s]
  show "thread_stat k' t = RT_THREAD_SUSPEND" using O(1) [of t] B(4) by simp
  show w: "waitq k' = (waitq k)(q := waitq_enqueue flag (thread_prio k) t (waitq k q))"
    by (simp add: O(2) B(5))
  show "class_frame (waitq_class q) k k'"
    by (rule class_frame_block [OF ipc_frame_obj [OF f] w refl])
qed

lemma ipc_wake_ok:
  assumes k: "kernel_ok k" and w: "waitq k q = t # ts"
    and b: "ipc_list_resume q k = Some k1" and s: "rt_schedule k1 = Some k'"
  shows "kernel_ok k'" "ipc_frame k k'" "waitq k' = (waitq k)(q := ts)"
    "thread_stat k' t = RT_THREAD_READY \<or> thread_stat k' t = RT_THREAD_RUNNING"
    "class_frame (waitq_class q) k k'"
proof -
  note B = ipc_list_resume_ok [OF k w b]
  show "kernel_ok k'" by (rule rt_schedule_kernel_ok [OF B(1) s])
  show f: "ipc_frame k k'" by (rule ipc_frame_trans [OF B(2) rt_schedule_ipc_frame [OF s]])
  show w: "waitq k' = (waitq k)(q := ts)"
    by (simp add: rt_schedule_others(2) [OF kernel_okD(1) [OF B(1)] s] B(4))
  show "thread_stat k' t = RT_THREAD_READY \<or> thread_stat k' t = RT_THREAD_RUNNING"
    by (rule rt_schedule_runnable [OF kernel_okD(1) [OF B(1)] s B(5)])
  show "class_frame (waitq_class q) k k'"
    by (rule class_frame_block [OF ipc_frame_obj [OF f] w refl])
qed

lemma ipc_object_init_ok:
  assumes k: "kernel_ok k"
  shows "kernel_ok (ipc_object_init q k)" "obj_frame k (ipc_object_init q k)"
    "waitq (ipc_object_init q k) = (waitq k)(q := [])"
    "threads (ipc_object_init q k) = threads k"
    "rt_current_thread (ipc_object_init q k) = rt_current_thread k"
  unfolding ipc_object_init_def
  by (rule upd_waitq_kernel_ok [OF k]) (auto simp: fun_eq_iff)

lemma ipc_resume_all_class:
  assumes k: "kernel_ok k" and r: "ipc_list_resume_all q k = Some k'"
  shows "thread_level k k'" "obj_frame k k'"
  using ipc_list_resume_all_eq [OF k r] by (auto simp: thread_level_def obj_frame_def stores_same_def)

lemma init_class: "waitq_class q = A \<Longrightarrow> class_frame A k (ipc_object_init q k)"
  by (rule class_frame_block [where q = q and ts = "[]"])
    (simp_all add: ipc_object_init_def upd_waitq_def obj_frame_def stores_same_def)

lemma ipc_wake_one_ok:
  assumes k: "kernel_ok k" and r: "ipc_wake_one q k = Some k'"
  shows "kernel_ok k'" "thread_level k k'" "ipc_frame k k'" "waitq k' = (waitq k)(q := tl (waitq k q))"
    "waitq k q = t # ts \<Longrightarrow> thread_stat k' t = RT_THREAD_READY \<or> thread_stat k' t = RT_THREAD_RUNNING"
proof -
  have "kernel_ok k' \<and> ipc_frame k k' \<and> waitq k' = (waitq k)(q := tl (waitq k q))
    \<and> (waitq k q = t # ts \<longrightarrow> thread_stat k' t = RT_THREAD_READY \<or> thread_stat k' t = RT_THREAD_RUNNING)"
  proof (cases "waitq k q")
    case Nil
    with k r show ?thesis by (simp add: ipc_wake_one_def fun_upd_idem)
  next
    case (Cons u us)
    then obtain k1 where k1: "ipc_list_resume q k = Some k1" "rt_schedule k1 = Some k'"
      using r by (auto simp: ipc_wake_one_def bind_eq_Some_conv)
    note W = ipc_wake_ok [OF k Cons k1]
    show ?thesis using W Cons by auto
  qed
  then show a: "kernel_ok k'" "ipc_frame k k'" "waitq k' = (waitq k)(q := tl (waitq k q))"
    "waitq k q = t # ts \<Longrightarrow> thread_stat k' t = RT_THREAD_READY \<or> thread_stat k' t = RT_THREAD_RUNNING"
    by blast+
  show "thread_level k k'"
    by (rule thread_levelI [OF a(2)]) (auto simp: a(3) dest: list.set_sel(2) split: if_splits; cases "waitq k q"; auto)
qed

section \<open>Objects whose invariant is about the object alone\<close>

text \<open>
  \<open>class_step A I k k'\<close>: the invariants hold afterwards, and nothing of a class other than \<open>A\<close> has
  been touched.
\<close>

definition class_step :: "ipc_class \<Rightarrow> (kernel \<Rightarrow> bool) \<Rightarrow> kernel \<Rightarrow> kernel \<Rightarrow> bool" where
  "class_step A I k k' \<longleftrightarrow> kernel_ok k' \<and> I k' \<and> class_frame A k k'"

lemma class_stepI: "kernel_ok k' \<Longrightarrow> I k' \<Longrightarrow> class_frame A k k' \<Longrightarrow> class_step A I k k'"
  by (simp add: class_step_def)

lemma class_stepD:
  assumes "class_step A I k k'"
  shows "kernel_ok k'" "I k'" "class_frame A k k'"
  using assms by (simp_all add: class_step_def)

text \<open>The contract: the invariant reads only the store of the class.\<close>

locale ipc_store =
  fixes cls :: ipc_class and I :: "kernel \<Rightarrow> bool"
  assumes store: "same_store cls k k' \<Longrightarrow> I k \<Longrightarrow> I k'"
begin

lemma other_class: "I k \<Longrightarrow> class_frame A k k' \<Longrightarrow> A \<noteq> cls \<Longrightarrow> I k'"
  using store by (metis class_frame_def)

lemma obj: "I k \<Longrightarrow> obj_frame k k' \<Longrightarrow> I k'"
  using store obj_frameD(7) by blast

lemma step_refl: "kernel_ok k \<Longrightarrow> I k \<Longrightarrow> class_step cls I k k"
  by (simp add: class_step_def thread_level_class [OF thread_level_refl])

lemma step_thread_level:
  assumes "class_step cls I k k1" and "kernel_ok k2" and "thread_level k1 k2"
  shows "class_step cls I k k2"
  using assms obj [of k1 k2] class_frame_trans [OF _ thread_level_class [OF assms(3)]]
  by (auto simp: class_step_def thread_level_def)

lemma step_schedule: "class_step cls I k k1 \<Longrightarrow> rt_schedule k1 = Some k2 \<Longrightarrow> class_step cls I k k2"
  using step_thread_level rt_schedule_kernel_ok rt_schedule_thread_level class_stepD(1) by blast

lemma step_wake_one: "class_step cls I k k1 \<Longrightarrow> ipc_wake_one q k1 = Some k2 \<Longrightarrow> class_step cls I k k2"
  using step_thread_level ipc_wake_one_ok(1,2) class_stepD(1) by blast

lemma step_error: "class_step cls I k k1 \<Longrightarrow> class_step cls I k (upd_thread t (set_error e) k1)"
proof (rule step_thread_level)
  assume s: "class_step cls I k k1"
  show "class_step cls I k k1" by (rule s)
  show "kernel_ok (upd_thread t (set_error e) k1)" using class_stepD(1) [OF s] by simp
  show "thread_level k1 (upd_thread t (set_error e) k1)" by simp
qed

lemma step_resume_all:
  assumes s: "class_step cls I k k1" and r: "ipc_list_resume_all q k1 = Some k2"
  shows "class_step cls I k k2" "obj_frame k1 k2"
  using step_thread_level [OF s ipc_list_resume_all_eq(1) ipc_resume_all_class(1)]
    ipc_resume_all_class(2) [OF class_stepD(1) [OF s] r] class_stepD(1) [OF s] r by blast+

lemma step_init_list:
  assumes s: "class_step cls I k k1" and q: "waitq_class q = cls"
  shows "class_step cls I k (ipc_object_init q k1)"
proof -
  note A = ipc_object_init_ok [OF class_stepD(1) [OF s], of q]
  show ?thesis
    using A(1) obj [OF class_stepD(2) [OF s] A(2)]
      class_frame_trans [OF class_stepD(3) [OF s] init_class [OF q]] by (simp add: class_step_def)
qed

text \<open>Going to sleep on a list of the class.\<close>

lemma step_block:
  assumes k: "kernel_ok k" and i: "I k" and c: "thread_stat k t = RT_THREAD_RUNNING"
    and q: "waitq_class q = cls"
    and b: "ipc_block q t flag timeout (upd_thread t (set_error RT_EOK) k) = Some k1"
    and s: "rt_schedule k1 = Some k'"
  shows "class_step cls I k k'" "thread_stat k' t = RT_THREAD_SUSPEND" "obj_frame k k'"
    "waitq k' = (waitq k)(q := waitq_enqueue flag (thread_prio k) t (waitq k q))"
    "error (threads k' t) = RT_EOK"
proof -
  let ?e = "upd_thread t (set_error RT_EOK) k"
  have e: "kernel_ok ?e" using k by simp
  have r: "thread_stat ?e t = RT_THREAD_RUNNING" using c by simp
  note W = ipc_wait_ok [OF e r b s]
  show o: "obj_frame k k'" by (rule obj_frame_trans [OF _ ipc_frame_obj [OF W(2)]]) simp
  have "class_frame cls k ?e" by (rule thread_level_class) simp
  with W(5) have "class_frame cls k k'" unfolding q by (rule class_frame_trans [rotated])
  with W(1) obj [OF i o] show "class_step cls I k k'" by (simp add: class_step_def)
  show "thread_stat k' t = RT_THREAD_SUSPEND" by (rule W(3))
  show "waitq k' = (waitq k)(q := waitq_enqueue flag (thread_prio k) t (waitq k q))"
    by (simp add: W(4))
  show "error (threads k' t) = RT_EOK" by (simp add: ipc_frameD(9) [OF W(2)])
qed

end

section \<open>Callers, and what steps of several parts share\<close>

definition caller_running :: "kernel \<Rightarrow> bool" where
  "caller_running k \<longleftrightarrow> (\<forall>t. rt_current_thread k = Some t \<longrightarrow> thread_stat k t = RT_THREAD_RUNNING)"

lemma caller_runningD: "caller_running k \<Longrightarrow> rt_current_thread k = Some t \<Longrightarrow> thread_stat k t = RT_THREAD_RUNNING"
  by (simp add: caller_running_def)

text \<open>Suspending the running thread with its timer set, then scheduling.\<close>

lemma sleep_ok:
  assumes k: "kernel_ok k" and run: "thread_stat k t = RT_THREAD_RUNNING"
    and s: "rt_thread_suspend t k = Some (e, k1)" and st: "start_thread_timer t n k1 = Some k2"
    and sc: "rt_schedule k2 = Some k'"
  shows "kernel_ok k'" "thread_level k k'"
proof -
  note S = rt_thread_suspend_ok [OF k s]
  have "thread_stat k1 t = RT_THREAD_SUSPEND" using S(3,4) run by blast
  note T = start_thread_timer_ok [OF S(1) this st]
  show "kernel_ok k'" by (rule rt_schedule_kernel_ok [OF T(1) sc])
  have "thread_level k k1" by (rule rt_thread_suspend_thread_level [OF k s])
  also have "thread_level k1 k2"
    by (rule thread_levelI [OF start_thread_timer_frame [OF st]]) (simp add: T(4))
  also have "thread_level k2 k'" by (rule rt_schedule_thread_level [OF T(1) sc])
  finally show "thread_level k k'" .
qed

lemma kernel_ok_counters [simp]:
  "kernel_ok (k\<lparr>rt_scheduler_lock_nest := n\<rparr>) = kernel_ok k"
  "kernel_ok (k\<lparr>rt_interrupt_nest := i\<rparr>) = kernel_ok k"
  by (simp_all add: kernel_ok_def timer_inv_def sleep_inv_def thread_stat_def)

lemma thread_level_counters [simp]:
  "thread_level k (k\<lparr>rt_scheduler_lock_nest := n\<rparr>)" "thread_level k (k\<lparr>rt_interrupt_nest := i\<rparr>)"
  "thread_level k (k\<lparr>rt_tick := v\<rparr>)"
  by (simp_all add: thread_level_def obj_frame_def stores_same_def)

lemma upd_user_timer_ok:
  assumes k: "kernel_ok k" and tm: "tm = UserTimer n"
    and on: "tm \<in> set (timer_list k) \<Longrightarrow> timer_flag_set (f (timers k tm)) RT_TIMER_FLAG_ACTIVATED"
    and off: "timer_flag_set (f (timers k tm)) RT_TIMER_FLAG_ACTIVATED \<Longrightarrow> activated k tm"
  shows "kernel_ok (upd_timer tm f k)" "thread_level k (upd_timer tm f k)"
proof -
  note K = kernel_okD [OF k]
  show "kernel_ok (upd_timer tm f k)"
  proof
    show "timer_inv (upd_timer tm f k)" using K(2) on off by (auto simp: timer_inv_def)
    show "sleep_inv {} (upd_timer tm f k)" using K(3) by (simp add: sleep_inv_def)
  qed (simp add: K(1))
  show "thread_level k (upd_timer tm f k)"
    by (simp add: thread_level_def obj_frame_def stores_same_def timer_frame_def upd_timer_def tm)
qed

lemma timer_control_activated:
  assumes "timer_control_body cmd arg x = Some (arg', x')"
  shows "timer_flag_set x' RT_TIMER_FLAG_ACTIVATED = timer_flag_set x RT_TIMER_FLAG_ACTIVATED"
proof -
  have "(f OR 2) AND 1 = f AND (1 :: u8)" "(f AND NOT 2) AND 1 = f AND (1 :: u8)" for f :: u8
    by (rule bit_eqI; auto simp: bit_simps)+
  with assms show ?thesis
    by (cases cmd) (auto simp: timer_flag_set_def RT_TIMER_FLAG_ACTIVATED_def RT_TIMER_FLAG_PERIODIC_def
        timer_get_remain_time_def Let_def bind_eq_Some_conv split: if_splits)
qed

lemma timer_unlink_ok:
  assumes k: "kernel_ok k" and tm: "tm = UserTimer n"
  shows "kernel_ok (upd_timer tm clear_activated (timer_remove tm k))"
    "thread_level k (upd_timer tm clear_activated (timer_remove tm k))"
proof -
  note K = kernel_okD [OF k]
  show "kernel_ok (upd_timer tm clear_activated (timer_remove tm k))"
    using K timer_drop_inv [OF K(2), of tm] by (auto simp: kernel_ok_def sleep_inv_def)
  show "thread_level k (upd_timer tm clear_activated (timer_remove tm k))"
    by (auto simp: thread_level_def obj_frame_def stores_same_def timer_frame_def upd_timer_def
        timer_remove_def)
qed

lemma user_timer_ok:
  assumes k: "kernel_ok k"
  shows "kernel_ok (snd (rt_timer_start (UserTimer n) k))" "thread_level k (snd (rt_timer_start tm k))"
    "kernel_ok (snd (rt_timer_stop tm k))" "thread_level k (snd (rt_timer_stop tm k))"
proof -
  note K = kernel_okD [OF k]
  show "kernel_ok (snd (rt_timer_start (UserTimer n) k))"
    using K rt_timer_start_inv [OF K(2)] by (auto simp: kernel_ok_def sleep_inv_def rt_timer_start_fields)
  show "kernel_ok (snd (rt_timer_stop tm k))"
    using K rt_timer_stop_inv [OF K(2)] timer_stop_list [OF K(2), of tm]
    by (auto simp: kernel_ok_def sleep_inv_def)
  show "thread_level k (snd (rt_timer_start tm k))" "thread_level k (snd (rt_timer_stop tm k))"
    by (rule thread_levelI; simp)+
qed


section \<open>Leaving a critical section\<close>

lemma rt_exit_critical_ok:
  assumes k: "kernel_ok k" and r: "rt_exit_critical k = Some k'"
  shows "kernel_ok k'" "thread_level k k'"
proof -
  have n: "kernel_ok (k\<lparr>rt_scheduler_lock_nest := n\<rparr>)" "thread_level k (k\<lparr>rt_scheduler_lock_nest := n\<rparr>)" for n
    using k by (simp_all add: kernel_ok_def timer_inv_def sleep_inv_def thread_stat_def
        thread_level_def obj_frame_def stores_same_def)
  consider m where "rt_schedule (k\<lparr>rt_scheduler_lock_nest := m\<rparr>) = Some k'"
    | m where "k' = k\<lparr>rt_scheduler_lock_nest := m\<rparr>"
    using r by (auto simp: rt_exit_critical_def Let_def split: if_splits)
  then have "kernel_ok k' \<and> thread_level k k'"
  proof cases
    case (1 m)
    with rt_schedule_kernel_ok [OF n(1) 1] thread_level_trans [OF n(2) rt_schedule_thread_level [OF n(1) 1]]
    show ?thesis by blast
  next
    case (2 m)
    with n show ?thesis by simp
  qed
  then show "kernel_ok k'" "thread_level k k'" by blast+
qed

section \<open>The shared operations return\<close>

text \<open>
  With every stack intact and a timeout in range no assertion of the shared operations fails.
\<close>

lemma ipc_frame_stacks_ok: "ipc_frame k k' \<Longrightarrow> stacks_ok k \<Longrightarrow> stacks_ok k'"
  by (metis ipc_frame_def stack_check_same stacks_ok_def)

lemma stacks_ok_upd:
  "stacks_ok k \<Longrightarrow> scheduler_stack_check (f (threads k t)) = scheduler_stack_check (threads k t)
    \<Longrightarrow> stacks_ok (upd_thread t f k)"
  by (simp add: stacks_ok_def)

lemma stacks_ok_set_error [simp]: "stacks_ok k \<Longrightarrow> stacks_ok (upd_thread t (set_error e) k)"
  by (rule stacks_ok_upd) (simp_all add: scheduler_stack_check_def set_error_def)

lemma schedule_returns:
  assumes "kernel_ok k" and "stacks_ok k" and "rt_current_thread k = Some c"
  obtains k' where "rt_schedule k = Some k'"
  using rt_schedule_returns [OF kernel_okD(1) [OF assms(1)] assms(2,3)] by blast

lemma suspend_returns:
  assumes "rt_current_thread k = Some t"
  obtains e k' where "rt_thread_suspend t k = Some (e, k')"
  using that assms by (cases "thread_stat k t \<noteq> RT_THREAD_READY \<and> thread_stat k t \<noteq> RT_THREAD_RUNNING")
    (simp_all add: rt_thread_suspend_def rt_thread_self_def Let_def)

lemma start_thread_timer_returns:
  assumes "n < half_tick_max"
  obtains k' where "start_thread_timer t n k = Some k'"
  using assms by (auto simp: start_thread_timer_def rt_timer_control_set_time)

lemma ipc_block_returns:
  assumes k: "kernel_ok k" and s: "stacks_ok k" and c: "rt_current_thread k = Some t"
    and r: "thread_stat k t = RT_THREAD_RUNNING" and n: "0 <s timeout \<Longrightarrow> timeout < half_tick_max"
  obtains k' k'' where "ipc_block q t flag timeout k = Some k'" "rt_schedule k' = Some k''"
proof -
  obtain e k1 where "rt_thread_suspend t k = Some (e, k1)" by (rule suspend_returns [OF c])
  then obtain k2 where k2: "ipc_list_suspend q t flag k = Some k2" by (auto simp: ipc_list_suspend_def)
  obtain k' where b: "ipc_block q t flag timeout k = Some k'"
    using n start_thread_timer_returns [of timeout t k2]
    by (cases "0 <s timeout") (simp add: ipc_block_def k2, metis, simp add: ipc_block_def k2)
  note B = ipc_block_ok [OF k r b]
  obtain k'' where "rt_schedule k' = Some k''"
    by (rule schedule_returns [OF B(1) ipc_frame_stacks_ok [OF B(2) s] B(3)])
  with b show ?thesis by (rule that)
qed

lemma ipc_wake_one_returns:
  assumes k: "kernel_ok k" and s: "stacks_ok k" and c: "rt_current_thread k = Some c"
  obtains k' where "ipc_wake_one q k = Some k'"
proof (cases "waitq k q")
  case Nil
  then show ?thesis using that by (simp add: ipc_wake_one_def)
next
  case (Cons t ts)
  then obtain k1 where b: "ipc_list_resume q k = Some k1" by (simp add: ipc_list_resume_def)
  note B = ipc_list_resume_ok [OF k Cons b]
  obtain k' where "rt_schedule k1 = Some k'"
    by (rule schedule_returns [OF B(1) ipc_frame_stacks_ok [OF B(2) s]]) (simp add: B(3) c)
  with b Cons show ?thesis using that by (simp add: ipc_wake_one_def)
qed

end
