(* ===== verification/Rtt_Clock.thy ===== *)
theory Rtt_Clock
  imports Rtt_Ipc
begin

unbundle bit_operations_syntax

text \<open>
  The clock, \<^verbatim>\<open>src/clock.c\<close>: what the tick interrupt does to the running thread's time slice and to
  the timer list, and the conversion of milliseconds. The timeout functions of application timers
  are an argument; those of threads are \<open>thread_timeout\<close>.
\<close>

section \<open>The tick\<close>

definition timeout_func :: "(nat \<Rightarrow> kernel \<Rightarrow> kernel option) \<Rightarrow> timeout_funcs" where
  "timeout_func user tm k =
     (case tm of ThreadTimer t \<Rightarrow> thread_timeout t k | UserTimer n \<Rightarrow> user n k)"

definition tick_time_slice :: "kernel \<Rightarrow> kernel option" where
  "tick_time_slice k = do {
     let k = k\<lparr>rt_tick := rt_tick k + 1\<rparr>;
     t \<leftarrow> rt_thread_self k;
     let k = upd_thread t (\<lambda>x. x\<lparr>remaining_tick := remaining_tick x - 1\<rparr>) k;
     (if remaining_tick (threads k t) = 0
      then rt_schedule (upd_thread t (\<lambda>x. x\<lparr>remaining_tick := init_tick x,
                                           stat := stat x OR RT_THREAD_STAT_YIELD\<rparr>) k)
      else Some k) }"

definition rt_tick_increase :: "timeout_funcs \<Rightarrow> kernel \<Rightarrow> kernel option" where
  "rt_tick_increase funcs k = do {
     k \<leftarrow> tick_time_slice k;
     rt_timer_check funcs k }"

section \<open>Milliseconds\<close>

definition RT_TICK_PER_SECOND :: int where "RT_TICK_PER_SECOND = 1000"

definition RT_WAITING_FOREVER :: u32 where "RT_WAITING_FOREVER = - 1"

text \<open>The argument is an \<^verbatim>\<open>rt_int32_t\<close>; its arithmetic is done in \<^verbatim>\<open>int\<close>, the sum in \<^verbatim>\<open>rt_tick_t\<close>.\<close>

definition rt_tick_from_millisecond :: "int \<Rightarrow> u32" where
  "rt_tick_from_millisecond ms =
     (if ms < 0 then RT_WAITING_FOREVER
      else
        (let tick = word_of_int (RT_TICK_PER_SECOND * (ms div 1000))
         in tick + word_of_int ((RT_TICK_PER_SECOND * (ms mod 1000) + 999) div 1000)))"

definition rt_tick_get_millisecond :: "kernel \<Rightarrow> u32" where
  "rt_tick_get_millisecond k = rt_tick_get k * (1000 div word_of_int RT_TICK_PER_SECOND)"

definition rt_thread_mdelay :: "int \<Rightarrow> kernel \<Rightarrow> ((tid, rt_err) outcome \<times> kernel) option" where
  "rt_thread_mdelay ms k = rt_thread_sleep (rt_tick_from_millisecond ms) k"

section \<open>What a timer's callback may do\<close>

definition one_shot_threads :: "kernel \<Rightarrow> bool" where
  "one_shot_threads k \<longleftrightarrow> (\<forall>t. \<not> periodic k (ThreadTimer t))"

text \<open>The states in which \<^verbatim>\<open>rt_timer_check\<close> calls the function of \<open>tm\<close>, and those it may leave.\<close>

definition callback_state :: "timer_id \<Rightarrow> kernel \<Rightarrow> bool" where
  "callback_state tm k \<longleftrightarrow> kernel_ok k \<and> one_shot_threads k \<and> timer_tmp k = [tm]
     \<and> tm \<notin> set (timer_list k) \<and> (activated k tm \<longrightarrow> periodic k tm)"

definition callback_done :: "timer_id \<Rightarrow> kernel \<Rightarrow> bool" where
  "callback_done tm k \<longleftrightarrow> callback_state tm k
     \<or> kernel_ok k \<and> one_shot_threads k \<and> timer_tmp k = []"

definition check_state :: "kernel \<Rightarrow> bool" where
  "check_state k \<longleftrightarrow> kernel_ok k \<and> one_shot_threads k \<and> timer_tmp k = []"

text \<open>The fields the timer list's own bookkeeping does not touch.\<close>

definition timer_only :: "kernel \<Rightarrow> kernel \<Rightarrow> bool" where
  "timer_only k k' \<longleftrightarrow> threads k' = threads k \<and> waitq k' = waitq k \<and> stores_same k k'
     \<and> rt_current_thread k' = rt_current_thread k"

lemma timer_only_trans: "timer_only k k1 \<Longrightarrow> timer_only k1 k2 \<Longrightarrow> timer_only k k2"
  by (auto simp: timer_only_def intro: stores_same_trans)

lemma timer_only_basic [simp]:
  "timer_only k k" "timer_only k (upd_timer t f k)" "timer_only k (timer_remove t k)"
  "timer_only k (k\<lparr>timer_tmp := l\<rparr>)" "timer_only k (timer_insert t k)"
  by (simp_all add: timer_only_def stores_same_def upd_timer_def timer_remove_def timer_insert_def)

lemma timer_only_start [simp]: "timer_only k (snd (rt_timer_start t k))"
  unfolding rt_timer_start_eq Let_def
  by (rule timer_only_trans [OF timer_only_trans [OF timer_only_trans [OF timer_only_basic(3)
        timer_only_basic(2)] timer_only_basic(5)] timer_only_basic(2)])

lemma timer_only_take [simp]: "timer_only k (timer_take t k)"
proof -
  let ?r = "timer_remove t k"
  let ?c = "if timer_flag_set (timers ?r t) RT_TIMER_FLAG_PERIODIC then ?r
            else upd_timer t clear_activated ?r"
  have "timer_only k ?r" by simp
  moreover have "timer_only ?r ?c" by simp
  moreover have "timer_only ?c (?c\<lparr>timer_tmp := t # timer_tmp ?c\<rparr>)" by simp
  ultimately show ?thesis unfolding timer_take_def Let_def by (blast intro: timer_only_trans)
qed

lemma timer_only_put_back [simp]: "timer_only k (timer_put_back t k)"
proof -
  let ?r = "timer_remove t k"
  let ?u = "upd_timer t clear_activated ?r"
  have r: "timer_only k ?r" by simp
  moreover have "timer_only ?r ?u" by simp
  moreover have "timer_only ?u (snd (rt_timer_start t ?u))" by simp
  ultimately have "timer_only k (snd (rt_timer_start t ?u))" by (blast intro: timer_only_trans)
  with r show ?thesis by (simp add: timer_put_back_def Let_def)
qed

lemma kinv_timer_only_updates [simp]:
  "kinv_except X (k\<lparr>timer_tmp := l\<rparr>) = kinv_except X k"
  "kinv_except X (timer_take t k) = kinv_except X k"
  "kinv_except X (timer_put_back t k) = kinv_except X k"
  by (simp_all add: timer_take_def timer_put_back_def Let_def)

text \<open>Taking an expired timer leads to such a state, and putting it back leads on to the next.\<close>

lemma timer_take_callback_state:
  assumes k: "check_state k" and t: "t \<in> set (timer_list k)"
  shows "callback_state t (timer_take t k)"
proof -
  have K: "kernel_ok k" "one_shot_threads k" "timer_tmp k = []" using k by (simp_all add: check_state_def)
  note kk = kernel_okD [OF K(1)]
  have st: "thread_stat (timer_take t k) = thread_stat k"
    using timer_only_take [of k t] by (simp add: timer_only_def thread_stat_def fun_eq_iff)
  have act: "activated (timer_take t k) s \<longleftrightarrow> activated k s \<and> (s = t \<longrightarrow> periodic k t)" for s
    using timer_take_fields(2) [of s t k] by (auto simp: timer_take_def Let_def)
  have per: "periodic (timer_take t k) s = periodic k s" for s
    using timer_take_fields(2) [of s t k] timer_take_fields(5) [of t k] by (cases "s = t") auto
  have "timer_inv (timer_take t k)"
    using kk(2) K(3) by (auto simp: timer_inv_def timer_take_fields act distinct_removeAll)
  moreover have "sleep_inv {} (timer_take t k)"
    using kk(3) by (simp add: sleep_inv_def st timer_take_fields)
  ultimately have "kernel_ok (timer_take t k)" using kk(1) by (simp add: kernel_ok_def)
  then show ?thesis
    using K by (simp add: callback_state_def one_shot_threads_def per timer_take_fields act)
qed

lemma timer_put_back_check_state:
  assumes "callback_done t k"
  shows "check_state (timer_put_back t k)"
proof (cases "timer_tmp k = []")
  case True
  with assms show ?thesis
    by (auto simp: callback_done_def callback_state_def check_state_def timer_put_back_def)
next
  case False
  with assms have K: "kernel_ok k" "one_shot_threads k" "timer_tmp k = [t]"
    "t \<notin> set (timer_list k)" "activated k t \<longrightarrow> periodic k t"
    by (auto simp: callback_done_def callback_state_def)
  note kk = kernel_okD [OF K(1)]
  let ?r = "timer_remove t k"
  let ?u = "upd_timer t clear_activated ?r"
  have kv: "kinv (timer_put_back t k)" using kk(1) by simp
  have st: "thread_stat (timer_put_back t k) = thread_stat k"
    using timer_only_put_back [of k t] by (simp add: timer_only_def thread_stat_def fun_eq_iff)
  show ?thesis
  proof (cases "activated k t")
    case True
    then have pb: "timer_put_back t k = snd (rt_timer_start t ?u)"
      using K by (simp add: timer_put_back_def Let_def)
    have "timer_inv (timer_put_back t k)"
      unfolding pb by (rule rt_timer_start_inv [OF timer_drop_inv [OF kk(2)]])
    moreover have "t \<noteq> ThreadTimer s" for s using K(2,5) True by (auto simp: one_shot_threads_def)
    then have "sleep_inv {} (timer_put_back t k)"
      using kk(3) unfolding sleep_inv_def st by (auto simp: pb rt_timer_start_fields)
    moreover have "one_shot_threads (timer_put_back t k)" "timer_tmp (timer_put_back t k) = []"
      using K(2,3) \<open>\<And>s. t \<noteq> ThreadTimer s\<close>
      by (auto simp: one_shot_threads_def pb rt_timer_start_fields)
    ultimately show ?thesis using kv by (simp add: check_state_def kernel_ok_def)
  next
    case False
    then have pb: "timer_put_back t k = ?r" using K by (simp add: timer_put_back_def Let_def)
    have "timer_inv ?r" using kk(2) False K(3) by (auto simp: timer_inv_def distinct_removeAll)
    moreover have "sleep_inv {} ?r" using kk(3) by (simp add: sleep_inv_def)
    ultimately show ?thesis
      using kk(1) K(2,3) by (simp add: pb check_state_def kernel_ok_def one_shot_threads_def)
  qed
qed

text \<open>
  Callbacks that keep a property \<open>inv\<close> of threads and objects, and leave a state the check can go on
  from. The client lemma is that a whole \<^verbatim>\<open>rt_timer_check\<close> then keeps it too.
\<close>

locale timer_callbacks =
  fixes funcs :: timeout_funcs and inv :: "kernel \<Rightarrow> bool"
  assumes inv_timer_only: "inv k \<Longrightarrow> timer_only k k' \<Longrightarrow> inv k'"
    and callback: "callback_state tm k \<Longrightarrow> inv k \<Longrightarrow> funcs tm k = Some k'
      \<Longrightarrow> callback_done tm k' \<and> inv k'"
begin

lemma check_loop_keeps:
  assumes "timer_check_loop funcs n k = Some k'" and "check_state k" and "inv k"
  shows "check_state k' \<and> inv k'"
proof -
  have "f = funcs \<longrightarrow> check_state k \<longrightarrow> inv k \<longrightarrow> check_state k' \<and> inv k'"
    if "timer_check_loop f n k = Some k'" for f n k k'
  proof (rule timer_check_loop.raw_induct [OF _ that], intro impI)
    fix loop f n k k'
    assume IH: "\<And>f n k k'. loop f n k = Some k' \<Longrightarrow>
        f = funcs \<longrightarrow> check_state k \<longrightarrow> inv k \<longrightarrow> check_state k' \<and> inv k'"
      and r: "(case timer_list k of [] \<Rightarrow> Some k
        | t # x \<Rightarrow>
            if timer_expired n (timers k t)
            then f t (timer_take t k) \<bind> (\<lambda>k'. loop f (rt_tick_get k') (timer_put_back t k'))
            else Some k) = Some k'"
      and f: "f = funcs" and s: "check_state k" and i: "inv k"
    show "check_state k' \<and> inv k'"
    proof (cases "timer_list k")
      case Nil
      with r s i show ?thesis by simp
    next
      case (Cons t ts)
      show ?thesis
      proof (cases "timer_expired n (timers k t)")
        case False
        with r s i Cons show ?thesis by simp
      next
        case True
        with r Cons obtain k1 where k1: "funcs t (timer_take t k) = Some k1"
          and l: "loop funcs (rt_tick_get k1) (timer_put_back t k1) = Some k'"
          by (auto simp: f bind_eq_Some_conv)
        have "callback_state t (timer_take t k)"
          by (rule timer_take_callback_state [OF s]) (simp add: Cons)
        moreover have "inv (timer_take t k)" by (rule inv_timer_only [OF i]) simp
        ultimately have d: "callback_done t k1" "inv k1" using callback k1 by blast+
        show ?thesis
          using IH [OF l] timer_put_back_check_state [OF d(1)]
            inv_timer_only [OF d(2) timer_only_put_back] by simp
      qed
    qed
  qed
  then show ?thesis using assms by blast
qed

lemma rt_timer_check_keeps:
  assumes "rt_timer_check funcs k = Some k'" and "check_state k" and "inv k"
  shows "check_state k' \<and> inv k'"
proof -
  have "k\<lparr>timer_tmp := []\<rparr> = k" using assms(2) by (cases k) (auto simp: check_state_def)
  then show ?thesis
    using check_loop_keeps [OF _ assms(2,3)] assms(1) by (simp add: rt_timer_check_def)
qed

end

text \<open>Thread timeouts are such callbacks; application timers are, if their functions are.\<close>

lemma thread_timeout_callback:
  assumes c: "callback_state (ThreadTimer t) k" and r: "thread_timeout t k = Some k'"
  shows "callback_done (ThreadTimer t) k'"
proof -
  have l: "ThreadTimer t \<notin> set (timer_list k)" using c by (simp add: callback_state_def)
  have ok: "kernel_ok k'" using c by (intro thread_timeout_ok [OF _ r l]) (simp add: callback_state_def)
  let ?i = "rt_schedule_insert_thread t (tlist_remove t (upd_thread t (set_error RT_ETIMEOUT) k))"
  have "rt_schedule ?i = Some k'" using r by (auto simp: thread_timeout_def Let_def split: if_splits)
  note F = sched_frameD [OF rt_schedule_frame [OF this]]
  have "timers k' = timers k" "timer_list k' = timer_list k" "timer_tmp k' = timer_tmp k"
    by (simp_all add: F)
  with ok c show ?thesis by (auto simp: callback_done_def callback_state_def one_shot_threads_def)
qed

interpretation thread_timers: timer_callbacks "timeout_func (\<lambda>_. Some)" "\<lambda>_. True"
proof
  show "callback_done tm k' \<and> True"
    if "callback_state tm k" "timeout_func (\<lambda>_. Some) tm k = Some k'" for tm k k'
    using that thread_timeout_callback
    by (cases tm) (auto simp: timeout_func_def callback_done_def)
qed simp

section \<open>The tick keeps the invariant\<close>

lemma kernel_ok_tick [simp]: "kernel_ok (k\<lparr>rt_tick := n\<rparr>) = kernel_ok k"
  by (simp add: kernel_ok_def timer_inv_def sleep_inv_def thread_stat_def)

text \<open>The state right after the tick has been counted, before the time slice is looked at.\<close>

definition tick_counted :: "tid \<Rightarrow> kernel \<Rightarrow> kernel" where
  "tick_counted t k = upd_thread t (\<lambda>x. x\<lparr>remaining_tick := remaining_tick x - 1\<rparr>)
     (k\<lparr>rt_tick := rt_tick k + 1\<rparr>)"

definition slice_over :: "thread \<Rightarrow> thread" where
  "slice_over x = x\<lparr>remaining_tick := init_tick x, stat := stat x OR RT_THREAD_STAT_YIELD\<rparr>"

lemma tick_time_slice_eq:
  "tick_time_slice k =
     (case rt_current_thread k of
        None \<Rightarrow> None
      | Some t \<Rightarrow>
          if remaining_tick (threads k t) = 1
          then rt_schedule (upd_thread t slice_over (tick_counted t k))
          else Some (tick_counted t k))"
  by (auto simp: tick_time_slice_def rt_thread_self_def Let_def tick_counted_def
      slice_over_def [abs_def] split: option.splits)

lemma tick_counted_ok:
  assumes "kernel_ok k"
  shows "kernel_ok (tick_counted t k)" "thread_level k (tick_counted t k)"
    "kernel_ok (upd_thread t slice_over (tick_counted t k))"
    "thread_level k (upd_thread t slice_over (tick_counted t k))"
proof -
  show a: "kernel_ok (tick_counted t k)"
    unfolding tick_counted_def
    by (rule upd_thread_kernel_ok) (simp_all add: assms thread_stat_def thread_prio_def)
  show b: "thread_level k (tick_counted t k)"
    by (simp add: tick_counted_def thread_level_def obj_frame_def stores_same_def event_data_same_def
        timer_frame_def)
  show "kernel_ok (upd_thread t slice_over (tick_counted t k))"
    by (rule upd_thread_kernel_ok [OF a]) (simp_all add: slice_over_def thread_stat_def thread_prio_def)
  show "thread_level k (upd_thread t slice_over (tick_counted t k))"
    by (rule thread_level_trans [OF b]) (simp add: slice_over_def)
qed

lemma tick_time_slice_ok [inv_intros]:
  assumes k: "kernel_ok k" and r: "tick_time_slice k = Some k'"
  shows "kernel_ok k'" "thread_level k k'" "timers k' = timers k" "timer_list k' = timer_list k"
    "timer_tmp k' = timer_tmp k" "rt_tick k' = rt_tick k + 1"
proof -
  obtain t where t: "rt_current_thread k = Some t"
    using r by (auto simp: tick_time_slice_eq split: option.splits)
  let ?u = "upd_thread t slice_over (tick_counted t k)"
  note C = tick_counted_ok [OF k, of t]
  have f: "timers ?u = timers k" "timer_list ?u = timer_list k" "timer_tmp ?u = timer_tmp k"
    "rt_tick ?u = rt_tick k + 1" "timers (tick_counted t k) = timers k"
    "timer_list (tick_counted t k) = timer_list k" "timer_tmp (tick_counted t k) = timer_tmp k"
    "rt_tick (tick_counted t k) = rt_tick k + 1"
    by (simp_all add: tick_counted_def)
  have "rt_schedule ?u = Some k' \<or> k' = tick_counted t k"
    using r t by (cases "remaining_tick (threads k t) = 1") (simp_all add: tick_time_slice_eq)
  then consider "rt_schedule ?u = Some k'" | "k' = tick_counted t k" by blast
  then have "kernel_ok k' \<and> thread_level k k' \<and> timers k' = timers k \<and> timer_list k' = timer_list k
    \<and> timer_tmp k' = timer_tmp k \<and> rt_tick k' = rt_tick k + 1"
  proof cases
    case 1
    note F = sched_frameD [OF rt_schedule_frame [OF 1]]
    have "timers k' = timers k" "timer_list k' = timer_list k" "timer_tmp k' = timer_tmp k"
      "rt_tick k' = rt_tick k + 1"
      by (simp_all add: F(1,4-6) f)
    then show ?thesis
      using rt_schedule_kernel_ok [OF C(3) 1]
        thread_level_trans [OF C(4) rt_schedule_thread_level [OF C(3) 1]] by blast
  next
    case 2
    then show ?thesis using C f by simp
  qed
  then show "kernel_ok k'" "thread_level k k'" "timers k' = timers k" "timer_list k' = timer_list k"
    "timer_tmp k' = timer_tmp k" "rt_tick k' = rt_tick k + 1" by blast+
qed

lemma rt_tick_increase_ok [inv_intros]:
  assumes k: "check_state k" and r: "rt_tick_increase funcs k = Some k'"
    and cb: "timer_callbacks funcs I" and i: "\<And>k'. thread_level k k' \<Longrightarrow> I k'"
  shows "check_state k' \<and> I k'"
proof -
  obtain k1 where s: "tick_time_slice k = Some k1" and c: "rt_timer_check funcs k1 = Some k'"
    using r by (auto simp: rt_tick_increase_def bind_eq_Some_conv)
  have kk: "kernel_ok k" using k by (simp add: check_state_def)
  note S = tick_time_slice_ok [OF kk s]
  have "check_state k1" using k by (simp add: check_state_def one_shot_threads_def S)
  then show ?thesis
    by (rule timer_callbacks.rt_timer_check_keeps [OF cb c]) (rule i [OF S(2)])
qed

section \<open>What a tick does\<close>

text \<open>A thread whose time slice is used up gives way to the next one of its priority.\<close>

lemma time_slice_round_robin:
  assumes k: "kernel_ok k" and r: "tick_time_slice k = Some k'"
    and u: "rt_scheduler_lock_nest k = 0" and c: "rt_current_thread k = Some c"
    and run: "thread_stat k c = RT_THREAD_RUNNING" and rem: "remaining_tick (threads k c) = 1"
    and l: "ready_list k (thread_prio k c) = t # ts"
    and top: "\<And>p. p < thread_prio k c \<Longrightarrow> ready_list k p = []"
  shows "rt_current_thread k' = Some t" "ready_list k' (thread_prio k c) = ts @ [c]"
    "remaining_tick (threads k' c) = init_tick (threads k c)"
proof -
  let ?u = "upd_thread c slice_over (tick_counted c k)"
  have s: "rt_schedule ?u = Some k'" using r c rem by (simp add: tick_time_slice_eq)
  have ku: "kinv ?u" by (rule kernel_okD(1) [OF tick_counted_ok(3) [OF k]])
  have pr: "thread_prio ?u c = thread_prio k c" by (simp add: tick_counted_def slice_over_def thread_prio_def)
  have y: "stat (threads ?u c) AND RT_THREAD_STAT_YIELD \<noteq> 0"
  proof -
    have "(x OR RT_THREAD_STAT_YIELD) AND RT_THREAD_STAT_YIELD = RT_THREAD_STAT_YIELD" for x
      by (rule bit_eqI) (auto simp: bit_simps)
    then show ?thesis by (simp add: slice_over_def stat_defs)
  qed
  have st: "thread_stat ?u c = RT_THREAD_RUNNING"
    using run by (simp add: tick_counted_def slice_over_def thread_stat_def)
  have rl: "ready_list ?u = ready_list k" by (simp add: tick_counted_def)
  note R = rt_schedule_round_robin [OF ku s _ _ st y, unfolded pr rl, OF _ _ l top]
  show "rt_current_thread k' = Some t" "ready_list k' (thread_prio k c) = ts @ [c]"
    using R u c by (simp_all add: tick_counted_def)
  show "remaining_tick (threads k' c) = init_tick (threads k c)"
    using rt_schedule_frame [OF s]
    by (simp add: sched_frame_def same_thread_data_def slice_over_def tick_counted_def)
qed

lemma timeout_func_neutral:
  "timer_neutral (timeout_func (\<lambda>_. Some))"
  unfolding timer_neutral_def
proof (intro allI impI)
  fix tm k k' assume r: "timeout_func (\<lambda>_. Some) tm k = Some k'"
  show "timers k' = timers k \<and> timer_list k' = timer_list k \<and> timer_tmp k' = timer_tmp k
     \<and> rt_tick k' = rt_tick k"
  proof (cases tm)
    case (ThreadTimer t)
    let ?i = "rt_schedule_insert_thread t (tlist_remove t (upd_thread t (set_error RT_ETIMEOUT) k))"
    have "rt_schedule ?i = Some k'"
      using r ThreadTimer by (auto simp: timeout_func_def thread_timeout_def Let_def split: if_splits)
    note F = sched_frameD [OF rt_schedule_frame [OF this]]
    show ?thesis by (simp add: F)
  next
    case (UserTimer n)
    with r show ?thesis by (simp add: timeout_func_def)
  qed
qed

text \<open>
  One tick fires, in their order, exactly the timers that had at most one tick to go.
\<close>

lemma rt_tick_increase_fires:
  assumes f: "timer_neutral f" and k: "kernel_ok k" and tmp: "timer_tmp k = []"
    and p: "timers_pending k" and s: "timers_sorted k"
    and o: "\<forall>t\<in>set (timer_list k). \<not> periodic k t"
    and sl: "tick_time_slice k = Some k1"
  shows "rt_tick_increase f k = fire_all f (filter (\<lambda>t. timer_remaining k t \<le> 1) (timer_list k)) k1"
proof -
  note S = tick_time_slice_ok [OF k sl]
  let ?k0 = "rt_tick_set (rt_tick k) k1"
  have undo: "rt_tick_set (rt_tick ?k0 + 1) ?k0 = k1"
    using S(6) by (cases k1) (simp add: rt_tick_set_def)
  have same: "timer_list ?k0 = timer_list k" "timers ?k0 = timers k" "timer_tmp ?k0 = []" "rt_tick ?k0 = rt_tick k"
    by (simp_all add: rt_tick_set_def S tmp)
  have rem: "timer_remaining ?k0 = timer_remaining k" by (simp add: timer_remaining_def same fun_eq_iff)
  have "timer_inv ?k0" using kernel_okD(2) [OF k] by (simp add: timer_inv_def same tmp)
  moreover have "timers_pending ?k0" "timers_sorted ?k0"
    using p s by (simp_all add: timers_pending_def timers_sorted_def rem same)
  ultimately have "rt_timer_check f (rt_tick_set (rt_tick ?k0 + 1) ?k0) =
    fire_all f (filter (\<lambda>t. timer_remaining ?k0 t \<le> unat (1 :: u32)) (timer_list ?k0))
      ((rt_tick_set (rt_tick ?k0 + 1) ?k0)\<lparr>timer_tmp := []\<rparr>)"
    by (intro rt_timer_check_after [OF f]) (use o in \<open>auto simp: same half_tick_max_value\<close>)
  moreover have "k1\<lparr>timer_tmp := []\<rparr> = k1" using S(5) tmp by (cases k1) simp
  ultimately show ?thesis
    unfolding undo by (simp add: rem same rt_tick_increase_def sl)
qed

section \<open>Milliseconds\<close>

text \<open>At 1000 ticks per second the conversion is exact on the whole range of the argument.\<close>

lemma tick_from_ms_exact:
  assumes "0 \<le> ms" "ms < 2 ^ 31"
  shows "uint (rt_tick_from_millisecond ms) = ms"
proof -
  have "(1000 * (ms mod 1000) + 999) div 1000 = ms mod 1000" by simp
  then have "rt_tick_from_millisecond ms = word_of_int (1000 * (ms div 1000)) + word_of_int (ms mod 1000)"
    using assms(1) by (simp only: rt_tick_from_millisecond_def RT_TICK_PER_SECOND_def Let_def not_less
        [symmetric] if_False)
  also have "\<dots> = word_of_int (1000 * (ms div 1000) + ms mod 1000)" by (simp only: of_int_add)
  also have "1000 * (ms div 1000) + ms mod 1000 = ms" by simp
  finally show ?thesis using assms by (simp add: uint_word_of_int take_bit_eq_mod)
qed

end
