(* ===== verification/Rtt_Sem.thy ===== *)
theory Rtt_Sem
  imports Rtt_Ipc
begin

text \<open>
  Counting semaphores, \<^verbatim>\<open>src/ipc.c\<close>. A semaphore is a 16-bit counter and a suspend list; a release
  hands the unit to the first waiter if there is one. \<open>s\<close> names the semaphore; where the C allocates
  the object, the allocation's result is an argument.
\<close>

section \<open>Operations\<close>

definition upd_sem :: "nat \<Rightarrow> (semaphore \<Rightarrow> semaphore) \<Rightarrow> kernel \<Rightarrow> kernel" where
  "upd_sem s f k = k\<lparr>sems := (sems k)(s := f (sems k s))\<rparr>"

definition RT_SEM_VALUE_MAX :: u16 where "RT_SEM_VALUE_MAX = 0xffff"

definition rt_sem_init :: "nat \<Rightarrow> u32 \<Rightarrow> ipc_flag \<Rightarrow> kernel \<Rightarrow> (rt_err \<times> kernel) option" where
  "rt_sem_init s value flag k = do {
     rt_assert (value < 0x10000);
     let k = ipc_object_init (SemWait s) k;
     Some (RT_EOK, upd_sem s (\<lambda>_. \<lparr>sem_object = Obj_static, sem_flag = flag,
                                  sem_value = ucast value\<rparr>) k) }"

definition rt_sem_detach :: "nat \<Rightarrow> kernel \<Rightarrow> (rt_err \<times> kernel) option" where
  "rt_sem_detach s k = do {
     rt_assert (sem_object (sems k s) = Obj_static);
     k \<leftarrow> ipc_list_resume_all (SemWait s) k;
     Some (RT_EOK, upd_sem s (\<lambda>x. x\<lparr>sem_object := Obj_none\<rparr>) k) }"

definition rt_sem_create ::
    "nat option \<Rightarrow> u32 \<Rightarrow> ipc_flag \<Rightarrow> kernel \<Rightarrow> (nat option \<times> kernel) option" where
  "rt_sem_create alloc value flag k = do {
     rt_assert (value < 0x10000);
     debug_not_in_interrupt k;
     (case alloc of
        None \<Rightarrow> Some (None, k)
      | Some s \<Rightarrow>
          (let k = ipc_object_init (SemWait s) k
           in Some (Some s, upd_sem s (\<lambda>_. \<lparr>sem_object = Obj_dynamic, sem_flag = flag,
                                             sem_value = ucast value\<rparr>) k))) }"

definition rt_sem_delete :: "nat \<Rightarrow> kernel \<Rightarrow> (rt_err \<times> kernel) option" where
  "rt_sem_delete s k = do {
     rt_assert (sem_object (sems k s) = Obj_dynamic);
     debug_not_in_interrupt k;
     k \<leftarrow> ipc_list_resume_all (SemWait s) k;
     Some (RT_EOK, upd_sem s (\<lambda>x. x\<lparr>sem_object := Obj_none\<rparr>) k) }"

definition rt_sem_take ::
    "nat \<Rightarrow> u32 \<Rightarrow> kernel \<Rightarrow> ((tid, rt_err) outcome \<times> kernel) option" where
  "rt_sem_take s timeout k = do {
     rt_assert (sem_object (sems k s) \<noteq> Obj_none);
     (if 0 < sem_value (sems k s)
      then Some (Returned RT_EOK, upd_sem s (\<lambda>x. x\<lparr>sem_value := sem_value x - 1\<rparr>) k)
      else if timeout = 0 then Some (Returned RT_ETIMEOUT, k)
      else do {
        debug_scheduler_available True k;
        t \<leftarrow> rt_thread_self k;
        let k = upd_thread t (set_error RT_EOK) k;
        k \<leftarrow> ipc_block (SemWait s) t (sem_flag (sems k s)) timeout k;
        k \<leftarrow> rt_schedule k;
        Some (Waiting t, k) }) }"

definition rt_sem_take_resume :: "tid \<Rightarrow> kernel \<Rightarrow> rt_err" where
  "rt_sem_take_resume t k =
     (if error (threads k t) \<noteq> RT_EOK then error (threads k t) else RT_EOK)"

definition rt_sem_trytake ::
    "nat \<Rightarrow> kernel \<Rightarrow> ((tid, rt_err) outcome \<times> kernel) option" where
  "rt_sem_trytake s k = rt_sem_take s 0 k"

definition rt_sem_release :: "nat \<Rightarrow> kernel \<Rightarrow> (rt_err \<times> kernel) option" where
  "rt_sem_release s k = do {
     rt_assert (sem_object (sems k s) \<noteq> Obj_none);
     (if waitq k (SemWait s) \<noteq> []
      then do {
        k \<leftarrow> ipc_list_resume (SemWait s) k;
        k \<leftarrow> rt_schedule k;
        Some (RT_EOK, k) }
      else if sem_value (sems k s) < RT_SEM_VALUE_MAX
      then Some (RT_EOK, upd_sem s (\<lambda>x. x\<lparr>sem_value := sem_value x + 1\<rparr>) k)
      else Some (RT_EFULL, k)) }"

text \<open>\<open>reset\<close> is \<^verbatim>\<open>cmd == RT_IPC_CMD_RESET\<close>.\<close>

definition rt_sem_control :: "nat \<Rightarrow> bool \<Rightarrow> u32 \<Rightarrow> kernel \<Rightarrow> (rt_err \<times> kernel) option" where
  "rt_sem_control s reset arg k = do {
     rt_assert (sem_object (sems k s) \<noteq> Obj_none);
     (if reset
      then do {
        k \<leftarrow> ipc_list_resume_all (SemWait s) k;
        let k = upd_sem s (\<lambda>x. x\<lparr>sem_value := ucast arg\<rparr>) k;
        k \<leftarrow> rt_schedule k;
        Some (RT_EOK, k) }
      else Some (RT_ERROR, k)) }"

section \<open>Frames\<close>

lemma upd_sem_fields [simp]:
  "sems (upd_sem s f k) s' = (if s' = s then f (sems k s) else sems k s')"
  "waitq (upd_sem s f k) = waitq k" "threads (upd_sem s f k) = threads k"
  "thread_stat (upd_sem s f k) = thread_stat k" "thread_prio (upd_sem s f k) = thread_prio k"
  "rt_current_thread (upd_sem s f k) = rt_current_thread k"
  "rt_scheduler_lock_nest (upd_sem s f k) = rt_scheduler_lock_nest k"
  "kernel_ok (upd_sem s f k) = kernel_ok k"
  by (simp_all add: upd_sem_def thread_stat_def thread_prio_def fun_eq_iff)

lemma upd_sem_class [simp]: "class_frame Sem_class k (upd_sem s f k)"
proof -
  have "same_store B k (upd_sem s f k)" if "B \<noteq> Sem_class" for B
    using that by (cases B) (simp_all add: upd_sem_def)
  then show ?thesis by (simp add: class_frame_def upd_sem_def)
qed

section \<open>Nobody waits for a unit that is there\<close>

definition sem_avail :: "kernel \<Rightarrow> nat \<Rightarrow> bool" where
  "sem_avail k s \<longleftrightarrow> 0 < sem_value (sems k s)"

definition sem_inv :: "kernel \<Rightarrow> bool" where
  "sem_inv k \<longleftrightarrow> waits_guarded SemWait sem_avail k"

interpretation semq: guarded_waitq Sem_class SemWait sem_avail
  by unfold_locales (simp_all add: sem_avail_def)

lemma sem_inv_class: "sem_inv k \<Longrightarrow> class_frame A k k' \<Longrightarrow> A \<noteq> Sem_class \<Longrightarrow> sem_inv k'"
  unfolding sem_inv_def by (rule semq.guarded_other_class)

lemma sem_inv_thread_level: "sem_inv k \<Longrightarrow> thread_level k k' \<Longrightarrow> sem_inv k'"
  unfolding sem_inv_def by (rule semq.guarded_thread_level)

text \<open>The states in which a thread may call a blocking operation.\<close>

lemma rt_sem_take_cases:
  assumes r: "rt_sem_take s timeout k = Some (res, k')"
  obtains
    (got) "0 < sem_value (sems k s)" "res = Returned RT_EOK"
      "k' = upd_sem s (\<lambda>x. x\<lparr>sem_value := sem_value x - 1\<rparr>) k"
  | (no_wait) "sem_value (sems k s) = 0" "timeout = 0" "res = Returned RT_ETIMEOUT" "k' = k"
  | (wait) t k1 where "sem_value (sems k s) = 0" "timeout \<noteq> 0" "res = Waiting t"
      "rt_current_thread k = Some t" "rt_scheduler_lock_nest k = 0" "rt_interrupt_nest k = 0"
      "ipc_block (SemWait s) t (sem_flag (sems k s)) timeout (upd_thread t (set_error RT_EOK) k)
         = Some k1" "rt_schedule k1 = Some k'"
  using r by (auto simp: rt_sem_take_def Let_def bind_eq_Some_conv debug_defs word_gt_0
      split: if_splits)

lemma rt_sem_take_ok [inv_intros]:
  assumes k: "kernel_ok k" and i: "sem_inv k" and r: "rt_sem_take s timeout k = Some (res, k')"
    and c: "\<And>t. rt_current_thread k = Some t \<Longrightarrow> thread_stat k t = RT_THREAD_RUNNING"
  shows "kernel_ok k'" "sem_inv k'" "class_frame Sem_class k k'"
proof -
  have "kernel_ok k' \<and> sem_inv k' \<and> class_frame Sem_class k k'"
    using r
  proof (cases rule: rt_sem_take_cases)
    case got
    then have w: "waitq k (SemWait s) = []"
      using i by (simp add: sem_inv_def waits_guarded_def sem_avail_def)
    have "sem_inv k'"
      unfolding sem_inv_def
      by (rule semq.guarded_update [OF i [unfolded sem_inv_def], of s])
        (simp_all add: got(3) w sem_avail_def)
    with k show ?thesis by (simp add: got(3))
  next
    case no_wait
    with k i show ?thesis by (simp add: thread_level_class [OF thread_level_refl])
  next
    case (wait t k1)
    let ?e = "upd_thread t (set_error RT_EOK) k"
    have r: "thread_stat ?e t = RT_THREAD_RUNNING" using c [OF wait(4)] by simp
    note W = ipc_wait_ok [OF set_error_kernel_ok [OF k] r wait(7,8)]
    have e: "thread_level k ?e" by simp
    have "same_store Sem_class k k'" using obj_frameD(7) [OF ipc_frame_obj [OF W(2)], of Sem_class] by simp
    then have "sem_inv k'"
      unfolding sem_inv_def
      using semq.guarded_block [OF i [unfolded sem_inv_def], of s k'] W(4) wait(1)
      by (simp add: sem_avail_def)
    moreover have "class_frame Sem_class k k'"
      using class_frame_trans [OF thread_level_class [OF e] W(5)] by simp
    ultimately show ?thesis using W(1) by blast
  qed
  then show "kernel_ok k'" "sem_inv k'" "class_frame Sem_class k k'" by blast+
qed

lemma rt_sem_release_cases:
  assumes r: "rt_sem_release s k = Some (e, k')"
  obtains
    (wake) t ts k1 where "waitq k (SemWait s) = t # ts" "e = RT_EOK"
      "ipc_list_resume (SemWait s) k = Some k1" "rt_schedule k1 = Some k'"
  | (count) "waitq k (SemWait s) = []" "sem_value (sems k s) < RT_SEM_VALUE_MAX" "e = RT_EOK"
      "k' = upd_sem s (\<lambda>x. x\<lparr>sem_value := sem_value x + 1\<rparr>) k"
  | (full) "waitq k (SemWait s) = []" "sem_value (sems k s) = RT_SEM_VALUE_MAX" "e = RT_EFULL" "k' = k"
proof -
  have "\<not> v < RT_SEM_VALUE_MAX \<Longrightarrow> v = RT_SEM_VALUE_MAX" for v
  proof -
    have "v \<le> - 1" by (rule word_n1_ge)
    moreover have "(- 1 :: u16) = RT_SEM_VALUE_MAX" by (simp add: RT_SEM_VALUE_MAX_def)
    ultimately show "\<not> v < RT_SEM_VALUE_MAX \<Longrightarrow> v = RT_SEM_VALUE_MAX" by (metis order_le_imp_less_or_eq)
  qed
  with assms show ?thesis
    by (cases "waitq k (SemWait s)")
      (auto simp: rt_sem_release_def bind_eq_Some_conv intro: that split: if_splits)
qed

lemma rt_sem_release_ok [inv_intros]:
  assumes k: "kernel_ok k" and i: "sem_inv k" and r: "rt_sem_release s k = Some (e, k')"
  shows "kernel_ok k'" "sem_inv k'" "class_frame Sem_class k k'"
proof -
  have "kernel_ok k' \<and> sem_inv k' \<and> class_frame Sem_class k k'"
    using r
  proof (cases rule: rt_sem_release_cases)
    case (wake t ts k1)
    note W = ipc_wake_ok [OF k wake(1,3,4)]
    have "thread_level k k'"
      by (rule thread_levelI [OF W(2)]) (use W(3) wake(1) in auto)
    with W(1) sem_inv_thread_level [OF i] thread_level_class show ?thesis by blast
  next
    case count
    have "sem_inv k'"
      unfolding sem_inv_def
      by (rule semq.guarded_update [OF i [unfolded sem_inv_def], of s])
        (simp_all add: count(1,4) sem_avail_def)
    with k show ?thesis by (simp add: count(4))
  next
    case full
    with k i show ?thesis by (simp add: thread_level_class [OF thread_level_refl])
  qed
  then show "kernel_ok k'" "sem_inv k'" "class_frame Sem_class k k'" by blast+
qed

text \<open>Init, create, detach, delete and reset leave an empty suspend list.\<close>

lemma sem_set_ok:
  assumes k: "kernel_ok k" and i: "sem_inv k" and o: "obj_frame k k1"
    and w: "waitq k1 = (waitq k)(SemWait s := [])"
  shows "sem_inv (upd_sem s f k1)"
  unfolding sem_inv_def
  by (rule semq.guarded_update [OF i [unfolded sem_inv_def], of s])
    (simp_all add: w sem_avail_def obj_frameD [OF o])

lemma sem_reset_ok:
  assumes k: "kernel_ok k" and i: "sem_inv k" and r: "ipc_list_resume_all (SemWait s) k = Some k1"
  shows "kernel_ok (upd_sem s f k1)" "sem_inv (upd_sem s f k1)" "class_frame Sem_class k (upd_sem s f k1)"
proof -
  note A = ipc_list_resume_all_eq [OF k r]
  show "kernel_ok (upd_sem s f k1)" using A(1) by simp
  show "sem_inv (upd_sem s f k1)"
    by (rule sem_set_ok [OF k i ipc_resume_all_class(2) [OF k r] A(2)])
  show "class_frame Sem_class k (upd_sem s f k1)"
    by (rule class_frame_trans [OF thread_level_class [OF ipc_resume_all_class(1) [OF k r]]]) simp
qed

lemma sem_new_ok:
  assumes k: "kernel_ok k" and i: "sem_inv k"
  shows "kernel_ok (upd_sem s f (ipc_object_init (SemWait s) k))"
    "sem_inv (upd_sem s f (ipc_object_init (SemWait s) k))"
    "class_frame Sem_class k (upd_sem s f (ipc_object_init (SemWait s) k))"
proof -
  note A = ipc_object_init_ok [OF k, of "SemWait s"]
  show "kernel_ok (upd_sem s f (ipc_object_init (SemWait s) k))" using A(1) by simp
  show "sem_inv (upd_sem s f (ipc_object_init (SemWait s) k))"
    by (rule sem_set_ok [OF k i A(2,3)])
  show "class_frame Sem_class k (upd_sem s f (ipc_object_init (SemWait s) k))"
    by (rule class_frame_trans [OF init_class [where q = "SemWait s"]]) simp_all
qed

lemma rt_sem_init_ok [inv_intros]:
  assumes "kernel_ok k" "sem_inv k" "rt_sem_init s v flag k = Some (e, k')"
  shows "kernel_ok k' \<and> sem_inv k' \<and> class_frame Sem_class k k'"
  using sem_new_ok [OF assms(1,2)] assms(3) by (auto simp: rt_sem_init_def Let_def split: if_splits)

lemma rt_sem_create_ok [inv_intros]:
  assumes "kernel_ok k" "sem_inv k" "rt_sem_create a v flag k = Some (e, k')"
  shows "kernel_ok k' \<and> sem_inv k' \<and> class_frame Sem_class k k'"
  using sem_new_ok [OF assms(1,2)] assms thread_level_class [OF thread_level_refl]
  by (auto simp: rt_sem_create_def Let_def debug_defs split: if_splits option.splits)

lemma rt_sem_detach_ok [inv_intros]:
  assumes "kernel_ok k" "sem_inv k" "rt_sem_detach s k = Some (e, k')"
  shows "kernel_ok k' \<and> sem_inv k' \<and> class_frame Sem_class k k'"
  using sem_reset_ok [OF assms(1,2)] assms(3)
  by (auto simp: rt_sem_detach_def bind_eq_Some_conv split: if_splits)

lemma rt_sem_delete_ok [inv_intros]:
  assumes "kernel_ok k" "sem_inv k" "rt_sem_delete s k = Some (e, k')"
  shows "kernel_ok k' \<and> sem_inv k' \<and> class_frame Sem_class k k'"
  using sem_reset_ok [OF assms(1,2)] assms(3)
  by (auto simp: rt_sem_delete_def bind_eq_Some_conv debug_defs split: if_splits)

lemma rt_sem_control_ok [inv_intros]:
  assumes k: "kernel_ok k" and i: "sem_inv k" and r: "rt_sem_control s reset arg k = Some (e, k')"
  shows "kernel_ok k' \<and> sem_inv k' \<and> class_frame Sem_class k k'"
proof (cases reset)
  case True
  then obtain k1 where a: "ipc_list_resume_all (SemWait s) k = Some k1"
    and s: "rt_schedule (upd_sem s (\<lambda>x. x\<lparr>sem_value := ucast arg\<rparr>) k1) = Some k'"
    using r by (auto simp: rt_sem_control_def Let_def bind_eq_Some_conv split: if_splits)
  note A = sem_reset_ok [OF k i a]
  note t = rt_schedule_thread_level [OF A(1) s]
  show ?thesis
    using rt_schedule_kernel_ok [OF A(1) s] sem_inv_thread_level [OF A(2) t]
      class_frame_trans [OF A(3) thread_level_class [OF t]] by blast
next
  case False
  with r k i show ?thesis
    by (auto simp: rt_sem_control_def thread_level_class [OF thread_level_refl] split: if_splits)
qed

end
