(* ===== verification/Rtt_Mutex.thy ===== *)
theory Rtt_Mutex
  imports Rtt_Ipc
begin

text \<open>
  Mutexes with priority inheritance, \<^verbatim>\<open>src/ipc.c\<close>. A thread that blocks lends its priority to the
  owner; the owner gets back the priority it had when it took the mutex as it releases it, and the
  first waiter becomes the owner at once. \<open>m\<close> names the mutex.
\<close>

section \<open>Operations\<close>

definition upd_mutex :: "nat \<Rightarrow> (mutex \<Rightarrow> mutex) \<Rightarrow> kernel \<Rightarrow> kernel" where
  "upd_mutex m f k = k\<lparr>mutexes := (mutexes k)(m := f (mutexes k m))\<rparr>"

definition RT_MUTEX_VALUE_MAX :: u16 where "RT_MUTEX_VALUE_MAX = 0xffff"
definition RT_MUTEX_HOLD_MAX :: u8 where "RT_MUTEX_HOLD_MAX = 0xff"

definition mutex_new :: "obj_state \<Rightarrow> mutex" where
  "mutex_new st = \<lparr>mtx_object = st, mtx_value = 1, mtx_original_priority = 0xff, mtx_hold = 0,
     mtx_owner = None\<rparr>"

text \<open>The flag argument is ignored: a mutex always uses \<^verbatim>\<open>RT_IPC_FLAG_PRIO\<close>.\<close>

definition rt_mutex_init :: "nat \<Rightarrow> ipc_flag \<Rightarrow> kernel \<Rightarrow> rt_err \<times> kernel" where
  "rt_mutex_init m flag k =
     (RT_EOK, upd_mutex m (\<lambda>_. mutex_new Obj_static) (ipc_object_init (MutexWait m) k))"

definition rt_mutex_detach :: "nat \<Rightarrow> kernel \<Rightarrow> (rt_err \<times> kernel) option" where
  "rt_mutex_detach m k = do {
     rt_assert (mtx_object (mutexes k m) = Obj_static);
     k \<leftarrow> ipc_list_resume_all (MutexWait m) k;
     Some (RT_EOK, upd_mutex m (\<lambda>x. x\<lparr>mtx_object := Obj_none\<rparr>) k) }"

definition rt_mutex_create ::
    "nat option \<Rightarrow> ipc_flag \<Rightarrow> kernel \<Rightarrow> (nat option \<times> kernel) option" where
  "rt_mutex_create alloc flag k = do {
     debug_not_in_interrupt k;
     (case alloc of
        None \<Rightarrow> Some (None, k)
      | Some m \<Rightarrow> Some (Some m,
          upd_mutex m (\<lambda>_. mutex_new Obj_dynamic) (ipc_object_init (MutexWait m) k))) }"

definition rt_mutex_delete :: "nat \<Rightarrow> kernel \<Rightarrow> (rt_err \<times> kernel) option" where
  "rt_mutex_delete m k = do {
     rt_assert (mtx_object (mutexes k m) = Obj_dynamic);
     debug_not_in_interrupt k;
     k \<leftarrow> ipc_list_resume_all (MutexWait m) k;
     Some (RT_EOK, upd_mutex m (\<lambda>x. x\<lparr>mtx_object := Obj_none\<rparr>) k) }"

definition mutex_acquire :: "tid \<Rightarrow> nat \<Rightarrow> mutex \<Rightarrow> mutex" where
  "mutex_acquire t p x = x\<lparr>mtx_value := mtx_value x - 1, mtx_owner := Some t,
     mtx_original_priority := p\<rparr>"

definition mutex_hold_inc :: "mutex \<Rightarrow> mutex" where
  "mutex_hold_inc x = x\<lparr>mtx_hold := mtx_hold x + 1\<rparr>"

definition rt_mutex_take ::
    "nat \<Rightarrow> u32 \<Rightarrow> kernel \<Rightarrow> ((tid, rt_err) outcome \<times> kernel) option" where
  "rt_mutex_take m timeout k = do {
     debug_scheduler_available True k;
     rt_assert (mtx_object (mutexes k m) \<noteq> Obj_none);
     t \<leftarrow> rt_thread_self k;
     let k = upd_thread t (set_error RT_EOK) k;
     (if mtx_owner (mutexes k m) = Some t
      then if mtx_hold (mutexes k m) < RT_MUTEX_HOLD_MAX
           then Some (Returned RT_EOK, upd_mutex m mutex_hold_inc k)
           else Some (Returned RT_EFULL, k)
      else if 0 < mtx_value (mutexes k m)
      then (let k = upd_mutex m (mutex_acquire t (thread_prio k t)) k
            in if mtx_hold (mutexes k m) < RT_MUTEX_HOLD_MAX
               then Some (Returned RT_EOK, upd_mutex m mutex_hold_inc k)
               else Some (Returned RT_EFULL, k))
      else if timeout = 0
      then Some (Returned RT_ETIMEOUT, upd_thread t (set_error RT_ETIMEOUT) k)
      else do {
        owner \<leftarrow> mtx_owner (mutexes k m);
        k \<leftarrow> (if thread_prio k t < thread_prio k owner
              then thread_change_priority owner (thread_prio k t) k else Some k);
        k \<leftarrow> ipc_block (MutexWait m) t RT_IPC_FLAG_PRIO timeout k;
        k \<leftarrow> rt_schedule k;
        Some (Waiting t, k) }) }"

definition rt_mutex_take_resume :: "tid \<Rightarrow> kernel \<Rightarrow> rt_err" where
  "rt_mutex_take_resume t k =
     (if error (threads k t) \<noteq> RT_EOK then error (threads k t) else RT_EOK)"

definition rt_mutex_trytake ::
    "nat \<Rightarrow> kernel \<Rightarrow> ((tid, rt_err) outcome \<times> kernel) option" where
  "rt_mutex_trytake m k = rt_mutex_take m 0 k"

text \<open>The part of \<^verbatim>\<open>rt_mutex_release\<close> that runs when the last hold is given up.\<close>

definition mutex_give_up :: "nat \<Rightarrow> kernel \<Rightarrow> (rt_err \<times> kernel) option" where
  "mutex_give_up m k =
     (case waitq k (MutexWait m) of
        w # _ \<Rightarrow>
          (let k = upd_mutex m (\<lambda>x. x\<lparr>mtx_owner := Some w,
                     mtx_original_priority := thread_prio k w\<rparr>) k
           in if mtx_hold (mutexes k m) < RT_MUTEX_HOLD_MAX
              then do {
                k \<leftarrow> ipc_list_resume (MutexWait m) (upd_mutex m mutex_hold_inc k);
                k \<leftarrow> rt_schedule k;
                Some (RT_EOK, k) }
              else Some (RT_EFULL, k))
      | [] \<Rightarrow>
          if mtx_value (mutexes k m) < RT_MUTEX_VALUE_MAX
          then Some (RT_EOK, upd_mutex m (\<lambda>x. x\<lparr>mtx_value := mtx_value x + 1, mtx_owner := None,
                               mtx_original_priority := 0xff\<rparr>) k)
          else Some (RT_EFULL, k))"

definition rt_mutex_release :: "nat \<Rightarrow> kernel \<Rightarrow> (rt_err \<times> kernel) option" where
  "rt_mutex_release m k = do {
     rt_assert (mtx_object (mutexes k m) \<noteq> Obj_none);
     debug_in_thread_context k;
     t \<leftarrow> rt_thread_self k;
     (if mtx_owner (mutexes k m) \<noteq> Some t
      then Some (RT_ERROR, upd_thread t (set_error RT_ERROR) k)
      else do {
        let k = upd_mutex m (\<lambda>x. x\<lparr>mtx_hold := mtx_hold x - 1\<rparr>) k;
        (if mtx_hold (mutexes k m) = 0
         then do {
           k \<leftarrow> (if mtx_original_priority (mutexes k m) \<noteq> thread_prio k t
                 then thread_change_priority t (mtx_original_priority (mutexes k m)) k
                 else Some k);
           mutex_give_up m k }
         else Some (RT_EOK, k)) }) }"

definition rt_mutex_control :: "nat \<Rightarrow> kernel \<Rightarrow> rt_err option" where
  "rt_mutex_control m k = do {
     rt_assert (mtx_object (mutexes k m) \<noteq> Obj_none);
     Some RT_ERROR }"

section \<open>Frames\<close>

lemma upd_mutex_fields [simp]:
  "mutexes (upd_mutex m f k) m' = (if m' = m then f (mutexes k m) else mutexes k m')"
  "waitq (upd_mutex m f k) = waitq k" "threads (upd_mutex m f k) = threads k"
  "thread_stat (upd_mutex m f k) = thread_stat k" "thread_prio (upd_mutex m f k) = thread_prio k"
  "rt_current_thread (upd_mutex m f k) = rt_current_thread k"
  "rt_scheduler_lock_nest (upd_mutex m f k) = rt_scheduler_lock_nest k"
  "kernel_ok (upd_mutex m f k) = kernel_ok k"
  by (simp_all add: upd_mutex_def thread_stat_def thread_prio_def fun_eq_iff)

lemma upd_mutex_class [simp]: "class_frame Mutex_class k (upd_mutex m f k)"
proof -
  have "same_store B k (upd_mutex m f k)" if "B \<noteq> Mutex_class" for B
    using that by (cases B) (simp_all add: upd_mutex_def)
  then show ?thesis by (simp add: class_frame_def upd_mutex_def)
qed

lemma thread_change_priority_thread_level:
  assumes k: "kernel_ok k" and r: "thread_change_priority t p k = Some k'"
  shows "thread_level k k'" "error (threads k' s) = error (threads k s)"
proof -
  let ?g = "set_priority p"
  have g: "obj_frame k (upd_thread t ?g k)" for k by (simp add: set_priority_def)
  have "obj_frame k (rt_schedule_remove_thread t k)" by (rule ipc_frame_obj) simp
  also note g
  also have "obj_frame (upd_thread t ?g (rt_schedule_remove_thread t k))
      (rt_schedule_insert_thread t (upd_thread t ?g (rt_schedule_remove_thread t k)))"
    by (rule ipc_frame_obj) simp
  finally have "obj_frame k k'"
    using r g [of k] by (auto simp: thread_change_priority_def split: if_splits)
  then show "thread_level k k'"
    by (simp add: thread_level_def thread_change_priority_ok(5) [OF k r])
  show "error (threads k' s) = error (threads k s)"
    using r by (auto simp: thread_change_priority_def set_priority_def split: if_splits)
qed

section \<open>A mutex is free or held\<close>

text \<open>
  A mutex is either free, with nobody waiting, or held by one thread that took it once or more and
  whose priority at that time is remembered.
\<close>

definition mutex_free :: "mutex \<Rightarrow> bool" where
  "mutex_free x \<longleftrightarrow> mtx_value x = 1 \<and> mtx_owner x = None \<and> mtx_hold x = 0
     \<and> mtx_original_priority x = 0xff"

definition mutex_held :: "mutex \<Rightarrow> bool" where
  "mutex_held x \<longleftrightarrow> mtx_value x = 0 \<and> mtx_owner x \<noteq> None \<and> 0 < mtx_hold x
     \<and> mtx_original_priority x < RT_THREAD_PRIORITY_MAX"

definition mutex_avail :: "kernel \<Rightarrow> nat \<Rightarrow> bool" where
  "mutex_avail k m \<longleftrightarrow> mtx_owner (mutexes k m) = None"

definition mutex_ok :: "mutex \<Rightarrow> bool" where
  "mutex_ok x \<longleftrightarrow> mtx_object x = Obj_none \<or> mutex_free x \<or> mutex_held x"

lemma mutex_okI [intro]: "mutex_free x \<Longrightarrow> mutex_ok x" "mutex_held x \<Longrightarrow> mutex_ok x"
  by (simp_all add: mutex_ok_def)

definition mutex_wf :: "kernel \<Rightarrow> bool" where
  "mutex_wf k \<longleftrightarrow> (\<forall>m. mutex_ok (mutexes k m))"

definition mutex_inv :: "kernel \<Rightarrow> bool" where
  "mutex_inv k \<longleftrightarrow> mutex_wf k \<and> waits_guarded MutexWait mutex_avail k"

interpretation mutexq: guarded_waitq Mutex_class MutexWait mutex_avail
  by unfold_locales (simp_all add: mutex_avail_def)

lemma mutex_inv_class:
  assumes i: "mutex_inv k" and c: "class_frame A k k'" and ne: "A \<noteq> Mutex_class"
  shows "mutex_inv k'"
proof -
  have "mutexes k' = mutexes k" using c ne by (force simp: class_frame_def)
  with i mutexq.guarded_other_class [OF _ c ne] show ?thesis
    by (simp add: mutex_inv_def mutex_wf_def)
qed

lemma mutex_inv_thread_level: "mutex_inv k \<Longrightarrow> thread_level k k' \<Longrightarrow> mutex_inv k'"
  using mutexq.guarded_thread_level [of k k']
  by (auto simp: mutex_inv_def mutex_wf_def thread_level_def obj_frame_def stores_same_def)

lemma mutex_inv_update:
  assumes i: "mutex_inv k" and f: "\<And>x. x = mutexes k m \<Longrightarrow> mutex_ok (f x)"
    and w: "mtx_owner (f (mutexes k m)) = None \<Longrightarrow> waitq k (MutexWait m) = []"
  shows "mutex_inv (upd_mutex m f k)"
proof -
  have "waits_guarded MutexWait mutex_avail (upd_mutex m f k)"
  proof (rule mutexq.guarded_update [where s = m])
    show "waits_guarded MutexWait mutex_avail k" using i by (simp add: mutex_inv_def)
  qed (use w in \<open>simp_all add: mutex_avail_def\<close>)
  with i f show ?thesis by (simp add: mutex_inv_def mutex_wf_def)
qed

lemma mutex_cases:
  assumes "mutex_inv k" and "mtx_object (mutexes k m) \<noteq> Obj_none"
  obtains (free) "mutex_free (mutexes k m)" "waitq k (MutexWait m) = []"
  | (held) t where "mutex_held (mutexes k m)" "mtx_owner (mutexes k m) = Some t"
proof (cases "mutex_free (mutexes k m)")
  case True
  then have "mutex_avail k m" by (simp add: mutex_avail_def mutex_free_def)
  with assms(1) have "waitq k (MutexWait m) = []" by (simp add: mutex_inv_def waits_guarded_def)
  with True show ?thesis by (rule free)
next
  case False
  with assms have "mutex_held (mutexes k m)" by (auto simp: mutex_inv_def mutex_wf_def mutex_ok_def)
  moreover obtain t where "mtx_owner (mutexes k m) = Some t"
    using calculation by (auto simp: mutex_held_def)
  ultimately show ?thesis by (rule held)
qed

section \<open>Taking\<close>

lemma rt_mutex_take_cases:
  assumes i: "mutex_inv k" and r: "rt_mutex_take m timeout k = Some (res, k')"
  obtains
    (again) t where "rt_current_thread k = Some t" "mtx_owner (mutexes k m) = Some t"
      "mtx_hold (mutexes k m) < RT_MUTEX_HOLD_MAX" "res = Returned RT_EOK"
      "k' = upd_mutex m mutex_hold_inc (upd_thread t (set_error RT_EOK) k)"
      "mtx_object (mutexes k m) \<noteq> Obj_none"
  | (full) t where "rt_current_thread k = Some t" "mtx_owner (mutexes k m) = Some t"
      "\<not> mtx_hold (mutexes k m) < RT_MUTEX_HOLD_MAX" "res = Returned RT_EFULL"
      "k' = upd_thread t (set_error RT_EOK) k"
  | (got) t where "rt_current_thread k = Some t" "mutex_free (mutexes k m)" "res = Returned RT_EOK"
      "k' = upd_mutex m (\<lambda>x. mutex_hold_inc (mutex_acquire t (thread_prio k t) x))
              (upd_thread t (set_error RT_EOK) k)"
  | (no_wait) t where "rt_current_thread k = Some t" "mutex_held (mutexes k m)"
      "mtx_owner (mutexes k m) \<noteq> Some t" "timeout = 0"
      "res = Returned RT_ETIMEOUT"
      "k' = upd_thread t (set_error RT_ETIMEOUT) (upd_thread t (set_error RT_EOK) k)"
  | (wait) t owner k0 k1 where "rt_current_thread k = Some t" "mutex_held (mutexes k m)"
      "mtx_owner (mutexes k m) = Some owner" "owner \<noteq> t" "timeout \<noteq> 0" "res = Waiting t"
      "rt_scheduler_lock_nest k = 0" "rt_interrupt_nest k = 0"
      "(if thread_prio k t < thread_prio k owner
        then thread_change_priority owner (thread_prio k t) (upd_thread t (set_error RT_EOK) k)
        else Some (upd_thread t (set_error RT_EOK) k)) = Some k0"
      "ipc_block (MutexWait m) t RT_IPC_FLAG_PRIO timeout k0 = Some k1" "rt_schedule k1 = Some k'"
proof -
  let ?x = "mutexes k m"
  obtain t where t: "rt_current_thread k = Some t" and nest: "rt_scheduler_lock_nest k = 0"
      "rt_interrupt_nest k = 0" and ob: "mtx_object (mutexes k m) \<noteq> Obj_none"
    using r by (auto simp: rt_mutex_take_def bind_eq_Some_conv debug_defs split: if_splits)
  have two: "upd_mutex m g (upd_mutex m f k) = upd_mutex m (\<lambda>x. g (f x)) k" for f g k
    by (simp add: upd_mutex_def)
  consider (mine) "mtx_owner ?x = Some t" | (free) "mutex_free ?x"
    | (other) owner where "mutex_held ?x" "mtx_owner ?x = Some owner" "owner \<noteq> t"
    using mutex_cases [OF i ob] by metis
  then show ?thesis
  proof cases
    case mine
    with r t ob again full show ?thesis
      by (auto simp: rt_mutex_take_def bind_eq_Some_conv debug_defs Let_def split: if_splits)
  next
    case free
    then have "mtx_hold (mutex_acquire t p ?x) < RT_MUTEX_HOLD_MAX" for p
      by (simp add: mutex_acquire_def mutex_free_def RT_MUTEX_HOLD_MAX_def)
    moreover have "mtx_owner ?x \<noteq> Some t" "0 < mtx_value ?x" using free by (simp_all add: mutex_free_def)
    ultimately have "res = Returned RT_EOK"
      "k' = upd_mutex m (\<lambda>x. mutex_hold_inc (mutex_acquire t (thread_prio k t) x))
              (upd_thread t (set_error RT_EOK) k)"
      using r t by (auto simp: rt_mutex_take_def bind_eq_Some_conv debug_defs Let_def two split: if_splits)
    with got t free show ?thesis by blast
  next
    case other
    then have "\<not> 0 < mtx_value ?x" "mtx_owner ?x \<noteq> Some t" by (simp_all add: mutex_held_def)
    then have "(if timeout = 0
      then Some (Returned RT_ETIMEOUT, upd_thread t (set_error RT_ETIMEOUT) (upd_thread t (set_error RT_EOK) k))
      else do {
        k0 \<leftarrow> (if thread_prio k t < thread_prio k owner
        then thread_change_priority owner (thread_prio k t) (upd_thread t (set_error RT_EOK) k)
        else Some (upd_thread t (set_error RT_EOK) k));
        k1 \<leftarrow> ipc_block (MutexWait m) t RT_IPC_FLAG_PRIO timeout k0;
        k2 \<leftarrow> rt_schedule k1;
        Some (Waiting t, k2) }) = Some (res, k')"
      using r t other by (simp add: rt_mutex_take_def debug_defs Let_def split: if_splits)
    then show ?thesis
      using no_wait [OF t other(1)] wait [OF t other(1,2,3) _ _ nest] other
      by (cases "timeout = 0") (auto simp: bind_eq_Some_conv)
  qed
qed

lemma mutex_boost_ok:
  assumes k: "kernel_ok k"
    and b: "(if thread_prio k t < thread_prio k owner
        then thread_change_priority owner (thread_prio k t) k else Some k) = Some k'"
  shows "kernel_ok k'" "thread_level k k'" "thread_prio k' owner = min (thread_prio k t) (thread_prio k owner)"
    "s \<noteq> owner \<Longrightarrow> thread_prio k' s = thread_prio k s" "waitq k' = waitq k"
    "rt_current_thread k' = rt_current_thread k" "thread_stat k' = thread_stat k"
    "error (threads k' s) = error (threads k s)"
proof -
  have "kernel_ok k' \<and> thread_level k k' \<and> thread_prio k' owner = min (thread_prio k t) (thread_prio k owner)
    \<and> (s \<noteq> owner \<longrightarrow> thread_prio k' s = thread_prio k s) \<and> waitq k' = waitq k
    \<and> rt_current_thread k' = rt_current_thread k \<and> thread_stat k' = thread_stat k
    \<and> error (threads k' s) = error (threads k s)"
  proof (cases "thread_prio k t < thread_prio k owner")
    case True
    with b have r: "thread_change_priority owner (thread_prio k t) k = Some k'" by simp
    note C = thread_change_priority_ok [OF k r]
    show ?thesis
      using C(3) [of s] thread_change_priority_thread_level(1) [OF k r]
        thread_change_priority_thread_level(2) [OF k r, of s] True
      by (simp add: C(1,2,4-6))
  next
    case False
    with b k show ?thesis by simp
  qed
  then show "kernel_ok k'" "thread_level k k'" "thread_prio k' owner = min (thread_prio k t) (thread_prio k owner)"
    "s \<noteq> owner \<Longrightarrow> thread_prio k' s = thread_prio k s" "waitq k' = waitq k"
    "rt_current_thread k' = rt_current_thread k" "thread_stat k' = thread_stat k"
    "error (threads k' s) = error (threads k s)" by blast+
qed

text \<open>Blocking on a held mutex: the owner is boosted, the caller waits in order of priority.\<close>

lemma mutex_wait_ok:
  assumes k: "kernel_ok k" and c: "thread_stat k t = RT_THREAD_RUNNING" and ne: "owner \<noteq> t"
    and b: "(if thread_prio k t < thread_prio k owner
        then thread_change_priority owner (thread_prio k t) (upd_thread t (set_error RT_EOK) k)
        else Some (upd_thread t (set_error RT_EOK) k)) = Some k0"
    and w: "ipc_block (MutexWait m) t RT_IPC_FLAG_PRIO timeout k0 = Some k1" and s: "rt_schedule k1 = Some k'"
  shows "kernel_ok k'" "obj_frame k k'" "thread_stat k' t = RT_THREAD_SUSPEND"
    "waitq k' = (waitq k)(MutexWait m :=
       waitq_enqueue RT_IPC_FLAG_PRIO (thread_prio k0) t (waitq k (MutexWait m)))"
    "thread_prio k' owner = min (thread_prio k t) (thread_prio k owner)"
    "u \<noteq> owner \<Longrightarrow> thread_prio k' u = thread_prio k u" "error (threads k' t) = RT_EOK"
    "thread_prio k0 = thread_prio k'"
proof -
  let ?e = "upd_thread t (set_error RT_EOK) k"
  have e: "kernel_ok ?e" using k by simp
  have b': "(if thread_prio ?e t < thread_prio ?e owner
        then thread_change_priority owner (thread_prio ?e t) ?e else Some ?e) = Some k0"
    using b by (simp only: set_error_same)
  note B = mutex_boost_ok [OF e b']
  have run: "thread_stat k0 t = RT_THREAD_RUNNING" using c by (simp add: B(7))
  note W = ipc_wait_ok [OF B(1) run w s]
  note F = ipc_frameD [OF W(2)]
  show "kernel_ok k'" by (rule W(1))
  show "obj_frame k k'"
  proof -
    have "obj_frame k ?e" by simp
    also have "obj_frame ?e k0" using B(2) by (simp add: thread_level_def)
    also have "obj_frame k0 k'" by (rule ipc_frame_obj [OF W(2)])
    finally show ?thesis .
  qed
  show "thread_stat k' t = RT_THREAD_SUSPEND" by (rule W(3))
  show "waitq k' = (waitq k)(MutexWait m :=
       waitq_enqueue RT_IPC_FLAG_PRIO (thread_prio k0) t (waitq k (MutexWait m)))"
    by (simp add: W(4) B(5))
  show "thread_prio k' owner = min (thread_prio k t) (thread_prio k owner)" by (simp add: F(12) B(3))
  show "u \<noteq> owner \<Longrightarrow> thread_prio k' u = thread_prio k u" by (simp add: F(12) B(4))
  show "error (threads k' t) = RT_EOK" by (simp add: F(9) B(8))
  show "thread_prio k0 = thread_prio k'" by (simp add: F(12))
qed

lemma rt_mutex_take_ok [inv_intros]:
  assumes k: "kernel_ok k" and i: "mutex_inv k" and r: "rt_mutex_take m timeout k = Some (res, k')"
    and c: "\<And>t. rt_current_thread k = Some t \<Longrightarrow> thread_stat k t = RT_THREAD_RUNNING"
  shows "kernel_ok k'" "mutex_inv k'" "class_frame Mutex_class k k'"
proof -
  have e: "mutex_inv (upd_thread t (set_error x) k)" for t x
    by (rule mutex_inv_thread_level [OF i]) simp
  have cf: "class_frame Mutex_class k (upd_thread t (set_error x) k)" for t x k by (rule thread_level_class) simp
  have "kernel_ok k' \<and> mutex_inv k' \<and> class_frame Mutex_class k k'"
    using i r
  proof (cases rule: rt_mutex_take_cases)
    case (again t)
    have "mutex_inv k'"
      unfolding again(5)
    proof (rule mutex_inv_update [OF e])
      fix x assume x: "x = mutexes (upd_thread t (set_error RT_EOK) k) m"
      have h: "mutex_held x" using mutex_cases [OF i again(6)] again(2) x by (auto simp: mutex_free_def)
      have "mtx_hold x + 1 \<noteq> 0"
        using again(3) x by (auto simp: RT_MUTEX_HOLD_MAX_def eq_neg_iff_add_eq_0 [symmetric])
      with h show "mutex_ok (mutex_hold_inc x)"
        by (intro mutex_okI) (auto simp: mutex_held_def mutex_hold_inc_def word_gt_0)
    qed (simp add: mutex_hold_inc_def again(2))
    with k again(5) class_frame_trans [OF cf upd_mutex_class] show ?thesis by simp
  next
    case (full t)
    with k e cf show ?thesis by simp
  next
    case (got t)
    have "thread_prio k t < RT_THREAD_PRIORITY_MAX"
      using running_mask_ok [OF kernel_okD(1) [OF k] c [OF got(1)]] by (simp add: prio_mask_ok_def)
    then have "mutex_inv k'"
      unfolding got(4)
      by (intro mutex_inv_update [OF e] mutex_okI(2))
        (use got(2) in \<open>auto simp: mutex_free_def mutex_held_def mutex_hold_inc_def mutex_acquire_def\<close>)
    with k got(4) class_frame_trans [OF cf upd_mutex_class] show ?thesis by simp
  next
    case (no_wait t)
    have "mutex_inv k'" unfolding no_wait(6) by (rule mutex_inv_thread_level [OF e upd_thread_thread_level]) simp_all
    with k class_frame_trans [OF cf cf] show ?thesis by (simp add: no_wait(6))
  next
    case (wait t owner k0 k1)
    note W = mutex_wait_ok [OF k c [OF wait(1)] wait(4,9,10,11)]
    have "waits_guarded MutexWait mutex_avail k'"
    proof (rule mutexq.guarded_block [where s = m])
      show "waits_guarded MutexWait mutex_avail k" using i by (simp add: mutex_inv_def)
      show "\<not> mutex_avail k m" by (simp add: mutex_avail_def wait(3))
    qed (rule obj_frameD(7) [OF W(2)] W(4))+
    then have "mutex_inv k'" using i obj_frameD(2) [OF W(2)] by (simp add: mutex_inv_def mutex_wf_def)
    with W(1) class_frame_block [OF W(2,4)] show ?thesis by simp
  qed
  then show "kernel_ok k'" "mutex_inv k'" "class_frame Mutex_class k k'" by blast+
qed

section \<open>Releasing\<close>

lemma mutex_give_up_ok:
  assumes k: "kernel_ok k" and i: "waits_guarded MutexWait mutex_avail k"
    and o: "\<And>m'. m' \<noteq> m \<Longrightarrow> mutex_ok (mutexes k m')"
    and v: "mtx_value (mutexes k m) = 0" "mtx_hold (mutexes k m) = 0"
    and r: "mutex_give_up m k = Some (e, k')"
  shows "kernel_ok k'" "mutex_inv k'" "class_frame Mutex_class k k'" "e = RT_EOK"
    "waitq k (MutexWait m) = [] \<Longrightarrow> mutex_free (mutexes k' m) \<and> waitq k' = waitq k"
    "waitq k (MutexWait m) = w # ws \<Longrightarrow> mtx_owner (mutexes k' m) = Some w
       \<and> mtx_hold (mutexes k' m) = 1 \<and> mtx_original_priority (mutexes k' m) = thread_prio k w
       \<and> (thread_stat k' w = RT_THREAD_READY \<or> thread_stat k' w = RT_THREAD_RUNNING)
       \<and> waitq k' = (waitq k)(MutexWait m := ws)"
    "thread_prio k' = thread_prio k" "error (threads k' s) = error (threads k s)"
proof -
  have "kernel_ok k' \<and> mutex_inv k' \<and> class_frame Mutex_class k k' \<and> e = RT_EOK
    \<and> (waitq k (MutexWait m) = [] \<longrightarrow> mutex_free (mutexes k' m) \<and> waitq k' = waitq k)
    \<and> (waitq k (MutexWait m) = w # ws \<longrightarrow> mtx_owner (mutexes k' m) = Some w
       \<and> mtx_hold (mutexes k' m) = 1 \<and> mtx_original_priority (mutexes k' m) = thread_prio k w
       \<and> (thread_stat k' w = RT_THREAD_READY \<or> thread_stat k' w = RT_THREAD_RUNNING)
       \<and> waitq k' = (waitq k)(MutexWait m := ws))
    \<and> thread_prio k' = thread_prio k \<and> error (threads k' s) = error (threads k s)"
  proof (cases "waitq k (MutexWait m)")
    case Nil
    let ?f = "\<lambda>x. x\<lparr>mtx_value := mtx_value x + 1, mtx_owner := None, mtx_original_priority := 0xff\<rparr>"
    have k': "k' = upd_mutex m ?f k" "e = RT_EOK"
      using r Nil v by (auto simp: mutex_give_up_def RT_MUTEX_VALUE_MAX_def split: if_splits)
    have fr: "mutex_free (?f (mutexes k m))" using v by (simp add: mutex_free_def)
    have "waits_guarded MutexWait mutex_avail k'"
      unfolding k'(1)
      by (rule mutexq.guarded_update [OF i, of m]) (simp_all add: Nil mutex_avail_def)
    moreover have "mutex_wf k'" using o fr by (auto simp: mutex_wf_def k'(1))
    ultimately show ?thesis using k fr Nil by (simp add: k' mutex_inv_def)
  next
    case (Cons w' ws')
    let ?g = "\<lambda>x. mutex_hold_inc (x\<lparr>mtx_owner := Some w', mtx_original_priority := thread_prio k w'\<rparr>)"
    let ?u = "upd_mutex m ?g k"
    have two: "upd_mutex m g (upd_mutex m f k) = upd_mutex m (\<lambda>x. g (f x)) k" for f g k
      by (simp add: upd_mutex_def)
    obtain k1 where r1: "ipc_list_resume (MutexWait m) ?u = Some k1" and s1: "rt_schedule k1 = Some k'"
      and e: "e = RT_EOK"
      using r Cons v by (auto simp: mutex_give_up_def RT_MUTEX_HOLD_MAX_def Let_def two bind_eq_Some_conv
          split: if_splits)
    have u: "kernel_ok ?u" using k by simp
    have wu: "waitq ?u (MutexWait m) = w' # ws'" by (simp add: Cons)
    note W = ipc_wake_ok [OF u wu r1 s1]
    note F = ipc_frameD [OF W(2)]
    have "w' \<in> set (waitq k (MutexWait m))" by (simp add: Cons)
    then have "thread_stat k w' = RT_THREAD_SUSPEND"
      using queue_invD(4) [OF kinvD(1) [OF kernel_okD(1) [OF k]]] by (auto simp: wait_inv_def)
    then have "prio_mask_ok k w'" by (rule suspended_mask_ok [OF kernel_okD(1) [OF k]])
    then have he: "mutex_held (?g (mutexes k m))"
      using v by (simp add: mutex_held_def mutex_hold_inc_def prio_mask_ok_def)
    have mx: "mutexes k' = mutexes ?u" by (rule F(5))
    have "mutex_wf k'" using o he by (auto simp: mutex_wf_def mx)
    moreover have "waits_guarded MutexWait mutex_avail k'"
    proof (rule mutexq.guarded_update [OF i, of m])
      show "mutex_avail k' m \<Longrightarrow> waitq k' (MutexWait m) = []"
        by (simp add: mutex_avail_def mx mutex_hold_inc_def)
    qed (simp_all add: mutex_avail_def mx W(3))
    ultimately have "mutex_inv k'" by (simp add: mutex_inv_def)
    moreover have "class_frame Mutex_class k k'"
      by (rule class_frame_trans [OF upd_mutex_class W(5) [unfolded waitq_class.simps]])
    moreover have "thread_prio k' = thread_prio k" by (simp add: F(12))
    ultimately show ?thesis
      using W(1,4) W(3) v Cons by (auto simp: e mx F(9) mutex_hold_inc_def)
  qed
  then show "kernel_ok k'" "mutex_inv k'" "class_frame Mutex_class k k'" "e = RT_EOK"
    "waitq k (MutexWait m) = [] \<Longrightarrow> mutex_free (mutexes k' m) \<and> waitq k' = waitq k"
    "waitq k (MutexWait m) = w # ws \<Longrightarrow> mtx_owner (mutexes k' m) = Some w
       \<and> mtx_hold (mutexes k' m) = 1 \<and> mtx_original_priority (mutexes k' m) = thread_prio k w
       \<and> (thread_stat k' w = RT_THREAD_READY \<or> thread_stat k' w = RT_THREAD_RUNNING)
       \<and> waitq k' = (waitq k)(MutexWait m := ws)"
    "thread_prio k' = thread_prio k" "error (threads k' s) = error (threads k s)"
    by blast+
qed

section \<open>Release\<close>

lemma rt_mutex_release_cases:
  assumes r: "rt_mutex_release m k = Some (e, k')"
  obtains
    (refused) t where "rt_current_thread k = Some t" "mtx_owner (mutexes k m) \<noteq> Some t"
      "e = RT_ERROR" "k' = upd_thread t (set_error RT_ERROR) k"
  | (nested) t where "rt_current_thread k = Some t" "mtx_owner (mutexes k m) = Some t"
      "mtx_hold (mutexes k m) \<noteq> 1" "e = RT_EOK"
      "k' = upd_mutex m (\<lambda>x. x\<lparr>mtx_hold := mtx_hold x - 1\<rparr>) k" "mtx_object (mutexes k m) \<noteq> Obj_none"
  | (last) t k1 where "rt_current_thread k = Some t" "mtx_owner (mutexes k m) = Some t"
      "mtx_hold (mutexes k m) = 1"
      "(if mtx_original_priority (mutexes k m) \<noteq> thread_prio k t
        then thread_change_priority t (mtx_original_priority (mutexes k m))
          (upd_mutex m (\<lambda>x. x\<lparr>mtx_hold := mtx_hold x - 1\<rparr>) k)
        else Some (upd_mutex m (\<lambda>x. x\<lparr>mtx_hold := mtx_hold x - 1\<rparr>) k)) = Some k1"
      "mutex_give_up m k1 = Some (e, k')" "mtx_object (mutexes k m) \<noteq> Obj_none"
proof -
  obtain t where t: "rt_current_thread k = Some t" and ob: "mtx_object (mutexes k m) \<noteq> Obj_none"
    using r by (auto simp: rt_mutex_release_def debug_defs bind_eq_Some_conv split: if_splits)
  let ?k = "upd_mutex m (\<lambda>x. x\<lparr>mtx_hold := mtx_hold x - 1\<rparr>) k"
  show ?thesis
  proof (cases "mtx_owner (mutexes k m) = Some t")
    case False
    with r t refused [OF t] show ?thesis
      by (auto simp: rt_mutex_release_def debug_defs split: if_splits)
  next
    case True
    have "(if mtx_hold (mutexes k m) - 1 = 0
        then (if mtx_original_priority (mutexes k m) \<noteq> thread_prio k t
              then thread_change_priority t (mtx_original_priority (mutexes k m)) ?k
              else Some ?k) \<bind> mutex_give_up m
        else Some (RT_EOK, ?k)) = Some (e, k')"
      using r t True by (simp add: rt_mutex_release_def debug_defs Let_def split: if_splits)
    then show ?thesis
      using nested [OF t True] last [OF t True] ob
      by (cases "mtx_hold (mutexes k m) = 1") (auto simp: bind_eq_Some_conv)
  qed
qed

lemma mutex_restore_ok:
  assumes k: "kernel_ok k"
    and b: "(if p \<noteq> thread_prio k t then thread_change_priority t p k else Some k) = Some k'"
  shows "kernel_ok k'" "thread_level k k'" "thread_prio k' t = p"
    "s \<noteq> t \<Longrightarrow> thread_prio k' s = thread_prio k s" "waitq k' = waitq k"
    "thread_stat k' = thread_stat k" "error (threads k' s) = error (threads k s)"
proof -
  have "kernel_ok k' \<and> thread_level k k' \<and> thread_prio k' t = p
    \<and> (s \<noteq> t \<longrightarrow> thread_prio k' s = thread_prio k s) \<and> waitq k' = waitq k
    \<and> thread_stat k' = thread_stat k \<and> error (threads k' s) = error (threads k s)"
  proof (cases "p = thread_prio k t")
    case True
    with b k show ?thesis by simp
  next
    case False
    with b have r: "thread_change_priority t p k = Some k'" by simp
    note C = thread_change_priority_ok [OF k r]
    show ?thesis
      using C(3) [of s] thread_change_priority_thread_level(1) [OF k r]
        thread_change_priority_thread_level(2) [OF k r, of s]
      by (simp add: C(1,2,4-6))
  qed
  then show "kernel_ok k'" "thread_level k k'" "thread_prio k' t = p"
    "s \<noteq> t \<Longrightarrow> thread_prio k' s = thread_prio k s" "waitq k' = waitq k"
    "thread_stat k' = thread_stat k" "error (threads k' s) = error (threads k s)" by blast+
qed

text \<open>
  The last release: the priority goes back to the remembered one; the mutex is free, or belongs
  to the first waiter, who can run.
\<close>

lemma mutex_last_release:
  assumes k: "kernel_ok k" and i: "mutex_inv k" and own: "mtx_owner (mutexes k m) = Some t"
    and h: "mtx_hold (mutexes k m) = 1"
    and b: "(if mtx_original_priority (mutexes k m) \<noteq> thread_prio k t
        then thread_change_priority t (mtx_original_priority (mutexes k m))
          (upd_mutex m (\<lambda>x. x\<lparr>mtx_hold := mtx_hold x - 1\<rparr>) k)
        else Some (upd_mutex m (\<lambda>x. x\<lparr>mtx_hold := mtx_hold x - 1\<rparr>) k)) = Some k1"
    and g: "mutex_give_up m k1 = Some (e, k')" and ob: "mtx_object (mutexes k m) \<noteq> Obj_none"
  shows "kernel_ok k'" "mutex_inv k'" "class_frame Mutex_class k k'" "e = RT_EOK"
    "waitq k (MutexWait m) = [] \<Longrightarrow> mutex_free (mutexes k' m) \<and> waitq k' = waitq k"
    "waitq k (MutexWait m) = w # ws \<Longrightarrow> mtx_owner (mutexes k' m) = Some w
       \<and> mtx_hold (mutexes k' m) = 1
       \<and> (thread_stat k' w = RT_THREAD_READY \<or> thread_stat k' w = RT_THREAD_RUNNING)
       \<and> waitq k' = (waitq k)(MutexWait m := ws)"
    "thread_prio k' t = mtx_original_priority (mutexes k m)"
    "s \<noteq> t \<Longrightarrow> thread_prio k' s = thread_prio k s" "error (threads k' s) = error (threads k s)"
proof -
  let ?k = "upd_mutex m (\<lambda>x. x\<lparr>mtx_hold := mtx_hold x - 1\<rparr>) k"
  have ku: "kernel_ok ?k" using k by simp
  have b': "(if mtx_original_priority (mutexes k m) \<noteq> thread_prio ?k t
      then thread_change_priority t (mtx_original_priority (mutexes k m)) ?k else Some ?k) = Some k1"
    using b by (simp only: upd_mutex_fields)
  note R = mutex_restore_ok [OF ku b']
  have mx: "mutexes k1 = mutexes ?k" using R(2) by (simp add: thread_level_def obj_frame_def stores_same_def)
  have he: "mutex_held (mutexes k m)" using mutex_cases [OF i ob] own by (auto simp: mutex_free_def)
  have g1: "waits_guarded MutexWait mutex_avail k1"
    unfolding waits_guarded_def
  proof (intro allI impI)
    fix s assume "mutex_avail k1 s"
    then have "mutex_avail k s" by (simp add: mutex_avail_def mx split: if_splits)
    then show "waitq k1 (MutexWait s) = []"
      using i by (simp add: R(5) mutex_inv_def waits_guarded_def)
  qed
  have o: "mutex_ok (mutexes k1 m')" if "m' \<noteq> m" for m'
    using i that by (simp add: mx mutex_inv_def mutex_wf_def)
  have v: "mtx_value (mutexes k1 m) = 0" "mtx_hold (mutexes k1 m) = 0"
    using he h by (simp_all add: mx mutex_held_def)
  note G = mutex_give_up_ok [OF R(1) g1 o v g]
  show "kernel_ok k'" "mutex_inv k'" "e = RT_EOK" using G(1,2,4) by blast+
  have "class_frame Mutex_class k ?k" by (rule upd_mutex_class)
  also have "class_frame Mutex_class ?k k1" by (rule thread_level_class [OF R(2)])
  also have "class_frame Mutex_class k1 k'" by (rule G(3))
  finally show "class_frame Mutex_class k k'" .
  have w: "waitq k1 = waitq k" by (simp add: R(5))
  show "waitq k (MutexWait m) = [] \<Longrightarrow> mutex_free (mutexes k' m) \<and> waitq k' = waitq k"
    using G(5) by (simp add: w)
  show "waitq k (MutexWait m) = w # ws \<Longrightarrow> mtx_owner (mutexes k' m) = Some w
       \<and> mtx_hold (mutexes k' m) = 1
       \<and> (thread_stat k' w = RT_THREAD_READY \<or> thread_stat k' w = RT_THREAD_RUNNING)
       \<and> waitq k' = (waitq k)(MutexWait m := ws)"
    using G(6) by (simp add: w)
  show "thread_prio k' t = mtx_original_priority (mutexes k m)" by (simp add: G(7) R(3))
  show "s \<noteq> t \<Longrightarrow> thread_prio k' s = thread_prio k s" by (simp add: G(7) R(4))
  show "error (threads k' s) = error (threads k s)" by (simp add: G(8) R(7))
qed

lemma rt_mutex_release_ok [inv_intros]:
  assumes k: "kernel_ok k" and i: "mutex_inv k" and r: "rt_mutex_release m k = Some (e, k')"
  shows "kernel_ok k'" "mutex_inv k'" "class_frame Mutex_class k k'"
proof -
  have "kernel_ok k' \<and> mutex_inv k' \<and> class_frame Mutex_class k k'"
    using r
  proof (cases rule: rt_mutex_release_cases)
    case (refused t)
    have tl: "thread_level k k'" by (simp add: refused(4))
    show ?thesis
      using k mutex_inv_thread_level [OF i tl] thread_level_class [OF tl] by (simp add: refused(4))
  next
    case (nested t)
    have he: "mutex_held (mutexes k m)"
      using mutex_cases [OF i nested(6)] nested(2) by (auto simp: mutex_free_def)
    have "mtx_hold (mutexes k m) - 1 \<noteq> 0" using nested(3) by simp
    then have "mutex_inv k'"
      unfolding nested(5)
      by (intro mutex_inv_update [OF i] mutex_okI(2))
        (use he in \<open>auto simp: mutex_held_def word_gt_0\<close>)
    with k show ?thesis by (simp add: nested(5))
  next
    case (last t k1)
    note L = mutex_last_release [OF k i last(2-6)]
    show ?thesis using L(1-3) by blast
  qed
  then show "kernel_ok k'" "mutex_inv k'" "class_frame Mutex_class k k'" by blast+
qed

text \<open>Init, create, detach and delete.\<close>

lemma mutex_new_ok:
  assumes k: "kernel_ok k" and i: "mutex_inv k" and f: "mutex_free (f (mutexes k m))"
  shows "kernel_ok (upd_mutex m f (ipc_object_init (MutexWait m) k))"
    "mutex_inv (upd_mutex m f (ipc_object_init (MutexWait m) k))"
    "class_frame Mutex_class k (upd_mutex m f (ipc_object_init (MutexWait m) k))"
proof -
  note A = ipc_object_init_ok [OF k, of "MutexWait m"]
  let ?k = "ipc_object_init (MutexWait m) k"
  show "kernel_ok (upd_mutex m f ?k)" using A(1) by simp
  show "class_frame Mutex_class k (upd_mutex m f ?k)"
    by (rule class_frame_trans [OF init_class [where q = "MutexWait m"]]) simp_all
  have "waits_guarded MutexWait mutex_avail (upd_mutex m f ?k)"
  proof (rule mutexq.guarded_update [where s = m])
    show "waits_guarded MutexWait mutex_avail k" using i by (simp add: mutex_inv_def)
  qed (simp_all add: mutex_avail_def A(3) obj_frameD(2) [OF A(2)])
  moreover have "mutex_wf (upd_mutex m f ?k)"
    using i f by (auto simp: mutex_inv_def mutex_wf_def obj_frameD(2) [OF A(2)])
  ultimately show "mutex_inv (upd_mutex m f ?k)" by (simp add: mutex_inv_def)
qed

lemma mutex_new_free [simp]: "mutex_free (mutex_new st)"
  by (simp add: mutex_new_def mutex_free_def)

lemma mutex_object_inv:
  assumes "mutex_inv k"
  shows "mutex_inv (upd_mutex m (\<lambda>x. x\<lparr>mtx_object := Obj_none\<rparr>) k)"
proof (rule mutex_inv_update [OF assms])
  show "mutex_ok (x\<lparr>mtx_object := Obj_none\<rparr>)" for x by (simp add: mutex_ok_def)
  show "mtx_owner ((mutexes k m)\<lparr>mtx_object := Obj_none\<rparr>) = None \<Longrightarrow> waitq k (MutexWait m) = []"
    using assms by (simp add: mutex_inv_def waits_guarded_def mutex_avail_def)
qed

lemma mutex_drop_ok:
  assumes k: "kernel_ok k" and i: "mutex_inv k" and r: "ipc_list_resume_all (MutexWait m) k = Some k1"
  shows "kernel_ok (upd_mutex m (\<lambda>x. x\<lparr>mtx_object := Obj_none\<rparr>) k1)
    \<and> mutex_inv (upd_mutex m (\<lambda>x. x\<lparr>mtx_object := Obj_none\<rparr>) k1)
    \<and> class_frame Mutex_class k (upd_mutex m (\<lambda>x. x\<lparr>mtx_object := Obj_none\<rparr>) k1)"
proof -
  note T = ipc_resume_all_class(1) [OF k r]
  show ?thesis
    using ipc_list_resume_all_eq(1) [OF k r] mutex_object_inv [OF mutex_inv_thread_level [OF i T]]
      class_frame_trans [OF thread_level_class [OF T] upd_mutex_class] by simp
qed

lemma rt_mutex_init_ok [inv_intros]:
  assumes "kernel_ok k" "mutex_inv k"
  shows "kernel_ok (snd (rt_mutex_init m flag k)) \<and> mutex_inv (snd (rt_mutex_init m flag k))
    \<and> class_frame Mutex_class k (snd (rt_mutex_init m flag k))"
  using mutex_new_ok [OF assms, where f = "\<lambda>_. mutex_new Obj_static"]
  by (simp add: rt_mutex_init_def)

lemma rt_mutex_create_ok [inv_intros]:
  assumes "kernel_ok k" "mutex_inv k" "rt_mutex_create a flag k = Some (e, k')"
  shows "kernel_ok k' \<and> mutex_inv k' \<and> class_frame Mutex_class k k'"
  using mutex_new_ok [OF assms(1,2), where f = "\<lambda>_. mutex_new Obj_dynamic"] assms thread_level_class [OF thread_level_refl]
  by (auto simp: rt_mutex_create_def debug_defs split: if_splits option.splits)

lemma rt_mutex_detach_ok [inv_intros]:
  assumes "kernel_ok k" "mutex_inv k" "rt_mutex_detach m k = Some (e, k')"
  shows "kernel_ok k' \<and> mutex_inv k' \<and> class_frame Mutex_class k k'"
  using mutex_drop_ok [OF assms(1,2)] assms(3)
  by (auto simp: rt_mutex_detach_def bind_eq_Some_conv split: if_splits)

lemma rt_mutex_delete_ok [inv_intros]:
  assumes "kernel_ok k" "mutex_inv k" "rt_mutex_delete m k = Some (e, k')"
  shows "kernel_ok k' \<and> mutex_inv k' \<and> class_frame Mutex_class k k'"
  using mutex_drop_ok [OF assms(1,2)] assms(3)
  by (auto simp: rt_mutex_delete_def debug_defs bind_eq_Some_conv split: if_splits)

end
