(* ===== verification/Rtt_Event.thy ===== *)
theory Rtt_Event
  imports Rtt_Ipc
begin

unbundle bit_operations_syntax

text \<open>
  Event sets, \<^verbatim>\<open>src/ipc.c\<close>. A waiting thread keeps what it waits for in its own \<^verbatim>\<open>event_set\<close> and
  \<^verbatim>\<open>event_info\<close>; a send walks over the suspend list and resumes every thread whose condition now
  holds. \<open>e\<close> names the event object.
\<close>

section \<open>Operations\<close>

definition RT_EVENT_FLAG_AND :: u8 where "RT_EVENT_FLAG_AND = 1"
definition RT_EVENT_FLAG_OR :: u8 where "RT_EVENT_FLAG_OR = 2"
definition RT_EVENT_FLAG_CLEAR :: u8 where "RT_EVENT_FLAG_CLEAR = 4"

definition upd_event :: "nat \<Rightarrow> (event \<Rightarrow> event) \<Rightarrow> kernel \<Rightarrow> kernel" where
  "upd_event e f k = k\<lparr>events := (events k)(e := f (events k e))\<rparr>"

definition rt_event_init :: "nat \<Rightarrow> ipc_flag \<Rightarrow> kernel \<Rightarrow> rt_err \<times> kernel" where
  "rt_event_init e flag k =
     (RT_EOK, upd_event e (\<lambda>_. \<lparr>ev_object = Obj_static, ev_flag = flag, ev_set = 0\<rparr>)
        (ipc_object_init (EventWait e) k))"

definition rt_event_detach :: "nat \<Rightarrow> kernel \<Rightarrow> (rt_err \<times> kernel) option" where
  "rt_event_detach e k = do {
     rt_assert (ev_object (events k e) = Obj_static);
     k \<leftarrow> ipc_list_resume_all (EventWait e) k;
     Some (RT_EOK, upd_event e (\<lambda>x. x\<lparr>ev_object := Obj_none\<rparr>) k) }"

definition rt_event_create ::
    "nat option \<Rightarrow> ipc_flag \<Rightarrow> kernel \<Rightarrow> (nat option \<times> kernel) option" where
  "rt_event_create alloc flag k = do {
     debug_not_in_interrupt k;
     (case alloc of
        None \<Rightarrow> Some (None, k)
      | Some e \<Rightarrow> Some (Some e,
          upd_event e (\<lambda>_. \<lparr>ev_object = Obj_dynamic, ev_flag = flag, ev_set = 0\<rparr>)
            (ipc_object_init (EventWait e) k))) }"

definition rt_event_delete :: "nat \<Rightarrow> kernel \<Rightarrow> (rt_err \<times> kernel) option" where
  "rt_event_delete e k = do {
     rt_assert (ev_object (events k e) = Obj_dynamic);
     debug_not_in_interrupt k;
     k \<leftarrow> ipc_list_resume_all (EventWait e) k;
     Some (RT_EOK, upd_event e (\<lambda>x. x\<lparr>ev_object := Obj_none\<rparr>) k) }"

text \<open>
  One waiter of \<^verbatim>\<open>rt_event_send\<close>: \<open>None\<close> if its option is neither AND nor OR, otherwise whether it
  is to be resumed, and its \<^verbatim>\<open>event_set\<close> afterwards.
\<close>

definition event_send_status :: "u32 \<Rightarrow> thread \<Rightarrow> (bool \<times> u32) option" where
  "event_send_status have x =
     (if event_info x AND RT_EVENT_FLAG_AND \<noteq> 0
      then Some (event_set x AND have = event_set x, event_set x)
      else if event_info x AND RT_EVENT_FLAG_OR \<noteq> 0
      then if event_set x AND have \<noteq> 0 then Some (True, event_set x AND have)
           else Some (False, event_set x)
      else None)"

text \<open>The walk over the waiters; the results are the status, \<^verbatim>\<open>need_schedule\<close> and the state.\<close>

fun event_send_loop :: "nat \<Rightarrow> tid list \<Rightarrow> bool \<Rightarrow> kernel \<Rightarrow> rt_err \<times> bool \<times> kernel" where
  "event_send_loop e [] need_schedule k = (RT_EOK, need_schedule, k)"
| "event_send_loop e (t # ts) need_schedule k =
     (case event_send_status (ev_set (events k e)) (threads k t) of
        None \<Rightarrow> (RT_EINVAL, need_schedule, k)
      | Some (False, _) \<Rightarrow> event_send_loop e ts need_schedule k
      | Some (True, es) \<Rightarrow>
          (let k = upd_thread t (\<lambda>x. x\<lparr>event_set := es\<rparr>) k;
               k = (if event_info (threads k t) AND RT_EVENT_FLAG_CLEAR \<noteq> 0
                    then upd_event e (\<lambda>v. v\<lparr>ev_set := ev_set v AND NOT (event_set (threads k t))\<rparr>) k
                    else k);
               k = snd (rt_thread_resume t k)
           in event_send_loop e ts True k))"

definition rt_event_send :: "nat \<Rightarrow> u32 \<Rightarrow> kernel \<Rightarrow> (rt_err \<times> kernel) option" where
  "rt_event_send e bits k = do {
     rt_assert (ev_object (events k e) \<noteq> Obj_none);
     (if bits = 0 then Some (RT_ERROR, k)
      else
        (let k = upd_event e (\<lambda>v. v\<lparr>ev_set := ev_set v OR bits\<rparr>) k;
             (status, need_schedule, k) = event_send_loop e (waitq k (EventWait e)) False k
         in if status \<noteq> RT_EOK then Some (status, k)
            else if need_schedule then do { k \<leftarrow> rt_schedule k; Some (RT_EOK, k) }
            else Some (RT_EOK, k))) }"

definition event_ready :: "u8 \<Rightarrow> u32 \<Rightarrow> u32 \<Rightarrow> bool" where
  "event_ready option bits have \<longleftrightarrow>
     (if option AND RT_EVENT_FLAG_AND \<noteq> 0 then have AND bits = bits else have AND bits \<noteq> 0)"

text \<open>The second component of the result is what the C stores through \<^verbatim>\<open>recved\<close>, if it is not null.\<close>

definition rt_event_recv ::
    "nat \<Rightarrow> u32 \<Rightarrow> u8 \<Rightarrow> u32 \<Rightarrow> kernel \<Rightarrow> ((tid, rt_err \<times> u32 option) outcome \<times> kernel) option" where
  "rt_event_recv e bits option timeout k = do {
     rt_assert (ev_object (events k e) \<noteq> Obj_none);
     debug_scheduler_available True k;
     (if bits = 0 then Some (Returned (RT_ERROR, None), k)
      else do {
        t \<leftarrow> rt_thread_self k;
        let k = upd_thread t (set_error RT_EOK) k;
        rt_assert (option AND RT_EVENT_FLAG_AND \<noteq> 0 \<or> option AND RT_EVENT_FLAG_OR \<noteq> 0);
        let have = ev_set (events k e);
        (if event_ready option bits have
         then (let k = upd_thread t (\<lambda>x. x\<lparr>event_set := have AND bits, event_info := option\<rparr>) k;
                   k = (if option AND RT_EVENT_FLAG_CLEAR \<noteq> 0
                        then upd_event e (\<lambda>v. v\<lparr>ev_set := ev_set v AND NOT bits\<rparr>) k else k)
               in Some (Returned (error (threads k t), Some (have AND bits)), k))
         else if timeout = 0
         then Some (Returned (RT_ETIMEOUT, None), upd_thread t (set_error RT_ETIMEOUT) k)
         else do {
           let k = upd_thread t (\<lambda>x. x\<lparr>event_set := bits, event_info := option\<rparr>) k;
           k \<leftarrow> ipc_block (EventWait e) t (ev_flag (events k e)) timeout k;
           k \<leftarrow> rt_schedule k;
           Some (Waiting t, k) }) }) }"

definition rt_event_recv_resume :: "tid \<Rightarrow> kernel \<Rightarrow> rt_err \<times> u32 option" where
  "rt_event_recv_resume t k =
     (if error (threads k t) \<noteq> RT_EOK then (error (threads k t), None)
      else (error (threads k t), Some (event_set (threads k t))))"

definition rt_event_control :: "nat \<Rightarrow> bool \<Rightarrow> kernel \<Rightarrow> (rt_err \<times> kernel) option" where
  "rt_event_control e reset k = do {
     rt_assert (ev_object (events k e) \<noteq> Obj_none);
     (if reset
      then do {
        k \<leftarrow> ipc_list_resume_all (EventWait e) k;
        let k = upd_event e (\<lambda>v. v\<lparr>ev_set := 0\<rparr>) k;
        k \<leftarrow> rt_schedule k;
        Some (RT_EOK, k) }
      else Some (RT_ERROR, k)) }"

section \<open>Frames\<close>

lemma upd_event_fields [simp]:
  "events (upd_event e f k) e' = (if e' = e then f (events k e) else events k e')"
  "waitq (upd_event e f k) = waitq k" "threads (upd_event e f k) = threads k"
  "thread_stat (upd_event e f k) = thread_stat k" "thread_prio (upd_event e f k) = thread_prio k"
  "rt_current_thread (upd_event e f k) = rt_current_thread k"
  "rt_scheduler_lock_nest (upd_event e f k) = rt_scheduler_lock_nest k"
  "kernel_ok (upd_event e f k) = kernel_ok k"
  by (simp_all add: upd_event_def thread_stat_def thread_prio_def fun_eq_iff)

lemma upd_event_class [simp]: "class_frame Event_class k (upd_event e f k)"
proof -
  have "same_store B k (upd_event e f k)" if "B \<noteq> Event_class" for B
    using that by (cases B) (simp_all add: upd_event_def)
  then show ?thesis by (simp add: class_frame_def upd_event_def)
qed

lemma upd_thread_event_class [simp]: "class_frame Event_class k (upd_thread t f k)"
proof -
  have "same_store B k (upd_thread t f k)" if "B \<noteq> Event_class" for B
    using that by (cases B) simp_all
  then show ?thesis by (simp add: class_frame_def upd_event_def)
qed

section \<open>Nobody waits for an event that is there\<close>

definition event_option_valid :: "u8 \<Rightarrow> bool" where
  "event_option_valid option \<longleftrightarrow>
     option AND RT_EVENT_FLAG_AND \<noteq> 0 \<or> option AND RT_EVENT_FLAG_OR \<noteq> 0"

definition event_waiter_ok :: "kernel \<Rightarrow> nat \<Rightarrow> tid \<Rightarrow> bool" where
  "event_waiter_ok k e t \<longleftrightarrow> event_option_valid (event_info (threads k t))
     \<and> \<not> event_ready (event_info (threads k t)) (event_set (threads k t)) (ev_set (events k e))"

definition event_inv :: "kernel \<Rightarrow> bool" where
  "event_inv k \<longleftrightarrow> (\<forall>e. \<forall>t\<in>set (waitq k (EventWait e)). event_waiter_ok k e t)"

lemma event_inv_store:
  assumes i: "event_inv k" and s: "same_store Event_class k k'"
    and w: "\<And>e. set (waitq k' (EventWait e)) \<subseteq> set (waitq k (EventWait e))"
  shows "event_inv k'"
  unfolding event_inv_def
proof (intro allI ballI)
  fix e t assume "t \<in> set (waitq k' (EventWait e))"
  with w have "t \<in> set (waitq k (EventWait e))" by blast
  with i have "event_waiter_ok k e t" by (simp add: event_inv_def)
  with s show "event_waiter_ok k' e t" by (simp add: event_waiter_ok_def event_data_same_def)
qed

lemma event_inv_thread_level: "event_inv k \<Longrightarrow> thread_level k k' \<Longrightarrow> event_inv k'"
  by (rule event_inv_store [where k = k]) (simp_all add: thread_level_def obj_frame_def stores_same_def)

lemma event_inv_class:
  assumes "event_inv k" "class_frame A k k'" "A \<noteq> Event_class"
  shows "event_inv k'"
proof (rule event_inv_store [OF assms(1)])
  show "same_store Event_class k k'" using assms(2,3) unfolding class_frame_def by metis
  show "set (waitq k' (EventWait e)) \<subseteq> set (waitq k (EventWait e))" for e
    using assms(2,3) by (simp add: class_frame_def)
qed

text \<open>Fewer bits satisfy fewer waiters.\<close>

lemma event_ready_mono:
  assumes "event_ready option bits (have AND m)"
  shows "event_ready option bits have"
proof -
  have r: "(have AND m) AND bits = (have AND bits) AND m" by (simp add: ac_simps)
  have "have AND bits = bits" if "(have AND m) AND bits = bits"
  proof -
    have "have AND bits = have AND ((have AND bits) AND m)" using that r by simp
    also have "\<dots> = (have AND bits) AND m" by (simp add: ac_simps)
    finally show ?thesis using that r by simp
  qed
  moreover have "have AND bits \<noteq> 0" if "(have AND m) AND bits \<noteq> 0"
    using that unfolding r by auto
  ultimately show ?thesis using assms unfolding event_ready_def by presburger
qed

lemma event_send_status_ready:
  assumes "event_option_valid (event_info x)"
  shows "event_send_status have x = Some (event_ready (event_info x) (event_set x) have,
    if event_info x AND RT_EVENT_FLAG_AND = 0 \<and> event_set x AND have \<noteq> 0
    then event_set x AND have else event_set x)"
  using assms
  by (auto simp: event_send_status_def event_option_valid_def event_ready_def
      and.commute [of "event_set x" "have"])

text \<open>The walk of \<^verbatim>\<open>rt_event_send\<close> leaves exactly waiters whose condition does not hold.\<close>

lemma event_send_loop_ok:
  assumes "kernel_ok k" and "distinct ts"
    and "\<forall>t\<in>set ts. t \<in> set (waitq k (EventWait e)) \<and> event_option_valid (event_info (threads k t))"
    and "\<forall>t\<in>set (waitq k (EventWait e)) - set ts. event_waiter_ok k e t"
    and "event_send_loop e ts ns k = (st, ns', k')"
  shows "st = RT_EOK \<and> kernel_ok k' \<and> class_frame Event_class k k'
    \<and> (\<forall>t\<in>set (waitq k' (EventWait e)). event_waiter_ok k' e t)
    \<and> (\<forall>q. q \<noteq> EventWait e \<longrightarrow> waitq k' q = waitq k q)
    \<and> set (waitq k' (EventWait e)) \<subseteq> set (waitq k (EventWait e))
    \<and> (\<forall>t\<in>set (waitq k (EventWait e)) - set (waitq k' (EventWait e)).
         (thread_stat k' t = RT_THREAD_READY \<or> thread_stat k' t = RT_THREAD_RUNNING)
         \<and> event_ready (event_info (threads k t)) (event_set (threads k t)) (ev_set (events k e)))
    \<and> (\<forall>e'. e' \<noteq> e \<longrightarrow> events k' e' = events k e')
    \<and> (\<forall>t. t \<notin> set ts \<longrightarrow> event_set (threads k' t) = event_set (threads k t))
    \<and> (\<forall>t. t \<notin> set ts \<longrightarrow> thread_stat k' t = thread_stat k t)
    \<and> (\<forall>t. event_info (threads k' t) = event_info (threads k t) \<and> error (threads k' t) = error (threads k t))
    \<and> rt_current_thread k' = rt_current_thread k
    \<and> (\<exists>m. ev_set (events k' e) = ev_set (events k e) AND m)"
  using assms
proof (induction ts arbitrary: ns k)
  case Nil
  then show ?case by (auto simp: thread_level_class [OF thread_level_refl] intro: exI [of _ "- 1"])
next
  case (Cons t ts)
  let ?have = "ev_set (events k e)" and ?x = "threads k t"
  have tw: "t \<in> set (waitq k (EventWait e))" and tv: "event_option_valid (event_info ?x)"
    using Cons.prems(3) by auto
  obtain es where st: "event_send_status ?have ?x
      = Some (event_ready (event_info ?x) (event_set ?x) ?have, es)"
    using event_send_status_ready [OF tv, of ?have] by blast
  show ?case
  proof (cases "event_ready (event_info ?x) (event_set ?x) ?have")
    case False
    then have l: "event_send_loop e ts ns k = (st, ns', k')" using Cons.prems(5) st by simp
    have "event_waiter_ok k e t" using False tv by (simp add: event_waiter_ok_def)
    then have "\<forall>s\<in>set (waitq k (EventWait e)) - set ts. event_waiter_ok k e s"
      using Cons.prems(4) by auto
    then show ?thesis
      using Cons.IH [OF Cons.prems(1) _ _ _ l] Cons.prems(2,3) by auto
  next
    case True
    let ?a = "upd_thread t (\<lambda>x. x\<lparr>event_set := es\<rparr>) k"
    let ?b = "if event_info ?x AND RT_EVENT_FLAG_CLEAR \<noteq> 0
      then upd_event e (\<lambda>v. v\<lparr>ev_set := ev_set v AND NOT es\<rparr>) ?a else ?a"
    let ?c = "snd (rt_thread_resume t ?b)"
    have l: "event_send_loop e ts True ?c = (st, ns', k')"
      using Cons.prems(5) st True by (simp add: Let_def split: if_splits)
    have a: "kernel_ok ?a" by (rule upd_thread_kernel_ok [OF Cons.prems(1)]) (simp_all add: thread_stat_def thread_prio_def)
    then have b: "kernel_ok ?b" by simp
    have wb: "waitq ?b = waitq k" by simp
    have sb: "thread_stat ?b = thread_stat k" by (auto simp: thread_stat_def fun_eq_iff)
    have s: "thread_stat ?b t = RT_THREAD_SUSPEND"
      using queue_invD(4) [OF kinvD(1) [OF kernel_okD(1) [OF Cons.prems(1)]]] tw
      by (auto simp: wait_inv_def sb)
    note R = rt_thread_resume_ok [where t = t, OF b]
    note F = ipc_frameD [OF rt_thread_resume_frame [of ?b t]]
    have wc: "waitq ?c q = removeAll t (waitq k q)" for q
      using R(5) [OF s] wb by simp
    have oth: "t \<notin> set (waitq k q)" if "q \<noteq> EventWait e" for q
      using queue_invD(4) [OF kinvD(1) [OF kernel_okD(1) [OF Cons.prems(1)]]] tw that
      unfolding wait_inv_def by blast
    have evc: "events ?c = events ?b" by (rule F(6))
    have setc: "\<exists>m. ev_set (events ?c e) = ?have AND m"
      unfolding evc by (cases "event_info ?x AND RT_EVENT_FLAG_CLEAR \<noteq> 0") (auto intro: exI [of _ "- 1"])
    have info: "event_info (threads ?c u) = event_info (threads k u)" for u by (simp add: F(11))
    have eset: "event_set (threads ?c u) = event_set (threads k u)" if "u \<noteq> t" for u
      using that by (simp add: F(10))
    have err: "error (threads ?c u) = error (threads k u)" for u by (simp add: F(9))
    have nots: "t \<notin> set ts" using Cons.prems(2) by simp
    have mono: "event_waiter_ok ?c e u" if "event_waiter_ok k e u" "u \<noteq> t" for u
    proof -
      obtain m where "ev_set (events ?c e) = ?have AND m" using setc by blast
      with that event_ready_mono show ?thesis by (simp add: event_waiter_ok_def info eset) blast
    qed
    have IH: "st = RT_EOK \<and> kernel_ok k' \<and> class_frame Event_class ?c k'
    \<and> (\<forall>t\<in>set (waitq k' (EventWait e)). event_waiter_ok k' e t)
    \<and> (\<forall>q. q \<noteq> EventWait e \<longrightarrow> waitq k' q = waitq ?c q)
    \<and> set (waitq k' (EventWait e)) \<subseteq> set (waitq ?c (EventWait e))
    \<and> (\<forall>t\<in>set (waitq ?c (EventWait e)) - set (waitq k' (EventWait e)).
         (thread_stat k' t = RT_THREAD_READY \<or> thread_stat k' t = RT_THREAD_RUNNING)
         \<and> event_ready (event_info (threads ?c t)) (event_set (threads ?c t)) (ev_set (events ?c e)))
    \<and> (\<forall>e'. e' \<noteq> e \<longrightarrow> events k' e' = events ?c e')
    \<and> (\<forall>t. t \<notin> set ts \<longrightarrow> event_set (threads k' t) = event_set (threads ?c t))
    \<and> (\<forall>t. t \<notin> set ts \<longrightarrow> thread_stat k' t = thread_stat ?c t)
    \<and> (\<forall>t. event_info (threads k' t) = event_info (threads ?c t) \<and> error (threads k' t) = error (threads ?c t))
    \<and> rt_current_thread k' = rt_current_thread ?c
    \<and> (\<exists>m. ev_set (events k' e) = ev_set (events ?c e) AND m)"
    proof (rule Cons.IH [OF R(1) _ _ _ l])
      show "distinct ts" using Cons.prems(2) by simp
      show "\<forall>u\<in>set ts. u \<in> set (waitq ?c (EventWait e)) \<and> event_option_valid (event_info (threads ?c u))"
        using Cons.prems(3) nots by (auto simp: wc info)
      show "\<forall>u\<in>set (waitq ?c (EventWait e)) - set ts. event_waiter_ok ?c e u"
        using Cons.prems(4) mono by (auto simp: wc)
    qed
    have fr: "class_frame Event_class k ?c"
    proof -
      have "class_frame Event_class k ?a" by simp
      also have "class_frame Event_class ?a ?b" by (simp add: thread_level_class [OF thread_level_refl])
      also have "class_frame Event_class ?b ?c"
        by (rule thread_level_class [OF rt_thread_resume_thread_level [OF b]])
      finally show ?thesis .
    qed
    have woke: "thread_stat k' t = RT_THREAD_READY \<or> thread_stat k' t = RT_THREAD_RUNNING"
      using IH nots R(3) [OF s] by (auto split: if_splits)
    obtain m where m: "ev_set (events ?c e) = ?have AND m" using setc by blast
    show ?thesis
    proof (intro conjI)
      show "st = RT_EOK" "kernel_ok k'" using IH by blast+
      show "class_frame Event_class k k'" using IH class_frame_trans [OF fr] by blast
      show "\<forall>t\<in>set (waitq k' (EventWait e)). event_waiter_ok k' e t" using IH by blast
      show "\<forall>q. q \<noteq> EventWait e \<longrightarrow> waitq k' q = waitq k q"
        using IH oth by (simp add: wc)
      show "set (waitq k' (EventWait e)) \<subseteq> set (waitq k (EventWait e))" using IH by (auto simp: wc)
      show "\<forall>u\<in>set (waitq k (EventWait e)) - set (waitq k' (EventWait e)).
         (thread_stat k' u = RT_THREAD_READY \<or> thread_stat k' u = RT_THREAD_RUNNING)
         \<and> event_ready (event_info (threads k u)) (event_set (threads k u)) ?have"
      proof
        fix u assume u: "u \<in> set (waitq k (EventWait e)) - set (waitq k' (EventWait e))"
        show "(thread_stat k' u = RT_THREAD_READY \<or> thread_stat k' u = RT_THREAD_RUNNING)
          \<and> event_ready (event_info (threads k u)) (event_set (threads k u)) ?have"
        proof (cases "u = t")
          case True
          with woke \<open>event_ready (event_info ?x) (event_set ?x) ?have\<close> show ?thesis by simp
        next
          case False
          then have "u \<in> set (waitq ?c (EventWait e)) - set (waitq k' (EventWait e))"
            using u by (simp add: wc)
          with IH have "thread_stat k' u = RT_THREAD_READY \<or> thread_stat k' u = RT_THREAD_RUNNING"
            "event_ready (event_info (threads ?c u)) (event_set (threads ?c u)) (ev_set (events ?c e))"
            by blast+
          with False event_ready_mono show ?thesis unfolding info eset [OF False] m by blast
        qed
      qed
      show "\<forall>e'. e' \<noteq> e \<longrightarrow> events k' e' = events k e'"
        using IH by (auto simp: evc)
      show "\<forall>u. u \<notin> set (t # ts) \<longrightarrow> event_set (threads k' u) = event_set (threads k u)"
        using IH eset by auto
      show "\<forall>u. u \<notin> set (t # ts) \<longrightarrow> thread_stat k' u = thread_stat k u"
        using IH R(4) sb by auto
      show "\<forall>u. event_info (threads k' u) = event_info (threads k u)
          \<and> error (threads k' u) = error (threads k u)"
        using IH info err by auto
      show "rt_current_thread k' = rt_current_thread k" using IH R(2) by simp
      show "\<exists>m. ev_set (events k' e) = ?have AND m"
        using IH unfolding m by (metis and.assoc)
    qed
  qed
qed

section \<open>Send\<close>

lemma event_loop_inv:
  assumes k: "kernel_ok k" and i: "\<And>e'. e' \<noteq> e \<Longrightarrow> \<forall>t\<in>set (waitq k (EventWait e')). event_waiter_ok k e' t"
    and v: "\<forall>t\<in>set (waitq k (EventWait e)). event_option_valid (event_info (threads k t))"
    and l: "event_send_loop e (waitq k (EventWait e)) ns k = (st, ns', k')"
  shows "event_inv k'"
proof -
  note W = queue_invD(4) [OF kinvD(1) [OF kernel_okD(1) [OF k]]]
  have d: "distinct (waitq k (EventWait e))" using W by (simp add: wait_inv_def)
  have L: "(\<forall>t\<in>set (waitq k' (EventWait e)). event_waiter_ok k' e t)"
    "\<And>q. q \<noteq> EventWait e \<Longrightarrow> waitq k' q = waitq k q"
    "\<And>e'. e' \<noteq> e \<Longrightarrow> events k' e' = events k e'"
    "\<And>t. t \<notin> set (waitq k (EventWait e)) \<Longrightarrow> event_set (threads k' t) = event_set (threads k t)"
    "\<And>t. event_info (threads k' t) = event_info (threads k t)"
    using event_send_loop_ok [OF k d _ _ l] v by auto
  show ?thesis
    unfolding event_inv_def
  proof (intro allI ballI)
    fix e' t assume t: "t \<in> set (waitq k' (EventWait e'))"
    show "event_waiter_ok k' e' t"
    proof (cases "e' = e")
      case True
      with t L(1) show ?thesis by simp
    next
      case False
      then have tw: "t \<in> set (waitq k (EventWait e'))" using t L(2) by simp
      with False W have "t \<notin> set (waitq k (EventWait e))" unfolding wait_inv_def by blast
      with i [OF False] tw L(3) [OF False] L(4,5) show ?thesis by (simp add: event_waiter_ok_def)
    qed
  qed
qed

lemma rt_event_send_ok [inv_intros]:
  assumes k: "kernel_ok k" and i: "event_inv k" and r: "rt_event_send e bits k = Some (err, k')"
  shows "kernel_ok k'" "event_inv k'" "class_frame Event_class k k'"
    "err = (if bits = 0 then RT_ERROR else RT_EOK)"
    "bits \<noteq> 0 \<Longrightarrow> t \<in> set (waitq k (EventWait e)) \<Longrightarrow> t \<notin> set (waitq k' (EventWait e)) \<Longrightarrow>
       (thread_stat k' t = RT_THREAD_READY \<or> thread_stat k' t = RT_THREAD_RUNNING)
       \<and> event_ready (event_info (threads k t)) (event_set (threads k t)) (ev_set (events k e) OR bits)
       \<and> error (threads k' t) = error (threads k t)"
    "bits \<noteq> 0 \<Longrightarrow> set (waitq k' (EventWait e)) \<subseteq> set (waitq k (EventWait e))"
proof -
  have "kernel_ok k' \<and> event_inv k' \<and> class_frame Event_class k k'
    \<and> err = (if bits = 0 then RT_ERROR else RT_EOK)
    \<and> (bits \<noteq> 0 \<longrightarrow> t \<in> set (waitq k (EventWait e)) \<longrightarrow> t \<notin> set (waitq k' (EventWait e)) \<longrightarrow>
       (thread_stat k' t = RT_THREAD_READY \<or> thread_stat k' t = RT_THREAD_RUNNING)
       \<and> event_ready (event_info (threads k t)) (event_set (threads k t)) (ev_set (events k e) OR bits)
       \<and> error (threads k' t) = error (threads k t))
    \<and> (bits \<noteq> 0 \<longrightarrow> set (waitq k' (EventWait e)) \<subseteq> set (waitq k (EventWait e)))"
  proof (cases "bits = 0")
    case True
    with r k i show ?thesis
      by (auto simp: rt_event_send_def thread_level_class [OF thread_level_refl] split: if_splits)
  next
    case False
    let ?a = "upd_event e (\<lambda>v. v\<lparr>ev_set := ev_set v OR bits\<rparr>) k"
    obtain st ns k1 where l: "event_send_loop e (waitq ?a (EventWait e)) False ?a = (st, ns, k1)"
      by (rule prod_cases3)
    have a: "kernel_ok ?a" using k by simp
    have v: "\<forall>t\<in>set (waitq ?a (EventWait e)). event_option_valid (event_info (threads ?a t))"
      using i by (auto simp: event_inv_def event_waiter_ok_def)
    have d: "distinct (waitq ?a (EventWait e))"
      using queue_invD(4) [OF kinvD(1) [OF kernel_okD(1) [OF k]]] by (simp add: wait_inv_def)
    have L: "st = RT_EOK" "kernel_ok k1" "class_frame Event_class ?a k1"
      "set (waitq k1 (EventWait e)) \<subseteq> set (waitq ?a (EventWait e))"
      "\<forall>t\<in>set (waitq ?a (EventWait e)) - set (waitq k1 (EventWait e)).
         (thread_stat k1 t = RT_THREAD_READY \<or> thread_stat k1 t = RT_THREAD_RUNNING)
         \<and> event_ready (event_info (threads ?a t)) (event_set (threads ?a t)) (ev_set (events ?a e))"
      "\<And>t. error (threads k1 t) = error (threads ?a t)"
      using event_send_loop_ok [OF a d _ _ l] v by auto
    have i1: "event_inv k1"
    proof (rule event_loop_inv [OF a _ v l])
      show "\<forall>t\<in>set (waitq ?a (EventWait e')). event_waiter_ok ?a e' t" if "e' \<noteq> e" for e'
        using i that by (auto simp: event_inv_def event_waiter_ok_def)
    qed
    have cf: "class_frame Event_class k k1" by (rule class_frame_trans [OF upd_event_class L(3)])
    have l': "event_send_loop e (waitq ?a (EventWait e)) False ?a = (RT_EOK, ns, k1)"
      using l L(1) by (simp only:)
    have "do { rt_assert (ev_object (events k e) \<noteq> Obj_none);
        if ns then do { k \<leftarrow> rt_schedule k1; Some (RT_EOK, k) } else Some (RT_EOK, k1) } = Some (err, k')"
      using r unfolding rt_event_send_def Let_def l' using False by simp
    then have e: "err = RT_EOK" and fin: "(if ns then rt_schedule k1 else Some k1) = Some k'"
      by (cases ns; auto simp: bind_eq_Some_conv split: if_splits)+
    have last: "kernel_ok k' \<and> thread_level k1 k' \<and> waitq k' = waitq k1
        \<and> (\<forall>u. (thread_stat k1 u = RT_THREAD_READY \<or> thread_stat k1 u = RT_THREAD_RUNNING)
            \<longrightarrow> (thread_stat k' u = RT_THREAD_READY \<or> thread_stat k' u = RT_THREAD_RUNNING))
        \<and> (\<forall>u. error (threads k' u) = error (threads k1 u))"
    proof (cases ns)
      case True
      with fin have s: "rt_schedule k1 = Some k'" by simp
      show ?thesis
        using rt_schedule_kernel_ok [OF L(2) s] rt_schedule_thread_level [OF L(2) s]
          rt_schedule_others(2) [OF kernel_okD(1) [OF L(2)] s]
          rt_schedule_runnable [OF kernel_okD(1) [OF L(2)] s]
          ipc_frameD(9) [OF rt_schedule_ipc_frame [OF s]] by blast
    next
      case False
      with fin L(2) show ?thesis by simp
    qed
    then have w: "waitq k' = waitq k1" by blast
    show ?thesis
      using last event_inv_thread_level [OF i1] class_frame_trans [OF cf thread_level_class] L(4-6) False
      by (auto simp: e w)
  qed
  then show "kernel_ok k'" "event_inv k'" "class_frame Event_class k k'"
    "err = (if bits = 0 then RT_ERROR else RT_EOK)"
    "bits \<noteq> 0 \<Longrightarrow> t \<in> set (waitq k (EventWait e)) \<Longrightarrow> t \<notin> set (waitq k' (EventWait e)) \<Longrightarrow>
       (thread_stat k' t = RT_THREAD_READY \<or> thread_stat k' t = RT_THREAD_RUNNING)
       \<and> event_ready (event_info (threads k t)) (event_set (threads k t)) (ev_set (events k e) OR bits)
       \<and> error (threads k' t) = error (threads k t)"
    "bits \<noteq> 0 \<Longrightarrow> set (waitq k' (EventWait e)) \<subseteq> set (waitq k (EventWait e))"
    by blast+
qed

section \<open>Receive\<close>

lemma rt_event_recv_cases:
  assumes r: "rt_event_recv e bits option timeout k = Some (res, k')"
  obtains
    (nothing) "bits = 0" "res = Returned (RT_ERROR, None)" "k' = k"
  | (got) t where "bits \<noteq> 0" "rt_current_thread k = Some t" "event_option_valid option"
      "event_ready option bits (ev_set (events k e))"
      "res = Returned (RT_EOK, Some (ev_set (events k e) AND bits))"
      "k' = (let k = upd_thread t (\<lambda>x. (set_error RT_EOK x)\<lparr>event_set := ev_set (events k e) AND bits,
               event_info := option\<rparr>) k
             in if option AND RT_EVENT_FLAG_CLEAR \<noteq> 0
                then upd_event e (\<lambda>v. v\<lparr>ev_set := ev_set v AND NOT bits\<rparr>) k else k)"
  | (no_wait) t where "bits \<noteq> 0" "rt_current_thread k = Some t" "event_option_valid option"
      "\<not> event_ready option bits (ev_set (events k e))" "timeout = 0"
      "res = Returned (RT_ETIMEOUT, None)"
      "k' = upd_thread t (\<lambda>x. set_error RT_ETIMEOUT (set_error RT_EOK x)) k"
  | (wait) t k1 where "bits \<noteq> 0" "rt_current_thread k = Some t" "event_option_valid option"
      "\<not> event_ready option bits (ev_set (events k e))" "timeout \<noteq> 0" "res = Waiting t"
      "ipc_block (EventWait e) t (ev_flag (events k e)) timeout
         (upd_thread t (\<lambda>x. (set_error RT_EOK x)\<lparr>event_set := bits, event_info := option\<rparr>) k) = Some k1"
      "rt_schedule k1 = Some k'"
proof -
  have two: "upd_thread t g (upd_thread t f k) = upd_thread t (\<lambda>x. g (f x)) k" for t f g k
    by (simp add: upd_thread_def)
  consider "bits = 0" "res = Returned (RT_ERROR, None)" "k' = k"
    | t where "bits \<noteq> 0" "rt_current_thread k = Some t"
    using r by (auto simp: rt_event_recv_def debug_defs split: if_splits)
  then show ?thesis
  proof cases
    case 1
    then show ?thesis by (rule nothing)
  next
    case (2 t)
    show ?thesis
    proof (cases "event_ready option bits (ev_set (events k e))")
      case True
      with r 2 have "event_option_valid option"
        "res = Returned (RT_EOK, Some (ev_set (events k e) AND bits))"
        "k' = (let k = upd_thread t (\<lambda>x. (set_error RT_EOK x)\<lparr>event_set := ev_set (events k e) AND bits,
               event_info := option\<rparr>) k
             in if option AND RT_EVENT_FLAG_CLEAR \<noteq> 0
                then upd_event e (\<lambda>v. v\<lparr>ev_set := ev_set v AND NOT bits\<rparr>) k else k)"
        by (auto simp: rt_event_recv_def debug_defs Let_def two event_option_valid_def split: if_splits)
      with got 2 True show ?thesis by blast
    next
      case False
      with r 2 have v: "event_option_valid option" and
        c: "(if timeout = 0
         then Some (Returned (RT_ETIMEOUT, None), upd_thread t (\<lambda>x. set_error RT_ETIMEOUT (set_error RT_EOK x)) k)
         else do {
           k1 \<leftarrow> ipc_block (EventWait e) t (ev_flag (events k e)) timeout
             (upd_thread t (\<lambda>x. (set_error RT_EOK x)\<lparr>event_set := bits, event_info := option\<rparr>) k);
           k2 \<leftarrow> rt_schedule k1;
           Some (Waiting t, k2) }) = Some (res, k')"
        by (auto simp: rt_event_recv_def debug_defs Let_def two event_option_valid_def split: if_splits)
      show ?thesis
      proof (cases "timeout = 0")
        case True
        with c no_wait 2 v False show ?thesis by auto
      next
        case nz: False
        with c obtain k1 where "ipc_block (EventWait e) t (ev_flag (events k e)) timeout
             (upd_thread t (\<lambda>x. (set_error RT_EOK x)\<lparr>event_set := bits, event_info := option\<rparr>) k) = Some k1"
          "rt_schedule k1 = Some k'" "res = Waiting t"
          by (auto simp: bind_eq_Some_conv)
        with wait 2 v False nz show ?thesis by blast
      qed
    qed
  qed
qed

lemma event_inv_upd_thread:
  assumes k: "kernel_ok k" and i: "event_inv k" and t: "thread_stat k t \<noteq> RT_THREAD_SUSPEND"
  shows "event_inv (upd_thread t f k)"
  unfolding event_inv_def
proof (intro allI ballI)
  fix e s assume s: "s \<in> set (waitq (upd_thread t f k) (EventWait e))"
  then have "s \<noteq> t"
    using queue_invD(4) [OF kinvD(1) [OF kernel_okD(1) [OF k]]] t by (auto simp: wait_inv_def)
  with s i show "event_waiter_ok (upd_thread t f k) e s" by (simp add: event_inv_def event_waiter_ok_def)
qed

lemma event_inv_clear:
  assumes "event_inv k" and "\<And>x. \<exists>m. ev_set (f x) = ev_set x AND m"
  shows "event_inv (upd_event e f k)"
  unfolding event_inv_def
proof (intro allI ballI)
  fix e' t assume "t \<in> set (waitq (upd_event e f k) (EventWait e'))"
  then have w: "event_waiter_ok k e' t" using assms(1) by (simp add: event_inv_def)
  obtain m where "ev_set (f (events k e)) = ev_set (events k e) AND m" using assms(2) by blast
  with w event_ready_mono show "event_waiter_ok (upd_event e f k) e' t"
    by (auto simp: event_waiter_ok_def)
qed

lemma rt_event_recv_ok [inv_intros]:
  assumes k: "kernel_ok k" and i: "event_inv k" and r: "rt_event_recv e bits option timeout k = Some (res, k')"
    and c: "\<And>t. rt_current_thread k = Some t \<Longrightarrow> thread_stat k t = RT_THREAD_RUNNING"
  shows "kernel_ok k'" "event_inv k'" "class_frame Event_class k k'"
proof -
  have u: "kernel_ok (upd_thread t f k)" if "\<And>x. stat (f x) = stat x"
    "\<And>x. current_priority (f x) = current_priority x" "\<And>x. number_mask (f x) = number_mask x" for f t
    by (rule upd_thread_kernel_ok [OF k]) (simp_all add: that thread_stat_def thread_prio_def)
  have "kernel_ok k' \<and> event_inv k' \<and> class_frame Event_class k k'"
    using r
  proof (cases rule: rt_event_recv_cases)
    case nothing
    with k i show ?thesis by (simp add: thread_level_class [OF thread_level_refl])
  next
    case (got t)
    let ?f = "\<lambda>x. (set_error RT_EOK x)\<lparr>event_set := ev_set (events k e) AND bits, event_info := option\<rparr>"
    let ?u = "upd_thread t ?f k"
    let ?c = "upd_event e (\<lambda>v. v\<lparr>ev_set := ev_set v AND NOT bits\<rparr>) ?u"
    have k': "k' = ?c \<or> k' = ?u" using got(6) by (simp add: Let_def)
    have ku: "kernel_ok ?u" by (rule u) simp_all
    have iu: "event_inv ?u" by (rule event_inv_upd_thread [OF k i]) (simp add: c [OF got(2)])
    have "event_inv ?c" by (rule event_inv_clear [OF iu]) auto
    moreover have "class_frame Event_class k ?c"
      by (rule class_frame_trans [OF upd_thread_event_class upd_event_class])
    ultimately show ?thesis using k' ku iu by auto
  next
    case (no_wait t)
    have "event_inv k'" unfolding no_wait(7) by (rule event_inv_upd_thread [OF k i]) (simp add: c [OF no_wait(2)])
    moreover have "kernel_ok k'" unfolding no_wait(7) by (rule u) simp_all
    ultimately show ?thesis by (simp add: no_wait(7))
  next
    case (wait t k1)
    let ?f = "\<lambda>x. (set_error RT_EOK x)\<lparr>event_set := bits, event_info := option\<rparr>"
    let ?u = "upd_thread t ?f k"
    have ku: "kernel_ok ?u" by (rule u) simp_all
    have ru: "thread_stat ?u t = RT_THREAD_RUNNING" using c [OF wait(2)] by (simp add: thread_stat_def)
    note W = ipc_wait_ok [OF ku ru wait(7,8)]
    note F = ipc_frameD [OF W(2)]
    have iu: "event_inv ?u" by (rule event_inv_upd_thread [OF k i]) (simp add: c [OF wait(2)])
    have "event_inv k'"
      unfolding event_inv_def
    proof (intro allI ballI)
      fix e' s assume "s \<in> set (waitq k' (EventWait e'))"
      then consider "s = t" "e' = e" | "s \<in> set (waitq ?u (EventWait e'))"
        by (auto simp: W(4) split: if_splits)
      then show "event_waiter_ok k' e' s"
      proof cases
        case 1
        with wait(3,4) show ?thesis by (simp add: event_waiter_ok_def F(6,10,11))
      next
        case 2
        with iu have "event_waiter_ok ?u e' s" by (simp add: event_inv_def)
        then show ?thesis by (simp add: event_waiter_ok_def F(6) F(10,11))
      qed
    qed
    moreover have "class_frame Event_class k k'"
      by (rule class_frame_trans [OF upd_thread_event_class W(5) [unfolded waitq_class.simps]])
    ultimately show ?thesis using W(1) by blast
  qed
  then show "kernel_ok k'" "event_inv k'" "class_frame Event_class k k'" by blast+
qed

section \<open>Init, create, detach, delete, reset\<close>

lemma event_inv_empty:
  assumes i: "event_inv k" and o: "obj_frame k k1" and w: "waitq k1 = (waitq k)(EventWait e := [])"
  shows "event_inv (upd_event e f k1)"
  unfolding event_inv_def
proof (intro allI ballI)
  fix e' t assume "t \<in> set (waitq (upd_event e f k1) (EventWait e'))"
  then have "e' \<noteq> e" "t \<in> set (waitq k (EventWait e'))" by (auto simp: w split: if_splits)
  with i o show "event_waiter_ok (upd_event e f k1) e' t"
    by (simp add: event_inv_def event_waiter_ok_def obj_frame_def stores_same_def event_data_same_def)
qed

lemma event_reset_ok:
  assumes k: "kernel_ok k" and i: "event_inv k" and r: "ipc_list_resume_all (EventWait e) k = Some k1"
  shows "kernel_ok (upd_event e f k1) \<and> event_inv (upd_event e f k1)
    \<and> class_frame Event_class k (upd_event e f k1)"
proof -
  note A = ipc_list_resume_all_eq [OF k r] and B = ipc_resume_all_class [OF k r]
  show ?thesis
    using A(1) event_inv_empty [OF i B(2) A(2)]
      class_frame_trans [OF thread_level_class [OF B(1)] upd_event_class] by simp
qed

lemma event_new_ok:
  assumes k: "kernel_ok k" and i: "event_inv k"
  shows "kernel_ok (upd_event e f (ipc_object_init (EventWait e) k))
    \<and> event_inv (upd_event e f (ipc_object_init (EventWait e) k))
    \<and> class_frame Event_class k (upd_event e f (ipc_object_init (EventWait e) k))"
proof -
  note A = ipc_object_init_ok [OF k, of "EventWait e"]
  have "class_frame Event_class k (ipc_object_init (EventWait e) k)" by (rule init_class) simp
  then show ?thesis
    using A(1) event_inv_empty [OF i A(2,3)] class_frame_trans [OF _ upd_event_class] by simp
qed

lemma rt_event_init_ok [inv_intros]:
  assumes "kernel_ok k" "event_inv k"
  shows "kernel_ok (snd (rt_event_init e flag k)) \<and> event_inv (snd (rt_event_init e flag k))
    \<and> class_frame Event_class k (snd (rt_event_init e flag k))"
  using event_new_ok [OF assms] by (simp only: rt_event_init_def snd_conv)

lemma rt_event_create_ok [inv_intros]:
  assumes "kernel_ok k" "event_inv k" "rt_event_create a flag k = Some (e, k')"
  shows "kernel_ok k' \<and> event_inv k' \<and> class_frame Event_class k k'"
proof (cases a)
  case None
  with assms show ?thesis
    by (auto simp: rt_event_create_def debug_defs thread_level_class [OF thread_level_refl] split: if_splits)
next
  case (Some x)
  then have "k' = upd_event x (\<lambda>_. \<lparr>ev_object = Obj_dynamic, ev_flag = flag, ev_set = 0\<rparr>)
      (ipc_object_init (EventWait x) k)"
    using assms(3) by (auto simp: rt_event_create_def debug_defs split: if_splits)
  then show ?thesis using event_new_ok [OF assms(1,2)] by (simp only:)
qed

lemma rt_event_detach_ok [inv_intros]:
  assumes "kernel_ok k" "event_inv k" "rt_event_detach e k = Some (err, k')"
  shows "kernel_ok k' \<and> event_inv k' \<and> class_frame Event_class k k'"
  using event_reset_ok [OF assms(1,2)] assms(3)
  by (auto simp: rt_event_detach_def bind_eq_Some_conv simp del: upd_event_fields split: if_splits)

lemma rt_event_delete_ok [inv_intros]:
  assumes "kernel_ok k" "event_inv k" "rt_event_delete e k = Some (err, k')"
  shows "kernel_ok k' \<and> event_inv k' \<and> class_frame Event_class k k'"
  using event_reset_ok [OF assms(1,2)] assms(3)
  by (auto simp: rt_event_delete_def debug_defs bind_eq_Some_conv simp del: upd_event_fields split: if_splits)

lemma rt_event_control_ok [inv_intros]:
  assumes k: "kernel_ok k" and i: "event_inv k" and r: "rt_event_control e reset k = Some (err, k')"
  shows "kernel_ok k' \<and> event_inv k' \<and> class_frame Event_class k k'"
proof (cases reset)
  case True
  then obtain k1 where a: "ipc_list_resume_all (EventWait e) k = Some k1"
    and s: "rt_schedule (upd_event e (\<lambda>v. v\<lparr>ev_set := 0\<rparr>) k1) = Some k'"
    using r by (auto simp: rt_event_control_def Let_def bind_eq_Some_conv split: if_splits)
  note A = event_reset_ok [OF k i a]
  have ku: "kernel_ok (upd_event e (\<lambda>v. v\<lparr>ev_set := 0\<rparr>) k1)" using A by blast
  note t = rt_schedule_thread_level [OF ku s]
  show ?thesis
    using rt_schedule_kernel_ok [OF ku s] event_inv_thread_level [OF _ t]
      class_frame_trans [OF _ thread_level_class [OF t]] A by blast
next
  case False
  with r k i show ?thesis
    by (auto simp: rt_event_control_def thread_level_class [OF thread_level_refl] split: if_splits)
qed

end
