(* ===== verification/Rtt_Fifo.thy ===== *)
theory Rtt_Fifo
  imports Rtt_Prelude
begin

text \<open>
  The contract of a bounded queue, which mailboxes, message queues, ring buffers and data queues
  share, and the contents of a circular array. \<open>fifo_run\<close> drives a queue with a sequence of puts and
  gets; the client lemmas say that what comes out is what was accepted, in that order, and that
  nothing is lost.
\<close>

section \<open>Driving a queue\<close>

datatype 'a fifo_op = Put 'a | Get

text \<open>The results: what was accepted, what was delivered, the final state.\<close>

fun fifo_run ::
    "('a \<Rightarrow> 's \<Rightarrow> 's option) \<Rightarrow> ('s \<Rightarrow> ('a \<times> 's) option) \<Rightarrow> 'a fifo_op list \<Rightarrow> 's
      \<Rightarrow> 'a list \<times> 'a list \<times> 's" where
  "fifo_run enq deq [] s = ([], [], s)"
| "fifo_run enq deq (Put a # ops) s =
     (case enq a s of
        None \<Rightarrow> fifo_run enq deq ops s
      | Some s' \<Rightarrow> (let (acc, del, s'') = fifo_run enq deq ops s' in (a # acc, del, s'')))"
| "fifo_run enq deq (Get # ops) s =
     (case deq s of
        None \<Rightarrow> fifo_run enq deq ops s
      | Some (a, s') \<Rightarrow> (let (acc, del, s'') = fifo_run enq deq ops s' in (acc, a # del, s'')))"

locale bounded_fifo =
  fixes fifo_inv :: "'s \<Rightarrow> bool" and contents :: "'s \<Rightarrow> 'a list" and capacity :: "'s \<Rightarrow> nat"
    and valid :: "'s \<Rightarrow> 'a \<Rightarrow> bool"
    and enq :: "'a \<Rightarrow> 's \<Rightarrow> 's option" and deq :: "'s \<Rightarrow> ('a \<times> 's) option"
  assumes bounded: "fifo_inv s \<Longrightarrow> length (contents s) \<le> capacity s"
    and enq_room: "fifo_inv s \<Longrightarrow> valid s a \<Longrightarrow> length (contents s) < capacity s
      \<Longrightarrow> \<exists>s'. enq a s = Some s' \<and> fifo_inv s' \<and> contents s' = contents s @ [a]
            \<and> capacity s' = capacity s \<and> valid s' = valid s"
    and enq_full: "fifo_inv s \<Longrightarrow> length (contents s) = capacity s \<Longrightarrow> enq a s = None"
    and deq_some: "fifo_inv s \<Longrightarrow> contents s = a # as
      \<Longrightarrow> \<exists>s'. deq s = Some (a, s') \<and> fifo_inv s' \<and> contents s' = as
            \<and> capacity s' = capacity s \<and> valid s' = valid s"
    and deq_empty: "fifo_inv s \<Longrightarrow> contents s = [] \<Longrightarrow> deq s = None"
begin

lemma enq_cases:
  assumes "fifo_inv s" and "valid s a"
  obtains (full) "length (contents s) = capacity s" "enq a s = None"
  | (room) s' where "enq a s = Some s'" "fifo_inv s'" "contents s' = contents s @ [a]"
      "capacity s' = capacity s" "valid s' = valid s"
proof (cases "length (contents s) = capacity s")
  case True
  show ?thesis by (rule full [OF True enq_full [OF assms(1) True]])
next
  case False
  then have "length (contents s) < capacity s" using bounded [OF assms(1)] by simp
  then show ?thesis using room enq_room [OF assms] by blast
qed

lemma run_order:
  assumes "fifo_inv s" and "\<And>a. Put a \<in> set ops \<Longrightarrow> valid s a"
    and "fifo_run enq deq ops s = (acc, del, s')"
  shows "fifo_inv s' \<and> contents s @ acc = del @ contents s' \<and> capacity s' = capacity s"
  using assms
proof (induction ops arbitrary: s acc del)
  case Nil
  then show ?case by simp
next
  case (Cons opn ops)
  show ?case
  proof (cases opn)
    case (Put a)
    have v: "valid s a" using Cons.prems(2) Put by simp
    show ?thesis
      using Cons.prems(1) v
    proof (cases rule: enq_cases)
      case full
      then have "fifo_run enq deq ops s = (acc, del, s')" using Cons.prems(3) Put by simp
      with Cons.IH [OF Cons.prems(1)] Cons.prems(2) show ?thesis by simp
    next
      case (room s1)
      obtain acc1 where r: "fifo_run enq deq ops s1 = (acc1, del, s')" and a: "acc = a # acc1"
        using Cons.prems(3) Put room(1) by (auto split: prod.splits)
      have "\<And>a. Put a \<in> set ops \<Longrightarrow> valid s1 a" using Cons.prems(2) room(5) by simp
      from Cons.IH [OF room(2) this r] room(3,4) a show ?thesis by simp
    qed
  next
    case Get
    show ?thesis
    proof (cases "contents s")
      case Nil
      then have "fifo_run enq deq ops s = (acc, del, s')"
        using Cons.prems(3) Get deq_empty [OF Cons.prems(1)] by simp
      with Cons.IH [OF Cons.prems(1)] Cons.prems(2) show ?thesis by simp
    next
      case c: (Cons a as)
      from deq_some [OF Cons.prems(1) c] obtain s1 where s1: "deq s = Some (a, s1)" "fifo_inv s1"
        "contents s1 = as" "capacity s1 = capacity s" "valid s1 = valid s" by blast
      obtain del1 where r: "fifo_run enq deq ops s1 = (acc, del1, s')" and d: "del = a # del1"
        using Cons.prems(3) Get s1(1) by (auto split: prod.splits)
      have "\<And>a. Put a \<in> set ops \<Longrightarrow> valid s1 a" using Cons.prems(2) s1(5) by simp
      from Cons.IH [OF s1(2) this r] s1(3,4) c d show ?thesis by simp
    qed
  qed
qed

text \<open>From an empty queue, what is delivered is a prefix of what was accepted.\<close>

lemma run_prefix:
  assumes "fifo_inv s" and "contents s = []" and "\<And>a. Put a \<in> set ops \<Longrightarrow> valid s a"
    and "fifo_run enq deq ops s = (acc, del, s')"
  shows "acc = del @ contents s'" "length acc - length del \<le> capacity s"
  using run_order [OF assms(1,3,4)] assms(2) bounded [of s'] by auto

end

text \<open>A queue that can also take an element at the front.\<close>

locale bounded_deque = bounded_fifo fifo_inv contents capacity valid enq deq
  for fifo_inv :: "'s \<Rightarrow> bool" and contents :: "'s \<Rightarrow> 'a list" and capacity :: "'s \<Rightarrow> nat"
    and valid :: "'s \<Rightarrow> 'a \<Rightarrow> bool"
    and enq :: "'a \<Rightarrow> 's \<Rightarrow> 's option" and deq :: "'s \<Rightarrow> ('a \<times> 's) option" +
  fixes push :: "'a \<Rightarrow> 's \<Rightarrow> 's option"
  assumes push_room: "fifo_inv s \<Longrightarrow> valid s a \<Longrightarrow> length (contents s) < capacity s
      \<Longrightarrow> \<exists>s'. push a s = Some s' \<and> fifo_inv s' \<and> contents s' = a # contents s
            \<and> capacity s' = capacity s \<and> valid s' = valid s"
    and push_full: "fifo_inv s \<Longrightarrow> length (contents s) = capacity s \<Longrightarrow> push a s = None"
begin

lemma push_then_deq:
  assumes "fifo_inv s" and "valid s a" and "push a s = Some s1"
  shows "\<exists>s2. deq s1 = Some (a, s2) \<and> fifo_inv s2 \<and> contents s2 = contents s"
proof -
  have "length (contents s) < capacity s"
    using assms push_full bounded [OF assms(1)] by (metis le_neq_implies_less option.distinct(1))
  then have "fifo_inv s1" "contents s1 = a # contents s"
    using push_room [OF assms(1,2)] assms(3) by auto
  then show ?thesis using deq_some [of s1 a "contents s"] by auto
qed

end

section \<open>Circular arrays\<close>

definition ring_contents :: "'a list \<Rightarrow> nat \<Rightarrow> nat \<Rightarrow> nat \<Rightarrow> 'a list" where
  "ring_contents pool sz out n = map (\<lambda>i. pool ! ((out + i) mod sz)) [0..<n]"

lemma length_ring_contents [simp]: "length (ring_contents pool sz out n) = n"
  by (simp add: ring_contents_def)

lemma ring_contents_0 [simp]: "ring_contents pool sz out 0 = []"
  by (simp add: ring_contents_def)

lemma mod_add_inj:
  fixes sz :: nat
  assumes "i < sz" "j < sz" "(out + i) mod sz = (out + j) mod sz"
  shows "i = j"
proof -
  have "(int out + int i) mod int sz = (int out + int j) mod int sz"
    using assms(3) by (metis of_nat_add zmod_int)
  then have "int sz dvd (int i - int j)" by (simp add: mod_eq_dvd_iff)
  moreover have "\<bar>int i - int j\<bar> < int sz" using assms(1,2) by linarith
  ultimately have "int i - int j = 0" by (metis dvd_imp_le_int leD abs_of_nat)
  then show ?thesis by simp
qed

lemma ring_contents_put:
  assumes "n < sz" "sz \<le> length pool"
  shows "ring_contents (pool[(out + n) mod sz := v]) sz out (Suc n)
    = ring_contents pool sz out n @ [v]"
proof -
  let ?p = "pool[(out + n) mod sz := v]"
  have "(out + n) mod sz < sz" using assms(1) by simp
  then have l: "(out + n) mod sz < length pool" using assms(2) by simp
  have "?p ! ((out + i) mod sz) = pool ! ((out + i) mod sz)" if "i < n" for i
    using mod_add_inj [of i sz n out] that assms by (metis less_trans nat_neq_iff nth_list_update_neq)
  with l show ?thesis by (simp add: ring_contents_def)
qed

lemma ring_contents_get:
  assumes "0 < n" "out < sz"
  shows "ring_contents pool sz out n = pool ! out # ring_contents pool sz ((out + 1) mod sz) (n - 1)"
proof -
  obtain m where n: "n = Suc m" using assms(1) by (cases n) auto
  have "[0..<n] = 0 # map Suc [0..<m]" by (simp add: n upt_conv_Cons map_Suc_upt del: upt_Suc)
  then show ?thesis using assms(2) by (simp add: ring_contents_def n mod_simps add.commute)
qed

lemma ring_contents_push:
  assumes "n < sz" "out < sz" "sz \<le> length pool"
  defines "out' \<equiv> (out + (sz - 1)) mod sz"
  shows "ring_contents (pool[out' := v]) sz out' (Suc n) = v # ring_contents pool sz out n"
proof -
  have o: "out' < sz" using assms by simp
  have b: "(out' + 1) mod sz = out"
  proof -
    have "(out' + 1) mod sz = (out + (sz - 1) + 1) mod sz" unfolding out'_def by (rule mod_add_left_eq)
    also have "out + (sz - 1) + 1 = out + sz" using assms(1) by simp
    finally show ?thesis using assms(2) by simp
  qed
  have same: "ring_contents (pool[out' := v]) sz out n = ring_contents pool sz out n"
    unfolding ring_contents_def
  proof (rule map_cong [OF refl])
    fix i assume "i \<in> set [0..<n]"
    then have "i < n" by simp
    then have "(out + i) mod sz \<noteq> out'"
      using mod_add_inj [of i sz "sz - 1" out] assms(1) unfolding out'_def by fastforce
    then show "pool[out' := v] ! ((out + i) mod sz) = pool ! ((out + i) mod sz)" by simp
  qed
  have "ring_contents (pool[out' := v]) sz out' (Suc n)
      = pool[out' := v] ! out' # ring_contents (pool[out' := v]) sz ((out' + 1) mod sz) (Suc n - 1)"
    by (rule ring_contents_get) (simp_all add: o)
  also have "pool[out' := v] ! out' = v" using o assms(3) by simp
  finally show ?thesis using b same by simp
qed

end
