(* ===== verification/Rtt_Mailbox.thy ===== *)
theory Rtt_Mailbox
  imports Rtt_Ipc Rtt_Fifo
begin

text \<open>
  Mailboxes, \<^verbatim>\<open>src/ipc.c\<close>: a circular array of words with a suspend list of receivers and one of
  senders. The offsets and counters are \<^verbatim>\<open>rt_uint16_t\<close>, held as natural numbers with the wrap-around
  written out. A thread that is woken looks again whether there is room (or a message), and goes
  back to sleep with what is left of its timeout if there is none. \<open>m\<close> names the mailbox.
\<close>

section \<open>The circular array\<close>

definition RT_MB_ENTRY_MAX :: nat where "RT_MB_ENTRY_MAX = 0xffff"

text \<open>Writing at the end: the part of \<^verbatim>\<open>rt_mb_send_wait\<close> after the loop. \<open>None\<close> is a write outside
  the array.\<close>

definition mb_put :: "u32 \<Rightarrow> mailbox \<Rightarrow> (rt_err \<times> mailbox) option" where
  "mb_put value x = do {
     rt_assert (mb_in_offset x < length (mb_msg_pool x));
     let x = x\<lparr>mb_msg_pool := (mb_msg_pool x)[mb_in_offset x := value]\<rparr>;
     let x = x\<lparr>mb_in_offset := (mb_in_offset x + 1) mod 2 ^ 16\<rparr>;
     let x = (if mb_size x \<le> mb_in_offset x then x\<lparr>mb_in_offset := 0\<rparr> else x);
     Some (if mb_entry x < RT_MB_ENTRY_MAX then (RT_EOK, x\<lparr>mb_entry := mb_entry x + 1\<rparr>)
           else (RT_EFULL, x)) }"

text \<open>Writing at the front, as \<^verbatim>\<open>rt_mb_urgent\<close> does.\<close>

definition mb_put_front :: "u32 \<Rightarrow> mailbox \<Rightarrow> mailbox option" where
  "mb_put_front value x = do {
     let x = (if 0 < mb_out_offset x then x\<lparr>mb_out_offset := mb_out_offset x - 1\<rparr>
              else x\<lparr>mb_out_offset := (mb_size x + (2 ^ 16 - 1)) mod 2 ^ 16\<rparr>);
     rt_assert (mb_out_offset x < length (mb_msg_pool x));
     let x = x\<lparr>mb_msg_pool := (mb_msg_pool x)[mb_out_offset x := value]\<rparr>;
     Some (x\<lparr>mb_entry := (mb_entry x + 1) mod 2 ^ 16\<rparr>) }"

text \<open>Reading: the part of \<^verbatim>\<open>rt_mb_recv\<close> after the loop.\<close>

definition mb_get :: "mailbox \<Rightarrow> (u32 \<times> mailbox) option" where
  "mb_get x = do {
     rt_assert (mb_out_offset x < length (mb_msg_pool x));
     let value = mb_msg_pool x ! mb_out_offset x;
     let x = x\<lparr>mb_out_offset := (mb_out_offset x + 1) mod 2 ^ 16\<rparr>;
     let x = (if mb_size x \<le> mb_out_offset x then x\<lparr>mb_out_offset := 0\<rparr> else x);
     let x = (if 0 < mb_entry x then x\<lparr>mb_entry := mb_entry x - 1\<rparr> else x);
     Some (value, x) }"

section \<open>Life cycle\<close>

definition upd_mailbox :: "nat \<Rightarrow> (mailbox \<Rightarrow> mailbox) \<Rightarrow> kernel \<Rightarrow> kernel" where
  "upd_mailbox m f k = k\<lparr>mailboxes := (mailboxes k)(m := f (mailboxes k m))\<rparr>"

definition mb_new :: "obj_state \<Rightarrow> u32 list \<Rightarrow> u32 \<Rightarrow> ipc_flag \<Rightarrow> mailbox" where
  "mb_new st msgpool sz flag = \<lparr>mb_object = st, mb_flag = flag, mb_msg_pool = msgpool,
     mb_size = unat sz mod 2 ^ 16, mb_entry = 0, mb_in_offset = 0, mb_out_offset = 0\<rparr>"

definition rt_mb_init :: "nat \<Rightarrow> u32 list \<Rightarrow> u32 \<Rightarrow> ipc_flag \<Rightarrow> kernel \<Rightarrow> rt_err \<times> kernel" where
  "rt_mb_init m msgpool sz flag k =
     (let k = ipc_object_init (MbRecvWait m) k;
          k = upd_mailbox m (\<lambda>_. mb_new Obj_static msgpool sz flag) k;
          k = ipc_object_init (MbSendWait m) k
      in (RT_EOK, k))"

definition rt_mb_detach :: "nat \<Rightarrow> kernel \<Rightarrow> (rt_err \<times> kernel) option" where
  "rt_mb_detach m k = do {
     rt_assert (mb_object (mailboxes k m) = Obj_static);
     k \<leftarrow> ipc_list_resume_all (MbRecvWait m) k;
     k \<leftarrow> ipc_list_resume_all (MbSendWait m) k;
     Some (RT_EOK, upd_mailbox m (\<lambda>x. x\<lparr>mb_object := Obj_none\<rparr>) k) }"

text \<open>\<open>alloc\<close> and \<open>pool\<close> are the results of the two allocations; the second is of
  \<^verbatim>\<open>mb->size\<close> words.\<close>

definition rt_mb_create ::
    "nat option \<Rightarrow> u32 list option \<Rightarrow> u32 \<Rightarrow> ipc_flag \<Rightarrow> kernel \<Rightarrow> (nat option \<times> kernel) option" where
  "rt_mb_create alloc pool sz flag k = do {
     debug_not_in_interrupt k;
     (case alloc of
        None \<Rightarrow> Some (None, k)
      | Some m \<Rightarrow>
          (let k = ipc_object_init (MbRecvWait m) k in
           case pool of
             None \<Rightarrow> Some (None, upd_mailbox m (\<lambda>x. x\<lparr>mb_object := Obj_none\<rparr>) k)
           | Some msgpool \<Rightarrow>
               (let k = upd_mailbox m (\<lambda>_. mb_new Obj_dynamic msgpool sz flag) k
                in Some (Some m, ipc_object_init (MbSendWait m) k)))) }"

definition rt_mb_delete :: "nat \<Rightarrow> kernel \<Rightarrow> (rt_err \<times> kernel) option" where
  "rt_mb_delete m k = do {
     rt_assert (mb_object (mailboxes k m) = Obj_dynamic);
     debug_not_in_interrupt k;
     k \<leftarrow> ipc_list_resume_all (MbRecvWait m) k;
     k \<leftarrow> ipc_list_resume_all (MbSendWait m) k;
     Some (RT_EOK, upd_mailbox m (\<lambda>x. x\<lparr>mb_object := Obj_none\<rparr>) k) }"

section \<open>Sending\<close>

record mb_send_frame =
  mbs_thread :: tid
  mbs_mb :: nat
  mbs_value :: u32
  mbs_timeout :: u32
  mbs_tick :: u32

definition mb_send_finish ::
    "nat \<Rightarrow> u32 \<Rightarrow> kernel \<Rightarrow> ((mb_send_frame, rt_err) outcome \<times> kernel) option" where
  "mb_send_finish m value k = do {
     (e, x) \<leftarrow> mb_put value (mailboxes k m);
     let k = upd_mailbox m (\<lambda>_. x) k;
     (if e \<noteq> RT_EOK then Some (Returned e, k)
      else do {
        k \<leftarrow> ipc_wake_one (MbRecvWait m) k;
        Some (Returned RT_EOK, k) }) }"

text \<open>The test of the \<^verbatim>\<open>while\<close> loop, with one round of its body or the code after it.\<close>

definition mb_send_loop ::
    "tid option \<Rightarrow> nat \<Rightarrow> u32 \<Rightarrow> u32 \<Rightarrow> kernel
      \<Rightarrow> ((mb_send_frame, rt_err) outcome \<times> kernel) option" where
  "mb_send_loop thread m value timeout k =
     (if mb_entry (mailboxes k m) = mb_size (mailboxes k m)
      then do {
        t \<leftarrow> thread;
        let k = upd_thread t (set_error RT_EOK) k;
        (if timeout = 0 then Some (Returned RT_EFULL, k)
         else do {
           let tick_delta = rt_tick_get k;
           k \<leftarrow> ipc_block (MbSendWait m) t (mb_flag (mailboxes k m)) timeout k;
           k \<leftarrow> rt_schedule k;
           Some (Waiting \<lparr>mbs_thread = t, mbs_mb = m, mbs_value = value, mbs_timeout = timeout,
                          mbs_tick = tick_delta\<rparr>, k) }) }
      else mb_send_finish m value k)"

definition rt_mb_send_wait ::
    "nat \<Rightarrow> u32 \<Rightarrow> u32 \<Rightarrow> kernel \<Rightarrow> ((mb_send_frame, rt_err) outcome \<times> kernel) option" where
  "rt_mb_send_wait m value timeout k = do {
     rt_assert (mb_object (mailboxes k m) \<noteq> Obj_none);
     debug_scheduler_available (timeout \<noteq> 0) k;
     (if mb_entry (mailboxes k m) = mb_size (mailboxes k m) \<and> timeout = 0
      then Some (Returned RT_EFULL, k)
      else mb_send_loop (rt_thread_self k) m value timeout k) }"

definition rt_mb_send_wait_resume ::
    "mb_send_frame \<Rightarrow> kernel \<Rightarrow> ((mb_send_frame, rt_err) outcome \<times> kernel) option" where
  "rt_mb_send_wait_resume f k =
     (if error (threads k (mbs_thread f)) \<noteq> RT_EOK
      then Some (Returned (error (threads k (mbs_thread f))), k)
      else mb_send_loop (Some (mbs_thread f)) (mbs_mb f) (mbs_value f)
             (timeout_left (mbs_timeout f) (mbs_tick f) k) k)"

definition rt_mb_send ::
    "nat \<Rightarrow> u32 \<Rightarrow> kernel \<Rightarrow> ((mb_send_frame, rt_err) outcome \<times> kernel) option" where
  "rt_mb_send m value k = rt_mb_send_wait m value 0 k"

definition rt_mb_urgent :: "nat \<Rightarrow> u32 \<Rightarrow> kernel \<Rightarrow> (rt_err \<times> kernel) option" where
  "rt_mb_urgent m value k = do {
     rt_assert (mb_object (mailboxes k m) \<noteq> Obj_none);
     (if mb_entry (mailboxes k m) = mb_size (mailboxes k m) then Some (RT_EFULL, k)
      else do {
        x \<leftarrow> mb_put_front value (mailboxes k m);
        k \<leftarrow> ipc_wake_one (MbRecvWait m) (upd_mailbox m (\<lambda>_. x) k);
        Some (RT_EOK, k) }) }"

section \<open>Receiving\<close>

record mb_recv_frame =
  mbr_thread :: tid
  mbr_mb :: nat
  mbr_timeout :: u32
  mbr_tick :: u32

text \<open>The results are the status and the word stored through \<^verbatim>\<open>value\<close>, if any.\<close>

definition mb_recv_loop ::
    "tid option \<Rightarrow> nat \<Rightarrow> u32 \<Rightarrow> kernel
      \<Rightarrow> ((mb_recv_frame, rt_err \<times> u32 option) outcome \<times> kernel) option" where
  "mb_recv_loop thread m timeout k =
     (if mb_entry (mailboxes k m) = 0
      then do {
        t \<leftarrow> thread;
        let k = upd_thread t (set_error RT_EOK) k;
        (if timeout = 0
         then Some (Returned (RT_ETIMEOUT, None), upd_thread t (set_error RT_ETIMEOUT) k)
         else do {
           let tick_delta = rt_tick_get k;
           k \<leftarrow> ipc_block (MbRecvWait m) t (mb_flag (mailboxes k m)) timeout k;
           k \<leftarrow> rt_schedule k;
           Some (Waiting \<lparr>mbr_thread = t, mbr_mb = m, mbr_timeout = timeout,
                          mbr_tick = tick_delta\<rparr>, k) }) }
      else do {
        (value, x) \<leftarrow> mb_get (mailboxes k m);
        k \<leftarrow> ipc_wake_one (MbSendWait m) (upd_mailbox m (\<lambda>_. x) k);
        Some (Returned (RT_EOK, Some value), k) })"

definition rt_mb_recv ::
    "nat \<Rightarrow> u32 \<Rightarrow> kernel
      \<Rightarrow> ((mb_recv_frame, rt_err \<times> u32 option) outcome \<times> kernel) option" where
  "rt_mb_recv m timeout k = do {
     rt_assert (mb_object (mailboxes k m) \<noteq> Obj_none);
     debug_scheduler_available (timeout \<noteq> 0) k;
     (if mb_entry (mailboxes k m) = 0 \<and> timeout = 0
      then Some (Returned (RT_ETIMEOUT, None), k)
      else mb_recv_loop (rt_thread_self k) m timeout k) }"

definition rt_mb_recv_resume ::
    "mb_recv_frame \<Rightarrow> kernel
      \<Rightarrow> ((mb_recv_frame, rt_err \<times> u32 option) outcome \<times> kernel) option" where
  "rt_mb_recv_resume f k =
     (if error (threads k (mbr_thread f)) \<noteq> RT_EOK
      then Some (Returned (error (threads k (mbr_thread f)), None), k)
      else mb_recv_loop (Some (mbr_thread f)) (mbr_mb f)
             (timeout_left (mbr_timeout f) (mbr_tick f) k) k)"

section \<open>Reset\<close>

definition rt_mb_control :: "nat \<Rightarrow> bool \<Rightarrow> kernel \<Rightarrow> (rt_err \<times> kernel) option" where
  "rt_mb_control m reset k = do {
     rt_assert (mb_object (mailboxes k m) \<noteq> Obj_none);
     (if reset
      then do {
        k \<leftarrow> ipc_list_resume_all (MbRecvWait m) k;
        k \<leftarrow> ipc_list_resume_all (MbSendWait m) k;
        let k = upd_mailbox m (\<lambda>x. x\<lparr>mb_entry := 0, mb_in_offset := 0, mb_out_offset := 0\<rparr>) k;
        k \<leftarrow> rt_schedule k;
        Some (RT_EOK, k) }
      else Some (RT_ERROR, k)) }"

section \<open>A mailbox is a bounded queue\<close>

definition mb_inv :: "mailbox \<Rightarrow> bool" where
  "mb_inv x \<longleftrightarrow> mb_size x \<le> length (mb_msg_pool x) \<and> mb_size x < 2 ^ 16
     \<and> mb_entry x \<le> mb_size x
     \<and> (if mb_size x = 0 then mb_in_offset x = 0 \<and> mb_out_offset x = 0
        else mb_out_offset x < mb_size x
          \<and> mb_in_offset x = (mb_out_offset x + mb_entry x) mod mb_size x)"

definition mb_contents :: "mailbox \<Rightarrow> u32 list" where
  "mb_contents x = ring_contents (mb_msg_pool x) (mb_size x) (mb_out_offset x) (mb_entry x)"

lemma length_mb_contents [simp]: "length (mb_contents x) = mb_entry x"
  by (simp add: mb_contents_def)

lemma wrap_next:
  fixes i n :: nat
  assumes "i < n" "n < 2 ^ 16"
  shows "(if n \<le> (i + 1) mod 2 ^ 16 then 0 else (i + 1) mod 2 ^ 16) = (i + 1) mod n"
  using assms by (cases "i + 1 = n") auto

lemma mb_put_ok:
  assumes i: "mb_inv x" and n: "mb_entry x < mb_size x"
  obtains x' where "mb_put v x = Some (RT_EOK, x')" "mb_inv x'"
    "mb_contents x' = mb_contents x @ [v]" "mb_size x' = mb_size x" "mb_object x' = mb_object x"
    "mb_flag x' = mb_flag x"
proof -
  let ?in = "mb_in_offset x" and ?out = "mb_out_offset x" and ?n = "mb_size x" and ?e = "mb_entry x"
  have I: "?n \<le> length (mb_msg_pool x)" "?n < 2 ^ 16" "?out < ?n" "?in = (?out + ?e) mod ?n"
    using i n by (simp_all add: mb_inv_def split: if_splits)
  have inn: "?in < ?n" using I(4) n by simp
  let ?x = "x\<lparr>mb_msg_pool := (mb_msg_pool x)[?in := v], mb_in_offset := (?in + 1) mod ?n,
      mb_entry := ?e + 1\<rparr>"
  have p: "mb_put v x = Some (RT_EOK, ?x)"
  proof -
    have "(if ?n \<le> (?in + 1) mod 2 ^ 16 then 0 else (?in + 1) mod 2 ^ 16) = (?in + 1) mod ?n"
      by (rule wrap_next [OF inn I(2)])
    moreover have "?in < length (mb_msg_pool x)" using inn I(1) by simp
    ultimately show ?thesis
      using I(2) n by (cases "?n \<le> (?in + 1) mod 2 ^ 16")
        (simp_all add: mb_put_def Let_def RT_MB_ENTRY_MAX_def)
  qed
  have "(?in + 1) mod ?n = (?out + (?e + 1)) mod ?n" by (simp add: I(4) mod_simps)
  then have "mb_inv ?x" using I n by (simp add: mb_inv_def)
  moreover have "mb_contents ?x = mb_contents x @ [v]"
    using ring_contents_put [OF n I(1)] I(4) by (simp add: mb_contents_def)
  ultimately show ?thesis using that p by simp
qed

lemma mb_get_ok:
  assumes i: "mb_inv x" and c: "mb_contents x = v # vs"
  obtains x' where "mb_get x = Some (v, x')" "mb_inv x'" "mb_contents x' = vs"
    "mb_size x' = mb_size x" "mb_object x' = mb_object x" "mb_flag x' = mb_flag x"
proof -
  let ?out = "mb_out_offset x" and ?n = "mb_size x" and ?e = "mb_entry x"
  have e: "0 < ?e" using c length_mb_contents [of x] by simp
  have I: "?n \<le> length (mb_msg_pool x)" "?n < 2 ^ 16" "?out < ?n" "mb_in_offset x = (?out + ?e) mod ?n"
    "?e \<le> ?n"
    using i e by (simp_all add: mb_inv_def split: if_splits)
  let ?x = "x\<lparr>mb_out_offset := (?out + 1) mod ?n, mb_entry := ?e - 1\<rparr>"
  have p: "mb_get x = Some (mb_msg_pool x ! ?out, ?x)"
  proof -
    have "(if ?n \<le> (?out + 1) mod 2 ^ 16 then 0 else (?out + 1) mod 2 ^ 16) = (?out + 1) mod ?n"
      by (rule wrap_next [OF I(3,2)])
    then show ?thesis
      using I e by (cases "?n \<le> (?out + 1) mod 2 ^ 16") (simp_all add: mb_get_def Let_def)
  qed
  have "((?out + 1) mod ?n + (?e - 1)) mod ?n = (?out + 1 + (?e - 1)) mod ?n" by (rule mod_add_left_eq)
  then have "((?out + 1) mod ?n + (?e - 1)) mod ?n = (?out + ?e) mod ?n" using e by simp
  then have inv': "mb_inv ?x" using I by (simp add: mb_inv_def)
  have "mb_contents x = mb_msg_pool x ! ?out # mb_contents ?x"
    using ring_contents_get [OF e I(3)] by (simp add: mb_contents_def)
  with c have "mb_msg_pool x ! ?out = v" "mb_contents ?x = vs" by simp_all
  with that p inv' show ?thesis by simp
qed

lemma mb_put_front_ok:
  assumes i: "mb_inv x" and n: "mb_entry x < mb_size x"
  obtains x' where "mb_put_front v x = Some x'" "mb_inv x'"
    "mb_contents x' = v # mb_contents x" "mb_size x' = mb_size x" "mb_object x' = mb_object x"
    "mb_flag x' = mb_flag x"
proof -
  let ?out = "mb_out_offset x" and ?n = "mb_size x" and ?e = "mb_entry x"
  let ?o = "(?out + (?n - 1)) mod ?n"
  have I: "?n \<le> length (mb_msg_pool x)" "?n < 2 ^ 16" "?out < ?n" "mb_in_offset x = (?out + ?e) mod ?n"
    using i n by (simp_all add: mb_inv_def split: if_splits)
  have o: "?o = (if 0 < ?out then ?out - 1 else (?n + (2 ^ 16 - 1)) mod 2 ^ 16)"
  proof (cases "0 < ?out")
    case True
    then have "?out + (?n - 1) = (?out - 1) + ?n" using I(3) by simp
    then have "?o = (?out - 1) mod ?n" by (simp only: mod_add_self2)
    with True I(3) show ?thesis by simp
  next
    case False
    then have "?n + (2 ^ 16 - 1) = (?n - 1) + 2 ^ 16" using I(3) by simp
    then have "(?n + (2 ^ 16 - 1)) mod 2 ^ 16 = (?n - 1) mod 2 ^ 16" by (simp only: mod_add_self2)
    with False I(2,3) show ?thesis by simp
  qed
  define p where "p = ?o"
  let ?x = "x\<lparr>mb_out_offset := p, mb_msg_pool := (mb_msg_pool x)[p := v], mb_entry := ?e + 1\<rparr>"
  have pn: "p < ?n" using I(3) by (simp add: p_def)
  then have pl: "p < length (mb_msg_pool x)" using I(1) by simp
  have e16: "(?e + 1) mod 2 ^ 16 = ?e + 1" using I(2) n by simp
  have p: "mb_put_front v x = Some ?x"
  proof (cases "0 < ?out")
    case True
    then have "?out - 1 = p" using o by (simp add: p_def)
    with True pl e16 show ?thesis by (simp add: mb_put_front_def Let_def)
  next
    case False
    then have "(?n + (2 ^ 16 - 1)) mod 2 ^ 16 = p" using o by (simp add: p_def)
    with False pl e16 show ?thesis by (simp add: mb_put_front_def Let_def)
  qed
  have "(p + (?e + 1)) mod ?n = (?out + (?n - 1) + (?e + 1)) mod ?n"
    unfolding p_def by (rule mod_add_left_eq)
  also have "?out + (?n - 1) + (?e + 1) = (?out + ?e) + ?n" using n by simp
  also have "((?out + ?e) + ?n) mod ?n = (?out + ?e) mod ?n" by simp
  finally have "mb_inv ?x" using I n pn by (simp add: mb_inv_def)
  moreover have "mb_contents ?x = v # mb_contents x"
    using ring_contents_push [OF n I(3,1), folded p_def] by (simp add: mb_contents_def)
  ultimately show ?thesis using that p by simp
qed

text \<open>The non-blocking operations as queue operations: \<open>None\<close> is a refusal.\<close>

definition mb_try_put :: "u32 \<Rightarrow> mailbox \<Rightarrow> mailbox option" where
  "mb_try_put v x = (if mb_entry x = mb_size x then None
     else case mb_put v x of Some (RT_EOK, x') \<Rightarrow> Some x' | _ \<Rightarrow> None)"

definition mb_try_get :: "mailbox \<Rightarrow> (u32 \<times> mailbox) option" where
  "mb_try_get x = (if mb_entry x = 0 then None else mb_get x)"

definition mb_try_push :: "u32 \<Rightarrow> mailbox \<Rightarrow> mailbox option" where
  "mb_try_push v x = (if mb_entry x = mb_size x then None else mb_put_front v x)"

interpretation mbq: bounded_deque mb_inv mb_contents mb_size "\<lambda>_ _. True" mb_try_put mb_try_get mb_try_push
proof
  fix x :: mailbox and v :: u32 and vs
  assume i: "mb_inv x"
  show "length (mb_contents x) \<le> mb_size x" using i by (simp add: mb_inv_def)
  show "mb_try_put v x = None" if "length (mb_contents x) = mb_size x"
    using that by (simp add: mb_try_put_def)
  show "mb_try_push v x = None" if "length (mb_contents x) = mb_size x"
    using that by (simp add: mb_try_push_def)
  show "mb_try_get x = None" if "mb_contents x = []"
    using that length_mb_contents [of x] by (simp add: mb_try_get_def)
  show "\<exists>s'. mb_try_put v x = Some s' \<and> mb_inv s' \<and> mb_contents s' = mb_contents x @ [v]
      \<and> mb_size s' = mb_size x \<and> (\<lambda>_. True) = (\<lambda>_. True)" if "length (mb_contents x) < mb_size x"
    using that by (auto simp: mb_try_put_def intro: mb_put_ok [OF i, of v])
  show "\<exists>s'. mb_try_push v x = Some s' \<and> mb_inv s' \<and> mb_contents s' = v # mb_contents x
      \<and> mb_size s' = mb_size x \<and> (\<lambda>_. True) = (\<lambda>_. True)" if "length (mb_contents x) < mb_size x"
    using that by (auto simp: mb_try_push_def intro: mb_put_front_ok [OF i, of v])
  show "\<exists>s'. mb_try_get x = Some (v, s') \<and> mb_inv s' \<and> mb_contents s' = vs
      \<and> mb_size s' = mb_size x \<and> (\<lambda>_. True) = (\<lambda>_. True)" if c: "mb_contents x = v # vs"
  proof -
    have "mb_entry x \<noteq> 0" using length_mb_contents [of x] c by auto
    then show ?thesis by (auto simp: mb_try_get_def intro: mb_get_ok [OF i c])
  qed
qed

section \<open>The operations keep the invariant\<close>

lemma upd_mailbox_fields [simp]:
  "mailboxes (upd_mailbox m f k) m' = (if m' = m then f (mailboxes k m) else mailboxes k m')"
  "waitq (upd_mailbox m f k) = waitq k" "threads (upd_mailbox m f k) = threads k"
  "thread_stat (upd_mailbox m f k) = thread_stat k" "thread_prio (upd_mailbox m f k) = thread_prio k"
  "rt_current_thread (upd_mailbox m f k) = rt_current_thread k"
  "rt_scheduler_lock_nest (upd_mailbox m f k) = rt_scheduler_lock_nest k"
  "kernel_ok (upd_mailbox m f k) = kernel_ok k"
  by (simp_all add: upd_mailbox_def thread_stat_def thread_prio_def fun_eq_iff)

lemma upd_mailbox_class [simp]: "class_frame Mailbox_class k (upd_mailbox m f k)"
proof -
  have "same_store B k (upd_mailbox m f k)" if "B \<noteq> Mailbox_class" for B
    using that by (cases B) (simp_all add: upd_mailbox_def)
  then show ?thesis by (simp add: class_frame_def upd_mailbox_def)
qed

definition mailbox_inv :: "kernel \<Rightarrow> bool" where
  "mailbox_inv k \<longleftrightarrow> (\<forall>m. mb_inv (mailboxes k m))"

interpretation mbs: ipc_store Mailbox_class mailbox_inv
  by unfold_locales (simp add: mailbox_inv_def)

lemma mailbox_inv_upd [simp]:
  "mailbox_inv k \<Longrightarrow> mb_inv (f (mailboxes k m)) \<Longrightarrow> mailbox_inv (upd_mailbox m f k)"
  by (simp add: mailbox_inv_def)

abbreviation mb_step_ok :: "kernel \<Rightarrow> kernel \<Rightarrow> bool" where
  "mb_step_ok \<equiv> class_step Mailbox_class mailbox_inv"

lemma mb_step_upd:
  assumes "mb_step_ok k k1" "mb_inv (f (mailboxes k1 m))"
  shows "mb_step_ok k (upd_mailbox m f k1)"
  using assms class_frame_trans [OF _ upd_mailbox_class] by (simp add: class_step_def)

lemma mb_put_wake_ok:
  assumes k: "kernel_ok k" and i: "mailbox_inv k" and x: "mb_inv x"
    and r: "ipc_wake_one q (upd_mailbox m (\<lambda>_. x) k) = Some k'"
  shows "mb_step_ok k k'"
  by (rule mbs.step_wake_one [OF mb_step_upd [OF mbs.step_refl [OF k i]] r]) (rule x)

section \<open>Send\<close>

text \<open>The three ways a round of the send loop can go.\<close>

lemma mb_send_loop_cases:
  assumes i: "mailbox_inv k" and r: "mb_send_loop th m v timeout k = Some (res, k')"
  obtains
    (full) t where "th = Some t" "mb_entry (mailboxes k m) = mb_size (mailboxes k m)" "timeout = 0"
      "res = Returned RT_EFULL" "k' = upd_thread t (set_error RT_EOK) k"
  | (wait) t k1 where "th = Some t" "mb_entry (mailboxes k m) = mb_size (mailboxes k m)" "timeout \<noteq> 0"
      "res = Waiting \<lparr>mbs_thread = t, mbs_mb = m, mbs_value = v, mbs_timeout = timeout,
                      mbs_tick = rt_tick k\<rparr>"
      "ipc_block (MbSendWait m) t (mb_flag (mailboxes k m)) timeout (upd_thread t (set_error RT_EOK) k)
         = Some k1" "rt_schedule k1 = Some k'"
  | (sent) x where "mb_entry (mailboxes k m) < mb_size (mailboxes k m)" "res = Returned RT_EOK"
      "mb_put v (mailboxes k m) = Some (RT_EOK, x)" "mb_inv x"
      "mb_contents x = mb_contents (mailboxes k m) @ [v]" "mb_size x = mb_size (mailboxes k m)"
      "ipc_wake_one (MbRecvWait m) (upd_mailbox m (\<lambda>_. x) k) = Some k'"
proof -
  have im: "mb_inv (mailboxes k m)" using i by (simp add: mailbox_inv_def)
  show ?thesis
  proof (cases "mb_entry (mailboxes k m) = mb_size (mailboxes k m)")
    case True
    then show ?thesis
      using r full wait
      by (cases "timeout = 0")
        (auto simp: mb_send_loop_def Let_def bind_eq_Some_conv rt_tick_get_def split: if_splits)
  next
    case False
    then have lt: "mb_entry (mailboxes k m) < mb_size (mailboxes k m)" using im by (simp add: mb_inv_def)
    obtain x where x: "mb_put v (mailboxes k m) = Some (RT_EOK, x)" "mb_inv x"
      "mb_contents x = mb_contents (mailboxes k m) @ [v]" "mb_size x = mb_size (mailboxes k m)"
      using mb_put_ok [OF im lt] by metis
    have "ipc_wake_one (MbRecvWait m) (upd_mailbox m (\<lambda>_. x) k) = Some k' \<and> res = Returned RT_EOK"
      using r False x(1) by (auto simp: mb_send_loop_def mb_send_finish_def bind_eq_Some_conv)
    with sent lt x show ?thesis by blast
  qed
qed

lemma mb_send_loop_ok:
  assumes k: "kernel_ok k" and i: "mailbox_inv k" and r: "mb_send_loop th m v timeout k = Some (res, k')"
    and c: "\<And>t. th = Some t \<Longrightarrow> thread_stat k t = RT_THREAD_RUNNING"
  shows "mb_step_ok k k'"
  using i r
proof (cases rule: mb_send_loop_cases)
  case (full t)
  then show ?thesis using mbs.step_error [OF mbs.step_refl [OF k i]] by simp
next
  case (wait t k1)
  show ?thesis by (rule mbs.step_block(1) [OF k i c [OF wait(1)] _ wait(5,6)]) simp
next
  case (sent x)
  show ?thesis by (rule mb_put_wake_ok [OF k i sent(4,7)])
qed

lemma rt_mb_send_wait_ok [inv_intros]:
  assumes k: "kernel_ok k" and i: "mailbox_inv k" and r: "rt_mb_send_wait m v timeout k = Some (res, k')"
    and c: "\<And>t. rt_current_thread k = Some t \<Longrightarrow> thread_stat k t = RT_THREAD_RUNNING"
  shows "mb_step_ok k k'"
proof (cases "mb_entry (mailboxes k m) = mb_size (mailboxes k m) \<and> timeout = 0")
  case True
  with r mbs.step_refl [OF k i] show ?thesis
    by (auto simp: rt_mb_send_wait_def debug_defs bind_eq_Some_conv split: if_splits)
next
  case False
  then have "mb_send_loop (rt_current_thread k) m v timeout k = Some (res, k')"
    using r by (auto simp: rt_mb_send_wait_def rt_thread_self_def bind_eq_Some_conv split: if_splits)
  from mb_send_loop_ok [OF k i this c] show ?thesis .
qed

lemma rt_mb_send_wait_resume_ok [inv_intros]:
  assumes k: "kernel_ok k" and i: "mailbox_inv k" and r: "rt_mb_send_wait_resume f k = Some (res, k')"
    and c: "thread_stat k (mbs_thread f) = RT_THREAD_RUNNING"
  shows "mb_step_ok k k'"
proof (cases "error (threads k (mbs_thread f)) = RT_EOK")
  case True
  then have "mb_send_loop (Some (mbs_thread f)) (mbs_mb f) (mbs_value f)
      (timeout_left (mbs_timeout f) (mbs_tick f) k) k = Some (res, k')"
    using r by (simp add: rt_mb_send_wait_resume_def)
  from mb_send_loop_ok [OF k i this] c show ?thesis by simp
next
  case False
  with r mbs.step_refl [OF k i] show ?thesis by (simp add: rt_mb_send_wait_resume_def)
qed

lemma rt_mb_urgent_ok [inv_intros]:
  assumes k: "kernel_ok k" and i: "mailbox_inv k" and r: "rt_mb_urgent m v k = Some (e, k')"
  shows "mb_step_ok k k'"
proof (cases "mb_entry (mailboxes k m) = mb_size (mailboxes k m)")
  case True
  with r mbs.step_refl [OF k i] show ?thesis by (auto simp: rt_mb_urgent_def split: if_splits)
next
  case False
  have im: "mb_inv (mailboxes k m)" using i by (simp add: mailbox_inv_def)
  then have "mb_entry (mailboxes k m) < mb_size (mailboxes k m)" using False by (simp add: mb_inv_def)
  from mb_put_front_ok [OF im this] obtain x where
    x: "mb_put_front v (mailboxes k m) = Some x" "mb_inv x" by metis
  then have "ipc_wake_one (MbRecvWait m) (upd_mailbox m (\<lambda>_. x) k) = Some k'"
    using r False by (auto simp: rt_mb_urgent_def bind_eq_Some_conv split: if_splits)
  then show ?thesis by (rule mb_put_wake_ok [OF k i x(2)])
qed

section \<open>Receive\<close>

lemma mb_recv_loop_cases:
  assumes i: "mailbox_inv k" and r: "mb_recv_loop th m timeout k = Some (res, k')"
  obtains
    (empty) t where "th = Some t" "mb_entry (mailboxes k m) = 0" "timeout = 0"
      "res = Returned (RT_ETIMEOUT, None)"
      "k' = upd_thread t (set_error RT_ETIMEOUT) (upd_thread t (set_error RT_EOK) k)"
  | (wait) t k1 where "th = Some t" "mb_entry (mailboxes k m) = 0" "timeout \<noteq> 0"
      "res = Waiting \<lparr>mbr_thread = t, mbr_mb = m, mbr_timeout = timeout, mbr_tick = rt_tick k\<rparr>"
      "ipc_block (MbRecvWait m) t (mb_flag (mailboxes k m)) timeout (upd_thread t (set_error RT_EOK) k)
         = Some k1" "rt_schedule k1 = Some k'"
  | (got) v vs x where "mb_contents (mailboxes k m) = v # vs" "res = Returned (RT_EOK, Some v)"
      "mb_get (mailboxes k m) = Some (v, x)" "mb_inv x" "mb_contents x = vs"
      "mb_size x = mb_size (mailboxes k m)"
      "ipc_wake_one (MbSendWait m) (upd_mailbox m (\<lambda>_. x) k) = Some k'"
proof -
  have im: "mb_inv (mailboxes k m)" using i by (simp add: mailbox_inv_def)
  show ?thesis
  proof (cases "mb_entry (mailboxes k m) = 0")
    case True
    then show ?thesis
      using r empty wait
      by (cases "timeout = 0")
        (auto simp: mb_recv_loop_def Let_def bind_eq_Some_conv rt_tick_get_def split: if_splits)
  next
    case False
    then have "mb_contents (mailboxes k m) \<noteq> []"
      using length_mb_contents [of "mailboxes k m"] by force
    then obtain v vs where c: "mb_contents (mailboxes k m) = v # vs" by (cases "mb_contents (mailboxes k m)") auto
    obtain x where x: "mb_get (mailboxes k m) = Some (v, x)" "mb_inv x" "mb_contents x = vs"
      "mb_size x = mb_size (mailboxes k m)"
      using mb_get_ok [OF im c] by metis
    have "ipc_wake_one (MbSendWait m) (upd_mailbox m (\<lambda>_. x) k) = Some k' \<and> res = Returned (RT_EOK, Some v)"
      using r False x(1) by (auto simp: mb_recv_loop_def bind_eq_Some_conv)
    with got c x show ?thesis by blast
  qed
qed

lemma mb_recv_loop_ok:
  assumes k: "kernel_ok k" and i: "mailbox_inv k" and r: "mb_recv_loop th m timeout k = Some (res, k')"
    and c: "\<And>t. th = Some t \<Longrightarrow> thread_stat k t = RT_THREAD_RUNNING"
  shows "mb_step_ok k k'"
  using i r
proof (cases rule: mb_recv_loop_cases)
  case (empty t)
  show ?thesis
    unfolding empty(5) by (rule mbs.step_error [OF mbs.step_error [OF mbs.step_refl [OF k i]]])
next
  case (wait t k1)
  show ?thesis by (rule mbs.step_block(1) [OF k i c [OF wait(1)] _ wait(5,6)]) simp
next
  case (got v vs x)
  show ?thesis by (rule mb_put_wake_ok [OF k i got(4,7)])
qed

lemma rt_mb_recv_ok [inv_intros]:
  assumes k: "kernel_ok k" and i: "mailbox_inv k" and r: "rt_mb_recv m timeout k = Some (res, k')"
    and c: "\<And>t. rt_current_thread k = Some t \<Longrightarrow> thread_stat k t = RT_THREAD_RUNNING"
  shows "mb_step_ok k k'"
proof (cases "mb_entry (mailboxes k m) = 0 \<and> timeout = 0")
  case True
  with r mbs.step_refl [OF k i] show ?thesis
    by (auto simp: rt_mb_recv_def debug_defs bind_eq_Some_conv split: if_splits)
next
  case False
  then have "mb_recv_loop (rt_current_thread k) m timeout k = Some (res, k')"
    using r by (auto simp: rt_mb_recv_def rt_thread_self_def bind_eq_Some_conv split: if_splits)
  from mb_recv_loop_ok [OF k i this c] show ?thesis .
qed

lemma rt_mb_recv_resume_ok [inv_intros]:
  assumes k: "kernel_ok k" and i: "mailbox_inv k" and r: "rt_mb_recv_resume f k = Some (res, k')"
    and c: "thread_stat k (mbr_thread f) = RT_THREAD_RUNNING"
  shows "mb_step_ok k k'"
proof (cases "error (threads k (mbr_thread f)) = RT_EOK")
  case True
  then have "mb_recv_loop (Some (mbr_thread f)) (mbr_mb f)
      (timeout_left (mbr_timeout f) (mbr_tick f) k) k = Some (res, k')"
    using r by (simp add: rt_mb_recv_resume_def)
  from mb_recv_loop_ok [OF k i this] c show ?thesis by simp
next
  case False
  with r mbs.step_refl [OF k i] show ?thesis by (simp add: rt_mb_recv_resume_def)
qed

section \<open>Init, create, detach, delete, reset\<close>

lemma mb_inv_empty [simp]:
  "mb_inv (mb_new st pool sz flag) \<longleftrightarrow> unat sz mod 2 ^ 16 \<le> length pool"
  "mb_inv x \<Longrightarrow> mb_inv (x\<lparr>mb_entry := 0, mb_in_offset := 0, mb_out_offset := 0\<rparr>)"
  "mb_inv (x\<lparr>mb_object := st\<rparr>) = mb_inv x"
  by (auto simp: mb_inv_def mb_new_def)

lemma mb_new_contents [simp]: "mb_contents (mb_new st pool sz flag) = []"
  by (simp add: mb_contents_def mb_new_def)

lemma rt_mb_init_ok [inv_intros]:
  assumes k: "kernel_ok k" and i: "mailbox_inv k" and p: "unat sz mod 2 ^ 16 \<le> length pool"
  shows "mb_step_ok k (snd (rt_mb_init m pool sz flag k))"
  unfolding rt_mb_init_def Let_def snd_conv
  by (intro mbs.step_init_list mb_step_upd mbs.step_refl k i) (use p in simp_all)

lemma rt_mb_create_ok [inv_intros]:
  assumes k: "kernel_ok k" and i: "mailbox_inv k" and r: "rt_mb_create a pool sz flag k = Some (e, k')"
    and p: "\<And>msgs. pool = Some msgs \<Longrightarrow> unat sz mod 2 ^ 16 \<le> length msgs"
  shows "mb_step_ok k k'"
proof (cases a)
  case None
  with r mbs.step_refl [OF k i] show ?thesis by (auto simp: rt_mb_create_def debug_defs split: if_splits)
next
  case (Some m)
  have l: "mb_step_ok k (ipc_object_init (MbRecvWait m) k)"
    by (intro mbs.step_init_list mbs.step_refl k i) simp
  show ?thesis
  proof (cases pool)
    case None
    with Some r have "k' = upd_mailbox m (\<lambda>x. x\<lparr>mb_object := Obj_none\<rparr>) (ipc_object_init (MbRecvWait m) k)"
      by (auto simp: rt_mb_create_def debug_defs Let_def split: if_splits)
    then show ?thesis
      using mb_step_upd [OF l, of "\<lambda>x. x\<lparr>mb_object := Obj_none\<rparr>" m] l
      by (simp add: class_step_def mailbox_inv_def)
  next
    case p': (Some msgs)
    with Some r have "k' = ipc_object_init (MbSendWait m)
        (upd_mailbox m (\<lambda>_. mb_new Obj_dynamic msgs sz flag) (ipc_object_init (MbRecvWait m) k))"
      by (auto simp: rt_mb_create_def debug_defs Let_def split: if_splits)
    then show ?thesis using p [OF p'] by (auto intro!: mbs.step_init_list mb_step_upd l)
  qed
qed

lemma mb_drop_ok:
  assumes k: "kernel_ok k" and i: "mailbox_inv k"
    and r1: "ipc_list_resume_all (MbRecvWait m) k = Some k1"
    and r2: "ipc_list_resume_all (MbSendWait m) k1 = Some k2" and f: "mb_inv (f (mailboxes k m))"
  shows "mb_step_ok k (upd_mailbox m f k2)"
proof -
  note A = mbs.step_resume_all [OF mbs.step_refl [OF k i] r1]
  note B = mbs.step_resume_all [OF A(1) r2]
  show ?thesis
    by (rule mb_step_upd [OF B(1)]) (simp add: obj_frameD(4) [OF A(2)] obj_frameD(4) [OF B(2)] f)
qed

lemma rt_mb_detach_ok [inv_intros]:
  assumes k: "kernel_ok k" and i: "mailbox_inv k" and r: "rt_mb_detach m k = Some (e, k')"
  shows "mb_step_ok k k'"
proof -
  have "mb_inv ((mailboxes k m)\<lparr>mb_object := Obj_none\<rparr>)" using i by (simp add: mailbox_inv_def)
  then show ?thesis
    using mb_drop_ok [OF k i, where f = "\<lambda>x. x\<lparr>mb_object := Obj_none\<rparr>" and m = m] r
    by (auto simp: rt_mb_detach_def bind_eq_Some_conv split: if_splits)
qed

lemma rt_mb_delete_ok [inv_intros]:
  assumes k: "kernel_ok k" and i: "mailbox_inv k" and r: "rt_mb_delete m k = Some (e, k')"
  shows "mb_step_ok k k'"
proof -
  have "mb_inv ((mailboxes k m)\<lparr>mb_object := Obj_none\<rparr>)" using i by (simp add: mailbox_inv_def)
  then show ?thesis
    using mb_drop_ok [OF k i, where f = "\<lambda>x. x\<lparr>mb_object := Obj_none\<rparr>" and m = m] r
    by (auto simp: rt_mb_delete_def debug_defs bind_eq_Some_conv split: if_splits)
qed

lemma rt_mb_control_ok [inv_intros]:
  assumes k: "kernel_ok k" and i: "mailbox_inv k" and r: "rt_mb_control m reset k = Some (e, k')"
  shows "mb_step_ok k k'"
proof (cases reset)
  case True
  let ?f = "\<lambda>x. x\<lparr>mb_entry := 0, mb_in_offset := 0, mb_out_offset := 0\<rparr>"
  obtain k1 k2 where a: "ipc_list_resume_all (MbRecvWait m) k = Some k1"
    "ipc_list_resume_all (MbSendWait m) k1 = Some k2" and s: "rt_schedule (upd_mailbox m ?f k2) = Some k'"
    using r True by (auto simp: rt_mb_control_def Let_def bind_eq_Some_conv split: if_splits)
  have "mb_inv (?f (mailboxes k m))" using i by (simp add: mailbox_inv_def)
  from mb_drop_ok [where f = ?f, OF k i a this] have u: "mb_step_ok k (upd_mailbox m ?f k2)" .
  show ?thesis by (rule mbs.step_schedule [OF u s])
next
  case False
  with r mbs.step_refl [OF k i] show ?thesis by (auto simp: rt_mb_control_def split: if_splits)
qed

end
