(* ===== verification/Rtt_Mqueue.thy ===== *)
theory Rtt_Mqueue
  imports Rtt_Ipc Rtt_Fifo
begin

unbundle bit_operations_syntax

text \<open>
  Message queues, \<^verbatim>\<open>src/ipc.c\<close>: fixed-size message nodes in a pool, linked into a free list and a
  queue with head and tail pointers. A node is named by its index in the pool. The copy of a message
  into or out of a node runs with interrupts enabled, between taking the node off one list and
  putting it on the other; \<open>mq_wf\<close> therefore has the set of nodes that are on neither list. \<open>m\<close>
  names the queue; the caller's buffer is a list of bytes.
\<close>

section \<open>Message nodes\<close>

definition RT_MQ_ENTRY_MAX :: nat where "RT_MQ_ENTRY_MAX = 0xffff"

text \<open>\<^verbatim>\<open>rt_memcpy\<close> of a whole list of bytes to the beginning of a region.\<close>

definition copy_bytes :: "u8 list \<Rightarrow> u8 list \<Rightarrow> u8 list" where
  "copy_bytes bytes region = bytes @ drop (length bytes) region"

definition mq_take_free :: "msgqueue \<Rightarrow> (nat \<times> msgqueue) option" where
  "mq_take_free x =
     (case mq_free x of None \<Rightarrow> None | Some n \<Rightarrow> Some (n, x\<lparr>mq_free := mq_next x n\<rparr>))"

definition mq_fill :: "nat \<Rightarrow> u8 list \<Rightarrow> msgqueue \<Rightarrow> msgqueue" where
  "mq_fill n bytes x = x\<lparr>mq_data := (mq_data x)(n := copy_bytes bytes (mq_data x n))\<rparr>"

definition mq_set_next :: "nat \<Rightarrow> nat option \<Rightarrow> msgqueue \<Rightarrow> msgqueue" where
  "mq_set_next n p x = x\<lparr>mq_next := (mq_next x)(n := p)\<rparr>"

definition mq_count :: "msgqueue \<Rightarrow> rt_err \<times> msgqueue" where
  "mq_count x = (if mq_entry x < RT_MQ_ENTRY_MAX then (RT_EOK, x\<lparr>mq_entry := mq_entry x + 1\<rparr>)
                 else (RT_EFULL, x))"

text \<open>Linking node \<open>n\<close> at the end (\<^verbatim>\<open>rt_mq_send_wait\<close>) and at the front (\<^verbatim>\<open>rt_mq_urgent\<close>).\<close>

definition mq_link_tail :: "nat \<Rightarrow> msgqueue \<Rightarrow> rt_err \<times> msgqueue" where
  "mq_link_tail n x =
     (let x = (case mq_tail x of None \<Rightarrow> x | Some l \<Rightarrow> mq_set_next l (Some n) x);
          x = x\<lparr>mq_tail := Some n\<rparr>;
          x = (if mq_head x = None then x\<lparr>mq_head := Some n\<rparr> else x)
      in mq_count x)"

definition mq_link_head :: "nat \<Rightarrow> msgqueue \<Rightarrow> rt_err \<times> msgqueue" where
  "mq_link_head n x =
     (let x = mq_set_next n (mq_head x) x;
          x = x\<lparr>mq_head := Some n\<rparr>;
          x = (if mq_tail x = None then x\<lparr>mq_tail := Some n\<rparr> else x)
      in mq_count x)"

text \<open>Taking the first node off the queue, and giving a node back. An empty queue would make the C
  read through a null pointer; the model stops.\<close>

definition mq_unlink_head :: "msgqueue \<Rightarrow> (nat \<times> msgqueue) option" where
  "mq_unlink_head x = do {
     n \<leftarrow> mq_head x;
     let x = x\<lparr>mq_head := mq_next x n\<rparr>;
     let x = (if mq_tail x = Some n then x\<lparr>mq_tail := None\<rparr> else x);
     Some (n, if 0 < mq_entry x then x\<lparr>mq_entry := mq_entry x - 1\<rparr> else x) }"

definition mq_give_free :: "nat \<Rightarrow> msgqueue \<Rightarrow> msgqueue" where
  "mq_give_free n x = (mq_set_next n (mq_free x) x)\<lparr>mq_free := Some n\<rparr>"

text \<open>The whole put, urgent put and get.\<close>

definition mq_put :: "u8 list \<Rightarrow> msgqueue \<Rightarrow> (rt_err \<times> msgqueue) option" where
  "mq_put bytes x = do {
     (n, x) \<leftarrow> mq_take_free x;
     let x = mq_fill n bytes (mq_set_next n None x);
     Some (mq_link_tail n x) }"

definition mq_put_front :: "u8 list \<Rightarrow> msgqueue \<Rightarrow> (rt_err \<times> msgqueue) option" where
  "mq_put_front bytes x = do {
     (n, x) \<leftarrow> mq_take_free x;
     let x = mq_fill n bytes x;
     Some (mq_link_head n x) }"

definition mq_get :: "nat \<Rightarrow> msgqueue \<Rightarrow> (u8 list \<times> msgqueue) option" where
  "mq_get sz x = do {
     (n, x) \<leftarrow> mq_unlink_head x;
     let bytes = take (if mq_msg_size x < sz then mq_msg_size x else sz) (mq_data x n);
     Some (bytes, mq_give_free n x) }"

section \<open>Life cycle\<close>

definition upd_mq :: "nat \<Rightarrow> (msgqueue \<Rightarrow> msgqueue) \<Rightarrow> kernel \<Rightarrow> kernel" where
  "upd_mq m f k = k\<lparr>msgqueues := (msgqueues k)(m := f (msgqueues k m))\<rparr>"

text \<open>The loop that threads the first \<open>i\<close> nodes onto the free list.\<close>

fun mq_init_free :: "nat \<Rightarrow> msgqueue \<Rightarrow> msgqueue" where
  "mq_init_free 0 x = x"
| "mq_init_free (Suc i) x = mq_give_free i (mq_init_free i x)"

definition mq_new ::
    "obj_state \<Rightarrow> (nat \<Rightarrow> u8 list) \<Rightarrow> nat \<Rightarrow> nat \<Rightarrow> ipc_flag \<Rightarrow> msgqueue" where
  "mq_new st pool msg_size max_msgs flag =
     mq_init_free max_msgs \<lparr>mq_object = st, mq_flag = flag, mq_msg_size = msg_size,
       mq_max_msgs = max_msgs, mq_entry = 0, mq_head = None, mq_tail = None, mq_free = None,
       mq_next = (\<lambda>_. None), mq_data = pool\<rparr>"

text \<open>\<open>pool\<close> gives the bytes each node finds in the message pool.\<close>

definition rt_mq_init ::
    "nat \<Rightarrow> (nat \<Rightarrow> u8 list) \<Rightarrow> u32 \<Rightarrow> u32 \<Rightarrow> ipc_flag \<Rightarrow> kernel \<Rightarrow> rt_err \<times> kernel" where
  "rt_mq_init m pool msg_size pool_size flag k =
     (let k = ipc_object_init (MqRecvWait m) k;
          msg_size = unat (rt_align4 msg_size) mod 2 ^ 16;
          max_msgs = unat pool_size div (msg_size + 4) mod 2 ^ 16;
          k = upd_mq m (\<lambda>_. mq_new Obj_static pool msg_size max_msgs flag) k;
          k = ipc_object_init (MqSendWait m) k
      in (RT_EOK, k))"

definition rt_mq_detach :: "nat \<Rightarrow> kernel \<Rightarrow> (rt_err \<times> kernel) option" where
  "rt_mq_detach m k = do {
     rt_assert (mq_object (msgqueues k m) = Obj_static);
     k \<leftarrow> ipc_list_resume_all (MqRecvWait m) k;
     k \<leftarrow> ipc_list_resume_all (MqSendWait m) k;
     Some (RT_EOK, upd_mq m (\<lambda>x. x\<lparr>mq_object := Obj_none\<rparr>) k) }"

text \<open>\<open>alloc\<close> and \<open>pool\<close> are the results of the two allocations.\<close>

definition rt_mq_create ::
    "nat option \<Rightarrow> (nat \<Rightarrow> u8 list) option \<Rightarrow> u32 \<Rightarrow> u32 \<Rightarrow> ipc_flag \<Rightarrow> kernel
      \<Rightarrow> (nat option \<times> kernel) option" where
  "rt_mq_create alloc pool msg_size max_msgs flag k = do {
     debug_not_in_interrupt k;
     (case alloc of
        None \<Rightarrow> Some (None, k)
      | Some m \<Rightarrow>
          (let k = ipc_object_init (MqRecvWait m) k;
               msg_size = unat (rt_align4 msg_size) mod 2 ^ 16;
               max_msgs = unat max_msgs mod 2 ^ 16
           in case pool of
                None \<Rightarrow> Some (None, upd_mq m (\<lambda>x. x\<lparr>mq_object := Obj_none\<rparr>) k)
              | Some mem \<Rightarrow>
                  (let k = upd_mq m (\<lambda>_. mq_new Obj_dynamic mem msg_size max_msgs flag) k
                   in Some (Some m, ipc_object_init (MqSendWait m) k)))) }"

definition rt_mq_delete :: "nat \<Rightarrow> kernel \<Rightarrow> (rt_err \<times> kernel) option" where
  "rt_mq_delete m k = do {
     rt_assert (mq_object (msgqueues k m) = Obj_dynamic);
     debug_not_in_interrupt k;
     k \<leftarrow> ipc_list_resume_all (MqRecvWait m) k;
     k \<leftarrow> ipc_list_resume_all (MqSendWait m) k;
     Some (RT_EOK, upd_mq m (\<lambda>x. x\<lparr>mq_object := Obj_none\<rparr>) k) }"

section \<open>Sending\<close>

record mq_send_frame =
  mqs_thread :: tid
  mqs_mq :: nat
  mqs_buffer :: "u8 list"
  mqs_timeout :: u32
  mqs_tick :: u32

definition mq_send_finish ::
    "nat \<Rightarrow> u8 list \<Rightarrow> kernel \<Rightarrow> ((mq_send_frame, rt_err) outcome \<times> kernel) option" where
  "mq_send_finish m buffer k = do {
     (e, x) \<leftarrow> mq_put buffer (msgqueues k m);
     let k = upd_mq m (\<lambda>_. x) k;
     (if e \<noteq> RT_EOK then Some (Returned e, k)
      else do {
        k \<leftarrow> ipc_wake_one (MqRecvWait m) k;
        Some (Returned RT_EOK, k) }) }"

definition mq_send_loop ::
    "tid option \<Rightarrow> nat \<Rightarrow> u8 list \<Rightarrow> u32 \<Rightarrow> kernel
      \<Rightarrow> ((mq_send_frame, rt_err) outcome \<times> kernel) option" where
  "mq_send_loop thread m buffer timeout k =
     (if mq_free (msgqueues k m) = None
      then do {
        t \<leftarrow> thread;
        let k = upd_thread t (set_error RT_EOK) k;
        (if timeout = 0 then Some (Returned RT_EFULL, k)
         else do {
           let tick_delta = rt_tick_get k;
           k \<leftarrow> ipc_block (MqSendWait m) t (mq_flag (msgqueues k m)) timeout k;
           k \<leftarrow> rt_schedule k;
           Some (Waiting \<lparr>mqs_thread = t, mqs_mq = m, mqs_buffer = buffer, mqs_timeout = timeout,
                          mqs_tick = tick_delta\<rparr>, k) }) }
      else mq_send_finish m buffer k)"

definition rt_mq_send_wait ::
    "nat \<Rightarrow> u8 list \<Rightarrow> u32 \<Rightarrow> kernel \<Rightarrow> ((mq_send_frame, rt_err) outcome \<times> kernel) option" where
  "rt_mq_send_wait m buffer timeout k = do {
     rt_assert (mq_object (msgqueues k m) \<noteq> Obj_none);
     rt_assert (length buffer \<noteq> 0);
     debug_scheduler_available (timeout \<noteq> 0) k;
     (if mq_msg_size (msgqueues k m) < length buffer then Some (Returned RT_ERROR, k)
      else if mq_free (msgqueues k m) = None \<and> timeout = 0 then Some (Returned RT_EFULL, k)
      else mq_send_loop (rt_thread_self k) m buffer timeout k) }"

definition rt_mq_send_wait_resume ::
    "mq_send_frame \<Rightarrow> kernel \<Rightarrow> ((mq_send_frame, rt_err) outcome \<times> kernel) option" where
  "rt_mq_send_wait_resume f k =
     (if error (threads k (mqs_thread f)) \<noteq> RT_EOK
      then Some (Returned (error (threads k (mqs_thread f))), k)
      else mq_send_loop (Some (mqs_thread f)) (mqs_mq f) (mqs_buffer f)
             (timeout_left (mqs_timeout f) (mqs_tick f) k) k)"

definition rt_mq_send ::
    "nat \<Rightarrow> u8 list \<Rightarrow> kernel \<Rightarrow> ((mq_send_frame, rt_err) outcome \<times> kernel) option" where
  "rt_mq_send m buffer k = rt_mq_send_wait m buffer 0 k"

definition rt_mq_urgent :: "nat \<Rightarrow> u8 list \<Rightarrow> kernel \<Rightarrow> (rt_err \<times> kernel) option" where
  "rt_mq_urgent m buffer k = do {
     rt_assert (mq_object (msgqueues k m) \<noteq> Obj_none);
     rt_assert (length buffer \<noteq> 0);
     (if mq_msg_size (msgqueues k m) < length buffer then Some (RT_ERROR, k)
      else if mq_free (msgqueues k m) = None then Some (RT_EFULL, k)
      else do {
        (e, x) \<leftarrow> mq_put_front buffer (msgqueues k m);
        let k = upd_mq m (\<lambda>_. x) k;
        (if e \<noteq> RT_EOK then Some (e, k)
         else do {
           k \<leftarrow> ipc_wake_one (MqRecvWait m) k;
           Some (RT_EOK, k) }) }) }"

section \<open>Receiving\<close>

record mq_recv_frame =
  mqr_thread :: tid
  mqr_mq :: nat
  mqr_size :: nat
  mqr_timeout :: u32
  mqr_tick :: u32

text \<open>The results are the status and the bytes written to the caller's buffer, if any.\<close>

definition mq_recv_loop ::
    "tid option \<Rightarrow> nat \<Rightarrow> nat \<Rightarrow> u32 \<Rightarrow> kernel
      \<Rightarrow> ((mq_recv_frame, rt_err \<times> u8 list option) outcome \<times> kernel) option" where
  "mq_recv_loop thread m sz timeout k =
     (if mq_entry (msgqueues k m) = 0
      then do {
        t \<leftarrow> thread;
        let k = upd_thread t (set_error RT_EOK) k;
        (if timeout = 0
         then Some (Returned (RT_ETIMEOUT, None), upd_thread t (set_error RT_ETIMEOUT) k)
         else do {
           let tick_delta = rt_tick_get k;
           k \<leftarrow> ipc_block (MqRecvWait m) t (mq_flag (msgqueues k m)) timeout k;
           k \<leftarrow> rt_schedule k;
           Some (Waiting \<lparr>mqr_thread = t, mqr_mq = m, mqr_size = sz, mqr_timeout = timeout,
                          mqr_tick = tick_delta\<rparr>, k) }) }
      else do {
        (bytes, x) \<leftarrow> mq_get sz (msgqueues k m);
        k \<leftarrow> ipc_wake_one (MqSendWait m) (upd_mq m (\<lambda>_. x) k);
        Some (Returned (RT_EOK, Some bytes), k) })"

definition rt_mq_recv ::
    "nat \<Rightarrow> nat \<Rightarrow> u32 \<Rightarrow> kernel
      \<Rightarrow> ((mq_recv_frame, rt_err \<times> u8 list option) outcome \<times> kernel) option" where
  "rt_mq_recv m sz timeout k = do {
     rt_assert (mq_object (msgqueues k m) \<noteq> Obj_none);
     rt_assert (sz \<noteq> 0);
     debug_scheduler_available (timeout \<noteq> 0) k;
     (if mq_entry (msgqueues k m) = 0 \<and> timeout = 0
      then Some (Returned (RT_ETIMEOUT, None), k)
      else mq_recv_loop (rt_thread_self k) m sz timeout k) }"

definition rt_mq_recv_resume ::
    "mq_recv_frame \<Rightarrow> kernel
      \<Rightarrow> ((mq_recv_frame, rt_err \<times> u8 list option) outcome \<times> kernel) option" where
  "rt_mq_recv_resume f k =
     (if error (threads k (mqr_thread f)) \<noteq> RT_EOK
      then Some (Returned (error (threads k (mqr_thread f)), None), k)
      else mq_recv_loop (Some (mqr_thread f)) (mqr_mq f) (mqr_size f)
             (timeout_left (mqr_timeout f) (mqr_tick f) k) k)"

section \<open>Reset\<close>

text \<open>The loop that moves every queued node to the free list; \<open>None\<close> is a loop that does not end.\<close>

partial_function (option) mq_drain :: "msgqueue \<Rightarrow> msgqueue option" where
  "mq_drain x =
     (case mq_head x of
        None \<Rightarrow> Some x
      | Some n \<Rightarrow>
          mq_drain (mq_give_free n
            (let x = x\<lparr>mq_head := mq_next x n\<rparr>
             in if mq_tail x = Some n then x\<lparr>mq_tail := None\<rparr> else x)))"

definition rt_mq_control :: "nat \<Rightarrow> bool \<Rightarrow> kernel \<Rightarrow> (rt_err \<times> kernel) option" where
  "rt_mq_control m reset k = do {
     rt_assert (mq_object (msgqueues k m) \<noteq> Obj_none);
     (if reset
      then do {
        k \<leftarrow> ipc_list_resume_all (MqRecvWait m) k;
        k \<leftarrow> ipc_list_resume_all (MqSendWait m) k;
        x \<leftarrow> mq_drain (msgqueues k m);
        let k = upd_mq m (\<lambda>_. x\<lparr>mq_entry := 0\<rparr>) k;
        k \<leftarrow> rt_schedule k;
        Some (RT_EOK, k) }
      else Some (RT_ERROR, k)) }"

section \<open>The shape of a message queue\<close>

text \<open>
  \<open>fs\<close> are the free nodes, \<open>qs\<close> the queued ones, both in list order, and \<open>fl\<close> those a sender or
  receiver is copying from or to. Together they are all the nodes of the pool, each once.
\<close>

definition mq_shape :: "msgqueue \<Rightarrow> nat list \<Rightarrow> nat list \<Rightarrow> nat set \<Rightarrow> bool" where
  "mq_shape x fs qs fl \<longleftrightarrow>
     list_chain (mq_next x) (mq_free x) fs \<and> list_chain (mq_next x) (mq_head x) qs
     \<and> mq_tail x = (if qs = [] then None else Some (last qs))
     \<and> mq_entry x = length qs
     \<and> distinct (fs @ qs) \<and> (set fs \<union> set qs) \<inter> fl = {}
     \<and> set fs \<union> set qs \<union> fl = {..<mq_max_msgs x}
     \<and> mq_max_msgs x < 2 ^ 16
     \<and> (\<forall>n<mq_max_msgs x. length (mq_data x n) = mq_msg_size x)"

definition mq_wf :: "msgqueue \<Rightarrow> nat set \<Rightarrow> bool" where
  "mq_wf x fl \<longleftrightarrow> (\<exists>fs qs. mq_shape x fs qs fl)"

definition mq_contents :: "msgqueue \<Rightarrow> u8 list list" where
  "mq_contents x = map (mq_data x) (list_walk (mq_next x) (mq_head x) (mq_entry x))"

lemma mq_shape_contents: "mq_shape x fs qs fl \<Longrightarrow> mq_contents x = map (mq_data x) qs"
  using list_walk_chain [of "mq_next x" "mq_head x" qs] by (simp add: mq_contents_def mq_shape_def)

lemma mq_shape_count:
  assumes "mq_shape x fs qs {}"
  shows "length fs + length qs = mq_max_msgs x"
proof -
  have "distinct (fs @ qs)" "set (fs @ qs) = {..<mq_max_msgs x}" using assms by (auto simp: mq_shape_def)
  then have "length (fs @ qs) = card {..<mq_max_msgs x}" by (metis distinct_card)
  then show ?thesis by simp
qed

text \<open>Each primitive moves one node from one place to another.\<close>

lemma mq_take_free_shape:
  assumes "mq_shape x (n # fs) qs fl"
  shows "mq_take_free x = Some (n, x\<lparr>mq_free := mq_next x n\<rparr>)"
    "mq_shape (x\<lparr>mq_free := mq_next x n\<rparr>) fs qs (insert n fl)"
  using assms by (auto simp: mq_shape_def mq_take_free_def)

lemma mq_take_free_none: "mq_shape x fs qs fl \<Longrightarrow> mq_free x = None \<longleftrightarrow> fs = []"
  by (cases fs) (auto simp: mq_shape_def)

lemma mq_set_next_shape:
  assumes "mq_shape x fs qs fl" "n \<in> fl"
  shows "mq_shape (mq_set_next n p x) fs qs fl"
proof -
  have "n \<notin> set fs" "n \<notin> set qs" using assms by (auto simp: mq_shape_def)
  then show ?thesis using assms(1) by (simp add: mq_shape_def mq_set_next_def)
qed

lemma mq_fill_shape:
  assumes "mq_shape x fs qs fl" "n \<in> fl" "length bytes \<le> mq_msg_size x"
  shows "mq_shape (mq_fill n bytes x) fs qs fl"
  using assms by (auto simp: mq_shape_def mq_fill_def copy_bytes_def)

lemma mq_count_ok:
  "mq_entry x < 2 ^ 16 - 1 \<Longrightarrow> mq_count x = (RT_EOK, x\<lparr>mq_entry := mq_entry x + 1\<rparr>)"
  by (simp add: mq_count_def RT_MQ_ENTRY_MAX_def)

lemma mq_entry_bound:
  assumes s: "mq_shape x fs qs fl" and n: "n \<in> fl"
  shows "mq_entry x < 2 ^ 16 - 1"
proof -
  have "distinct (n # qs)" using s n by (auto simp: mq_shape_def)
  moreover have "set (n # qs) \<subseteq> {..<mq_max_msgs x}" using s n by (auto simp: mq_shape_def)
  ultimately have "length (n # qs) \<le> mq_max_msgs x"
    by (metis card_lessThan card_mono distinct_card finite_lessThan)
  then show ?thesis using s by (simp add: mq_shape_def)
qed

lemma mq_link_tail_shape:
  assumes s: "mq_shape x fs qs fl" and n: "n \<in> fl" and nx: "mq_next x n = None"
  obtains x' where "mq_link_tail n x = (RT_EOK, x')" "mq_shape x' fs (qs @ [n]) (fl - {n})"
    "mq_data x' = mq_data x" "mq_msg_size x' = mq_msg_size x" "mq_max_msgs x' = mq_max_msgs x"
    "mq_object x' = mq_object x" "mq_flag x' = mq_flag x"
proof -
  have nn: "n \<notin> set fs" "n \<notin> set qs" "n < mq_max_msgs x" using s n by (auto simp: mq_shape_def)
  have b: "mq_entry x < 2 ^ 16 - 1" by (rule mq_entry_bound [OF s n])
  show ?thesis
  proof (cases "qs = []")
    case True
    then have t: "mq_tail x = None" "mq_head x = None" using s by (auto simp: mq_shape_def)
    let ?x = "x\<lparr>mq_tail := Some n, mq_head := Some n, mq_entry := mq_entry x + 1\<rparr>"
    have "mq_link_tail n x = (RT_EOK, ?x)" using t b by (simp add: mq_link_tail_def mq_count_ok)
    moreover have "mq_shape ?x fs (qs @ [n]) (fl - {n})"
      using s n nn nx True by (auto simp: mq_shape_def)
    ultimately show ?thesis by (rule that) simp_all
  next
    case False
    then obtain h where t: "mq_tail x = Some (last qs)" "mq_head x = Some h" "hd qs = h"
      using s by (cases qs) (auto simp: mq_shape_def)
    let ?x = "(mq_set_next (last qs) (Some n) x)\<lparr>mq_tail := Some n, mq_entry := mq_entry x + 1\<rparr>"
    have l: "mq_link_tail n x = (RT_EOK, ?x)"
      using t b by (simp add: mq_link_tail_def mq_count_ok mq_set_next_def)
    have lq: "last qs \<in> set qs" using False by simp
    then have lf: "last qs \<notin> set fs" using s by (auto simp: mq_shape_def)
    have c: "list_chain ((mq_next x)(last qs := Some n)) (mq_head x) (qs @ [n])"
      using s False nn nx by (intro list_chain_snoc) (auto simp: mq_shape_def)
    have "mq_shape ?x fs (qs @ [n]) (fl - {n})"
      using s n nn c lf by (auto simp: mq_shape_def mq_set_next_def)
    with l show ?thesis by (rule that) (simp_all add: mq_set_next_def)
  qed
qed

lemma mq_link_head_shape:
  assumes s: "mq_shape x fs qs fl" and n: "n \<in> fl"
  obtains x' where "mq_link_head n x = (RT_EOK, x')" "mq_shape x' fs (n # qs) (fl - {n})"
    "mq_data x' = mq_data x" "mq_msg_size x' = mq_msg_size x" "mq_max_msgs x' = mq_max_msgs x"
    "mq_object x' = mq_object x" "mq_flag x' = mq_flag x"
proof -
  have nn: "n \<notin> set fs" "n \<notin> set qs" "n < mq_max_msgs x" using s n by (auto simp: mq_shape_def)
  have b: "mq_entry x < 2 ^ 16 - 1" by (rule mq_entry_bound [OF s n])
  let ?y = "(mq_set_next n (mq_head x) x)\<lparr>mq_head := Some n\<rparr>"
  let ?x = "(if mq_tail x = None then ?y\<lparr>mq_tail := Some n\<rparr> else ?y)\<lparr>mq_entry := mq_entry x + 1\<rparr>"
  have "mq_link_head n x = (RT_EOK, ?x)"
    using b by (auto simp: mq_link_head_def mq_count_ok mq_set_next_def Let_def)
  moreover have "mq_shape ?x fs (n # qs) (fl - {n})"
    using s n nn by (auto simp: mq_shape_def mq_set_next_def)
  ultimately show ?thesis by (rule that) (simp_all add: mq_set_next_def)
qed

lemma mq_unlink_shape:
  assumes s: "mq_shape x fs (n # qs) fl"
  obtains x' where "mq_unlink_head x = Some (n, x')" "mq_shape x' fs qs (insert n fl)"
    "mq_data x' = mq_data x" "mq_msg_size x' = mq_msg_size x" "mq_max_msgs x' = mq_max_msgs x"
    "mq_object x' = mq_object x" "mq_flag x' = mq_flag x"
proof -
  let ?y = "x\<lparr>mq_head := mq_next x n\<rparr>"
  let ?x = "(if mq_tail x = Some n then ?y\<lparr>mq_tail := None\<rparr> else ?y)\<lparr>mq_entry := mq_entry x - 1\<rparr>"
  have h: "mq_head x = Some n" "0 < mq_entry x" using s by (auto simp: mq_shape_def)
  have "mq_unlink_head x = Some (n, ?x)" using h by (simp add: mq_unlink_head_def Let_def)
  moreover have "mq_shape ?x fs qs (insert n fl)"
    using s by (auto simp: mq_shape_def)
  ultimately show ?thesis by (rule that) simp_all
qed

lemma mq_give_free_shape:
  assumes s: "mq_shape x fs qs fl" and n: "n \<in> fl"
  shows "mq_shape (mq_give_free n x) (n # fs) qs (fl - {n})"
proof -
  have "n \<notin> set fs" "n \<notin> set qs" "n < mq_max_msgs x" using s n by (auto simp: mq_shape_def)
  with s n show ?thesis by (auto simp: mq_shape_def mq_give_free_def mq_set_next_def)
qed

section \<open>Put, urgent put and get\<close>

lemma mq_put_shape:
  assumes s: "mq_shape x (n # fs) qs {}" and l: "length bytes \<le> mq_msg_size x"
  obtains x' where "mq_put bytes x = Some (RT_EOK, x')" "mq_shape x' fs (qs @ [n]) {}"
    "mq_contents x' = mq_contents x @ [copy_bytes bytes (mq_data x n)]"
    "mq_msg_size x' = mq_msg_size x" "mq_max_msgs x' = mq_max_msgs x"
proof -
  let ?a = "x\<lparr>mq_free := mq_next x n\<rparr>"
  let ?b = "mq_fill n bytes (mq_set_next n None ?a)"
  note T = mq_take_free_shape [OF s]
  have n: "n \<in> {n}" by simp
  have b: "mq_shape ?b fs qs {n}"
    by (rule mq_fill_shape [OF mq_set_next_shape [OF T(2)]]) (use l in \<open>simp_all add: mq_set_next_def\<close>)
  have nx: "mq_next ?b n = None" by (simp add: mq_fill_def mq_set_next_def)
  obtain x' where x': "mq_link_tail n ?b = (RT_EOK, x')" "mq_shape x' fs (qs @ [n]) ({n} - {n})"
    "mq_data x' = mq_data ?b" "mq_msg_size x' = mq_msg_size ?b" "mq_max_msgs x' = mq_max_msgs ?b"
    by (rule mq_link_tail_shape [OF b n nx])
  have p: "mq_put bytes x = Some (RT_EOK, x')" by (simp add: mq_put_def T(1) x'(1))
  have "n \<notin> set qs" using s by (auto simp: mq_shape_def)
  then have "map (mq_data x') qs = map (mq_data x) qs"
    by (simp add: x'(3) mq_fill_def mq_set_next_def)
  moreover have "mq_data x' n = copy_bytes bytes (mq_data x n)"
    by (simp add: x'(3) mq_fill_def mq_set_next_def)
  ultimately have "mq_contents x' = mq_contents x @ [copy_bytes bytes (mq_data x n)]"
    by (simp add: mq_shape_contents [OF x'(2)] mq_shape_contents [OF s])
  with p x' show ?thesis using that by (simp add: mq_fill_def mq_set_next_def)
qed

lemma mq_put_front_shape:
  assumes s: "mq_shape x (n # fs) qs {}" and l: "length bytes \<le> mq_msg_size x"
  obtains x' where "mq_put_front bytes x = Some (RT_EOK, x')" "mq_shape x' fs (n # qs) {}"
    "mq_contents x' = copy_bytes bytes (mq_data x n) # mq_contents x"
    "mq_msg_size x' = mq_msg_size x" "mq_max_msgs x' = mq_max_msgs x"
proof -
  let ?a = "x\<lparr>mq_free := mq_next x n\<rparr>"
  let ?b = "mq_fill n bytes ?a"
  note T = mq_take_free_shape [OF s]
  have n: "n \<in> {n}" by simp
  have b: "mq_shape ?b fs qs {n}"
    by (rule mq_fill_shape [OF T(2)]) (use l in simp_all)
  obtain x' where x': "mq_link_head n ?b = (RT_EOK, x')" "mq_shape x' fs (n # qs) ({n} - {n})"
    "mq_data x' = mq_data ?b" "mq_msg_size x' = mq_msg_size ?b" "mq_max_msgs x' = mq_max_msgs ?b"
    by (rule mq_link_head_shape [OF b n])
  have p: "mq_put_front bytes x = Some (RT_EOK, x')" by (simp add: mq_put_front_def T(1) x'(1))
  have "n \<notin> set qs" using s by (auto simp: mq_shape_def)
  then have "map (mq_data x') qs = map (mq_data x) qs" by (simp add: x'(3) mq_fill_def)
  moreover have "mq_data x' n = copy_bytes bytes (mq_data x n)" by (simp add: x'(3) mq_fill_def)
  ultimately have "mq_contents x' = copy_bytes bytes (mq_data x n) # mq_contents x"
    by (simp add: mq_shape_contents [OF x'(2)] mq_shape_contents [OF s])
  with p x' show ?thesis using that by (simp add: mq_fill_def)
qed

lemma mq_get_shape:
  assumes s: "mq_shape x fs (n # qs) {}"
  obtains x' where "mq_get sz x = Some (take (min sz (mq_msg_size x)) (mq_data x n), x')"
    "mq_shape x' (n # fs) qs {}" "mq_contents x = mq_data x n # mq_contents x'"
    "mq_msg_size x' = mq_msg_size x" "mq_max_msgs x' = mq_max_msgs x"
proof -
  obtain y where y: "mq_unlink_head x = Some (n, y)" "mq_shape y fs qs (insert n {})"
    "mq_data y = mq_data x" "mq_msg_size y = mq_msg_size x" "mq_max_msgs y = mq_max_msgs x"
    by (rule mq_unlink_shape [OF s])
  let ?x = "mq_give_free n y"
  have g: "mq_shape ?x (n # fs) qs {}" using mq_give_free_shape [OF y(2), of n] by simp
  have f: "mq_data ?x = mq_data x" "mq_msg_size ?x = mq_msg_size x" "mq_max_msgs ?x = mq_max_msgs x"
    using y by (simp_all add: mq_give_free_def mq_set_next_def)
  have "mq_get sz x = Some (take (min sz (mq_msg_size x)) (mq_data x n), ?x)"
    by (simp add: mq_get_def y min_def)
  moreover have "mq_contents x = mq_data x n # mq_contents ?x"
    by (simp add: mq_shape_contents [OF s] mq_shape_contents [OF g] f(1))
  ultimately show ?thesis using that g f by simp
qed

text \<open>Messages of full size go through unchanged.\<close>

definition mq_try_put :: "u8 list \<Rightarrow> msgqueue \<Rightarrow> msgqueue option" where
  "mq_try_put bytes x = (if mq_free x = None then None
     else case mq_put bytes x of Some (RT_EOK, x') \<Rightarrow> Some x' | _ \<Rightarrow> None)"

definition mq_try_push :: "u8 list \<Rightarrow> msgqueue \<Rightarrow> msgqueue option" where
  "mq_try_push bytes x = (if mq_free x = None then None
     else case mq_put_front bytes x of Some (RT_EOK, x') \<Rightarrow> Some x' | _ \<Rightarrow> None)"

definition mq_try_get :: "msgqueue \<Rightarrow> (u8 list \<times> msgqueue) option" where
  "mq_try_get x = (if mq_entry x = 0 then None else mq_get (mq_msg_size x) x)"

definition mq_full_size :: "msgqueue \<Rightarrow> u8 list \<Rightarrow> bool" where
  "mq_full_size x bytes \<longleftrightarrow> length bytes = mq_msg_size x"

interpretation mqq: bounded_deque "\<lambda>x. mq_wf x {}" mq_contents mq_max_msgs mq_full_size
  mq_try_put mq_try_get mq_try_push
proof
  fix x :: msgqueue and a :: "u8 list" and as
  assume w: "mq_wf x {}"
  then obtain fs qs where s: "mq_shape x fs qs {}" by (auto simp: mq_wf_def)
  have len: "length (mq_contents x) = length qs" by (simp add: mq_shape_contents [OF s])
  note cnt = mq_shape_count [OF s]
  have whole: "copy_bytes a (mq_data x n) = a" if "mq_full_size x a" "n < mq_max_msgs x" for n
    using that s by (simp add: copy_bytes_def mq_full_size_def mq_shape_def)
  show "length (mq_contents x) \<le> mq_max_msgs x" using len cnt by simp
  have fs0: "fs = []" if "length (mq_contents x) = mq_max_msgs x" using that len cnt by simp
  show "mq_try_put a x = None" if "length (mq_contents x) = mq_max_msgs x"
    using fs0 [OF that] mq_take_free_none [OF s] by (simp add: mq_try_put_def)
  show "mq_try_push a x = None" if "length (mq_contents x) = mq_max_msgs x"
    using fs0 [OF that] mq_take_free_none [OF s] by (simp add: mq_try_push_def)
  show "mq_try_get x = None" if "mq_contents x = []"
    using that len s by (simp add: mq_try_get_def mq_shape_def)
  have room: "\<exists>n fs'. fs = n # fs' \<and> n < mq_max_msgs x" if "length (mq_contents x) < mq_max_msgs x"
    using that len cnt s by (cases fs) (auto simp: mq_shape_def)
  show "\<exists>s'. mq_try_put a x = Some s' \<and> mq_wf s' {} \<and> mq_contents s' = mq_contents x @ [a]
      \<and> mq_max_msgs s' = mq_max_msgs x \<and> mq_full_size s' = mq_full_size x"
    if v: "mq_full_size x a" and r: "length (mq_contents x) < mq_max_msgs x"
  proof -
    obtain n fs' where fs: "fs = n # fs'" "n < mq_max_msgs x" using room [OF r] by blast
    obtain x' where "mq_put a x = Some (RT_EOK, x')" "mq_shape x' fs' (qs @ [n]) {}"
      "mq_contents x' = mq_contents x @ [copy_bytes a (mq_data x n)]"
      "mq_msg_size x' = mq_msg_size x" "mq_max_msgs x' = mq_max_msgs x"
      by (rule mq_put_shape [OF s [unfolded fs(1)], of a]) (use v in \<open>simp add: mq_full_size_def\<close>)
    then show ?thesis
      using whole [OF v fs(2)] mq_take_free_none [OF s] fs(1)
      by (auto simp: mq_try_put_def mq_wf_def mq_full_size_def [abs_def])
  qed
  show "\<exists>s'. mq_try_push a x = Some s' \<and> mq_wf s' {} \<and> mq_contents s' = a # mq_contents x
      \<and> mq_max_msgs s' = mq_max_msgs x \<and> mq_full_size s' = mq_full_size x"
    if v: "mq_full_size x a" and r: "length (mq_contents x) < mq_max_msgs x"
  proof -
    obtain n fs' where fs: "fs = n # fs'" "n < mq_max_msgs x" using room [OF r] by blast
    obtain x' where "mq_put_front a x = Some (RT_EOK, x')" "mq_shape x' fs' (n # qs) {}"
      "mq_contents x' = copy_bytes a (mq_data x n) # mq_contents x"
      "mq_msg_size x' = mq_msg_size x" "mq_max_msgs x' = mq_max_msgs x"
      by (rule mq_put_front_shape [OF s [unfolded fs(1)], of a]) (use v in \<open>simp add: mq_full_size_def\<close>)
    then show ?thesis
      using whole [OF v fs(2)] mq_take_free_none [OF s] fs(1)
      by (auto simp: mq_try_push_def mq_wf_def mq_full_size_def [abs_def])
  qed
  show "\<exists>s'. mq_try_get x = Some (a, s') \<and> mq_wf s' {} \<and> mq_contents s' = as
      \<and> mq_max_msgs s' = mq_max_msgs x \<and> mq_full_size s' = mq_full_size x"
    if c: "mq_contents x = a # as"
  proof -
    obtain n qs' where q: "qs = n # qs'" using len c by (cases qs) auto
    obtain x' where x': "mq_get (mq_msg_size x) x = Some (take (min (mq_msg_size x) (mq_msg_size x)) (mq_data x n), x')"
      "mq_shape x' (n # fs) qs' {}" "mq_contents x = mq_data x n # mq_contents x'"
      "mq_msg_size x' = mq_msg_size x" "mq_max_msgs x' = mq_max_msgs x"
      by (rule mq_get_shape [OF s [unfolded q]])
    have "length (mq_data x n) = mq_msg_size x" "mq_entry x \<noteq> 0" using s q by (auto simp: mq_shape_def)
    with x' c show ?thesis by (auto simp: mq_try_get_def mq_wf_def mq_full_size_def [abs_def])
  qed
qed

section \<open>Initialisation and reset\<close>

lemma mq_init_free_shape:
  assumes "mq_max_msgs x < 2 ^ 16" "\<forall>n<mq_max_msgs x. length (mq_data x n) = mq_msg_size x"
    and "mq_entry x = 0" "mq_head x = None" "mq_tail x = None" "mq_free x = None"
    and "i \<le> mq_max_msgs x"
  shows "mq_shape (mq_init_free i x) (rev [0..<i]) [] {i..<mq_max_msgs x}
    \<and> mq_max_msgs (mq_init_free i x) = mq_max_msgs x"
  using assms(7)
proof (induction i)
  case 0
  then show ?case using assms by (auto simp: mq_shape_def)
next
  case (Suc i)
  then have s: "mq_shape (mq_init_free i x) (rev [0..<i]) [] {i..<mq_max_msgs x}"
    and m: "mq_max_msgs (mq_init_free i x) = mq_max_msgs x" by simp_all
  have "{i..<mq_max_msgs x} - {i} = {Suc i..<mq_max_msgs x}" by auto
  with mq_give_free_shape [OF s, of i] Suc.prems m show ?case
    by (simp add: mq_give_free_def mq_set_next_def)
qed

lemma mq_new_wf:
  assumes "max_msgs < 2 ^ 16" "\<forall>n<max_msgs. length (pool n) = msg_size"
  shows "mq_wf (mq_new st pool msg_size max_msgs flag) {}"
    "mq_contents (mq_new st pool msg_size max_msgs flag) = []"
proof -
  have "mq_shape (mq_new st pool msg_size max_msgs flag) (rev [0..<max_msgs]) [] {}"
    unfolding mq_new_def
    using mq_init_free_shape [of "\<lparr>mq_object = st, mq_flag = flag, mq_msg_size = msg_size,
       mq_max_msgs = max_msgs, mq_entry = 0, mq_head = None, mq_tail = None, mq_free = None,
       mq_next = (\<lambda>_. None), mq_data = pool\<rparr>" max_msgs] assms by simp
  then show "mq_wf (mq_new st pool msg_size max_msgs flag) {}"
    "mq_contents (mq_new st pool msg_size max_msgs flag) = []"
    by (auto simp: mq_wf_def mq_shape_contents)
qed

lemma mq_init_free_fields [simp]:
  "mq_object (mq_init_free i x) = mq_object x" "mq_flag (mq_init_free i x) = mq_flag x"
  "mq_msg_size (mq_init_free i x) = mq_msg_size x" "mq_max_msgs (mq_init_free i x) = mq_max_msgs x"
  by (induction i) (simp_all add: mq_give_free_def mq_set_next_def)

lemma mq_new_fields [simp]:
  "mq_object (mq_new st pool sz n flag) = st" "mq_flag (mq_new st pool sz n flag) = flag"
  "mq_msg_size (mq_new st pool sz n flag) = sz" "mq_max_msgs (mq_new st pool sz n flag) = n"
  by (simp_all add: mq_new_def)

lemma mq_drain_shape:
  assumes "mq_shape (x\<lparr>mq_entry := length qs\<rparr>) fs qs fl"
  shows "\<exists>x'. mq_drain x = Some x' \<and> mq_shape (x'\<lparr>mq_entry := 0\<rparr>) (rev qs @ fs) [] fl"
  using assms
proof (induction qs arbitrary: x fs)
  case Nil
  then have "mq_drain x = Some x" by (subst mq_drain.simps) (simp add: mq_shape_def)
  with Nil show ?case by simp
next
  case (Cons n qs)
  let ?y = "let x = x\<lparr>mq_head := mq_next x n\<rparr>
             in if mq_tail x = Some n then x\<lparr>mq_tail := None\<rparr> else x"
  let ?z = "mq_give_free n ?y"
  have h: "mq_head x = Some n" using Cons.prems by (simp add: mq_shape_def)
  have d: "mq_drain x = mq_drain ?z" by (subst mq_drain.simps) (simp add: h Let_def)
  have y: "mq_shape (?y\<lparr>mq_entry := length qs\<rparr>) fs qs (insert n fl)"
    using Cons.prems by (auto simp: mq_shape_def Let_def)
  have nfl: "insert n fl - {n} = fl" using Cons.prems by (auto simp: mq_shape_def)
  have "mq_shape (mq_give_free n (?y\<lparr>mq_entry := length qs\<rparr>)) (n # fs) qs fl"
    using mq_give_free_shape [OF y, of n] by (simp add: nfl)
  moreover have "mq_give_free n (?y\<lparr>mq_entry := length qs\<rparr>) = ?z\<lparr>mq_entry := length qs\<rparr>"
    by (simp add: mq_give_free_def mq_set_next_def Let_def)
  ultimately have "mq_shape (?z\<lparr>mq_entry := length qs\<rparr>) (n # fs) qs fl" by simp
  from Cons.IH [OF this] show ?case by (simp add: d)
qed

lemma mq_drain_ok:
  assumes "mq_wf x {}"
  obtains x' where "mq_drain x = Some x'" "mq_wf (x'\<lparr>mq_entry := 0\<rparr>) {}"
    "mq_contents (x'\<lparr>mq_entry := 0\<rparr>) = []"
proof -
  obtain fs qs where s: "mq_shape x fs qs {}" using assms by (auto simp: mq_wf_def)
  then have "mq_shape (x\<lparr>mq_entry := length qs\<rparr>) fs qs {}" by (simp add: mq_shape_def)
  from mq_drain_shape [OF this] obtain x' where "mq_drain x = Some x'"
    "mq_shape (x'\<lparr>mq_entry := 0\<rparr>) (rev qs @ fs) [] {}" by blast
  then show ?thesis using that mq_shape_contents by (fastforce simp: mq_wf_def)
qed

section \<open>The operations keep the invariant\<close>

lemma upd_mq_fields [simp]:
  "msgqueues (upd_mq m f k) m' = (if m' = m then f (msgqueues k m) else msgqueues k m')"
  "waitq (upd_mq m f k) = waitq k" "threads (upd_mq m f k) = threads k"
  "thread_stat (upd_mq m f k) = thread_stat k" "thread_prio (upd_mq m f k) = thread_prio k"
  "rt_current_thread (upd_mq m f k) = rt_current_thread k"
  "rt_scheduler_lock_nest (upd_mq m f k) = rt_scheduler_lock_nest k"
  "kernel_ok (upd_mq m f k) = kernel_ok k"
  by (simp_all add: upd_mq_def thread_stat_def thread_prio_def fun_eq_iff)

lemma upd_mq_class [simp]: "class_frame Queue_class k (upd_mq m f k)"
proof -
  have "same_store B k (upd_mq m f k)" if "B \<noteq> Queue_class" for B
    using that by (cases B) (simp_all add: upd_mq_def)
  then show ?thesis by (simp add: class_frame_def upd_mq_def)
qed

definition mqueue_inv :: "kernel \<Rightarrow> bool" where
  "mqueue_inv k \<longleftrightarrow> (\<forall>m. mq_wf (msgqueues k m) {})"

interpretation mqs: ipc_store Queue_class mqueue_inv
  by unfold_locales (simp add: mqueue_inv_def)

abbreviation mq_step_ok :: "kernel \<Rightarrow> kernel \<Rightarrow> bool" where
  "mq_step_ok \<equiv> class_step Queue_class mqueue_inv"

lemma mqueue_inv_wf: "mqueue_inv k \<Longrightarrow> mq_wf (msgqueues k m) {}"
  by (simp add: mqueue_inv_def)

lemma mq_step_upd:
  assumes "mq_step_ok k k1" "mq_wf (f (msgqueues k1 m)) {}"
  shows "mq_step_ok k (upd_mq m f k1)"
  using assms class_frame_trans [OF _ upd_mq_class] by (simp add: class_step_def mqueue_inv_def)

lemma mq_put_wake_ok:
  assumes k: "kernel_ok k" and i: "mqueue_inv k" and x: "mq_wf x {}"
    and r: "ipc_wake_one q (upd_mq m (\<lambda>_. x) k) = Some k'"
  shows "mq_step_ok k k'"
  by (rule mqs.step_wake_one [OF mq_step_upd [OF mqs.step_refl [OF k i]] r]) (rule x)

lemma mq_put_wf:
  assumes w: "mq_wf x {}" and f: "mq_free x \<noteq> None" and l: "length bytes \<le> mq_msg_size x"
  obtains n x' where "mq_put bytes x = Some (RT_EOK, x')" "mq_wf x' {}"
    "mq_contents x' = mq_contents x @ [copy_bytes bytes (mq_data x n)]" "n < mq_max_msgs x"
    "mq_msg_size x' = mq_msg_size x" "mq_max_msgs x' = mq_max_msgs x"
proof -
  obtain fs qs where s: "mq_shape x fs qs {}" using w by (auto simp: mq_wf_def)
  then obtain n fs' where fs: "fs = n # fs'" using mq_take_free_none [OF s] f by (cases fs) auto
  have n: "n < mq_max_msgs x" using s fs by (auto simp: mq_shape_def)
  show ?thesis
    by (rule mq_put_shape [OF s [unfolded fs] l]) (use that n in \<open>auto simp: mq_wf_def\<close>)
qed

lemma mq_put_front_wf:
  assumes w: "mq_wf x {}" and f: "mq_free x \<noteq> None" and l: "length bytes \<le> mq_msg_size x"
  obtains n x' where "mq_put_front bytes x = Some (RT_EOK, x')" "mq_wf x' {}"
    "mq_contents x' = copy_bytes bytes (mq_data x n) # mq_contents x" "n < mq_max_msgs x"
    "mq_msg_size x' = mq_msg_size x" "mq_max_msgs x' = mq_max_msgs x"
proof -
  obtain fs qs where s: "mq_shape x fs qs {}" using w by (auto simp: mq_wf_def)
  then obtain n fs' where fs: "fs = n # fs'" using mq_take_free_none [OF s] f by (cases fs) auto
  have n: "n < mq_max_msgs x" using s fs by (auto simp: mq_shape_def)
  show ?thesis
    by (rule mq_put_front_shape [OF s [unfolded fs] l]) (use that n in \<open>auto simp: mq_wf_def\<close>)
qed

lemma mq_get_wf:
  assumes w: "mq_wf x {}" and e: "mq_entry x \<noteq> 0"
  obtains d ds x' where "mq_contents x = d # ds" "mq_get sz x = Some (take (min sz (mq_msg_size x)) d, x')"
    "mq_wf x' {}" "mq_contents x' = ds" "mq_msg_size x' = mq_msg_size x" "mq_max_msgs x' = mq_max_msgs x"
proof -
  obtain fs qs where s: "mq_shape x fs qs {}" using w by (auto simp: mq_wf_def)
  then obtain n qs' where q: "qs = n # qs'" using e by (cases qs) (auto simp: mq_shape_def)
  obtain x' where g: "mq_get sz x = Some (take (min sz (mq_msg_size x)) (mq_data x n), x')"
    "mq_shape x' (n # fs) qs' {}" "mq_contents x = mq_data x n # mq_contents x'"
    "mq_msg_size x' = mq_msg_size x" "mq_max_msgs x' = mq_max_msgs x"
    by (rule mq_get_shape [OF s [unfolded q]])
  have "mq_wf x' {}" using g(2) by (auto simp: mq_wf_def)
  from that [OF g(3,1) this refl g(4,5)] show ?thesis .
qed

section \<open>Send\<close>

lemma mq_send_loop_cases:
  assumes i: "mqueue_inv k" and l: "length bytes \<le> mq_msg_size (msgqueues k m)"
    and r: "mq_send_loop th m bytes timeout k = Some (res, k')"
  obtains
    (full) t where "th = Some t" "mq_free (msgqueues k m) = None" "timeout = 0"
      "res = Returned RT_EFULL" "k' = upd_thread t (set_error RT_EOK) k"
  | (wait) t k1 where "th = Some t" "mq_free (msgqueues k m) = None" "timeout \<noteq> 0"
      "res = Waiting \<lparr>mqs_thread = t, mqs_mq = m, mqs_buffer = bytes, mqs_timeout = timeout,
                      mqs_tick = rt_tick k\<rparr>"
      "ipc_block (MqSendWait m) t (mq_flag (msgqueues k m)) timeout (upd_thread t (set_error RT_EOK) k)
         = Some k1" "rt_schedule k1 = Some k'"
  | (sent) n x where "mq_free (msgqueues k m) \<noteq> None" "res = Returned RT_EOK"
      "mq_put bytes (msgqueues k m) = Some (RT_EOK, x)" "mq_wf x {}" "n < mq_max_msgs (msgqueues k m)"
      "mq_contents x = mq_contents (msgqueues k m) @ [copy_bytes bytes (mq_data (msgqueues k m) n)]"
      "ipc_wake_one (MqRecvWait m) (upd_mq m (\<lambda>_. x) k) = Some k'"
proof (cases "mq_free (msgqueues k m) = None")
  case True
  then show ?thesis
    using r full wait
    by (cases "timeout = 0")
      (auto simp: mq_send_loop_def Let_def bind_eq_Some_conv rt_tick_get_def split: if_splits)
next
  case False
  obtain n x where x: "mq_put bytes (msgqueues k m) = Some (RT_EOK, x)" "mq_wf x {}"
    "mq_contents x = mq_contents (msgqueues k m) @ [copy_bytes bytes (mq_data (msgqueues k m) n)]"
    "n < mq_max_msgs (msgqueues k m)"
    using mq_put_wf [OF mqueue_inv_wf [OF i] False l] by metis
  have "ipc_wake_one (MqRecvWait m) (upd_mq m (\<lambda>_. x) k) = Some k' \<and> res = Returned RT_EOK"
    using r False x(1) by (auto simp: mq_send_loop_def mq_send_finish_def bind_eq_Some_conv)
  with sent False x show ?thesis by blast
qed

lemma mq_send_loop_ok:
  assumes k: "kernel_ok k" and i: "mqueue_inv k" and l: "length bytes \<le> mq_msg_size (msgqueues k m)"
    and r: "mq_send_loop th m bytes timeout k = Some (res, k')"
    and c: "\<And>t. th = Some t \<Longrightarrow> thread_stat k t = RT_THREAD_RUNNING"
  shows "mq_step_ok k k'"
  using i l r
proof (cases rule: mq_send_loop_cases)
  case (full t)
  then show ?thesis using mqs.step_error [OF mqs.step_refl [OF k i]] by simp
next
  case (wait t k1)
  show ?thesis by (rule mqs.step_block(1) [OF k i c [OF wait(1)] _ wait(5,6)]) simp
next
  case (sent n x)
  show ?thesis by (rule mq_put_wake_ok [OF k i sent(4,7)])
qed

lemma rt_mq_send_wait_ok [inv_intros]:
  assumes k: "kernel_ok k" and i: "mqueue_inv k" and r: "rt_mq_send_wait m bytes timeout k = Some (res, k')"
    and c: "\<And>t. rt_current_thread k = Some t \<Longrightarrow> thread_stat k t = RT_THREAD_RUNNING"
  shows "mq_step_ok k k'"
proof (cases "mq_msg_size (msgqueues k m) < length bytes
    \<or> mq_free (msgqueues k m) = None \<and> timeout = 0")
  case True
  with r mqs.step_refl [OF k i] show ?thesis
    by (auto simp: rt_mq_send_wait_def debug_defs bind_eq_Some_conv split: if_splits)
next
  case False
  then have "mq_send_loop (rt_current_thread k) m bytes timeout k = Some (res, k')"
    using r by (auto simp: rt_mq_send_wait_def rt_thread_self_def bind_eq_Some_conv split: if_splits)
  from mq_send_loop_ok [OF k i _ this c] False show ?thesis by simp
qed

text \<open>The length check of the call still holds when the sender is woken: sizes do not change.\<close>

lemma rt_mq_send_wait_resume_ok [inv_intros]:
  assumes k: "kernel_ok k" and i: "mqueue_inv k" and r: "rt_mq_send_wait_resume f k = Some (res, k')"
    and l: "length (mqs_buffer f) \<le> mq_msg_size (msgqueues k (mqs_mq f))"
    and c: "thread_stat k (mqs_thread f) = RT_THREAD_RUNNING"
  shows "mq_step_ok k k'"
proof (cases "error (threads k (mqs_thread f)) = RT_EOK")
  case True
  then have "mq_send_loop (Some (mqs_thread f)) (mqs_mq f) (mqs_buffer f)
      (timeout_left (mqs_timeout f) (mqs_tick f) k) k = Some (res, k')"
    using r by (simp add: rt_mq_send_wait_resume_def)
  from mq_send_loop_ok [OF k i l this] c show ?thesis by simp
next
  case False
  with r mqs.step_refl [OF k i] show ?thesis by (simp add: rt_mq_send_wait_resume_def)
qed

lemma rt_mq_urgent_ok [inv_intros]:
  assumes k: "kernel_ok k" and i: "mqueue_inv k" and r: "rt_mq_urgent m bytes k = Some (e, k')"
  shows "mq_step_ok k k'"
proof (cases "mq_msg_size (msgqueues k m) < length bytes \<or> mq_free (msgqueues k m) = None")
  case True
  with r mqs.step_refl [OF k i] show ?thesis by (auto simp: rt_mq_urgent_def split: if_splits)
next
  case False
  then have l: "length bytes \<le> mq_msg_size (msgqueues k m)" "mq_free (msgqueues k m) \<noteq> None" by auto
  obtain x where x: "mq_put_front bytes (msgqueues k m) = Some (RT_EOK, x)" "mq_wf x {}"
    using mq_put_front_wf [OF mqueue_inv_wf [OF i] l(2,1)] by metis
  then have "ipc_wake_one (MqRecvWait m) (upd_mq m (\<lambda>_. x) k) = Some k'"
    using r False by (auto simp: rt_mq_urgent_def Let_def bind_eq_Some_conv split: if_splits)
  then show ?thesis by (rule mq_put_wake_ok [OF k i x(2)])
qed

section \<open>Receive\<close>

lemma mq_recv_loop_cases:
  assumes i: "mqueue_inv k" and r: "mq_recv_loop th m sz timeout k = Some (res, k')"
  obtains
    (empty) t where "th = Some t" "mq_entry (msgqueues k m) = 0" "timeout = 0"
      "res = Returned (RT_ETIMEOUT, None)"
      "k' = upd_thread t (set_error RT_ETIMEOUT) (upd_thread t (set_error RT_EOK) k)"
  | (wait) t k1 where "th = Some t" "mq_entry (msgqueues k m) = 0" "timeout \<noteq> 0"
      "res = Waiting \<lparr>mqr_thread = t, mqr_mq = m, mqr_size = sz, mqr_timeout = timeout,
                      mqr_tick = rt_tick k\<rparr>"
      "ipc_block (MqRecvWait m) t (mq_flag (msgqueues k m)) timeout (upd_thread t (set_error RT_EOK) k)
         = Some k1" "rt_schedule k1 = Some k'"
  | (got) d ds x where "mq_contents (msgqueues k m) = d # ds"
      "res = Returned (RT_EOK, Some (take (min sz (mq_msg_size (msgqueues k m))) d))"
      "mq_wf x {}" "mq_contents x = ds"
      "ipc_wake_one (MqSendWait m) (upd_mq m (\<lambda>_. x) k) = Some k'"
proof (cases "mq_entry (msgqueues k m) = 0")
  case True
  then show ?thesis
    using r empty wait
    by (cases "timeout = 0")
      (auto simp: mq_recv_loop_def Let_def bind_eq_Some_conv rt_tick_get_def split: if_splits)
next
  case False
  obtain d ds x where x: "mq_contents (msgqueues k m) = d # ds"
    "mq_get sz (msgqueues k m) = Some (take (min sz (mq_msg_size (msgqueues k m))) d, x)"
    "mq_wf x {}" "mq_contents x = ds"
    using mq_get_wf [OF mqueue_inv_wf [OF i] False] by metis
  have "ipc_wake_one (MqSendWait m) (upd_mq m (\<lambda>_. x) k) = Some k'
      \<and> res = Returned (RT_EOK, Some (take (min sz (mq_msg_size (msgqueues k m))) d))"
    using r False x(2) by (auto simp: mq_recv_loop_def bind_eq_Some_conv)
  with got x show ?thesis by blast
qed

lemma mq_recv_loop_ok:
  assumes k: "kernel_ok k" and i: "mqueue_inv k" and r: "mq_recv_loop th m sz timeout k = Some (res, k')"
    and c: "\<And>t. th = Some t \<Longrightarrow> thread_stat k t = RT_THREAD_RUNNING"
  shows "mq_step_ok k k'"
  using i r
proof (cases rule: mq_recv_loop_cases)
  case (empty t)
  show ?thesis
    unfolding empty(5) by (rule mqs.step_error [OF mqs.step_error [OF mqs.step_refl [OF k i]]])
next
  case (wait t k1)
  show ?thesis by (rule mqs.step_block(1) [OF k i c [OF wait(1)] _ wait(5,6)]) simp
next
  case (got d ds x)
  show ?thesis by (rule mq_put_wake_ok [OF k i got(3,5)])
qed

lemma rt_mq_recv_ok [inv_intros]:
  assumes k: "kernel_ok k" and i: "mqueue_inv k" and r: "rt_mq_recv m sz timeout k = Some (res, k')"
    and c: "\<And>t. rt_current_thread k = Some t \<Longrightarrow> thread_stat k t = RT_THREAD_RUNNING"
  shows "mq_step_ok k k'"
proof (cases "mq_entry (msgqueues k m) = 0 \<and> timeout = 0")
  case True
  with r mqs.step_refl [OF k i] show ?thesis
    by (auto simp: rt_mq_recv_def debug_defs bind_eq_Some_conv split: if_splits)
next
  case False
  then have "mq_recv_loop (rt_current_thread k) m sz timeout k = Some (res, k')"
    using r by (auto simp: rt_mq_recv_def rt_thread_self_def bind_eq_Some_conv split: if_splits)
  from mq_recv_loop_ok [OF k i this c] show ?thesis .
qed

lemma rt_mq_recv_resume_ok [inv_intros]:
  assumes k: "kernel_ok k" and i: "mqueue_inv k" and r: "rt_mq_recv_resume f k = Some (res, k')"
    and c: "thread_stat k (mqr_thread f) = RT_THREAD_RUNNING"
  shows "mq_step_ok k k'"
proof (cases "error (threads k (mqr_thread f)) = RT_EOK")
  case True
  then have "mq_recv_loop (Some (mqr_thread f)) (mqr_mq f) (mqr_size f)
      (timeout_left (mqr_timeout f) (mqr_tick f) k) k = Some (res, k')"
    using r by (simp add: rt_mq_recv_resume_def)
  from mq_recv_loop_ok [OF k i this] c show ?thesis by simp
next
  case False
  with r mqs.step_refl [OF k i] show ?thesis by (simp add: rt_mq_recv_resume_def)
qed

section \<open>Init, create, detach, delete, reset\<close>

text \<open>The nodes fit into the pool the caller gives.\<close>

lemma mq_nodes_fit:
  fixes pool_size sz :: nat
  assumes "n < pool_size div (sz + 4) mod 2 ^ 16"
  shows "n * (sz + 4) + (sz + 4) \<le> pool_size"
proof -
  have "n < pool_size div (sz + 4)" using assms by (meson mod_less_eq_dividend order_less_le_trans)
  then have "(n + 1) * (sz + 4) \<le> pool_size div (sz + 4) * (sz + 4)" by (intro mult_le_mono1) simp
  also have "\<dots> \<le> pool_size" by simp
  finally show ?thesis by simp
qed

lemma mq_wf_object: "mq_wf x fl \<Longrightarrow> mq_wf (x\<lparr>mq_object := st\<rparr>) fl"
  by (auto simp: mq_wf_def mq_shape_def)

lemma rt_mq_init_ok [inv_intros]:
  assumes k: "kernel_ok k" and i: "mqueue_inv k"
    and p: "\<And>n. length (pool n) = unat (rt_align4 sz) mod 2 ^ 16"
  shows "mq_step_ok k (snd (rt_mq_init m pool sz pool_size flag k))"
  unfolding rt_mq_init_def Let_def snd_conv
  by (intro mqs.step_init_list mq_step_upd mqs.step_refl k i mq_new_wf) (simp_all only: p waitq_class.simps, simp_all)

lemma rt_mq_create_ok [inv_intros]:
  assumes k: "kernel_ok k" and i: "mqueue_inv k" and r: "rt_mq_create a pool sz maxm flag k = Some (e, k')"
    and p: "\<And>mem n. pool = Some mem \<Longrightarrow> length (mem n) = unat (rt_align4 sz) mod 2 ^ 16"
  shows "mq_step_ok k k'"
proof (cases a)
  case None
  with r mqs.step_refl [OF k i] show ?thesis by (auto simp: rt_mq_create_def debug_defs split: if_splits)
next
  case (Some m)
  have l: "mq_step_ok k (ipc_object_init (MqRecvWait m) k)"
    by (intro mqs.step_init_list mqs.step_refl k i) simp
  show ?thesis
  proof (cases pool)
    case None
    with Some r have "k' = upd_mq m (\<lambda>x. x\<lparr>mq_object := Obj_none\<rparr>) (ipc_object_init (MqRecvWait m) k)"
      by (auto simp: rt_mq_create_def debug_defs Let_def split: if_splits)
    then show ?thesis
      using mq_step_upd [OF l, of "\<lambda>x. x\<lparr>mq_object := Obj_none\<rparr>" m]
        mq_wf_object mqueue_inv_wf [OF class_stepD(2) [OF l]] by simp
  next
    case p': (Some mem)
    with Some r have "k' = ipc_object_init (MqSendWait m)
        (upd_mq m (\<lambda>_. mq_new Obj_dynamic mem (unat (rt_align4 sz) mod 2 ^ 16) (unat maxm mod 2 ^ 16) flag)
          (ipc_object_init (MqRecvWait m) k))"
      by (auto simp: rt_mq_create_def debug_defs Let_def split: if_splits)
    moreover have "mq_wf (mq_new Obj_dynamic mem (unat (rt_align4 sz) mod 2 ^ 16) (unat maxm mod 2 ^ 16) flag) {}"
      by (rule mq_new_wf) (simp, use p [OF p'] in blast)
    ultimately show ?thesis by (auto intro!: mqs.step_init_list mq_step_upd l)
  qed
qed

lemma mq_drop_ok:
  assumes k: "kernel_ok k" and i: "mqueue_inv k"
    and r1: "ipc_list_resume_all (MqRecvWait m) k = Some k1"
    and r2: "ipc_list_resume_all (MqSendWait m) k1 = Some k2" and f: "mq_wf (f (msgqueues k m)) {}"
  shows "mq_step_ok k (upd_mq m f k2)" "msgqueues k2 = msgqueues k"
proof -
  note A = mqs.step_resume_all [OF mqs.step_refl [OF k i] r1]
  note B = mqs.step_resume_all [OF A(1) r2]
  show s: "msgqueues k2 = msgqueues k" by (simp add: obj_frameD(5) [OF A(2)] obj_frameD(5) [OF B(2)])
  show "mq_step_ok k (upd_mq m f k2)" by (rule mq_step_upd [OF B(1)]) (simp add: s f)
qed

lemma rt_mq_detach_ok [inv_intros]:
  assumes k: "kernel_ok k" and i: "mqueue_inv k" and r: "rt_mq_detach m k = Some (e, k')"
  shows "mq_step_ok k k'"
  using mq_drop_ok(1) [OF k i, where f = "\<lambda>x. x\<lparr>mq_object := Obj_none\<rparr>" and m = m]
    mq_wf_object [OF mqueue_inv_wf [OF i]] r
  by (auto simp: rt_mq_detach_def bind_eq_Some_conv split: if_splits)

lemma rt_mq_delete_ok [inv_intros]:
  assumes k: "kernel_ok k" and i: "mqueue_inv k" and r: "rt_mq_delete m k = Some (e, k')"
  shows "mq_step_ok k k'"
  using mq_drop_ok(1) [OF k i, where f = "\<lambda>x. x\<lparr>mq_object := Obj_none\<rparr>" and m = m]
    mq_wf_object [OF mqueue_inv_wf [OF i]] r
  by (auto simp: rt_mq_delete_def debug_defs bind_eq_Some_conv split: if_splits)

lemma rt_mq_control_ok [inv_intros]:
  assumes k: "kernel_ok k" and i: "mqueue_inv k" and r: "rt_mq_control m reset k = Some (e, k')"
  shows "mq_step_ok k k'"
proof (cases reset)
  case True
  obtain k1 k2 x where a: "ipc_list_resume_all (MqRecvWait m) k = Some k1"
    "ipc_list_resume_all (MqSendWait m) k1 = Some k2" and d: "mq_drain (msgqueues k2 m) = Some x"
    and s: "rt_schedule (upd_mq m (\<lambda>_. x\<lparr>mq_entry := 0\<rparr>) k2) = Some k'"
    using r True by (auto simp: rt_mq_control_def Let_def bind_eq_Some_conv split: if_splits)
  note M = mq_drop_ok [where f = "\<lambda>_. x\<lparr>mq_entry := 0\<rparr>", OF k i a]
  have "mq_wf (x\<lparr>mq_entry := 0\<rparr>) {}"
  proof -
    have "msgqueues k2 = msgqueues k"
      using mq_drop_ok(2) [where f = "\<lambda>x. x", OF k i a] mqueue_inv_wf [OF i] by simp
    then show ?thesis using mq_drain_ok [OF mqueue_inv_wf [OF i, of m]] d by (metis option.inject)
  qed
  from mqs.step_schedule [OF M(1) [OF this] s] show ?thesis .
next
  case False
  with r mqs.step_refl [OF k i] show ?thesis by (auto simp: rt_mq_control_def split: if_splits)
qed

end
