(* ===== verification/Rtt_Mempool.thy ===== *)
theory Rtt_Mempool
  imports Rtt_Ipc
begin

unbundle bit_operations_syntax

text \<open>
  Memory pools, \<^verbatim>\<open>src/rt-thread/src/mempool.c\<close>: fixed-size blocks, the free ones linked through
  the word in front of each. The invariant is that every block of a pool is on its free list,
  once, or names the pool.
\<close>

section \<open>Blocks\<close>

text \<open>The distance from one block to the next: the block and the word in front of it.\<close>

definition mp_stride :: "mempool \<Rightarrow> u32" where
  "mp_stride x = mp_block_size x + 4"

text \<open>The loop that links the first \<open>n\<close> blocks, each to the next.\<close>

fun mp_link_loop :: "nat \<Rightarrow> mempool \<Rightarrow> mempool" where
  "mp_link_loop 0 x = x"
| "mp_link_loop (Suc offset) x =
     (let x = mp_link_loop offset x
      in x\<lparr>mp_words := (mp_words x)(offset := Mp_next (Some (offset + 1)))\<rparr>)"

text \<open>
  The loop and the two assignments after it. Without a block the assignment to the last one writes
  in front of the array, and blocks that do not fit into the memory are written behind it; the
  model stops.
\<close>

definition mp_link_blocks :: "mempool \<Rightarrow> mempool option" where
  "mp_link_blocks x = do {
     rt_assert (0 < mp_block_total_count x);
     rt_assert (mp_block_total_count x * unat (mp_stride x) \<le> unat (mp_pool_size x));
     let x = mp_link_loop (mp_block_total_count x) x;
     let x = x\<lparr>mp_words := (mp_words x)(mp_block_total_count x - 1 := Mp_next None)\<rparr>;
     Some (x\<lparr>mp_block_list := Some 0\<rparr>) }"

text \<open>Taking the first free block for the pool \<open>m\<close>, and giving block \<open>n\<close> back.\<close>

definition mp_take :: "nat \<Rightarrow> mempool \<Rightarrow> (nat \<times> mempool) option" where
  "mp_take m x = do {
     let x = x\<lparr>mp_block_free_count := mp_block_free_count x - 1\<rparr>;
     n \<leftarrow> mp_block_list x;
     (case mp_words x n of
        Mp_next p \<Rightarrow>
          Some (n, x\<lparr>mp_block_list := p, mp_words := (mp_words x)(n := Mp_owner m)\<rparr>)
      | Mp_owner _ \<Rightarrow> None) }"

definition mp_give :: "nat \<Rightarrow> mempool \<Rightarrow> mempool" where
  "mp_give n x =
     (let x = x\<lparr>mp_block_free_count := mp_block_free_count x + 1\<rparr>;
          x = x\<lparr>mp_words := (mp_words x)(n := Mp_next (mp_block_list x))\<rparr>
      in x\<lparr>mp_block_list := Some n\<rparr>)"

section \<open>Life cycle\<close>

definition upd_mempool :: "nat \<Rightarrow> (mempool \<Rightarrow> mempool) \<Rightarrow> kernel \<Rightarrow> kernel" where
  "upd_mempool m f k = k\<lparr>mempools := (mempools k)(m := f (mempools k m))\<rparr>"

text \<open>A structure of which only the name and the sizes are set; memory from the heap is cleared.\<close>

definition mp_new :: "obj_state \<Rightarrow> u32 \<Rightarrow> u32 \<Rightarrow> u32 \<Rightarrow> nat \<Rightarrow> mempool" where
  "mp_new st start sz block_size block_count =
     \<lparr>mp_object = st, mp_start_address = start, mp_pool_size = sz, mp_block_size = block_size,
      mp_block_total_count = block_count, mp_block_free_count = block_count, mp_block_list = None,
      mp_words = (\<lambda>_. Mp_next None)\<rparr>"

definition rt_mp_init ::
    "nat \<Rightarrow> u32 \<Rightarrow> u32 \<Rightarrow> u32 \<Rightarrow> kernel \<Rightarrow> (rt_err \<times> kernel) option" where
  "rt_mp_init m start sz block_size k = do {
     rt_assert (start \<noteq> 0);
     rt_assert (0 < sz \<and> 0 < block_size);
     let sz = rt_align4_down sz;
     let block_size = rt_align4 block_size;
     rt_assert (block_size + 4 \<noteq> 0);
     let block_count = unat (sz div (block_size + 4));
     let k = ipc_object_init (PoolWait m) k;
     x \<leftarrow> mp_link_blocks (mp_new Obj_static start sz block_size block_count);
     Some (RT_EOK, upd_mempool m (\<lambda>_. x) k) }"

definition rt_mp_detach :: "nat \<Rightarrow> kernel \<Rightarrow> (rt_err \<times> kernel) option" where
  "rt_mp_detach m k = do {
     rt_assert (mp_object (mempools k m) = Obj_static);
     k \<leftarrow> ipc_list_resume_all (PoolWait m) k;
     Some (RT_EOK, upd_mempool m (\<lambda>x. x\<lparr>mp_object := Obj_none\<rparr>) k) }"

text \<open>\<open>alloc\<close> and \<open>start\<close> are the results of the two allocations.\<close>

definition rt_mp_create ::
    "nat option \<Rightarrow> u32 option \<Rightarrow> u32 \<Rightarrow> u32 \<Rightarrow> kernel \<Rightarrow> (nat option \<times> kernel) option" where
  "rt_mp_create alloc start block_count block_size k = do {
     debug_not_in_interrupt k;
     rt_assert (0 < block_count \<and> 0 < block_size);
     (case alloc of
        None \<Rightarrow> Some (None, k)
      | Some m \<Rightarrow> do {
          let block_size = rt_align4 block_size;
          let sz = (block_size + 4) * block_count;
          (case start of
             None \<Rightarrow> Some (None, upd_mempool m (\<lambda>_. mp_new Obj_none 0 sz block_size 0) k)
           | Some start \<Rightarrow> do {
               let k = ipc_object_init (PoolWait m) k;
               x \<leftarrow> mp_link_blocks (mp_new Obj_dynamic start sz block_size (unat block_count));
               Some (Some m, upd_mempool m (\<lambda>_. x) k) }) }) }"

definition rt_mp_delete :: "nat \<Rightarrow> kernel \<Rightarrow> (rt_err \<times> kernel) option" where
  "rt_mp_delete m k = do {
     debug_not_in_interrupt k;
     rt_assert (mp_object (mempools k m) = Obj_dynamic);
     k \<leftarrow> ipc_list_resume_all (PoolWait m) k;
     Some (RT_EOK, upd_mempool m (\<lambda>x. x\<lparr>mp_object := Obj_none\<rparr>) k) }"

section \<open>Allocating and freeing\<close>

text \<open>
  \<^verbatim>\<open>rt_set_errno\<close> (\<^verbatim>\<open>kservice.c\<close>): the error goes to the running thread; the variable it goes to in
  an interrupt handler and before the start of the scheduler is no part of the state.
\<close>

definition rt_set_errno :: "rt_err \<Rightarrow> kernel \<Rightarrow> kernel" where
  "rt_set_errno err k =
     (if rt_interrupt_get_nest k \<noteq> 0 then k
      else case rt_thread_self k of None \<Rightarrow> k | Some t \<Rightarrow> upd_thread t (set_error err) k)"

record mp_alloc_frame =
  mpa_thread :: tid
  mpa_mp :: nat
  mpa_time :: u32
  mpa_before_sleep :: u32

text \<open>The waiting thread goes to the head of the list (\<^verbatim>\<open>rt_list_insert_after\<close>).\<close>

definition mp_block :: "nat \<Rightarrow> tid \<Rightarrow> u32 \<Rightarrow> kernel \<Rightarrow> kernel option" where
  "mp_block m t timeout k = do {
     (_, k) \<leftarrow> rt_thread_suspend t k;
     let k = upd_waitq (PoolWait m) (t # waitq k (PoolWait m)) k;
     (if 0 <s timeout then start_thread_timer t timeout k else Some k) }"

text \<open>One round of the loop; the result is the block, \<open>None\<close> for \<^verbatim>\<open>RT_NULL\<close>.\<close>

definition mp_alloc_loop ::
    "tid option \<Rightarrow> nat \<Rightarrow> u32 \<Rightarrow> kernel \<Rightarrow> ((mp_alloc_frame, nat option) outcome \<times> kernel) option" where
  "mp_alloc_loop thread m timeout k =
     (if mp_block_free_count (mempools k m) = 0
      then if timeout = 0 then Some (Returned None, rt_set_errno RT_ETIMEOUT k)
      else do {
        debug_not_in_interrupt k;
        t \<leftarrow> thread;
        let k = upd_thread t (set_error RT_EOK) k;
        let before_sleep = rt_tick_get k;
        k \<leftarrow> mp_block m t timeout k;
        k \<leftarrow> rt_schedule k;
        Some (Waiting \<lparr>mpa_thread = t, mpa_mp = m, mpa_time = timeout,
                       mpa_before_sleep = before_sleep\<rparr>, k) }
      else do {
        (n, x) \<leftarrow> mp_take m (mempools k m);
        Some (Returned (Some n), upd_mempool m (\<lambda>_. x) k) })"

definition rt_mp_alloc ::
    "nat \<Rightarrow> u32 \<Rightarrow> kernel \<Rightarrow> ((mp_alloc_frame, nat option) outcome \<times> kernel) option" where
  "rt_mp_alloc m timeout k = mp_alloc_loop (rt_thread_self k) m timeout k"

definition rt_mp_alloc_resume ::
    "mp_alloc_frame \<Rightarrow> kernel \<Rightarrow> ((mp_alloc_frame, nat option) outcome \<times> kernel) option" where
  "rt_mp_alloc_resume f k =
     (if error (threads k (mpa_thread f)) \<noteq> RT_EOK then Some (Returned None, k)
      else mp_alloc_loop (Some (mpa_thread f)) (mpa_mp f)
             (timeout_left (mpa_time f) (mpa_before_sleep f) k) k)"

text \<open>
  \<^verbatim>\<open>rt_mp_free\<close> of block \<open>n\<close> of the memory of pool \<open>p\<close>, or of \<^verbatim>\<open>RT_NULL\<close>. The pool to give it back
  to is the one the word in front of it names. In front of a free block the C takes the link to the
  next block for a pool; the model stops.
\<close>

definition rt_mp_free :: "(nat \<times> nat) option \<Rightarrow> kernel \<Rightarrow> kernel option" where
  "rt_mp_free block k =
     (case block of
        None \<Rightarrow> Some k
      | Some (p, n) \<Rightarrow>
          (case mp_words (mempools k p) n of
             Mp_next _ \<Rightarrow> None
           | Mp_owner m \<Rightarrow> do {
               rt_assert (m = p);
               let k = upd_mempool m (mp_give n) k;
               (case waitq k (PoolWait m) of
                  [] \<Rightarrow> Some k
                | t # _ \<Rightarrow> do {
                    let k = upd_thread t (set_error RT_EOK) k;
                    let k = snd (rt_thread_resume t k);
                    rt_schedule k }) }))"

section \<open>The shape of a pool\<close>

text \<open>The link in front of block \<open>n\<close>.\<close>

definition mp_next :: "(nat \<Rightarrow> mp_word) \<Rightarrow> nat \<Rightarrow> nat option" where
  "mp_next w n = (case w n of Mp_next p \<Rightarrow> p | Mp_owner _ \<Rightarrow> None)"

lemma mp_next_upd [simp]:
  "mp_next (w(n := Mp_next p)) = (mp_next w)(n := p)"
  "mp_next (w(n := Mp_owner m)) = (mp_next w)(n := None)"
  by (auto simp: mp_next_def fun_eq_iff)

text \<open>
  \<open>fs\<close> are the free blocks in list order; every other block names its pool. The words past the last
  block do not exist.
\<close>

definition mp_shape :: "nat \<Rightarrow> mempool \<Rightarrow> nat list \<Rightarrow> bool" where
  "mp_shape m x fs \<longleftrightarrow> list_chain (mp_next (mp_words x)) (mp_block_list x) fs \<and> distinct fs
     \<and> set fs \<subseteq> {..<mp_block_total_count x} \<and> mp_block_free_count x = length fs
     \<and> (\<forall>n<mp_block_total_count x. if n \<in> set fs then mp_words x n = Mp_next (mp_next (mp_words x) n)
                                  else mp_words x n = Mp_owner m)
     \<and> (\<forall>n\<ge>mp_block_total_count x. mp_words x n = Mp_next None)
     \<and> (mp_object x \<noteq> Obj_none
        \<longrightarrow> mp_block_total_count x * unat (mp_stride x) \<le> unat (mp_pool_size x))"

definition mp_wf :: "nat \<Rightarrow> mempool \<Rightarrow> bool" where
  "mp_wf m x \<longleftrightarrow> (\<exists>fs. mp_shape m x fs)"

text \<open>The free blocks, and the blocks in use.\<close>

definition mp_free_blocks :: "mempool \<Rightarrow> nat list" where
  "mp_free_blocks x = list_walk (mp_next (mp_words x)) (mp_block_list x) (mp_block_free_count x)"

definition mp_used :: "mempool \<Rightarrow> nat set" where
  "mp_used x = {..<mp_block_total_count x} - set (mp_free_blocks x)"

lemma mp_shape_free: "mp_shape m x fs \<Longrightarrow> mp_free_blocks x = fs"
  by (simp add: mp_shape_def mp_free_blocks_def list_walk_chain)

lemma mp_wf_shape: "mp_wf m x \<longleftrightarrow> mp_shape m x (mp_free_blocks x)"
  using mp_shape_free by (auto simp: mp_wf_def)

lemma mp_take_ok:
  assumes w: "mp_wf m x" and n: "mp_block_free_count x \<noteq> 0"
  obtains n x' where "mp_take m x = Some (n, x')" "mp_wf m x'" "mp_free_blocks x = n # mp_free_blocks x'"
    "n < mp_block_total_count x" "mp_object x' = mp_object x" "mp_start_address x' = mp_start_address x"
    "mp_pool_size x' = mp_pool_size x" "mp_block_size x' = mp_block_size x"
    "mp_block_total_count x' = mp_block_total_count x"
    "mp_block_free_count x' = mp_block_free_count x - 1"
proof -
  obtain fs where s: "mp_shape m x fs" using w by (auto simp: mp_wf_def)
  with n obtain a as where fs: "fs = a # as" by (cases fs) (auto simp: mp_shape_def)
  let ?x = "x\<lparr>mp_block_free_count := mp_block_free_count x - 1, mp_block_list := mp_next (mp_words x) a,
             mp_words := (mp_words x)(a := Mp_owner m)\<rparr>"
  have a: "mp_words x a = Mp_next (mp_next (mp_words x) a)" "mp_block_list x = Some a" "a < mp_block_total_count x"
    using s fs by (auto simp: mp_shape_def)
  have t: "mp_take m x = Some (a, ?x)" by (simp add: mp_take_def a)
  have s': "mp_shape m ?x as"
    using s fs unfolding mp_shape_def by (simp add: mp_stride_def)
  then have "mp_wf m ?x" by (auto simp: mp_wf_def)
  with t show ?thesis
    by (rule that) (simp_all add: mp_shape_free [OF s] mp_shape_free [OF s', simplified] fs a)
qed

lemma mp_give_ok:
  assumes w: "mp_wf m x" and n: "mp_words x n = Mp_owner q"
  shows "n < mp_block_total_count x" "q = m" "mp_wf m (mp_give n x)" "mp_free_blocks (mp_give n x) = n # mp_free_blocks x"
    "n \<in> mp_used x"
proof -
  obtain fs where s: "mp_shape m x fs" using w by (auto simp: mp_wf_def)
  show lt: "n < mp_block_total_count x"
    using s n unfolding mp_shape_def by (metis mp_word.distinct(1) not_le_imp_less)
  have nf: "n \<notin> set fs" using s n lt by (fastforce simp: mp_shape_def)
  show "q = m" using s n lt nf by (auto simp: mp_shape_def)
  have s': "mp_shape m (mp_give n x) (n # fs)"
    using s n nf lt unfolding mp_shape_def mp_give_def by (auto simp: mp_stride_def)
  show "mp_wf m (mp_give n x)" using s' by (auto simp: mp_wf_def)
  show "mp_free_blocks (mp_give n x) = n # mp_free_blocks x"
    by (simp add: mp_shape_free [OF s] mp_shape_free [OF s'])
  show "n \<in> mp_used x" using lt nf by (simp add: mp_used_def mp_shape_free [OF s])
qed

lemma mp_give_fields [simp]:
  "mp_object (mp_give n x) = mp_object x" "mp_start_address (mp_give n x) = mp_start_address x"
  "mp_pool_size (mp_give n x) = mp_pool_size x" "mp_block_size (mp_give n x) = mp_block_size x"
  "mp_block_total_count (mp_give n x) = mp_block_total_count x"
  "mp_block_free_count (mp_give n x) = mp_block_free_count x + 1"
  by (simp_all add: mp_give_def)

lemma mp_link_loop_fields [simp]:
  "mp_object (mp_link_loop i x) = mp_object x" "mp_start_address (mp_link_loop i x) = mp_start_address x"
  "mp_pool_size (mp_link_loop i x) = mp_pool_size x" "mp_block_size (mp_link_loop i x) = mp_block_size x"
  "mp_block_total_count (mp_link_loop i x) = mp_block_total_count x"
  "mp_block_free_count (mp_link_loop i x) = mp_block_free_count x"
  "mp_words (mp_link_loop i x) = (\<lambda>n. if n < i then Mp_next (Some (n + 1)) else mp_words x n)"
  by (induction i) (auto simp: Let_def fun_eq_iff)

lemma list_chain_upto:
  assumes "\<And>n. a \<le> n \<Longrightarrow> n < b \<Longrightarrow> nx n = (if Suc n < b then Some (Suc n) else None)" and "a < b"
  shows "list_chain nx (Some a) [a..<b]"
  using assms
proof (induction "b - a" arbitrary: a)
  case (Suc d)
  show ?case
  proof (cases "Suc a < b")
    case True
    then have "list_chain nx (Some (Suc a)) [Suc a..<b]" using Suc by auto
    with True Suc.prems show ?thesis by (simp add: upt_conv_Cons)
  next
    case False
    then have "[a..<b] = [a]" "nx a = None" using Suc.prems by (auto simp: upt_conv_Cons)
    then show ?thesis by simp
  qed
qed simp

lemma mp_link_blocks_ok:
  assumes r: "mp_link_blocks (mp_new st start sz bs n) = Some x"
  shows "mp_wf m x" "mp_free_blocks x = [0..<n]" "mp_object x = st" "mp_start_address x = start"
    "mp_pool_size x = sz" "mp_block_size x = bs" "mp_block_total_count x = n" "0 < n"
    "n * unat (mp_stride x) \<le> unat sz"
proof -
  have n: "0 < n" "n * unat (bs + 4) \<le> unat sz"
    and x: "x = (mp_link_loop n (mp_new st start sz bs n))\<lparr>mp_words := (mp_words
      (mp_link_loop n (mp_new st start sz bs n)))(n - 1 := Mp_next None), mp_block_list := Some 0\<rparr>"
    using r by (auto simp: mp_link_blocks_def mp_new_def mp_stride_def Let_def split: if_splits)
  show f: "mp_object x = st" "mp_start_address x = start" "mp_pool_size x = sz" "mp_block_size x = bs"
    "mp_block_total_count x = n" "0 < n"
    using n by (simp_all add: x mp_new_def)
  show fit: "n * unat (mp_stride x) \<le> unat sz" using n f by (simp add: mp_stride_def)
  have w: "mp_words x i = Mp_next (if Suc i < n then Some (Suc i) else None)" if "i < n" for i
    using that n by (auto simp: x)
  then have nx: "mp_next (mp_words x) i = (if Suc i < n then Some (Suc i) else None)" if "i < n" for i
    using that by (simp add: mp_next_def)
  have "list_chain (mp_next (mp_words x)) (Some 0) [0..<n]" by (rule list_chain_upto) (use nx n in auto)
  then have s: "mp_shape m x [0..<n]" for m
    using w nx f(3,5) fit by (auto simp: mp_shape_def x mp_new_def)
  show "mp_wf m x" using s by (auto simp: mp_wf_def)
  show "mp_free_blocks x = [0..<n]" by (rule mp_shape_free [OF s])
qed

lemma mp_new_failed_wf: "mp_wf m (mp_new Obj_none start sz bs 0)"
  unfolding mp_wf_def by (rule exI [where x = "[]"]) (simp add: mp_shape_def mp_new_def)

lemma mp_wf_closed: "mp_wf m x \<Longrightarrow> mp_wf m (x\<lparr>mp_object := Obj_none\<rparr>)"
  by (auto simp: mp_wf_def mp_shape_def mp_stride_def)

section \<open>The operations keep the invariant\<close>

lemma upd_mempool_fields [simp]:
  "mempools (upd_mempool m f k) m' = (if m' = m then f (mempools k m) else mempools k m')"
  "waitq (upd_mempool m f k) = waitq k" "threads (upd_mempool m f k) = threads k"
  "thread_stat (upd_mempool m f k) = thread_stat k" "thread_prio (upd_mempool m f k) = thread_prio k"
  "rt_current_thread (upd_mempool m f k) = rt_current_thread k"
  "rt_scheduler_lock_nest (upd_mempool m f k) = rt_scheduler_lock_nest k"
  "kernel_ok (upd_mempool m f k) = kernel_ok k"
  by (simp_all add: upd_mempool_def thread_stat_def thread_prio_def fun_eq_iff)

lemma upd_mempool_class [simp]: "class_frame Pool_class k (upd_mempool m f k)"
proof -
  have "same_store B k (upd_mempool m f k)" if "B \<noteq> Pool_class" for B
    using that by (cases B) (simp_all add: upd_mempool_def)
  then show ?thesis by (simp add: class_frame_def upd_mempool_def)
qed

definition mempool_inv :: "kernel \<Rightarrow> bool" where
  "mempool_inv k \<longleftrightarrow> (\<forall>m. mp_wf m (mempools k m))"

interpretation mps: ipc_store Pool_class mempool_inv
  by unfold_locales (simp add: mempool_inv_def)

lemma mempool_invD: "mempool_inv k \<Longrightarrow> mp_wf m (mempools k m)"
  by (simp add: mempool_inv_def)

abbreviation mp_step_ok :: "kernel \<Rightarrow> kernel \<Rightarrow> bool" where
  "mp_step_ok \<equiv> class_step Pool_class mempool_inv"

lemma mp_step_upd:
  assumes "mp_step_ok k k1" "mp_wf m (f (mempools k1 m))"
  shows "mp_step_ok k (upd_mempool m f k1)"
  using assms class_frame_trans [OF _ upd_mempool_class] by (simp add: class_step_def mempool_inv_def)

lemma rt_set_errno_step: "mp_step_ok k k1 \<Longrightarrow> mp_step_ok k (rt_set_errno e k1)"
  using mps.step_error by (auto simp: rt_set_errno_def split: option.split)

text \<open>Blocking: the same as on a FIFO list, with the new waiter moved to the front.\<close>

lemma mp_block_ok:
  assumes k: "kernel_ok k" and r: "thread_stat k t = RT_THREAD_RUNNING"
    and b: "mp_block m t timeout k = Some k'"
  shows "kernel_ok k'" "ipc_frame k k'" "thread_stat k' t = RT_THREAD_SUSPEND"
    "waitq k' = (waitq k)(PoolWait m := t # waitq k (PoolWait m))"
proof -
  let ?q = "PoolWait m"
  obtain e k0 where s: "rt_thread_suspend t k = Some (e, k0)"
    and s2: "(if 0 <s timeout then start_thread_timer t timeout (upd_waitq ?q (t # waitq k0 ?q) k0)
              else Some (upd_waitq ?q (t # waitq k0 ?q) k0)) = Some k'"
    using b by (auto simp: mp_block_def Let_def bind_eq_Some_conv)
  let ?f = "upd_waitq ?q (waitq k0 ?q @ [t]) k0" and ?k1 = "upd_waitq ?q (t # waitq k0 ?q) k0"
  have fifo: "ipc_list_suspend ?q t RT_IPC_FLAG_FIFO k = Some ?f" by (simp add: ipc_list_suspend_def s)
  note F = ipc_list_suspend_ok [OF k r fifo]
  have w0: "waitq k0 ?q = waitq k ?q" using F(5) [of ?q] by (simp add: waitq_enqueue_def)
  have wo: "waitq k0 q = waitq k q" if "q \<noteq> ?q" for q using F(5) [of q] that by simp
  have eq: "?k1 = upd_waitq ?q (t # waitq k0 ?q) ?f" by (simp add: upd_waitq_def)
  have inv: "distinct (waitq ?f ?q)" "\<And>s q. s \<in> set (waitq ?f q) \<Longrightarrow> thread_stat ?f s = RT_THREAD_SUSPEND"
    "\<And>s q q'. s \<in> set (waitq ?f q) \<Longrightarrow> s \<in> set (waitq ?f q') \<Longrightarrow> q = q'"
    using queue_invD(4) [OF kinvD(1) [OF kernel_okD(1) [OF F(1)]]] unfolding wait_inv_def by blast+
  have k1: "kernel_ok ?k1"
    unfolding eq
  proof (rule upd_waitq_kernel_ok [OF F(1)])
    show "distinct (t # waitq k0 ?q)" using inv(1) by simp
    fix s assume s: "s \<in> set (t # waitq k0 ?q)"
    then have sq: "s \<in> set (waitq ?f ?q)" by auto
    then show "thread_stat ?f s = RT_THREAD_SUSPEND" by (rule inv(2))
    show "q' = ?q" if "s \<in> set (waitq ?f q')" for q' by (rule inv(3) [OF that sq])
  qed
  have fr: "ipc_frame k ?k1"
    by (rule ipc_frame_trans [OF rt_thread_suspend_frame [OF s]]) simp
  have st: "thread_stat ?k1 t = RT_THREAD_SUSPEND" using F(4) by simp
  have w: "waitq ?k1 = (waitq k)(?q := t # waitq k ?q)" by (auto simp: fun_eq_iff w0 wo)
  have "kernel_ok k' \<and> ipc_frame k k' \<and> thread_stat k' t = RT_THREAD_SUSPEND \<and> waitq k' = waitq ?k1"
  proof (cases "0 <s timeout")
    case True
    then have tm: "start_thread_timer t timeout ?k1 = Some k'" using s2 by simp
    note T = start_thread_timer_ok [OF k1 st tm]
    show ?thesis
      using T(1,4) st ipc_frame_trans [OF fr start_thread_timer_frame [OF tm]]
      by (simp add: thread_stat_def T(2))
  next
    case False
    with s2 k1 fr st show ?thesis by simp
  qed
  then show "kernel_ok k'" "ipc_frame k k'" "thread_stat k' t = RT_THREAD_SUSPEND"
    "waitq k' = (waitq k)(?q := t # waitq k ?q)"
    unfolding w by blast+
qed

lemma mp_alloc_loop_cases:
  assumes i: "mempool_inv k" and r: "mp_alloc_loop th m timeout k = Some (res, k')"
  obtains
    (none) "mp_block_free_count (mempools k m) = 0" "timeout = 0" "res = Returned None"
      "k' = rt_set_errno RT_ETIMEOUT k"
  | (wait) t k1 where "th = Some t" "mp_block_free_count (mempools k m) = 0" "timeout \<noteq> 0"
      "res = Waiting \<lparr>mpa_thread = t, mpa_mp = m, mpa_time = timeout, mpa_before_sleep = rt_tick k\<rparr>"
      "rt_interrupt_nest k = 0"
      "mp_block m t timeout (upd_thread t (set_error RT_EOK) k) = Some k1" "rt_schedule k1 = Some k'"
  | (got) n x where "mp_block_free_count (mempools k m) \<noteq> 0" "res = Returned (Some n)"
      "mp_take m (mempools k m) = Some (n, x)" "mp_wf m x"
      "mp_free_blocks (mempools k m) = n # mp_free_blocks x" "n < mp_block_total_count (mempools k m)"
      "mp_block_total_count x = mp_block_total_count (mempools k m)"
      "k' = upd_mempool m (\<lambda>_. x) k"
proof (cases "mp_block_free_count (mempools k m) = 0")
  case True
  then show ?thesis
    using r none wait
    by (cases "timeout = 0")
      (auto simp: mp_alloc_loop_def Let_def bind_eq_Some_conv rt_tick_get_def debug_defs split: if_splits)
next
  case False
  from mp_take_ok [OF mempool_invD [OF i] False] obtain n x where x:
    "mp_take m (mempools k m) = Some (n, x)" "mp_wf m x"
    "mp_free_blocks (mempools k m) = n # mp_free_blocks x" "n < mp_block_total_count (mempools k m)"
    "mp_block_total_count x = mp_block_total_count (mempools k m)" by metis
  have "res = Returned (Some n)" "k' = upd_mempool m (\<lambda>_. x) k"
    using r False x(1) by (auto simp: mp_alloc_loop_def)
  with got False x show ?thesis by blast
qed

lemma mp_alloc_loop_ok:
  assumes k: "kernel_ok k" and i: "mempool_inv k" and r: "mp_alloc_loop th m timeout k = Some (res, k')"
    and c: "\<And>t. th = Some t \<Longrightarrow> thread_stat k t = RT_THREAD_RUNNING"
  shows "mp_step_ok k k'"
  using i r
proof (cases rule: mp_alloc_loop_cases)
  case none
  with rt_set_errno_step [OF mps.step_refl [OF k i]] show ?thesis by simp
next
  case (wait t k1)
  let ?e = "upd_thread t (set_error RT_EOK) k"
  have e: "kernel_ok ?e" "thread_stat ?e t = RT_THREAD_RUNNING" using k c [OF wait(1)] by simp_all
  note B = mp_block_ok [OF e wait(6)]
  have o: "obj_frame k k1" by (rule obj_frame_trans [OF _ ipc_frame_obj [OF B(2)]]) simp
  have "class_frame Pool_class k k1"
    by (rule class_frame_block [OF o, where q = "PoolWait m"]) (simp_all add: B(4))
  then have "mp_step_ok k k1" using B(1) mps.obj [OF i o] by (simp add: class_step_def)
  then show ?thesis by (rule mps.step_schedule [OF _ wait(7)])
next
  case (got n x)
  show ?thesis unfolding got(8) by (rule mp_step_upd [OF mps.step_refl [OF k i]]) (rule got(4))
qed

lemma rt_mp_alloc_ok [inv_intros]:
  assumes "kernel_ok k" "mempool_inv k" "rt_mp_alloc m timeout k = Some (res, k')"
    and "\<And>t. rt_current_thread k = Some t \<Longrightarrow> thread_stat k t = RT_THREAD_RUNNING"
  shows "mp_step_ok k k'"
  using mp_alloc_loop_ok [OF assms(1,2) _ assms(4)] assms(3) by (simp add: rt_mp_alloc_def rt_thread_self_def)

lemma rt_mp_alloc_resume_ok [inv_intros]:
  assumes k: "kernel_ok k" and i: "mempool_inv k" and r: "rt_mp_alloc_resume f k = Some (res, k')"
    and c: "thread_stat k (mpa_thread f) = RT_THREAD_RUNNING"
  shows "mp_step_ok k k'"
proof (cases "error (threads k (mpa_thread f)) = RT_EOK")
  case True
  then have "mp_alloc_loop (Some (mpa_thread f)) (mpa_mp f)
      (timeout_left (mpa_time f) (mpa_before_sleep f) k) k = Some (res, k')"
    using r by (simp add: rt_mp_alloc_resume_def)
  from mp_alloc_loop_ok [OF k i this] c show ?thesis by simp
next
  case False
  with r mps.step_refl [OF k i] show ?thesis by (simp add: rt_mp_alloc_resume_def)
qed

lemma rt_mp_free_cases:
  assumes i: "mempool_inv k" and r: "rt_mp_free b k = Some k'"
  obtains
    (null) "b = None" "k' = k"
  | (idle) m n where "b = Some (m, n)" "n \<in> mp_used (mempools k m)" "waitq k (PoolWait m) = []"
      "k' = upd_mempool m (mp_give n) k" "mp_wf m (mp_give n (mempools k m))"
      "mp_free_blocks (mp_give n (mempools k m)) = n # mp_free_blocks (mempools k m)"
  | (wake) m n t ts where "b = Some (m, n)" "n \<in> mp_used (mempools k m)"
      "waitq k (PoolWait m) = t # ts" "mp_wf m (mp_give n (mempools k m))"
      "mp_free_blocks (mp_give n (mempools k m)) = n # mp_free_blocks (mempools k m)"
      "rt_schedule (snd (rt_thread_resume t (upd_thread t (set_error RT_EOK)
         (upd_mempool m (mp_give n) k)))) = Some k'"
proof (cases b)
  case None
  with r null show ?thesis by (simp add: rt_mp_free_def)
next
  case (Some pn)
  then obtain p n where b: "b = Some (p, n)" by (cases pn) simp
  then obtain q where w: "mp_words (mempools k p) n = Mp_owner q"
    using r by (auto simp: rt_mp_free_def split: mp_word.splits)
  note G = mp_give_ok [OF mempool_invD [OF i] w]
  show ?thesis
    using r b w G idle wake
    by (cases "waitq k (PoolWait p)") (auto simp: rt_mp_free_def Let_def split: if_splits)
qed

lemma rt_mp_free_ok [inv_intros]:
  assumes k: "kernel_ok k" and i: "mempool_inv k" and r: "rt_mp_free b k = Some k'"
  shows "mp_step_ok k k'"
  using i r
proof (cases rule: rt_mp_free_cases)
  case null
  with mps.step_refl [OF k i] show ?thesis by simp
next
  case (idle m n)
  show ?thesis unfolding idle(4) by (rule mp_step_upd [OF mps.step_refl [OF k i]]) (rule idle(5))
next
  case (wake m n t ts)
  let ?k1 = "upd_thread t (set_error RT_EOK) (upd_mempool m (mp_give n) k)"
  have "mp_step_ok k (upd_mempool m (mp_give n) k)"
    by (rule mp_step_upd [OF mps.step_refl [OF k i]]) (rule wake(4))
  then have s1: "mp_step_ok k ?k1" by (rule mps.step_error)
  have "mp_step_ok k (snd (rt_thread_resume t ?k1))"
    by (rule mps.step_thread_level [OF s1 _ rt_thread_resume_thread_level])
      (use rt_thread_resume_ok(1) [OF class_stepD(1) [OF s1]] class_stepD(1) [OF s1] in simp_all)
  then show ?thesis by (rule mps.step_schedule [OF _ wake(6)])
qed

section \<open>Init, create, detach, delete\<close>

lemma mp_new_step:
  assumes k: "kernel_ok k" and i: "mempool_inv k" and x: "mp_wf m x"
  shows "mp_step_ok k (upd_mempool m (\<lambda>_. x) (ipc_object_init (PoolWait m) k))"
  by (rule mp_step_upd [OF mps.step_init_list [OF mps.step_refl [OF k i]]]) (simp_all add: x)

lemma mp_close_step:
  assumes k: "kernel_ok k" and i: "mempool_inv k" and r: "ipc_list_resume_all (PoolWait m) k = Some k1"
  shows "mp_step_ok k (upd_mempool m (\<lambda>x. x\<lparr>mp_object := Obj_none\<rparr>) k1)"
proof -
  note R = mps.step_resume_all(1) [OF mps.step_refl [OF k i] r]
  show ?thesis by (rule mp_step_upd [OF R]) (rule mp_wf_closed [OF mempool_invD [OF class_stepD(2) [OF R]]])
qed

lemma rt_mp_init_ok [inv_intros]:
  assumes "kernel_ok k" "mempool_inv k" "rt_mp_init m start sz bs k = Some (e, k')"
  shows "mp_step_ok k k'"
proof -
  obtain x n where x: "mp_link_blocks (mp_new Obj_static start (rt_align4_down sz) (rt_align4 bs) n) = Some x"
    and k': "k' = upd_mempool m (\<lambda>_. x) (ipc_object_init (PoolWait m) k)"
    using assms(3) by (auto simp: rt_mp_init_def Let_def bind_eq_Some_conv split: if_splits)
  show ?thesis unfolding k' by (rule mp_new_step [OF assms(1,2) mp_link_blocks_ok(1) [OF x]])
qed

lemma rt_mp_create_ok [inv_intros]:
  assumes k: "kernel_ok k" and i: "mempool_inv k" and r: "rt_mp_create a start n bs k = Some (e, k')"
  shows "mp_step_ok k k'"
proof (cases a)
  case None
  with r mps.step_refl [OF k i] show ?thesis
    by (auto simp: rt_mp_create_def bind_eq_Some_conv debug_defs split: if_splits)
next
  case (Some m)
  show ?thesis
  proof (cases start)
    case None
    with r Some have k': "k' = upd_mempool m (\<lambda>_. mp_new Obj_none 0 ((rt_align4 bs + 4) * n) (rt_align4 bs) 0) k"
      by (auto simp: rt_mp_create_def Let_def bind_eq_Some_conv debug_defs split: if_splits)
    show ?thesis unfolding k' by (rule mp_step_upd [OF mps.step_refl [OF k i] mp_new_failed_wf])
  next
    case (Some s)
    with r \<open>a = Some m\<close> obtain x where
      x: "mp_link_blocks (mp_new Obj_dynamic s ((rt_align4 bs + 4) * n) (rt_align4 bs) (unat n)) = Some x"
      and k': "k' = upd_mempool m (\<lambda>_. x) (ipc_object_init (PoolWait m) k)"
      by (auto simp: rt_mp_create_def Let_def bind_eq_Some_conv debug_defs split: if_splits)
    show ?thesis unfolding k' by (rule mp_new_step [OF k i mp_link_blocks_ok(1) [OF x]])
  qed
qed

lemma rt_mp_detach_ok [inv_intros]:
  assumes "kernel_ok k" "mempool_inv k" "rt_mp_detach m k = Some (e, k')"
  shows "mp_step_ok k k'"
  using mp_close_step [OF assms(1,2)] assms(3)
  by (auto simp: rt_mp_detach_def bind_eq_Some_conv split: if_splits)

lemma rt_mp_delete_ok [inv_intros]:
  assumes "kernel_ok k" "mempool_inv k" "rt_mp_delete m k = Some (e, k')"
  shows "mp_step_ok k k'"
  using mp_close_step [OF assms(1,2)] assms(3)
  by (auto simp: rt_mp_delete_def bind_eq_Some_conv debug_defs split: if_splits)
end
