(* ===== verification/Rtt_Completion.thy ===== *)
theory Rtt_Completion
  imports Rtt_Ipc
begin

text \<open>
  Completions, \<^verbatim>\<open>components/drivers/ipc/completion.c\<close>: a flag that one thread waits for and any thread or
  interrupt handler raises. The list of a completion has room for one waiter.
\<close>

section \<open>Operations\<close>

definition RT_COMPLETED :: u32 where "RT_COMPLETED = 1"
definition RT_UNCOMPLETED :: u32 where "RT_UNCOMPLETED = 0"

abbreviation completion_flag :: "kernel \<Rightarrow> nat \<Rightarrow> u32" where
  "completion_flag k c \<equiv> completions (devs k) c"

definition set_completion :: "nat \<Rightarrow> u32 \<Rightarrow> kernel \<Rightarrow> kernel" where
  "set_completion c v k =
     k\<lparr>devs := (devs k)\<lparr>completions := (completions (devs k))(c := v)\<rparr>\<rparr>"

definition rt_completion_init :: "nat \<Rightarrow> kernel \<Rightarrow> kernel" where
  "rt_completion_init c k = ipc_object_init (CompletionWait c) (set_completion c RT_UNCOMPLETED k)"

definition rt_completion_wait ::
    "nat \<Rightarrow> u32 \<Rightarrow> kernel \<Rightarrow> ((tid, rt_err) outcome \<times> kernel) option" where
  "rt_completion_wait c timeout k = do {
     debug_scheduler_available (timeout \<noteq> 0) k;
     (if completion_flag k c \<noteq> RT_COMPLETED
      then do {
        rt_assert (waitq k (CompletionWait c) = []);
        (if timeout = 0 then Some (Returned RT_ETIMEOUT, k)
         else do {
           t \<leftarrow> rt_thread_self k;
           let k = upd_thread t (set_error RT_EOK) k;
           k \<leftarrow> ipc_block (CompletionWait c) t RT_IPC_FLAG_FIFO timeout k;
           k \<leftarrow> rt_schedule k;
           Some (Waiting t, k) }) }
      else Some (Returned RT_EOK, set_completion c RT_UNCOMPLETED k)) }"

text \<open>The code behind the \<^verbatim>\<open>rt_schedule\<close>: the flag is cleared whatever the result.\<close>

definition rt_completion_wait_resume :: "nat \<Rightarrow> tid \<Rightarrow> kernel \<Rightarrow> rt_err \<times> kernel" where
  "rt_completion_wait_resume c t k =
     (let result = error (threads k t) in (result, set_completion c RT_UNCOMPLETED k))"

definition rt_completion_done :: "nat \<Rightarrow> kernel \<Rightarrow> kernel option" where
  "rt_completion_done c k =
     (if completion_flag k c = RT_COMPLETED then Some k
      else ipc_wake_one (CompletionWait c) (set_completion c RT_COMPLETED k))"

section \<open>Frames\<close>

lemma set_completion_fields [simp]:
  "completion_flag (set_completion c v k) c' = (if c' = c then v else completion_flag k c')"
  "waitq (set_completion c v k) = waitq k" "threads (set_completion c v k) = threads k"
  "thread_stat (set_completion c v k) = thread_stat k" "thread_prio (set_completion c v k) = thread_prio k"
  "rt_current_thread (set_completion c v k) = rt_current_thread k"
  "kernel_ok (set_completion c v k) = kernel_ok k"
  by (simp_all add: set_completion_def thread_stat_def thread_prio_def fun_eq_iff)

lemma set_completion_devs [simp]:
  "dataqueues (devs (set_completion c v k)) = dataqueues (devs k)"
  "wqueues (devs (set_completion c v k)) = wqueues (devs k)"
  "wqnodes (devs (set_completion c v k)) = wqnodes (devs k)"
  "works (devs (set_completion c v k)) = works (devs k)"
  "workqueues (devs (set_completion c v k)) = workqueues (devs k)"
  by (simp_all add: set_completion_def)

lemma set_completion_class [simp]: "class_frame Completion_class k (set_completion c v k)"
proof -
  have "same_store B k (set_completion c v k)" if "B \<noteq> Completion_class" for B
    using that by (cases B) (simp_all add: set_completion_def)
  then show ?thesis by (simp add: class_frame_def set_completion_def)
qed

section \<open>Nobody waits for a completion that is done\<close>

definition completion_avail :: "kernel \<Rightarrow> nat \<Rightarrow> bool" where
  "completion_avail k c \<longleftrightarrow> completion_flag k c = RT_COMPLETED"

definition completion_alone :: "kernel \<Rightarrow> bool" where
  "completion_alone k \<longleftrightarrow>
     (\<forall>c. \<forall>s\<in>set (waitq k (CompletionWait c)). \<forall>t\<in>set (waitq k (CompletionWait c)). s = t)"

definition completion_inv :: "kernel \<Rightarrow> bool" where
  "completion_inv k \<longleftrightarrow> waits_guarded CompletionWait completion_avail k \<and> completion_alone k"

interpretation completionq: guarded_waitq Completion_class CompletionWait completion_avail
  by unfold_locales (simp_all add: completion_avail_def)

lemma completion_alone_mono:
  "completion_alone k \<Longrightarrow> (\<And>c. set (waitq k' (CompletionWait c)) \<subseteq> set (waitq k (CompletionWait c)))
    \<Longrightarrow> completion_alone k'"
  unfolding completion_alone_def by blast

lemma completion_inv_store:
  assumes "completion_inv k" "same_store Completion_class k k'" "\<And>q. set (waitq k' q) \<subseteq> set (waitq k q)"
  shows "completion_inv k'"
  using completionq.guarded_class_frame [OF _ assms(2,3)] completion_alone_mono [OF _ assms(3)] assms(1)
  by (simp add: completion_inv_def)

lemma completion_inv_class:
  assumes "completion_inv k" "class_frame A k k'" "A \<noteq> Completion_class"
  shows "completion_inv k'"
proof -
  have "set (waitq k' (CompletionWait c)) \<subseteq> set (waitq k (CompletionWait c))" for c
    using assms(2,3) by (simp add: class_frame_def)
  then show ?thesis
    using completionq.guarded_other_class [OF _ assms(2,3)] completion_alone_mono [of k k'] assms(1)
    by (simp add: completion_inv_def)
qed

lemma completion_invD:
  assumes "completion_inv k"
  shows "waits_guarded CompletionWait completion_avail k" "completion_alone k"
  using assms by (simp_all add: completion_inv_def)

text \<open>The update rule for one completion: who waits for it is alone, and it is not done.\<close>

lemma completion_inv_update:
  assumes i: "completion_inv k"
    and f: "\<And>c'. c' \<noteq> c \<Longrightarrow> completion_flag k' c' = completion_flag k c'"
    and w: "waitq k' = (waitq k)(CompletionWait c := ts)"
    and a: "completion_flag k' c = RT_COMPLETED \<Longrightarrow> ts = []"
    and s: "ts = [] \<or> ts = [t]"
  shows "completion_inv k'"
  unfolding completion_inv_def
proof
  show "waits_guarded CompletionWait completion_avail k'"
    by (rule completionq.guarded_update [OF completion_invD(1) [OF i], of c])
      (simp_all add: f w a completion_avail_def)
  show "completion_alone k'"
    using completion_invD(2) [OF i] s by (auto simp: completion_alone_def w)
qed

lemma rt_completion_wait_cases:
  assumes r: "rt_completion_wait c timeout k = Some (res, k')"
  obtains
    (ready) "completion_flag k c = RT_COMPLETED" "res = Returned RT_EOK"
      "k' = set_completion c RT_UNCOMPLETED k"
  | (no_wait) "completion_flag k c \<noteq> RT_COMPLETED" "timeout = 0" "res = Returned RT_ETIMEOUT" "k' = k"
  | (wait) t k1 where "completion_flag k c \<noteq> RT_COMPLETED" "timeout \<noteq> 0" "res = Waiting t"
      "rt_current_thread k = Some t" "waitq k (CompletionWait c) = []"
      "ipc_block (CompletionWait c) t RT_IPC_FLAG_FIFO timeout (upd_thread t (set_error RT_EOK) k) = Some k1"
      "rt_schedule k1 = Some k'"
  using r by (auto simp: rt_completion_wait_def Let_def bind_eq_Some_conv debug_defs split: if_splits)

lemma completion_waitq:
  assumes k: "kernel_ok k" and i: "completion_inv k"
  shows "waitq k (CompletionWait c) = [] \<or> (\<exists>t. waitq k (CompletionWait c) = [t])"
proof -
  have "distinct (waitq k (CompletionWait c))"
    using queue_invD(4) [OF kinvD(1) [OF kernel_okD(1) [OF k]]] by (simp add: wait_inv_def)
  moreover have "\<forall>s\<in>set (waitq k (CompletionWait c)). \<forall>t\<in>set (waitq k (CompletionWait c)). s = t"
    using completion_invD(2) [OF i] by (simp add: completion_alone_def)
  moreover have "xs = [] \<or> (\<exists>t. xs = [t])" if "distinct xs" "\<forall>s\<in>set xs. \<forall>t\<in>set xs. s = t" for xs :: "tid list"
  proof (cases xs rule: remdups_adj.cases)
    case (3 x y zs)
    then have "x \<in> set xs" "y \<in> set xs" by simp_all
    then have "x = y" using that(2) by blast
    then show ?thesis using that(1) 3 by simp
  qed auto
  ultimately show ?thesis by blast
qed

abbreviation "completion_step \<equiv> class_step Completion_class completion_inv"

lemma completion_clear:
  assumes k: "kernel_ok k" and i: "completion_inv k"
  shows "completion_step k (set_completion c RT_UNCOMPLETED k)"
proof -
  from completion_waitq [OF k i, of c] obtain t where
    "waitq k (CompletionWait c) = [] \<or> waitq k (CompletionWait c) = [t]" by blast
  then have "completion_inv (set_completion c RT_UNCOMPLETED k)"
    by (intro completion_inv_update [OF i, of c]) (auto simp: RT_COMPLETED_def RT_UNCOMPLETED_def)
  with k show ?thesis by (simp add: class_step_def)
qed

lemma completion_step_refl: "kernel_ok k \<Longrightarrow> completion_inv k \<Longrightarrow> completion_step k k"
  by (simp add: class_step_def thread_level_class [OF thread_level_refl])

lemma rt_completion_wait_ok [inv_intros]:
  assumes k: "kernel_ok k" and i: "completion_inv k" and r: "rt_completion_wait c timeout k = Some (res, k')"
    and u: "\<And>t. rt_current_thread k = Some t \<Longrightarrow> thread_stat k t = RT_THREAD_RUNNING"
  shows "completion_step k k'"
  using r
proof (cases rule: rt_completion_wait_cases)
  case ready
  then show ?thesis using completion_clear [OF k i] by simp
next
  case no_wait
  with k i show ?thesis by (simp add: completion_step_refl)
next
  case (wait t k1)
  let ?e = "upd_thread t (set_error RT_EOK) k"
  have r: "thread_stat ?e t = RT_THREAD_RUNNING" using u [OF wait(4)] by simp
  note W = ipc_wait_ok [OF set_error_kernel_ok [OF k] r wait(6,7)]
  note d = ipc_frameD(14) [OF W(2)]
  have "completion_inv k'"
    by (rule completion_inv_update [OF i, of c _ "[t]" t])
      (use wait(1,5) in \<open>simp_all add: W(4) d waitq_enqueue_def\<close>)
  moreover have "class_frame Completion_class k k'"
    using class_frame_trans [OF thread_level_class W(5), of k] by simp
  ultimately show ?thesis using W(1) d by (simp add: class_step_def)
qed

lemma rt_completion_wait_resume_ok [inv_intros]:
  assumes "kernel_ok k" and "completion_inv k" and "rt_completion_wait_resume c t k = (e, k')"
  shows "completion_step k k'"
  using completion_clear [OF assms(1,2), of c] assms(3) by (simp add: rt_completion_wait_resume_def Let_def)

lemma rt_completion_done_ok [inv_intros]:
  assumes k: "kernel_ok k" and i: "completion_inv k" and r: "rt_completion_done c k = Some k'"
  shows "completion_step k k'"
proof (cases "completion_flag k c = RT_COMPLETED")
  case True
  with k i r show ?thesis by (simp add: rt_completion_done_def completion_step_refl)
next
  case False
  let ?s = "set_completion c RT_COMPLETED k"
  have w: "ipc_wake_one (CompletionWait c) ?s = Some k'" using r False by (simp add: rt_completion_done_def)
  have ks: "kernel_ok ?s" using k by simp
  note W = ipc_wake_one_ok [OF ks w]
  note d = ipc_frameD(14) [OF W(3)]
  have "completion_inv k'"
    by (rule completion_inv_update [OF i, of c _ "[]"])
      (use completion_waitq [OF k i, of c] in \<open>auto simp: W(4) d\<close>)
  moreover have "class_frame Completion_class k k'"
    by (rule class_frame_trans [OF set_completion_class thread_level_class [OF W(2)]])
  ultimately show ?thesis using W(1) d by (simp add: class_step_def)
qed

lemma rt_completion_init_ok [inv_intros]:
  assumes k: "kernel_ok k" and i: "completion_inv k"
  shows "completion_step k (rt_completion_init c k)"
proof -
  let ?s = "set_completion c RT_UNCOMPLETED k"
  have ks: "kernel_ok ?s" using k by simp
  note A = ipc_object_init_ok [OF ks, of "CompletionWait c"]
  note d = obj_frameD(8) [OF A(2)]
  have "completion_inv (rt_completion_init c k)"
    by (rule completion_inv_update [OF i, of c _ "[]"]) (simp_all add: rt_completion_init_def A(3) d)
  moreover have "class_frame Completion_class k (rt_completion_init c k)"
    unfolding rt_completion_init_def
    by (rule class_frame_trans [OF set_completion_class init_class]) simp
  ultimately show ?thesis
    using A(1) d by (simp add: class_step_def rt_completion_init_def)
qed

section \<open>What a completion promises\<close>

lemma rt_completion_done_effect:
  assumes k: "kernel_ok k" and i: "completion_inv k" and r: "rt_completion_done c k = Some k'"
  shows "completion_flag k' c = RT_COMPLETED" "waitq k' (CompletionWait c) = []"
    "t \<in> set (waitq k (CompletionWait c)) \<Longrightarrow> thread_stat k' t \<in> {RT_THREAD_READY, RT_THREAD_RUNNING}"
    "error (threads k' t) = error (threads k t)"
proof -
  let ?s = "set_completion c RT_COMPLETED k"
  have "completion_flag k' c = RT_COMPLETED \<and> waitq k' (CompletionWait c) = []
    \<and> (t \<in> set (waitq k (CompletionWait c)) \<longrightarrow> thread_stat k' t \<in> {RT_THREAD_READY, RT_THREAD_RUNNING})
    \<and> error (threads k' t) = error (threads k t)"
  proof (cases "completion_flag k c = RT_COMPLETED")
    case True
    then have "waitq k (CompletionWait c) = []"
      using completion_invD(1) [OF i] by (auto simp: waits_guarded_def completion_avail_def)
    with True r show ?thesis by (auto simp: rt_completion_done_def)
  next
    case False
    then have wk: "ipc_wake_one (CompletionWait c) ?s = Some k'" using r by (simp add: rt_completion_done_def)
    have ks: "kernel_ok ?s" using k by simp
    note W = ipc_wake_one_ok [OF ks wk]
    note F = ipc_frameD [OF W(3)]
    from completion_waitq [OF k i, of c] consider "waitq k (CompletionWait c) = []"
      | s where "waitq k (CompletionWait c) = [s]" by blast
    then show ?thesis
    proof cases
      case 1
      then show ?thesis by (simp add: F(9,14) W(4))
    next
      case (2 s)
      then have "thread_stat k' s = RT_THREAD_READY \<or> thread_stat k' s = RT_THREAD_RUNNING"
        by (intro W(5) [of s "[]"]) simp
      then show ?thesis by (simp add: F(9,14) W(4) 2)
    qed
  qed
  then show "completion_flag k' c = RT_COMPLETED" "waitq k' (CompletionWait c) = []"
    "t \<in> set (waitq k (CompletionWait c)) \<Longrightarrow> thread_stat k' t \<in> {RT_THREAD_READY, RT_THREAD_RUNNING}"
    "error (threads k' t) = error (threads k t)" by blast+
qed

text \<open>
  A waiter that times out still clears the flag when it runs again: a completion that is signalled
  between the timeout and that moment is lost.
\<close>

lemma completion_lost:
  assumes "error (threads k t) = RT_ETIMEOUT" "waitq k (CompletionWait c) = []"
    "completion_flag k c \<noteq> RT_COMPLETED"
  shows "\<exists>k1. rt_completion_done c k = Some k1 \<and> completion_flag k1 c = RT_COMPLETED
    \<and> fst (rt_completion_wait_resume c t k1) = RT_ETIMEOUT
    \<and> completion_flag (snd (rt_completion_wait_resume c t k1)) c \<noteq> RT_COMPLETED"
  using assms by (simp add: rt_completion_done_def ipc_wake_one_def rt_completion_wait_resume_def Let_def
      RT_COMPLETED_def RT_UNCOMPLETED_def)

end
