(* ===== verification/Rtt_Dataqueue.thy ===== *)
theory Rtt_Dataqueue
  imports Rtt_Ipc Rtt_Fifo
begin

text \<open>
  Data queues, \<^verbatim>\<open>components/drivers/ipc/dataqueue.c\<close>: a circular array of pairs of a pointer and a
  length, on which producers and consumers wait. The notification callback is an argument (for
  \<^verbatim>\<open>RT_NULL\<close> the identity); the result of the allocation of the array too. The code of
  \<^verbatim>\<open>rt_data_queue_pop\<close> behind its \<^verbatim>\<open>rt_schedule\<close> is an operation of its own.
\<close>

section \<open>The queue\<close>

definition DATAQUEUE_MAGIC :: u32 where "DATAQUEUE_MAGIC = 0xbead0e0e"

type_synonym dq_item = "u32 \<times> u32"

datatype dq_event = RT_DATAQUEUE_EVENT_POP | RT_DATAQUEUE_EVENT_PUSH | RT_DATAQUEUE_EVENT_LWM

definition dq_reset :: "data_queue \<Rightarrow> data_queue" where
  "dq_reset x = x\<lparr>dq_get_index := 0, dq_put_index := 0, dq_is_empty := True, dq_is_full := False\<rparr>"

definition dq_new :: "nat \<Rightarrow> nat \<Rightarrow> dq_item list \<Rightarrow> data_queue" where
  "dq_new sz lwm items = \<lparr>dq_magic = DATAQUEUE_MAGIC, dq_size = sz, dq_lwm = lwm, dq_get_index = 0,
     dq_is_empty = True, dq_put_index = 0, dq_is_full = False, dq_queue = items\<rparr>"

text \<open>An index is advanced in its 15 bits, then compared with the size.\<close>

definition dq_advance :: "nat \<Rightarrow> nat \<Rightarrow> nat" where
  "dq_advance sz i = (let i = (i + 1) mod 2 ^ 15 in if i = sz then 0 else i)"

definition dq_put :: "dq_item \<Rightarrow> data_queue \<Rightarrow> data_queue option" where
  "dq_put v x = do {
     rt_assert (dq_put_index x < length (dq_queue x));
     let items = (dq_queue x)[dq_put_index x := v];
     let i = dq_advance (dq_size x) (dq_put_index x);
     Some (x\<lparr>dq_queue := items, dq_put_index := i, dq_is_empty := False,
       dq_is_full := (if i = dq_get_index x then True else dq_is_full x)\<rparr>) }"

definition dq_get :: "data_queue \<Rightarrow> (dq_item \<times> data_queue) option" where
  "dq_get x = do {
     rt_assert (dq_get_index x < length (dq_queue x));
     let v = dq_queue x ! dq_get_index x;
     let i = dq_advance (dq_size x) (dq_get_index x);
     Some (v, x\<lparr>dq_get_index := i, dq_is_full := False,
       dq_is_empty := (if dq_put_index x = i then True else dq_is_empty x)\<rparr>) }"

text \<open>The length is computed as an \<^verbatim>\<open>int\<close>, kept in 16 bits and returned as 16 bits.\<close>

definition dq_len :: "data_queue \<Rightarrow> nat" where
  "dq_len x =
     (if dq_is_empty x then 0
      else if dq_get_index x < dq_put_index x then dq_put_index x - dq_get_index x
      else nat ((int (dq_size x) + int (dq_put_index x) - int (dq_get_index x)) mod 2 ^ 16))"

section \<open>Operations\<close>

abbreviation dataq :: "kernel \<Rightarrow> nat \<Rightarrow> data_queue" where
  "dataq k q \<equiv> dataqueues (devs k) q"

definition upd_dataq :: "nat \<Rightarrow> (data_queue \<Rightarrow> data_queue) \<Rightarrow> kernel \<Rightarrow> kernel" where
  "upd_dataq q f k =
     k\<lparr>devs := (devs k)\<lparr>dataqueues := (dataqueues (devs k))(q := f (dataq k q))\<rparr>\<rparr>"

text \<open>\<open>alloc\<close>: the array the allocation returned, with its contents, or none.\<close>

definition rt_data_queue_init ::
    "nat \<Rightarrow> nat \<Rightarrow> nat \<Rightarrow> dq_item list option \<Rightarrow> kernel \<Rightarrow> (rt_err \<times> kernel) option" where
  "rt_data_queue_init q sz lwm alloc k = do {
     rt_assert (0 < sz);
     let k = ipc_object_init (DqPopWait q) (ipc_object_init (DqPushWait q)
               (upd_dataq q (\<lambda>_. dq_new sz lwm []) k));
     (case alloc of
        None \<Rightarrow> Some (RT_ENOMEM, k)
      | Some items \<Rightarrow> Some (RT_EOK, upd_dataq q (\<lambda>x. x\<lparr>dq_queue := items\<rparr>) k)) }"

definition rt_data_queue_len :: "nat \<Rightarrow> kernel \<Rightarrow> nat option" where
  "rt_data_queue_len q k = do {
     rt_assert (dq_magic (dataq k q) = DATAQUEUE_MAGIC);
     Some (dq_len (dataq k q)) }"

type_synonym dq_notify = "nat \<Rightarrow> dq_event \<Rightarrow> kernel \<Rightarrow> kernel option"

text \<open>The loop of \<^verbatim>\<open>rt_data_queue_push\<close>: the caller goes to sleep, or the item is stored.\<close>

definition dq_push_loop ::
    "nat \<Rightarrow> dq_item \<Rightarrow> u32 \<Rightarrow> dq_notify \<Rightarrow> kernel \<Rightarrow> ((tid, rt_err) outcome \<times> kernel) option" where
  "dq_push_loop q v timeout notify k =
     (if dq_is_full (dataq k q)
      then (if timeout = 0 then Some (Returned RT_ETIMEOUT, k)
            else do {
              t \<leftarrow> rt_thread_self k;
              let k = upd_thread t (set_error RT_EOK) k;
              k \<leftarrow> ipc_block (DqPushWait q) t RT_IPC_FLAG_FIFO timeout k;
              k \<leftarrow> rt_schedule k;
              Some (Waiting t, k) })
      else do {
        x \<leftarrow> dq_put v (dataq k q);
        let k = upd_dataq q (\<lambda>_. x) k;
        (if waitq k (DqPopWait q) \<noteq> []
         then do { k \<leftarrow> ipc_wake_one (DqPopWait q) k; Some (Returned RT_EOK, k) }
         else do { k \<leftarrow> notify q RT_DATAQUEUE_EVENT_PUSH k; Some (Returned RT_EOK, k) }) })"

definition rt_data_queue_push ::
    "nat \<Rightarrow> dq_item \<Rightarrow> u32 \<Rightarrow> dq_notify \<Rightarrow> kernel \<Rightarrow> ((tid, rt_err) outcome \<times> kernel) option" where
  "rt_data_queue_push q v timeout notify k = do {
     rt_assert (dq_magic (dataq k q) = DATAQUEUE_MAGIC);
     debug_scheduler_available (timeout \<noteq> 0) k;
     dq_push_loop q v timeout notify k }"

definition rt_data_queue_push_resume ::
    "nat \<Rightarrow> dq_item \<Rightarrow> u32 \<Rightarrow> dq_notify \<Rightarrow> tid \<Rightarrow> kernel
      \<Rightarrow> ((tid, rt_err) outcome \<times> kernel) option" where
  "rt_data_queue_push_resume q v timeout notify t k =
     (if error (threads k t) \<noteq> RT_EOK then Some (Returned (error (threads k t)), k)
      else dq_push_loop q v timeout notify k)"

text \<open>
  A consumer that sleeps, and one that has its item and woke a producer: what is left to do is the
  notification.
\<close>

datatype dq_pop_frame = Dq_asleep tid | Dq_notify dq_item

type_synonym dq_pop_result = "(dq_pop_frame, rt_err \<times> dq_item option) outcome"

definition dq_pop_loop ::
    "nat \<Rightarrow> u32 \<Rightarrow> dq_notify \<Rightarrow> kernel \<Rightarrow> (dq_pop_result \<times> kernel) option" where
  "dq_pop_loop q timeout notify k =
     (if dq_is_empty (dataq k q)
      then (if timeout = 0 then Some (Returned (RT_ETIMEOUT, None), k)
            else do {
              t \<leftarrow> rt_thread_self k;
              let k = upd_thread t (set_error RT_EOK) k;
              k \<leftarrow> ipc_block (DqPopWait q) t RT_IPC_FLAG_FIFO timeout k;
              k \<leftarrow> rt_schedule k;
              Some (Waiting (Dq_asleep t), k) })
      else do {
        (v, x) \<leftarrow> dq_get (dataq k q);
        let k = upd_dataq q (\<lambda>_. x) k;
        n \<leftarrow> rt_data_queue_len q k;
        (if n \<le> dq_lwm x
         then (if waitq k (DqPushWait q) \<noteq> []
               then do { k \<leftarrow> ipc_wake_one (DqPushWait q) k; Some (Waiting (Dq_notify v), k) }
               else do { k \<leftarrow> notify q RT_DATAQUEUE_EVENT_LWM k; Some (Returned (RT_EOK, Some v), k) })
         else do { k \<leftarrow> notify q RT_DATAQUEUE_EVENT_POP k; Some (Returned (RT_EOK, Some v), k) }) })"

definition rt_data_queue_pop ::
    "nat \<Rightarrow> u32 \<Rightarrow> dq_notify \<Rightarrow> kernel \<Rightarrow> (dq_pop_result \<times> kernel) option" where
  "rt_data_queue_pop q timeout notify k = do {
     rt_assert (dq_magic (dataq k q) = DATAQUEUE_MAGIC);
     debug_scheduler_available (timeout \<noteq> 0) k;
     dq_pop_loop q timeout notify k }"

definition rt_data_queue_pop_resume ::
    "nat \<Rightarrow> u32 \<Rightarrow> dq_notify \<Rightarrow> dq_pop_frame \<Rightarrow> kernel \<Rightarrow> (dq_pop_result \<times> kernel) option" where
  "rt_data_queue_pop_resume q timeout notify f k =
     (case f of
        Dq_asleep t \<Rightarrow>
          (if error (threads k t) \<noteq> RT_EOK then Some (Returned (error (threads k t), None), k)
           else dq_pop_loop q timeout notify k)
      | Dq_notify v \<Rightarrow> do {
          k \<leftarrow> notify q RT_DATAQUEUE_EVENT_LWM k;
          Some (Returned (RT_EOK, Some v), k) })"

definition rt_data_queue_peek :: "nat \<Rightarrow> kernel \<Rightarrow> (rt_err \<times> dq_item option) option" where
  "rt_data_queue_peek q k = do {
     rt_assert (dq_magic (dataq k q) = DATAQUEUE_MAGIC);
     (if dq_is_empty (dataq k q) then Some (RT_EEMPTY, None)
      else do {
        rt_assert (dq_get_index (dataq k q) < length (dq_queue (dataq k q)));
        Some (RT_EOK, Some (dq_queue (dataq k q) ! dq_get_index (dataq k q))) }) }"

definition rt_data_queue_reset :: "nat \<Rightarrow> kernel \<Rightarrow> kernel option" where
  "rt_data_queue_reset q k = do {
     rt_assert (dq_magic (dataq k q) = DATAQUEUE_MAGIC);
     let k = rt_enter_critical (upd_dataq q dq_reset k);
     k \<leftarrow> ipc_list_resume_all (DqPopWait q) k;
     k \<leftarrow> ipc_list_resume_all (DqPushWait q) k;
     k \<leftarrow> rt_exit_critical k;
     rt_schedule k }"

definition rt_data_queue_deinit :: "nat \<Rightarrow> kernel \<Rightarrow> (rt_err \<times> kernel) option" where
  "rt_data_queue_deinit q k = do {
     rt_assert (dq_magic (dataq k q) = DATAQUEUE_MAGIC);
     k \<leftarrow> rt_data_queue_reset q k;
     Some (RT_EOK, upd_dataq q (\<lambda>x. x\<lparr>dq_magic := 0, dq_queue := []\<rparr>) k) }"

section \<open>A circular array of items\<close>

text \<open>The number of places: a 15-bit index reaches at most 32768 of them.\<close>

definition dq_places :: "data_queue \<Rightarrow> nat" where
  "dq_places x = min (dq_size x) (2 ^ 15)"

definition dq_count :: "data_queue \<Rightarrow> nat" where
  "dq_count x =
     (if dq_is_empty x then 0
      else if dq_get_index x < dq_put_index x then dq_put_index x - dq_get_index x
      else dq_places x + dq_put_index x - dq_get_index x)"

definition dq_contents :: "data_queue \<Rightarrow> dq_item list" where
  "dq_contents x = ring_contents (dq_queue x) (dq_places x) (dq_get_index x) (dq_count x)"

definition dq_wf :: "data_queue \<Rightarrow> bool" where
  "dq_wf x \<longleftrightarrow> 0 < dq_size x \<and> dq_get_index x < dq_places x \<and> dq_put_index x < dq_places x
     \<and> dq_places x \<le> length (dq_queue x) \<and> \<not> (dq_is_empty x \<and> dq_is_full x)
     \<and> (dq_put_index x = dq_get_index x \<longleftrightarrow> dq_is_empty x \<or> dq_is_full x)"

lemma dq_advance_mod:
  assumes "0 < sz" "i < min sz (2 ^ 15)"
  shows "dq_advance sz i = (i + 1) mod min sz (2 ^ 15)"
proof (cases "i + 1 = min sz (2 ^ 15)")
  case True
  show ?thesis
  proof (cases "sz < 2 ^ 15")
    case less: True
    then have "sz = i + 1" using True by simp
    with less show ?thesis by (simp add: dq_advance_def Let_def)
  next
    case False
    then have "i + 1 = 2 ^ 15" using True by simp
    with assms(1) True show ?thesis by (simp add: dq_advance_def Let_def)
  qed
next
  case False
  then have l: "i + 1 < min sz (2 ^ 15)" using assms(2) by linarith
  then have "i + 1 < 2 ^ 15" "i + 1 \<noteq> sz" by linarith+
  then have "dq_advance sz i = i + 1" by (simp add: dq_advance_def Let_def)
  with l show ?thesis by (metis mod_less)
qed

lemma length_dq_contents [simp]: "length (dq_contents x) = dq_count x"
  by (simp add: dq_contents_def)

lemma dq_count_full: "dq_wf x \<Longrightarrow> dq_is_full x \<longleftrightarrow> dq_count x = dq_places x"
  by (auto simp: dq_wf_def dq_count_def)

lemma dq_count_empty: "dq_wf x \<Longrightarrow> dq_is_empty x \<longleftrightarrow> dq_count x = 0"
  by (auto simp: dq_wf_def dq_count_def)

lemma dq_count_le: "dq_wf x \<Longrightarrow> dq_count x \<le> dq_places x"
  by (auto simp: dq_wf_def dq_count_def)

lemma dq_put_index_mod:
  assumes "dq_wf x"
  shows "dq_put_index x = (dq_get_index x + dq_count x) mod dq_places x"
proof -
  have l: "dq_get_index x < dq_places x" "dq_put_index x < dq_places x" using assms by (simp_all add: dq_wf_def)
  consider "dq_is_empty x" | "\<not> dq_is_empty x" "dq_get_index x < dq_put_index x"
    | "\<not> dq_is_empty x" "dq_put_index x \<le> dq_get_index x" by linarith
  then show ?thesis
  proof cases
    case 3
    then have "dq_get_index x + dq_count x = dq_places x + dq_put_index x"
      using l by (simp add: dq_count_def)
    then show ?thesis using l by simp
  qed (use assms l in \<open>simp_all add: dq_count_def dq_wf_def\<close>)
qed

text \<open>The flags and indices determine the number of items.\<close>

lemma dq_count_unique:
  assumes w: "dq_wf x" and c: "c \<le> dq_places x" "dq_put_index x = (dq_get_index x + c) mod dq_places x"
    and e: "dq_is_empty x \<longleftrightarrow> c = 0" and f: "dq_is_full x \<longleftrightarrow> c = dq_places x"
  shows "dq_count x = c"
proof (cases "dq_is_empty x \<or> dq_is_full x")
  case True
  then show ?thesis using e f dq_count_full [OF w] dq_count_empty [OF w] by auto
next
  case False
  then have "c < dq_places x" "dq_count x < dq_places x"
    using c(1) f dq_count_le [OF w] dq_count_full [OF w] by auto
  then show ?thesis
    using mod_add_inj [of "dq_count x" "dq_places x" c "dq_get_index x"] dq_put_index_mod [OF w] c(2) by simp
qed

lemma dq_put_ok:
  assumes w: "dq_wf x" and n: "\<not> dq_is_full x"
  obtains y where "dq_put v x = Some y" "dq_wf y" "dq_contents y = dq_contents x @ [v]"
    "dq_size y = dq_size x" "dq_magic y = dq_magic x" "dq_lwm y = dq_lwm x"
proof -
  let ?M = "dq_places x" and ?g = "dq_get_index x" and ?p = "dq_put_index x" and ?c = "dq_count x"
  have M: "0 < ?M" "?g < ?M" "?p < ?M" "?M \<le> length (dq_queue x)" "0 < dq_size x"
    using w by (auto simp: dq_wf_def dq_places_def)
  have c: "?c < ?M" using n dq_count_full [OF w] dq_count_le [OF w] by simp
  have p: "?p = (?g + ?c) mod ?M" by (rule dq_put_index_mod [OF w])
  define q where "q = (?p + 1) mod ?M"
  have a: "dq_advance (dq_size x) ?p = q"
    using dq_advance_mod [of "dq_size x" ?p] M by (simp add: q_def dq_places_def)
  have q: "q < ?M" "q = (?g + Suc ?c) mod ?M" using M p by (simp_all add: q_def mod_simps)
  have full: "q = ?g \<longleftrightarrow> Suc ?c = ?M"
  proof
    assume e: "q = ?g"
    show "Suc ?c = ?M"
    proof (rule ccontr)
      assume "Suc ?c \<noteq> ?M"
      then have "Suc ?c < ?M" using c by simp
      moreover have "(?g + Suc ?c) mod ?M = (?g + 0) mod ?M" using e q(2) M(2) by simp
      ultimately show False using mod_add_inj [of "Suc ?c" ?M 0 ?g] M(1) by simp
    qed
  next
    assume "Suc ?c = ?M"
    then show "q = ?g" using q(2) M(2) by simp
  qed
  define y where "y = x\<lparr>dq_queue := (dq_queue x)[?p := v], dq_put_index := q, dq_is_empty := False,
       dq_is_full := (if q = ?g then True else dq_is_full x)\<rparr>"
  have pl: "dq_places y = ?M" by (simp add: y_def dq_places_def)
  have wy: "dq_wf y" using M q(1) n by (simp add: dq_wf_def pl) (simp add: y_def)
  have "dq_count y = Suc ?c"
  proof (rule dq_count_unique [OF wy])
    show "Suc ?c \<le> dq_places y" using c pl by simp
    show "dq_put_index y = (dq_get_index y + Suc ?c) mod dq_places y" by (simp add: pl q(2)) (simp add: y_def q(2))
    show "dq_is_empty y \<longleftrightarrow> Suc ?c = 0" by (simp add: y_def)
    show "dq_is_full y \<longleftrightarrow> Suc ?c = dq_places y" using full n by (simp add: pl) (simp add: y_def)
  qed
  then have "dq_contents y = dq_contents x @ [v]"
    using ring_contents_put [OF c M(4), of ?g v] by (simp add: dq_contents_def pl) (simp add: y_def p)
  moreover have "dq_put v x = Some y"
    using M(3,4) by (simp add: dq_put_def a y_def Let_def)
  ultimately show ?thesis using that [of y] wy by (simp add: y_def)
qed

lemma dq_get_ok:
  assumes w: "dq_wf x" and c: "dq_contents x = v # vs"
  obtains y where "dq_get x = Some (v, y)" "dq_wf y" "dq_contents y = vs"
    "dq_size y = dq_size x" "dq_magic y = dq_magic x" "dq_lwm y = dq_lwm x"
proof -
  let ?M = "dq_places x" and ?g = "dq_get_index x" and ?p = "dq_put_index x" and ?c = "dq_count x"
  have M: "0 < ?M" "?g < ?M" "?p < ?M" "?M \<le> length (dq_queue x)" "0 < dq_size x"
    using w by (auto simp: dq_wf_def dq_places_def)
  have n: "0 < ?c" using arg_cong [OF c, of length] by simp
  have p: "?p = (?g + ?c) mod ?M" by (rule dq_put_index_mod [OF w])
  define q where "q = (?g + 1) mod ?M"
  have a: "dq_advance (dq_size x) ?g = q"
    using dq_advance_mod [of "dq_size x" ?g] M by (simp add: q_def dq_places_def)
  have q: "q < ?M" using M(1) by (simp add: q_def)
  obtain m where m: "?c = Suc m" using n by (cases ?c) auto
  have pq: "?p = (q + (?c - 1)) mod ?M" by (simp add: p q_def m mod_simps)
  have emp: "?p = q \<longleftrightarrow> ?c = 1"
  proof
    assume e: "?p = q"
    have "?c - 1 < ?M" using dq_count_le [OF w] n by simp
    moreover have "(q + (?c - 1)) mod ?M = (q + 0) mod ?M" using e pq q by simp
    ultimately have "?c - 1 = 0" using mod_add_inj [of "?c - 1" ?M 0 q] M(1) by simp
    then show "?c = 1" using n by simp
  next
    assume "?c = 1"
    then show "?p = q" using p by (simp add: q_def)
  qed
  have ne: "\<not> dq_is_empty x" using dq_count_empty [OF w] n by simp
  define y where "y = x\<lparr>dq_get_index := q, dq_is_full := False,
       dq_is_empty := (if ?p = q then True else dq_is_empty x)\<rparr>"
  have pl: "dq_places y = ?M" by (simp add: y_def dq_places_def)
  have wy: "dq_wf y" using M q ne by (simp add: dq_wf_def pl) (simp add: y_def)
  have "dq_count y = ?c - 1"
  proof (rule dq_count_unique [OF wy])
    show "?c - 1 \<le> dq_places y" using dq_count_le [OF w] pl by simp
    show "dq_put_index y = (dq_get_index y + (?c - 1)) mod dq_places y" by (simp only: pl) (simp add: y_def pq)
    show "dq_is_empty y \<longleftrightarrow> ?c - 1 = 0" using emp ne n by (simp add: y_def)
    show "dq_is_full y \<longleftrightarrow> ?c - 1 = dq_places y" using dq_count_le [OF w] n by (simp add: pl) (simp add: y_def)
  qed
  then have "dq_contents x = dq_queue x ! ?g # dq_contents y"
    using ring_contents_get [OF n M(2), of "dq_queue x"]
    by (simp add: dq_contents_def pl) (simp add: y_def q_def)
  then have "dq_queue x ! ?g = v" "dq_contents y = vs" using c by simp_all
  moreover have "dq_get x = Some (dq_queue x ! ?g, y)"
    using M(2,4) by (simp add: dq_get_def a y_def Let_def)
  ultimately show ?thesis using that [of y] wy by (simp add: y_def)
qed

lemma dq_len_count:
  assumes "dq_wf x" "dq_size x \<le> 2 ^ 15"
  shows "dq_len x = dq_count x"
proof -
  have "dq_places x = dq_size x" using assms(2) by (simp add: dq_places_def)
  with assms show ?thesis
    by (auto simp: dq_len_def dq_count_def dq_wf_def nat_mod_as_int simp flip: of_nat_add)
qed

section \<open>The kernel calls\<close>

lemma upd_dataq_fields [simp]:
  "dataq (upd_dataq q f k) q' = (if q' = q then f (dataq k q) else dataq k q')"
  "waitq (upd_dataq q f k) = waitq k" "threads (upd_dataq q f k) = threads k"
  "thread_stat (upd_dataq q f k) = thread_stat k" "thread_prio (upd_dataq q f k) = thread_prio k"
  "rt_current_thread (upd_dataq q f k) = rt_current_thread k"
  "rt_scheduler_lock_nest (upd_dataq q f k) = rt_scheduler_lock_nest k"
  "rt_interrupt_nest (upd_dataq q f k) = rt_interrupt_nest k"
  "kernel_ok (upd_dataq q f k) = kernel_ok k"
  by (simp_all add: upd_dataq_def thread_stat_def thread_prio_def fun_eq_iff)

lemma upd_dataq_devs [simp]:
  "completions (devs (upd_dataq q f k)) = completions (devs k)"
  "wqueues (devs (upd_dataq q f k)) = wqueues (devs k)"
  "wqnodes (devs (upd_dataq q f k)) = wqnodes (devs k)"
  "works (devs (upd_dataq q f k)) = works (devs k)"
  "workqueues (devs (upd_dataq q f k)) = workqueues (devs k)"
  by (simp_all add: upd_dataq_def)

lemma upd_dataq_class [simp]: "class_frame Dataqueue_class k (upd_dataq q f k)"
proof -
  have "same_store B k (upd_dataq q f k)" if "B \<noteq> Dataqueue_class" for B
    using that by (cases B) (simp_all add: upd_dataq_def)
  then show ?thesis by (simp add: class_frame_def upd_dataq_def)
qed

text \<open>Every data queue that is in use is well formed.\<close>

definition dataqueue_inv :: "kernel \<Rightarrow> bool" where
  "dataqueue_inv k \<longleftrightarrow> (\<forall>q. dq_magic (dataq k q) = DATAQUEUE_MAGIC \<longrightarrow> dq_wf (dataq k q))"

interpretation dqs: ipc_store Dataqueue_class dataqueue_inv
  by unfold_locales (simp add: dataqueue_inv_def)

abbreviation "dq_step_ok \<equiv> class_step Dataqueue_class dataqueue_inv"

lemma dataqueue_invD: "dataqueue_inv k \<Longrightarrow> dq_magic (dataq k q) = DATAQUEUE_MAGIC \<Longrightarrow> dq_wf (dataq k q)"
  by (simp add: dataqueue_inv_def)

lemma dq_update_step:
  assumes s: "dq_step_ok k k1" and x: "dq_magic x = DATAQUEUE_MAGIC \<Longrightarrow> dq_wf x"
  shows "dq_step_ok k (upd_dataq q (\<lambda>_. x) k1)"
proof (rule class_stepI)
  show "kernel_ok (upd_dataq q (\<lambda>_. x) k1)" using class_stepD(1) [OF s] by simp
  show "dataqueue_inv (upd_dataq q (\<lambda>_. x) k1)"
    using class_stepD(2) [OF s] x by (auto simp: dataqueue_inv_def)
  show "class_frame Dataqueue_class k (upd_dataq q (\<lambda>_. x) k1)"
    by (rule class_frame_trans [OF class_stepD(3) [OF s]]) simp
qed

lemma dq_magic_new [simp]: "dq_magic (dq_new sz lwm items) = DATAQUEUE_MAGIC"
  by (simp add: dq_new_def)

lemma dq_new_wf: "0 < sz \<Longrightarrow> sz \<le> length items \<Longrightarrow> dq_wf (dq_new sz lwm items)"
  by (auto simp: dq_new_def dq_wf_def dq_places_def)

text \<open>The notification leaves the invariants alone.\<close>

definition dq_notify_ok :: "dq_notify \<Rightarrow> bool" where
  "dq_notify_ok f \<longleftrightarrow> (\<forall>q ev k k'. kernel_ok k \<and> dataqueue_inv k \<and> f q ev k = Some k' \<longrightarrow> dq_step_ok k k')"

lemma dq_notify_step:
  assumes "dq_notify_ok f" "dq_step_ok k k1" "f q ev k1 = Some k2"
  shows "dq_step_ok k k2"
proof -
  have "dq_step_ok k1 k2"
    using assms(1,3) class_stepD(1,2) [OF assms(2)] unfolding dq_notify_ok_def by blast
  note D = class_stepD [OF this]
  show ?thesis by (rule class_stepI [where I = dataqueue_inv, OF D(1,2) class_frame_trans [OF class_stepD(3) [OF assms(2)] D(3)]])
qed

lemma dq_push_loop_ok:
  assumes k: "kernel_ok k" and i: "dataqueue_inv k" and c: "caller_running k" and n: "dq_notify_ok notify"
    and m: "dq_magic (dataq k q) = DATAQUEUE_MAGIC"
    and r: "dq_push_loop q v timeout notify k = Some (res, k')"
  shows "dq_step_ok k k'"
proof (cases "dq_is_full (dataq k q)")
  case True
  show ?thesis
  proof (cases "timeout = 0")
    case True
    with \<open>dq_is_full (dataq k q)\<close> r have "k' = k" by (simp add: dq_push_loop_def)
    then show ?thesis by (simp only: dqs.step_refl [OF k i])
  next
    case False
    with True r obtain t k1 where t: "rt_current_thread k = Some t"
      and b: "ipc_block (DqPushWait q) t RT_IPC_FLAG_FIFO timeout (upd_thread t (set_error RT_EOK) k) = Some k1"
        "rt_schedule k1 = Some k'"
      by (auto simp: dq_push_loop_def bind_eq_Some_conv Let_def debug_defs)
    show ?thesis
      by (rule dqs.step_block(1) [OF k i _ _ b]) (use c t in \<open>simp_all add: caller_running_def\<close>)
  qed
next
  case False
  note w = dataqueue_invD [OF i m]
  obtain y where y: "dq_put v (dataq k q) = Some y" "dq_wf y" by (rule dq_put_ok [OF w False])
  let ?u = "upd_dataq q (\<lambda>_. y) k"
  have u: "dq_step_ok k ?u" by (rule dq_update_step [OF dqs.step_refl [OF k i]]) (rule y(2))
  show ?thesis
  proof (cases "waitq k (DqPopWait q) = []")
    case True
    with r False y have "notify q RT_DATAQUEUE_EVENT_PUSH ?u = Some k'"
      by (auto simp: dq_push_loop_def bind_eq_Some_conv Let_def)
    then show ?thesis by (rule dq_notify_step [OF n u])
  next
    case ne: False
    with r False y have "ipc_wake_one (DqPopWait q) ?u = Some k'"
      by (auto simp: dq_push_loop_def bind_eq_Some_conv Let_def)
    then show ?thesis by (rule dqs.step_wake_one [OF u])
  qed
qed

lemma dq_pop_loop_ok:
  assumes k: "kernel_ok k" and i: "dataqueue_inv k" and c: "caller_running k" and n: "dq_notify_ok notify"
    and m: "dq_magic (dataq k q) = DATAQUEUE_MAGIC"
    and r: "dq_pop_loop q timeout notify k = Some (res, k')"
  shows "dq_step_ok k k'"
proof (cases "dq_is_empty (dataq k q)")
  case True
  show ?thesis
  proof (cases "timeout = 0")
    case True
    with \<open>dq_is_empty (dataq k q)\<close> r have "k' = k" by (simp add: dq_pop_loop_def)
    then show ?thesis by (simp only: dqs.step_refl [OF k i])
  next
    case False
    with True r obtain t k1 where t: "rt_current_thread k = Some t"
      and b: "ipc_block (DqPopWait q) t RT_IPC_FLAG_FIFO timeout (upd_thread t (set_error RT_EOK) k) = Some k1"
        "rt_schedule k1 = Some k'"
      by (auto simp: dq_pop_loop_def bind_eq_Some_conv Let_def debug_defs)
    show ?thesis
      by (rule dqs.step_block(1) [OF k i _ _ b]) (use c t in \<open>simp_all add: caller_running_def\<close>)
  qed
next
  case False
  note w = dataqueue_invD [OF i m]
  have "dq_contents (dataq k q) \<noteq> []"
    using False dq_count_empty [OF w] length_dq_contents [of "dataq k q"] by (metis list.size(3))
  then obtain a as where a: "dq_contents (dataq k q) = a # as" by (cases "dq_contents (dataq k q)") auto
  obtain y where y: "dq_get (dataq k q) = Some (a, y)" "dq_wf y" "dq_magic y = dq_magic (dataq k q)"
    by (rule dq_get_ok [OF w a])
  with m have ym: "dq_magic y = DATAQUEUE_MAGIC" by simp
  let ?u = "upd_dataq q (\<lambda>_. y) k"
  have u: "dq_step_ok k ?u" by (rule dq_update_step [OF dqs.step_refl [OF k i]]) (rule y(2))
  consider ev where "notify q ev ?u = Some k'" | "ipc_wake_one (DqPushWait q) ?u = Some k'"
    using r False y by (auto simp: dq_pop_loop_def rt_data_queue_len_def bind_eq_Some_conv Let_def split: if_splits)
  then show ?thesis
  proof cases
    case 1
    then show ?thesis by (rule dq_notify_step [OF n u])
  next
    case 2
    then show ?thesis by (rule dqs.step_wake_one [OF u])
  qed
qed

lemma rt_data_queue_push_ok [inv_intros]:
  assumes "kernel_ok k" "dataqueue_inv k" "caller_running k" "dq_notify_ok notify"
    and "rt_data_queue_push q v timeout notify k = Some (res, k')"
  shows "dq_step_ok k k'"
  using assms(5) by (intro dq_push_loop_ok [OF assms(1-4)])
    (auto simp: rt_data_queue_push_def bind_eq_Some_conv debug_defs split: if_splits)

lemma rt_data_queue_push_resume_ok [inv_intros]:
  assumes "kernel_ok k" "dataqueue_inv k" "caller_running k" "dq_notify_ok notify"
    and "dq_magic (dataq k q) = DATAQUEUE_MAGIC"
    and "rt_data_queue_push_resume q v timeout notify t k = Some (res, k')"
  shows "dq_step_ok k k'"
  using assms(6) dq_push_loop_ok [OF assms(1-5)] dqs.step_refl [OF assms(1,2)]
  by (auto simp: rt_data_queue_push_resume_def split: if_splits)

lemma rt_data_queue_pop_ok [inv_intros]:
  assumes "kernel_ok k" "dataqueue_inv k" "caller_running k" "dq_notify_ok notify"
    and "rt_data_queue_pop q timeout notify k = Some (res, k')"
  shows "dq_step_ok k k'"
  using assms(5) by (intro dq_pop_loop_ok [OF assms(1-4)])
    (auto simp: rt_data_queue_pop_def bind_eq_Some_conv debug_defs split: if_splits)

lemma rt_data_queue_pop_resume_ok [inv_intros]:
  assumes "kernel_ok k" "dataqueue_inv k" "caller_running k" "dq_notify_ok notify"
    and "dq_magic (dataq k q) = DATAQUEUE_MAGIC"
    and "rt_data_queue_pop_resume q timeout notify f k = Some (res, k')"
  shows "dq_step_ok k k'"
  using assms(6) dq_pop_loop_ok [OF assms(1-5)] dqs.step_refl [OF assms(1,2)]
    dq_notify_step [OF assms(4) dqs.step_refl [OF assms(1,2)]]
  by (auto simp: rt_data_queue_pop_resume_def bind_eq_Some_conv split: if_splits dq_pop_frame.splits)

lemma dq_reset_wf: "dq_wf x \<Longrightarrow> dq_wf (dq_reset x)"
  by (auto simp: dq_wf_def dq_reset_def dq_places_def)

lemma dq_reset_magic [simp]: "dq_magic (dq_reset x) = dq_magic x"
  by (simp add: dq_reset_def)

lemma dq_contents_reset [simp]: "dq_contents (dq_reset x) = []"
  by (simp add: dq_reset_def dq_contents_def dq_count_def)

text \<open>A reset empties the queue and sends every waiting thread away.\<close>

lemma rt_data_queue_reset_ok [inv_intros]:
  assumes k: "kernel_ok k" and i: "dataqueue_inv k" and r: "rt_data_queue_reset q k = Some k'"
  shows "dq_step_ok k k'" "devs k' = devs (upd_dataq q dq_reset k)"
    "waitq k' (DqPopWait q) = []" "waitq k' (DqPushWait q) = []" "dq_magic (dataq k q) = DATAQUEUE_MAGIC"
proof -
  let ?u = "upd_dataq q dq_reset k"
  have u: "?u = upd_dataq q (\<lambda>_. dq_reset (dataq k q)) k" by (simp add: upd_dataq_def)
  obtain k1 k2 k3 where r1: "ipc_list_resume_all (DqPopWait q) (rt_enter_critical ?u) = Some k1"
    and r2: "ipc_list_resume_all (DqPushWait q) k1 = Some k2" and r3: "rt_exit_critical k2 = Some k3"
    and r4: "rt_schedule k3 = Some k'" and m: "dq_magic (dataq k q) = DATAQUEUE_MAGIC"
    using r by (auto simp: rt_data_queue_reset_def bind_eq_Some_conv Let_def)
  have s0: "dq_step_ok k ?u"
    unfolding u by (rule dq_update_step [OF dqs.step_refl [OF k i]]) (simp add: dq_reset_wf dataqueue_invD [OF i])
  have e: "kernel_ok (rt_enter_critical ?u)" "thread_level ?u (rt_enter_critical ?u)"
    using class_stepD(1) [OF s0]
    by (simp_all add: rt_enter_critical_def kernel_ok_def timer_inv_def sleep_inv_def thread_stat_def
        thread_level_def obj_frame_def stores_same_def)
  have s1: "dq_step_ok k (rt_enter_critical ?u)" by (rule dqs.step_thread_level [OF s0 e])
  have s2: "dq_step_ok k k1" by (rule dqs.step_resume_all(1) [OF s1 r1])
  have s3: "dq_step_ok k k2" by (rule dqs.step_resume_all(1) [OF s2 r2])
  note x = rt_exit_critical_ok [OF class_stepD(1) [OF s3] r3]
  have s4: "dq_step_ok k k3" by (rule dqs.step_thread_level [OF s3 x])
  show "dq_step_ok k k'" by (rule dqs.step_schedule [OF s4 r4])
  have t4: "thread_level k3 k'" by (rule rt_schedule_thread_level [OF x(1) r4])
  have l: "thread_level k2 k'" by (rule thread_level_trans [OF x(2) t4])
  have o: "devs k1 = devs (rt_enter_critical ?u)" "devs k2 = devs k1" "devs k' = devs k2"
    using ipc_list_resume_all_eq(18) [OF class_stepD(1) [OF s1] r1]
      ipc_list_resume_all_eq(18) [OF class_stepD(1) [OF s2] r2] obj_frameD(8) l by (auto simp: thread_level_def)
  show "devs k' = devs ?u" by (simp add: o) (simp add: rt_enter_critical_def)
  have w: "waitq k2 (DqPopWait q) = []" "waitq k2 (DqPushWait q) = []"
    using ipc_list_resume_all_eq(2) [OF class_stepD(1) [OF s1] r1]
      ipc_list_resume_all_eq(2) [OF class_stepD(1) [OF s2] r2] by simp_all
  have sub: "\<forall>p. set (waitq k' p) \<subseteq> set (waitq k2 p)" using l by (simp add: thread_level_def)
  show "waitq k' (DqPopWait q) = []" using spec [OF sub, of "DqPopWait q"] w(1) by simp
  show "waitq k' (DqPushWait q) = []" using spec [OF sub, of "DqPushWait q"] w(2) by simp
qed (use r in \<open>auto simp: rt_data_queue_reset_def bind_eq_Some_conv\<close>)

lemma rt_data_queue_deinit_ok [inv_intros]:
  assumes k: "kernel_ok k" and i: "dataqueue_inv k" and r: "rt_data_queue_deinit q k = Some (e, k')"
  shows "dq_step_ok k k'" "dq_magic (dataq k' q) \<noteq> DATAQUEUE_MAGIC"
proof -
  obtain k1 where k1: "rt_data_queue_reset q k = Some k1"
    and e: "k' = upd_dataq q (\<lambda>x. x\<lparr>dq_magic := 0, dq_queue := []\<rparr>) k1"
    using r by (auto simp: rt_data_queue_deinit_def bind_eq_Some_conv)
  have e': "k' = upd_dataq q (\<lambda>_. (dataq k1 q)\<lparr>dq_magic := 0, dq_queue := []\<rparr>) k1"
    by (simp add: e upd_dataq_def)
  show "dq_step_ok k k'"
    unfolding e' by (rule dq_update_step [OF rt_data_queue_reset_ok(1) [OF k i k1]]) (simp add: DATAQUEUE_MAGIC_def)
  show "dq_magic (dataq k' q) \<noteq> DATAQUEUE_MAGIC" by (simp add: e DATAQUEUE_MAGIC_def)
qed

text \<open>
  With an array of \<open>sz\<close> items the queue is well formed; without one the call reports it, though the
  magic number is set.
\<close>

lemma rt_data_queue_init_ok:
  assumes k: "kernel_ok k" and i: "dataqueue_inv k" and r: "rt_data_queue_init q sz lwm alloc k = Some (e, k')"
    and l: "\<And>items. alloc = Some items \<Longrightarrow> sz \<le> length items"
  shows "alloc \<noteq> None \<Longrightarrow> dq_step_ok k k' \<and> e = RT_EOK \<and> dq_contents (dataq k' q) = []
      \<and> dq_magic (dataq k' q) = DATAQUEUE_MAGIC \<and> dq_size (dataq k' q) = sz"
    "alloc = None \<Longrightarrow> e = RT_ENOMEM \<and> dq_magic (dataq k' q) = DATAQUEUE_MAGIC \<and> dq_queue (dataq k' q) = []"
proof -
  have sz: "0 < sz" using r by (simp add: rt_data_queue_init_def bind_eq_Some_conv)
  have d: "devs (ipc_object_init p k1) = devs k1" for p k1 by (simp add: ipc_object_init_def upd_waitq_def)
  show "alloc = None \<Longrightarrow> e = RT_ENOMEM \<and> dq_magic (dataq k' q) = DATAQUEUE_MAGIC \<and> dq_queue (dataq k' q) = []"
    using r by (auto simp: rt_data_queue_init_def bind_eq_Some_conv Let_def d dq_new_def)
  assume "alloc \<noteq> None"
  then obtain items where a: "alloc = Some items" by blast
  let ?u = "upd_dataq q (\<lambda>_. dq_new sz lwm items) k"
  have eq: "k' = ipc_object_init (DqPopWait q) (ipc_object_init (DqPushWait q) ?u)" "e = RT_EOK"
    using r by (auto simp: rt_data_queue_init_def bind_eq_Some_conv Let_def a ipc_object_init_def
        upd_waitq_def upd_dataq_def dq_new_def)
  have "dq_step_ok k ?u"
    by (rule dq_update_step [OF dqs.step_refl [OF k i]]) (rule dq_new_wf [OF sz l [OF a]])
  then have "dq_step_ok k k'" unfolding eq by (intro dqs.step_init_list) simp_all
  moreover have "dataq k' q = dq_new sz lwm items" by (simp add: eq d)
  ultimately show "dq_step_ok k k' \<and> e = RT_EOK \<and> dq_contents (dataq k' q) = []
      \<and> dq_magic (dataq k' q) = DATAQUEUE_MAGIC \<and> dq_size (dataq k' q) = sz"
    using eq(2) by (simp add: dq_new_def dq_contents_def dq_count_def)
qed

lemma rt_data_queue_peek_first:
  assumes i: "dataqueue_inv k" and m: "dq_magic (dataq k q) = DATAQUEUE_MAGIC"
  shows "rt_data_queue_peek q k = Some (case dq_contents (dataq k q) of
      [] \<Rightarrow> (RT_EEMPTY, None) | v # vs \<Rightarrow> (RT_EOK, Some v))"
proof (cases "dq_contents (dataq k q)")
  case Nil
  then have "dq_is_empty (dataq k q)"
    using dq_count_empty [OF dataqueue_invD [OF i m]] length_dq_contents [of "dataq k q"] by simp
  then show ?thesis using m by (simp add: rt_data_queue_peek_def Nil)
next
  case (Cons v vs)
  note w = dataqueue_invD [OF i m]
  obtain y where y: "dq_get (dataq k q) = Some (v, y)" by (rule dq_get_ok [OF w Cons])
  have "dq_count (dataq k q) \<noteq> 0" using Cons length_dq_contents [of "dataq k q"] by simp
  then have "\<not> dq_is_empty (dataq k q)" using dq_count_empty [OF w] by simp
  then show ?thesis using m y by (simp add: rt_data_queue_peek_def Cons dq_get_def bind_eq_Some_conv Let_def)
qed

lemma rt_data_queue_len_contents:
  assumes i: "dataqueue_inv k" and m: "dq_magic (dataq k q) = DATAQUEUE_MAGIC" and s: "dq_size (dataq k q) \<le> 2 ^ 15"
  shows "rt_data_queue_len q k = Some (length (dq_contents (dataq k q)))"
  using dq_len_count [OF dataqueue_invD [OF i m] s] m by (simp add: rt_data_queue_len_def)

text \<open>
  The size is a 16-bit number, the indices have 15 bits: a queue of more than 32768 items wraps at
  32768, and then the reported length counts places that do not exist.
\<close>

lemma dq_len_wrong:
  assumes w: "dq_wf x" and s: "2 ^ 15 < dq_size x" "dq_size x < 2 ^ 16"
    and n: "\<not> dq_is_empty x" "dq_put_index x \<le> dq_get_index x"
  shows "dq_len x = dq_count x + (dq_size x - 2 ^ 15)" "dq_count x < dq_len x"
proof -
  have p: "dq_places x = 2 ^ 15" using s by (simp add: dq_places_def)
  have b: "dq_get_index x < 2 ^ 15" using w p by (simp add: dq_wf_def)
  have "nat ((int (dq_size x) + int (dq_put_index x) - int (dq_get_index x)) mod 2 ^ 16)
      = dq_size x + dq_put_index x - dq_get_index x"
    using s b n(2) by (subst mod_pos_pos_trivial) simp_all
  then show "dq_len x = dq_count x + (dq_size x - 2 ^ 15)"
    using n b s by (simp add: dq_len_def dq_count_def p)
  then show "dq_count x < dq_len x" using s by simp
qed

end
