(* ===== verification/Rtt_Waitqueue.thy ===== *)
theory Rtt_Waitqueue
  imports Rtt_Ipc Rtt_Clock
begin

text \<open>
  Wait queues, \<^verbatim>\<open>components/drivers/ipc/waitqueue.c\<close>: a list of nodes, each with a thread and a function
  that decides whether a wake-up is for it (0 accepts), and a flag that keeps a wake-up nobody waited
  for. A node is on one list at most. The node that \<^verbatim>\<open>rt_wqueue_wait\<close> keeps on its stack is an argument;
  the code behind its \<^verbatim>\<open>rt_schedule\<close> is an operation of its own.
\<close>

section \<open>Operations\<close>

definition RT_WQ_FLAG_CLEAN :: u32 where "RT_WQ_FLAG_CLEAN = 0"
definition RT_WQ_FLAG_WAKEUP :: u32 where "RT_WQ_FLAG_WAKEUP = 1"

abbreviation wqueue_of :: "kernel \<Rightarrow> nat \<Rightarrow> wqueue" where
  "wqueue_of k q \<equiv> wqueues (devs k) q"

abbreviation waiting_list :: "kernel \<Rightarrow> nat \<Rightarrow> nat list" where
  "waiting_list k q \<equiv> wq_waiting_list (wqueue_of k q)"

definition upd_wqueue :: "nat \<Rightarrow> (wqueue \<Rightarrow> wqueue) \<Rightarrow> kernel \<Rightarrow> kernel" where
  "upd_wqueue q f k =
     k\<lparr>devs := (devs k)\<lparr>wqueues := (wqueues (devs k))(q := f (wqueue_of k q))\<rparr>\<rparr>"

definition set_wqnode :: "nat \<Rightarrow> wqueue_node \<Rightarrow> kernel \<Rightarrow> kernel" where
  "set_wqnode n x k = k\<lparr>devs := (devs k)\<lparr>wqnodes := (wqnodes (devs k))(n := x)\<rparr>\<rparr>"

definition rt_wqueue_init :: "nat \<Rightarrow> kernel \<Rightarrow> kernel" where
  "rt_wqueue_init q = upd_wqueue q (\<lambda>_. \<lparr>wq_flag = RT_WQ_FLAG_CLEAN, wq_waiting_list = []\<rparr>)"

definition rt_wqueue_add :: "nat \<Rightarrow> nat \<Rightarrow> kernel \<Rightarrow> kernel" where
  "rt_wqueue_add q n = upd_wqueue q (\<lambda>x. x\<lparr>wq_waiting_list := wq_waiting_list x @ [n]\<rparr>)"

text \<open>The node leaves the list it is on; on its own it stays as it is.\<close>

definition rt_wqueue_remove :: "nat \<Rightarrow> kernel \<Rightarrow> kernel" where
  "rt_wqueue_remove n k = k\<lparr>devs := (devs k)\<lparr>wqueues :=
     (\<lambda>q. (wqueue_of k q)\<lparr>wq_waiting_list := remove1 n (waiting_list k q)\<rparr>)\<rparr>\<rparr>"

definition wqueue_default_wake :: "u32 \<Rightarrow> int" where
  "wqueue_default_wake key = 0"

definition rt_wqueue_wakeup :: "nat \<Rightarrow> u32 \<Rightarrow> kernel \<Rightarrow> kernel option" where
  "rt_wqueue_wakeup q key k =
     (let k = upd_wqueue q (\<lambda>x. x\<lparr>wq_flag := RT_WQ_FLAG_WAKEUP\<rparr>) k in
      case find (\<lambda>n. wn_wakeup (wqnodes (devs k) n) key = 0) (waiting_list k q) of
        None \<Rightarrow> Some k
      | Some n \<Rightarrow> rt_schedule (rt_wqueue_remove n
          (snd (rt_thread_resume (wn_polling_thread (wqnodes (devs k) n)) k))))"

definition wqueue_wait_end :: "nat \<Rightarrow> nat \<Rightarrow> tid \<Rightarrow> kernel \<Rightarrow> rt_err \<times> kernel" where
  "wqueue_wait_end q n t k =
     (let k = rt_wqueue_remove n (upd_wqueue q (\<lambda>x. x\<lparr>wq_flag := RT_WQ_FLAG_CLEAN\<rparr>) k)
      in (error (threads k t), k))"

definition wqueue_arm :: "tid \<Rightarrow> u32 \<Rightarrow> kernel \<Rightarrow> kernel option" where
  "wqueue_arm t tick k =
     (if tick \<noteq> RT_WAITING_FOREVER then start_thread_timer t tick k else Some k)"

definition rt_wqueue_wait ::
    "nat \<Rightarrow> nat \<Rightarrow> int \<Rightarrow> int \<Rightarrow> kernel \<Rightarrow> ((tid, rt_err) outcome \<times> kernel) option" where
  "rt_wqueue_wait q n condition msec k = do {
     t \<leftarrow> rt_thread_self k;
     debug_scheduler_available True k;
     let tick = rt_tick_from_millisecond msec;
     (if condition \<noteq> 0 \<or> tick = 0 then Some (Returned RT_EOK, k)
      else do {
        let k = set_wqnode n \<lparr>wn_polling_thread = t, wn_wakeup = wqueue_default_wake\<rparr> k;
        let k = upd_thread t (set_error RT_EOK) k;
        (if wq_flag (wqueue_of k q) = RT_WQ_FLAG_WAKEUP
         then (let (e, k) = wqueue_wait_end q n t k in Some (Returned e, k))
         else do {
           let k = rt_wqueue_add q n k;
           (_, k) \<leftarrow> rt_thread_suspend t k;
           k \<leftarrow> wqueue_arm t tick k;
           k \<leftarrow> rt_schedule k;
           Some (Waiting t, k) }) }) }"

definition rt_wqueue_wait_resume :: "nat \<Rightarrow> nat \<Rightarrow> tid \<Rightarrow> kernel \<Rightarrow> rt_err \<times> kernel" where
  "rt_wqueue_wait_resume q n t k = wqueue_wait_end q n t k"

section \<open>Frames\<close>

lemma upd_wqueue_fields [simp]:
  "wqueue_of (upd_wqueue q f k) q' = (if q' = q then f (wqueue_of k q) else wqueue_of k q')"
  "wqnodes (devs (upd_wqueue q f k)) = wqnodes (devs k)"
  "threads (upd_wqueue q f k) = threads k" "waitq (upd_wqueue q f k) = waitq k"
  "thread_stat (upd_wqueue q f k) = thread_stat k"
  "rt_current_thread (upd_wqueue q f k) = rt_current_thread k"
  "kernel_ok (upd_wqueue q f k) = kernel_ok k"
  by (simp_all add: upd_wqueue_def thread_stat_def fun_eq_iff)

lemma set_wqnode_fields [simp]:
  "wqueues (devs (set_wqnode n x k)) = wqueues (devs k)"
  "wqnodes (devs (set_wqnode n x k)) = (wqnodes (devs k))(n := x)"
  "threads (set_wqnode n x k) = threads k" "waitq (set_wqnode n x k) = waitq k"
  "thread_stat (set_wqnode n x k) = thread_stat k"
  "rt_current_thread (set_wqnode n x k) = rt_current_thread k"
  "kernel_ok (set_wqnode n x k) = kernel_ok k"
  by (simp_all add: set_wqnode_def thread_stat_def fun_eq_iff)

lemma rt_wqueue_remove_fields [simp]:
  "waiting_list (rt_wqueue_remove n k) q = remove1 n (waiting_list k q)"
  "wq_flag (wqueue_of (rt_wqueue_remove n k) q) = wq_flag (wqueue_of k q)"
  "wqnodes (devs (rt_wqueue_remove n k)) = wqnodes (devs k)"
  "threads (rt_wqueue_remove n k) = threads k" "waitq (rt_wqueue_remove n k) = waitq k"
  "thread_stat (rt_wqueue_remove n k) = thread_stat k"
  "rt_current_thread (rt_wqueue_remove n k) = rt_current_thread k"
  "kernel_ok (rt_wqueue_remove n k) = kernel_ok k"
  by (simp_all add: rt_wqueue_remove_def thread_stat_def fun_eq_iff)

lemma wqueue_class_frames [simp]:
  "class_frame Wqueue_class k (upd_wqueue q f k)" "class_frame Wqueue_class k (set_wqnode n x k)"
  "class_frame Wqueue_class k (rt_wqueue_remove n k)"
proof -
  have "same_store B k (upd_wqueue q f k) \<and> same_store B k (set_wqnode n x k)
      \<and> same_store B k (rt_wqueue_remove n k)" if "B \<noteq> Wqueue_class" for B
    using that by (cases B) (simp_all add: upd_wqueue_def set_wqnode_def rt_wqueue_remove_def)
  then show "class_frame Wqueue_class k (upd_wqueue q f k)" "class_frame Wqueue_class k (set_wqnode n x k)"
    "class_frame Wqueue_class k (rt_wqueue_remove n k)"
    by (simp_all add: class_frame_def) (simp_all add: upd_wqueue_def set_wqnode_def rt_wqueue_remove_def)
qed

section \<open>A node is on one list at most\<close>

definition wqueue_inv :: "kernel \<Rightarrow> bool" where
  "wqueue_inv k \<longleftrightarrow> (\<forall>q. distinct (waiting_list k q))
     \<and> (\<forall>q r n. n \<in> set (waiting_list k q) \<longrightarrow> n \<in> set (waiting_list k r) \<longrightarrow> q = r)"

definition wqnode_free :: "kernel \<Rightarrow> nat \<Rightarrow> bool" where
  "wqnode_free k n \<longleftrightarrow> (\<forall>q. n \<notin> set (waiting_list k q))"

interpretation wqs: ipc_store Wqueue_class wqueue_inv
  by unfold_locales (simp add: wqueue_inv_def)

abbreviation "wq_step \<equiv> class_step Wqueue_class wqueue_inv"

lemma wqueue_inv_shrink:
  assumes "wqueue_inv k" and "\<And>q. distinct (waiting_list k' q)"
    and "\<And>q. set (waiting_list k' q) \<subseteq> set (waiting_list k q)"
  shows "wqueue_inv k'"
  using assms unfolding wqueue_inv_def by blast

lemma wq_step_shrink:
  assumes s: "wq_step k k1" and o: "kernel_ok k2" "class_frame Wqueue_class k1 k2"
    and d: "\<And>q. distinct (waiting_list k1 q) \<Longrightarrow> distinct (waiting_list k2 q)"
    and w: "\<And>q. set (waiting_list k2 q) \<subseteq> set (waiting_list k1 q)"
  shows "wq_step k k2"
proof (rule class_stepI [where I = wqueue_inv, OF o(1) _ class_frame_trans [OF class_stepD(3) [OF s] o(2)]])
  show "wqueue_inv k2"
    by (rule wqueue_inv_shrink [OF class_stepD(2) [OF s] d w])
      (use class_stepD(2) [OF s] in \<open>simp add: wqueue_inv_def\<close>)
qed

lemma wq_step_flag: "wq_step k k1 \<Longrightarrow> wq_step k (upd_wqueue q (\<lambda>x. x\<lparr>wq_flag := v\<rparr>) k1)"
  by (rule wq_step_shrink) (auto dest: class_stepD(1))

lemma rt_wqueue_remove_step: "wq_step k k1 \<Longrightarrow> wq_step k (rt_wqueue_remove n k1)"
  by (rule wq_step_shrink) (auto dest: class_stepD(1) intro: distinct_remove1 set_remove1_subset [THEN subsetD])

lemma set_wqnode_step: "wq_step k k1 \<Longrightarrow> wq_step k (set_wqnode n x k1)"
  by (rule wq_step_shrink) (auto dest: class_stepD(1))

lemma rt_wqueue_init_ok [inv_intros]: "wq_step k k1 \<Longrightarrow> wq_step k (rt_wqueue_init q k1)"
  unfolding rt_wqueue_init_def by (rule wq_step_shrink) (auto dest: class_stepD(1))

lemma rt_wqueue_add_ok [inv_intros]:
  assumes s: "wq_step k k1" and f: "wqnode_free k1 n"
  shows "wq_step k (rt_wqueue_add q n k1)"
proof (rule class_stepI [where I = wqueue_inv])
  show "kernel_ok (rt_wqueue_add q n k1)" using class_stepD(1) [OF s] by (simp add: rt_wqueue_add_def)
  show "wqueue_inv (rt_wqueue_add q n k1)"
    using class_stepD(2) [OF s] f unfolding rt_wqueue_add_def wqueue_inv_def wqnode_free_def by auto
  show "class_frame Wqueue_class k (rt_wqueue_add q n k1)"
    unfolding rt_wqueue_add_def by (rule class_frame_trans [OF class_stepD(3) [OF s]]) simp
qed


section \<open>The calls keep it\<close>

definition wakes_node :: "kernel \<Rightarrow> u32 \<Rightarrow> nat \<Rightarrow> bool" where
  "wakes_node k key n \<longleftrightarrow> wn_wakeup (wqnodes (devs k) n) key = 0"

lemma rt_wqueue_wakeup_cases:
  assumes "rt_wqueue_wakeup q key k = Some k'"
  obtains
    (nobody) "\<forall>n\<in>set (waiting_list k q). \<not> wakes_node k key n"
      "k' = upd_wqueue q (\<lambda>x. x\<lparr>wq_flag := RT_WQ_FLAG_WAKEUP\<rparr>) k"
  | (node) ms n ns where "waiting_list k q = ms @ n # ns" "\<forall>m\<in>set ms. \<not> wakes_node k key m"
      "wakes_node k key n"
      "rt_schedule (rt_wqueue_remove n (snd (rt_thread_resume (wn_polling_thread (wqnodes (devs k) n))
         (upd_wqueue q (\<lambda>x. x\<lparr>wq_flag := RT_WQ_FLAG_WAKEUP\<rparr>) k)))) = Some k'"
proof (cases "find (wakes_node k key) (waiting_list k q)")
  case None
  then have "find (\<lambda>n. wn_wakeup (wqnodes (devs k) n) key = 0) (waiting_list k q) = None"
    by (simp add: wakes_node_def [abs_def])
  moreover have "\<forall>n\<in>set (waiting_list k q). \<not> wakes_node k key n" using None by (auto simp: find_None_iff)
  ultimately show ?thesis using nobody assms by (simp add: rt_wqueue_wakeup_def Let_def)
next
  case (Some n)
  then obtain i where i: "i < length (waiting_list k q)" "wakes_node k key n" "waiting_list k q ! i = n"
    "\<forall>j<i. \<not> wakes_node k key (waiting_list k q ! j)" by (auto simp: find_Some_iff)
  have "waiting_list k q = take i (waiting_list k q) @ n # drop (Suc i) (waiting_list k q)"
    using id_take_nth_drop [OF i(1)] i(3) by simp
  moreover have "\<forall>m\<in>set (take i (waiting_list k q)). \<not> wakes_node k key m"
    using i(1,4) by (auto simp: in_set_conv_nth)
  moreover have "find (\<lambda>n. wn_wakeup (wqnodes (devs k) n) key = 0) (waiting_list k q) = Some n"
    using Some by (simp add: wakes_node_def [abs_def])
  ultimately show ?thesis using node i(2) assms by (simp add: rt_wqueue_wakeup_def Let_def)
qed

lemma wq_step_thread_resume: "wq_step k k1 \<Longrightarrow> wq_step k (snd (rt_thread_resume t k1))"
  using wqs.step_thread_level rt_thread_resume_ok(1) rt_thread_resume_thread_level class_stepD(1) by blast

lemma rt_wqueue_wakeup_ok [inv_intros]:
  assumes k: "kernel_ok k" and i: "wqueue_inv k" and r: "rt_wqueue_wakeup q key k = Some k'"
  shows "wq_step k k'"
  using r
proof (cases rule: rt_wqueue_wakeup_cases)
  case nobody
  then show ?thesis using wq_step_flag [OF wqs.step_refl [OF k i]] by simp
next
  case (node ms n ns)
  show ?thesis
    by (rule wqs.step_schedule [OF rt_wqueue_remove_step [OF wq_step_thread_resume
          [OF wq_step_flag [OF wqs.step_refl [OF k i]]]] node(4)])
qed

lemma wqueue_wait_end_ok [inv_intros]:
  "kernel_ok k \<Longrightarrow> wqueue_inv k \<Longrightarrow> wqueue_wait_end q n t k = (e, k') \<Longrightarrow> wq_step k k'"
  using rt_wqueue_remove_step [OF wq_step_flag [OF wqs.step_refl]]
  by (auto simp: wqueue_wait_end_def Let_def)

lemma rt_wqueue_wait_resume_ok [inv_intros]:
  "kernel_ok k \<Longrightarrow> wqueue_inv k \<Longrightarrow> rt_wqueue_wait_resume q n t k = (e, k') \<Longrightarrow> wq_step k k'"
  unfolding rt_wqueue_wait_resume_def by (rule wqueue_wait_end_ok)

lemma rt_wqueue_wait_cases:
  assumes "rt_wqueue_wait q n condition msec k = Some (res, k')"
  obtains
    (no_wait) "condition \<noteq> 0 \<or> rt_tick_from_millisecond msec = 0" "res = Returned RT_EOK" "k' = k"
  | (woken) t where "wq_flag (wqueue_of k q) = RT_WQ_FLAG_WAKEUP" "rt_current_thread k = Some t"
      "res = Returned RT_EOK"
      "k' = snd (wqueue_wait_end q n t (upd_thread t (set_error RT_EOK)
         (set_wqnode n \<lparr>wn_polling_thread = t, wn_wakeup = wqueue_default_wake\<rparr> k)))"
  | (wait) t e k1 k2 where "wq_flag (wqueue_of k q) \<noteq> RT_WQ_FLAG_WAKEUP" "rt_current_thread k = Some t"
      "res = Waiting t"
      "rt_thread_suspend t (rt_wqueue_add q n (upd_thread t (set_error RT_EOK)
         (set_wqnode n \<lparr>wn_polling_thread = t, wn_wakeup = wqueue_default_wake\<rparr> k))) = Some (e, k1)"
      "wqueue_arm t (rt_tick_from_millisecond msec) k1 = Some k2"
      "rt_schedule k2 = Some k'"
  using assms
  by (auto simp: rt_wqueue_wait_def Let_def bind_eq_Some_conv rt_thread_self_def split_def wqueue_wait_end_def
      set_error_def split: if_splits)

text \<open>Suspending the running thread, with or without a timeout, and scheduling.\<close>

lemma suspend_wait_ok:
  assumes k: "kernel_ok k" and run: "thread_stat k t = RT_THREAD_RUNNING"
    and s: "rt_thread_suspend t k = Some (e, k1)"
    and st: "wqueue_arm t n k1 = Some k2"
    and sc: "rt_schedule k2 = Some k'"
  shows "kernel_ok k'" "thread_level k k'" "thread_stat k' t = RT_THREAD_SUSPEND" "waitq k' = waitq k"
proof -
  note S = rt_thread_suspend_ok [OF k s]
  have sus: "thread_stat k1 t = RT_THREAD_SUSPEND" using S(3,4) run by blast
  have "kernel_ok k2 \<and> thread_level k1 k2 \<and> threads k2 = threads k1 \<and> waitq k2 = waitq k1"
  proof (cases "n = RT_WAITING_FOREVER")
    case False
    with st have st: "start_thread_timer t n k1 = Some k2" by (simp add: wqueue_arm_def)
    note T = start_thread_timer_ok [OF S(1) sus st]
    have "thread_level k1 k2" by (rule thread_levelI [OF start_thread_timer_frame [OF st]]) (simp add: T(4))
    with T show ?thesis by simp
  qed (use st S(1) in \<open>simp add: wqueue_arm_def\<close>)
  then have T: "kernel_ok k2" "thread_level k1 k2" "threads k2 = threads k1" "waitq k2 = waitq k1" by blast+
  note O = rt_schedule_others [OF kernel_okD(1) [OF T(1)] sc]
  show "kernel_ok k'" by (rule rt_schedule_kernel_ok [OF T(1) sc])
  show "thread_level k k'"
    by (rule thread_level_trans [OF thread_level_trans [OF rt_thread_suspend_thread_level [OF k s] T(2)]
          rt_schedule_thread_level [OF T(1) sc]])
  show "waitq k' = waitq k" using O(2) T(4) S(6) by simp
  have "thread_stat k2 t = RT_THREAD_SUSPEND" using sus T(3) by (simp add: thread_stat_def)
  with O(1) [of t] show "thread_stat k' t = RT_THREAD_SUSPEND" by simp
qed

lemma rt_wqueue_wait_ok [inv_intros]:
  assumes k: "kernel_ok k" and i: "wqueue_inv k" and c: "caller_running k" and f: "wqnode_free k n"
    and r: "rt_wqueue_wait q n condition msec k = Some (res, k')"
  shows "wq_step k k'"
  using r
proof (cases rule: rt_wqueue_wait_cases)
  case no_wait
  then show ?thesis by (simp only: wqs.step_refl [OF k i])
next
  case (woken t)
  let ?x = "\<lparr>wn_polling_thread = t, wn_wakeup = wqueue_default_wake\<rparr>"
  have s: "wq_step k (upd_thread t (set_error RT_EOK) (set_wqnode n ?x k))"
    by (rule wqs.step_error [OF set_wqnode_step [OF wqs.step_refl [OF k i]]])
  show ?thesis
    unfolding woken(4) wqueue_wait_end_def Let_def snd_conv
    by (rule rt_wqueue_remove_step [OF wq_step_flag [OF s]])
next
  case (wait t e k1 k2)
  let ?x = "\<lparr>wn_polling_thread = t, wn_wakeup = wqueue_default_wake\<rparr>"
  let ?s = "upd_thread t (set_error RT_EOK) (set_wqnode n ?x k)"
  have s: "wq_step k ?s" by (rule wqs.step_error [OF set_wqnode_step [OF wqs.step_refl [OF k i]]])
  have "wqnode_free ?s n" using f by (simp add: wqnode_free_def)
  from rt_wqueue_add_ok [OF s this] have s: "wq_step k (rt_wqueue_add q n ?s)" .
  have "thread_stat k t = RT_THREAD_RUNNING" using c wait(2) by (simp add: caller_running_def)
  then have run: "thread_stat (rt_wqueue_add q n ?s) t = RT_THREAD_RUNNING" by (simp add: rt_wqueue_add_def)
  note W = suspend_wait_ok [OF class_stepD(1) [OF s] run wait(4-6)]
  show ?thesis by (rule wqs.step_thread_level [OF s W(1,2)])
qed

section \<open>Waking and waiting\<close>

text \<open>The thread of the first node that accepts the key runs or is ready; its node has left the list.\<close>

lemma rt_wqueue_wakeup_first:
  assumes k: "kernel_ok k" and r: "rt_wqueue_wakeup q key k = Some k'"
    and w: "waiting_list k q = ms @ n # ns" "\<forall>m\<in>set ms. \<not> wakes_node k key m" "wakes_node k key n"
    and d: "n \<notin> set ms"
  shows "waiting_list k' q = ms @ ns" "wq_flag (wqueue_of k' q) = RT_WQ_FLAG_WAKEUP"
    "thread_stat k (wn_polling_thread (wqnodes (devs k) n)) = RT_THREAD_SUSPEND
     \<Longrightarrow> thread_stat k' (wn_polling_thread (wqnodes (devs k) n)) \<in> {RT_THREAD_READY, RT_THREAD_RUNNING}"
proof -
  let ?t = "wn_polling_thread (wqnodes (devs k) n)"
  let ?f = "upd_wqueue q (\<lambda>x. x\<lparr>wq_flag := RT_WQ_FLAG_WAKEUP\<rparr>) k"
  let ?r = "snd (rt_thread_resume ?t ?f)"
  have fd: "find (wakes_node k key) (waiting_list k q) = Some n"
    using w(2,3) unfolding w(1) by (induction ms) auto
  then have "find (\<lambda>n. wn_wakeup (wqnodes (devs k) n) key = 0) (waiting_list k q) = Some n"
    by (simp add: wakes_node_def [abs_def])
  then have sc: "rt_schedule (rt_wqueue_remove n ?r) = Some k'"
    using r by (simp add: rt_wqueue_wakeup_def Let_def)
  have kf: "kernel_ok ?f" using k by simp
  note R = rt_thread_resume_ok [OF kf, of ?t]
  have kr: "kernel_ok (rt_wqueue_remove n ?r)" using R(1) by simp
  have l: "devs k' = devs (rt_wqueue_remove n ?r)"
    using rt_schedule_thread_level [OF kr sc] obj_frameD(8) by (auto simp: thread_level_def)
  have lr: "devs ?r = devs ?f"
    using rt_thread_resume_thread_level [OF kf] obj_frameD(8) by (auto simp: thread_level_def)
  show "waiting_list k' q = ms @ ns" using d by (simp add: l lr w(1) remove1_append)
  show "wq_flag (wqueue_of k' q) = RT_WQ_FLAG_WAKEUP" by (simp add: l lr)
  assume s: "thread_stat k ?t = RT_THREAD_SUSPEND"
  have "thread_stat ?r ?t \<in> {RT_THREAD_READY, RT_THREAD_RUNNING}" using R(3) s by simp
  then have t: "thread_stat (rt_wqueue_remove n ?r) ?t \<in> {RT_THREAD_READY, RT_THREAD_RUNNING}" by simp
  show "thread_stat k' ?t \<in> {RT_THREAD_READY, RT_THREAD_RUNNING}"
    using rt_schedule_runnable [OF kernel_okD(1) [OF kr] sc] t by blast
qed

text \<open>With every stack intact a wake-up returns.\<close>

lemma wqueue_wakeup_returns:
  assumes k: "kernel_ok k" and s: "stacks_ok k" and c: "rt_current_thread k = Some c"
  shows "\<exists>k'. rt_wqueue_wakeup q key k = Some k'"
proof -
  let ?f = "upd_wqueue q (\<lambda>x. x\<lparr>wq_flag := RT_WQ_FLAG_WAKEUP\<rparr>) k"
  have "\<exists>k'. rt_schedule (rt_wqueue_remove n (snd (rt_thread_resume t ?f))) = Some k'" for n t
  proof -
    let ?r = "snd (rt_thread_resume t ?f)"
    have kf: "kernel_ok ?f" using k by simp
    have f: "stacks_ok ?f" using s by (simp add: stacks_ok_def)
    have st: "stacks_ok (rt_wqueue_remove n ?r)"
      using ipc_frame_stacks_ok [OF rt_thread_resume_frame f] by (simp add: stacks_ok_def)
    have kr: "kernel_ok (rt_wqueue_remove n ?r)" using rt_thread_resume_ok(1) [OF kf] by simp
    have "rt_current_thread (rt_wqueue_remove n ?r) = Some c" using rt_thread_resume_ok(2) [OF kf] c by simp
    with schedule_returns [OF kr st] show ?thesis by blast
  qed
  then show ?thesis by (auto simp: rt_wqueue_wakeup_def Let_def split: option.splits)
qed

text \<open>A wake-up that finds nobody is kept for the next call of \<^verbatim>\<open>rt_wqueue_wait\<close>, which does not wait.\<close>

lemma wakeup_kept:
  assumes r: "rt_wqueue_wakeup q key k = Some k1" and w: "\<forall>n\<in>set (waiting_list k q). \<not> wakes_node k key n"
    and t: "rt_current_thread k = Some t" and d: "debug_scheduler_available True k = Some ()"
  shows "\<exists>k2. rt_wqueue_wait q n 0 msec k1 = Some (Returned RT_EOK, k2)
    \<and> (rt_tick_from_millisecond msec \<noteq> 0 \<longrightarrow> wq_flag (wqueue_of k2 q) = RT_WQ_FLAG_CLEAN)"
  using r
proof (cases rule: rt_wqueue_wakeup_cases)
  case nobody
  have "debug_scheduler_available True k1 = Some ()"
    using d unfolding nobody by (simp add: debug_defs upd_wqueue_def)
  then show ?thesis
    using t unfolding nobody by (auto simp: rt_wqueue_wait_def rt_thread_self_def Let_def wqueue_wait_end_def
        set_error_def split_def)
next
  case (node ms m ns)
  then show ?thesis using w by auto
qed

text \<open>
  A waiter that timed out stays on the list until it runs again. A wake-up in that time goes to it and
  resumes nobody, and when the waiter runs it clears the flag: the threads behind it are not woken.
\<close>

lemma wakeup_lost:
  assumes k: "kernel_ok k" and w: "waiting_list k q = n # ns" "wakes_node k key n"
    and t: "wn_polling_thread (wqnodes (devs k) n) = t" "thread_stat k t \<noteq> RT_THREAD_SUSPEND"
    and r: "rt_wqueue_wakeup q key k = Some k1"
  shows "waiting_list k1 q = ns"
    "m \<in> set ns \<Longrightarrow> thread_stat k (wn_polling_thread (wqnodes (devs k) m)) = RT_THREAD_SUSPEND
      \<Longrightarrow> thread_stat k1 (wn_polling_thread (wqnodes (devs k) m)) = RT_THREAD_SUSPEND"
    "wq_flag (wqueue_of (snd (rt_wqueue_wait_resume q n t k1)) q) = RT_WQ_FLAG_CLEAN"
proof -
  let ?f = "upd_wqueue q (\<lambda>x. x\<lparr>wq_flag := RT_WQ_FLAG_WAKEUP\<rparr>) k"
  have kf: "kernel_ok ?f" using k by simp
  have "snd (rt_thread_resume t ?f) = ?f" by (rule rt_thread_resume_ok(7) [OF kf]) (simp add: t(2))
  then have sc: "rt_schedule (rt_wqueue_remove n ?f) = Some k1"
    using r w t by (simp add: rt_wqueue_wakeup_def Let_def wakes_node_def)
  have kr: "kernel_ok (rt_wqueue_remove n ?f)" using k by simp
  have l: "devs k1 = devs (rt_wqueue_remove n ?f)"
    using rt_schedule_thread_level [OF kr sc] obj_frameD(8) by (auto simp: thread_level_def)
  show "waiting_list k1 q = ns" by (simp add: l w(1))
  show "thread_stat k1 (wn_polling_thread (wqnodes (devs k) m)) = RT_THREAD_SUSPEND"
    if "thread_stat k (wn_polling_thread (wqnodes (devs k) m)) = RT_THREAD_SUSPEND"
    using rt_schedule_others(1) [OF kernel_okD(1) [OF kr] sc] that by simp
  show "wq_flag (wqueue_of (snd (rt_wqueue_wait_resume q n t k1)) q) = RT_WQ_FLAG_CLEAN"
    by (simp add: rt_wqueue_wait_resume_def wqueue_wait_end_def Let_def)
qed

end
