(* ===== verification/Rtt_Workqueue.thy ===== *)
theory Rtt_Workqueue
  imports Rtt_Sem Rtt_Clock
begin

unbundle bit_operations_syntax

text \<open>
  Work queues, \<^verbatim>\<open>components/drivers/ipc/workqueue.c\<close>: a worker thread that runs the works of a list, one
  after the other, and works that a timer will put there. The worker's loop is cut at the call of the
  work's function: \<open>workqueue_thread_begin\<close> is what it does before (or its going to sleep),
  \<open>workqueue_thread_end\<close> what it does after. A work is named by its address, which is also the number of
  its timer; the objects the allocations return are arguments.
\<close>

section \<open>Works and queues\<close>

definition RT_WORK_STATE_PENDING :: u16 where "RT_WORK_STATE_PENDING = 0x0001"
definition RT_WORK_STATE_SUBMITTING :: u16 where "RT_WORK_STATE_SUBMITTING = 0x0002"
definition RT_TIMER_FLAG_SOFT_TIMER :: u8 where "RT_TIMER_FLAG_SOFT_TIMER = 0x4"

abbreviation work_of :: "kernel \<Rightarrow> nat \<Rightarrow> work" where "work_of k w \<equiv> works (devs k) w"
abbreviation workq_of :: "kernel \<Rightarrow> nat \<Rightarrow> workqueue" where "workq_of k q \<equiv> workqueues (devs k) q"
abbreviation work_list :: "kernel \<Rightarrow> nat \<Rightarrow> nat list" where "work_list k q \<equiv> wkq_work_list (workq_of k q)"
abbreviation delayed_list :: "kernel \<Rightarrow> nat \<Rightarrow> nat list" where
  "delayed_list k q \<equiv> wkq_delayed_list (workq_of k q)"
abbreviation work_current :: "kernel \<Rightarrow> nat \<Rightarrow> nat option" where
  "work_current k q \<equiv> wkq_work_current (workq_of k q)"
abbreviation work_thread :: "kernel \<Rightarrow> nat \<Rightarrow> tid" where "work_thread k q \<equiv> wkq_work_thread (workq_of k q)"

abbreviation work_has :: "kernel \<Rightarrow> nat \<Rightarrow> u16 \<Rightarrow> bool" where
  "work_has k w f \<equiv> wk_flags (work_of k w) AND f \<noteq> 0"

definition upd_work :: "nat \<Rightarrow> (work \<Rightarrow> work) \<Rightarrow> kernel \<Rightarrow> kernel" where
  "upd_work w f k = k\<lparr>devs := (devs k)\<lparr>works := (works (devs k))(w := f (work_of k w))\<rparr>\<rparr>"

definition upd_workq :: "nat \<Rightarrow> (workqueue \<Rightarrow> workqueue) \<Rightarrow> kernel \<Rightarrow> kernel" where
  "upd_workq q f k =
     k\<lparr>devs := (devs k)\<lparr>workqueues := (workqueues (devs k))(q := f (workq_of k q))\<rparr>\<rparr>"

definition set_work_flag :: "u16 \<Rightarrow> work \<Rightarrow> work" where
  "set_work_flag f x = x\<lparr>wk_flags := wk_flags x OR f\<rparr>"

definition clear_work_flag :: "u16 \<Rightarrow> work \<Rightarrow> work" where
  "clear_work_flag f x = x\<lparr>wk_flags := wk_flags x AND NOT f\<rparr>"

text \<open>\<^verbatim>\<open>rt_list_remove(&(work->list))\<close>: the work leaves the list it is on.\<close>

definition work_unlink :: "nat \<Rightarrow> kernel \<Rightarrow> kernel" where
  "work_unlink w k = k\<lparr>devs := (devs k)\<lparr>workqueues := (\<lambda>q. (workq_of k q)
     \<lparr>wkq_work_list := removeAll w (work_list k q), wkq_delayed_list := removeAll w (delayed_list k q)\<rparr>)\<rparr>\<rparr>"

section \<open>The operations\<close>

text \<open>The last part of every submission: an idle worker that sleeps is resumed.\<close>

definition workqueue_wake :: "nat \<Rightarrow> kernel \<Rightarrow> kernel option" where
  "workqueue_wake q k =
     (if work_current k q = None \<and> thread_stat k (work_thread k q) = RT_THREAD_SUSPEND
      then rt_schedule (snd (rt_thread_resume (work_thread k q) k))
      else Some k)"

partial_function (option) work_completion_loop :: "nat \<Rightarrow> kernel \<Rightarrow> (rt_err \<times> kernel) option" where
  "work_completion_loop s k = do {
     (res, k) \<leftarrow> rt_sem_trytake s k;
     (if res = Returned RT_ETIMEOUT
      then do { (_, k) \<leftarrow> rt_sem_release s k; work_completion_loop s k }
      else if res = Returned RT_EOK then Some (RT_EOK, k)
      else Some (RT_ERROR, k)) }"

definition workqueue_work_completion :: "nat \<Rightarrow> kernel \<Rightarrow> (rt_err \<times> kernel) option" where
  "workqueue_work_completion q k = do {
     (result, k) \<leftarrow> work_completion_loop (wkq_sem (workq_of k q)) (rt_enter_critical k);
     k \<leftarrow> rt_exit_critical k;
     Some (result, k) }"

text \<open>\<open>Some w\<close>: the worker goes on to call the function of \<open>w\<close>; \<open>None\<close>: it has gone to sleep.\<close>

definition workqueue_thread_begin :: "nat \<Rightarrow> kernel \<Rightarrow> (nat option \<times> kernel) option" where
  "workqueue_thread_begin q k =
     (case work_list k q of
        [] \<Rightarrow> do {
          t \<leftarrow> rt_thread_self k;
          (_, k) \<leftarrow> rt_thread_suspend t k;
          k \<leftarrow> rt_schedule k;
          Some (None, k) }
      | w # ws \<Rightarrow>
          (let k = work_unlink w k;
               k = upd_workq q (\<lambda>x. x\<lparr>wkq_work_current := Some w\<rparr>) k;
               k = upd_work w (clear_work_flag RT_WORK_STATE_PENDING) k;
               k = upd_work w (\<lambda>x. x\<lparr>wk_workqueue := None\<rparr>) k
           in Some (Some w, k)))"

definition workqueue_thread_end :: "nat \<Rightarrow> kernel \<Rightarrow> (rt_err \<times> kernel) option" where
  "workqueue_thread_end q k =
     workqueue_work_completion q (upd_workq q (\<lambda>x. x\<lparr>wkq_work_current := None\<rparr>) k)"

definition workqueue_submit_work :: "nat \<Rightarrow> nat \<Rightarrow> u32 \<Rightarrow> kernel \<Rightarrow> (rt_err \<times> kernel) option" where
  "workqueue_submit_work q w ticks k =
     (let k = upd_work w (clear_work_flag RT_WORK_STATE_PENDING) (work_unlink w k) in
      if ticks = 0
      then
        (let (err, k) =
           (if work_current k q \<noteq> Some w
            then (RT_EOK,
              upd_work w (\<lambda>x. (set_work_flag RT_WORK_STATE_PENDING x)\<lparr>wk_workqueue := Some q\<rparr>)
                (upd_workq q (\<lambda>x. x\<lparr>wkq_work_list := wkq_work_list x @ [w]\<rparr>) k))
            else (RT_EBUSY, k))
         in do { k \<leftarrow> workqueue_wake q k; Some (err, k) })
      else if ticks < half_tick_max
      then do {
        k \<leftarrow> (if work_has k w RT_WORK_STATE_SUBMITTING
              then do {
                (_, _, k) \<leftarrow> rt_timer_control (UserTimer w) RT_TIMER_CTRL_SET_TIME ticks
                               (snd (rt_timer_stop (UserTimer w) k));
                Some k }
              else do {
                k \<leftarrow> rt_timer_init (UserTimer w) ticks (RT_TIMER_FLAG_ONE_SHOT OR RT_TIMER_FLAG_SOFT_TIMER) k;
                Some (upd_work w (set_work_flag RT_WORK_STATE_SUBMITTING) k) });
        let k = upd_work w (\<lambda>x. x\<lparr>wk_workqueue := Some q\<rparr>) k;
        let k = upd_workq q (\<lambda>x. x\<lparr>wkq_delayed_list := wkq_delayed_list x @ [w]\<rparr>) k;
        Some (RT_EOK, snd (rt_timer_start (UserTimer w) k)) }
      else Some (RT_ERROR, k))"

definition workqueue_cancel_work :: "nat \<Rightarrow> nat \<Rightarrow> kernel \<Rightarrow> (rt_err \<times> kernel) option" where
  "workqueue_cancel_work q w k = do {
     let k = upd_work w (clear_work_flag RT_WORK_STATE_PENDING) (work_unlink w k);
     k \<leftarrow> (if work_has k w RT_WORK_STATE_SUBMITTING
           then do {
             (_, k) \<leftarrow> rt_timer_detach (UserTimer w) (snd (rt_timer_stop (UserTimer w) k));
             Some (upd_work w (clear_work_flag RT_WORK_STATE_SUBMITTING) k) }
           else Some k);
     let err = (if work_current k q \<noteq> Some w then RT_EOK else RT_EBUSY);
     Some (err, upd_work w (\<lambda>x. x\<lparr>wk_workqueue := None\<rparr>) k) }"

text \<open>The first line is \<^verbatim>\<open>RT_ASSERT(queue != RT_NULL)\<close> too.\<close>

definition delayed_work_timeout_handler :: "nat \<Rightarrow> kernel \<Rightarrow> kernel option" where
  "delayed_work_timeout_handler w k = do {
     q \<leftarrow> wk_workqueue (work_of k w);
     (_, k) \<leftarrow> rt_timer_detach (UserTimer w) k;
     let k = work_unlink w (upd_work w (clear_work_flag RT_WORK_STATE_SUBMITTING) k);
     let k = (if work_current k q \<noteq> Some w
              then upd_work w (set_work_flag RT_WORK_STATE_PENDING)
                     (upd_workq q (\<lambda>x. x\<lparr>wkq_work_list := wkq_work_list x @ [w]\<rparr>) k)
              else k);
     workqueue_wake q k }"

definition rt_work_init :: "nat \<Rightarrow> kernel \<Rightarrow> kernel" where
  "rt_work_init w = upd_work w (\<lambda>_. \<lparr>wk_flags = 0, wk_workqueue = None\<rparr>)"

definition rt_workqueue_create ::
    "nat option \<Rightarrow> nat \<Rightarrow> tid option \<Rightarrow> u32 option \<Rightarrow> u32 \<Rightarrow> u32 \<Rightarrow> nat \<Rightarrow> kernel
      \<Rightarrow> (nat option \<times> kernel) option" where
  "rt_workqueue_create alloc s obj stk stk_size sp0 priority k =
     (case alloc of
        None \<Rightarrow> Some (None, k)
      | Some q \<Rightarrow> do {
          let k = upd_workq q (\<lambda>x. x\<lparr>wkq_work_list := [], wkq_delayed_list := [], wkq_work_current := None,
                    wkq_sem := s\<rparr>) k;
          (_, k) \<leftarrow> rt_sem_init s 0 RT_IPC_FLAG_FIFO k;
          (r, k) \<leftarrow> rt_thread_create obj stk stk_size sp0 priority 10 k;
          (case r of
             None \<Rightarrow> Some (None, k)
           | Some t \<Rightarrow> do {
               let k = upd_workq q (\<lambda>x. x\<lparr>wkq_work_thread := t\<rparr>) k;
               (_, k) \<leftarrow> rt_thread_startup t k;
               Some (Some q, k) }) })"

text \<open>The loops of \<^verbatim>\<open>rt_workqueue_cancel_all_work\<close>, on the first or the second list.\<close>

partial_function (option) cancel_works :: "(workqueue \<Rightarrow> nat list) \<Rightarrow> nat \<Rightarrow> kernel \<Rightarrow> kernel option" where
  "cancel_works sel q k =
     (case sel (workq_of k q) of
        [] \<Rightarrow> Some k
      | w # ws \<Rightarrow> do { (_, k) \<leftarrow> workqueue_cancel_work q w k; cancel_works sel q k })"

definition rt_workqueue_cancel_all_work :: "nat \<Rightarrow> kernel \<Rightarrow> (rt_err \<times> kernel) option" where
  "rt_workqueue_cancel_all_work q k = do {
     k \<leftarrow> cancel_works wkq_work_list q (rt_enter_critical k);
     k \<leftarrow> cancel_works wkq_delayed_list q k;
     k \<leftarrow> rt_exit_critical k;
     Some (RT_EOK, k) }"

definition rt_workqueue_destroy :: "nat \<Rightarrow> kernel \<Rightarrow> (rt_err \<times> kernel) option" where
  "rt_workqueue_destroy q k = do {
     (_, k) \<leftarrow> rt_workqueue_cancel_all_work q k;
     (_, k) \<leftarrow> rt_thread_delete (work_thread k q) k;
     (_, k) \<leftarrow> rt_sem_detach (wkq_sem (workq_of k q)) k;
     Some (RT_EOK, k) }"

definition rt_workqueue_dowork :: "nat \<Rightarrow> nat \<Rightarrow> kernel \<Rightarrow> (rt_err \<times> kernel) option" where
  "rt_workqueue_dowork q w k = workqueue_submit_work q w 0 k"

definition rt_workqueue_submit_work :: "nat \<Rightarrow> nat \<Rightarrow> u32 \<Rightarrow> kernel \<Rightarrow> (rt_err \<times> kernel) option" where
  "rt_workqueue_submit_work q w ticks k = do {
     rt_assert (ticks < half_tick_max);
     workqueue_submit_work q w ticks k }"

definition rt_workqueue_urgent_work :: "nat \<Rightarrow> nat \<Rightarrow> kernel \<Rightarrow> (rt_err \<times> kernel) option" where
  "rt_workqueue_urgent_work q w k = do {
     let k = work_unlink w k;
     let k = upd_workq q (\<lambda>x. x\<lparr>wkq_work_list := w # wkq_work_list x\<rparr>) k;
     k \<leftarrow> workqueue_wake q k;
     Some (RT_EOK, k) }"

definition rt_workqueue_cancel_work :: "nat \<Rightarrow> nat \<Rightarrow> kernel \<Rightarrow> (rt_err \<times> kernel) option" where
  "rt_workqueue_cancel_work q w k = workqueue_cancel_work q w k"

text \<open>\<open>Waiting t\<close>: the caller waits for the completion of its work on the queue's semaphore.\<close>

definition rt_workqueue_cancel_work_sync ::
    "nat \<Rightarrow> nat \<Rightarrow> kernel \<Rightarrow> ((tid, rt_err) outcome \<times> kernel) option" where
  "rt_workqueue_cancel_work_sync q w k =
     (if work_current k q = Some w
      then do {
        (res, k) \<leftarrow> rt_sem_take (wkq_sem (workq_of k q)) RT_WAITING_FOREVER k;
        Some (case res of Waiting t \<Rightarrow> Waiting t | Returned _ \<Rightarrow> Returned RT_EOK, k) }
      else do {
        (_, k) \<leftarrow> workqueue_cancel_work q w k;
        Some (Returned RT_EOK, k) })"

text \<open>The system's work queue, whose address is in \<^verbatim>\<open>sys_workq\<close>.\<close>

definition rt_work_submit :: "nat \<Rightarrow> nat \<Rightarrow> u32 \<Rightarrow> kernel \<Rightarrow> (rt_err \<times> kernel) option" where
  "rt_work_submit sys_workq w ticks k = rt_workqueue_submit_work sys_workq w ticks k"

definition rt_work_urgent :: "nat \<Rightarrow> nat \<Rightarrow> kernel \<Rightarrow> (rt_err \<times> kernel) option" where
  "rt_work_urgent sys_workq w k = rt_workqueue_urgent_work sys_workq w k"

definition rt_work_cancel :: "nat \<Rightarrow> nat \<Rightarrow> kernel \<Rightarrow> (rt_err \<times> kernel) option" where
  "rt_work_cancel sys_workq w k = rt_workqueue_cancel_work sys_workq w k"


section \<open>Frames\<close>

lemma upd_work_fields [simp]:
  "work_of (upd_work w f k) v = (if v = w then f (work_of k w) else work_of k v)"
  "workqueues (devs (upd_work w f k)) = workqueues (devs k)"
  "threads (upd_work w f k) = threads k" "waitq (upd_work w f k) = waitq k"
  "thread_stat (upd_work w f k) = thread_stat k" "sems (upd_work w f k) = sems k"
  "timers (upd_work w f k) = timers k" "timer_list (upd_work w f k) = timer_list k"
  "timer_tmp (upd_work w f k) = timer_tmp k" "rt_tick (upd_work w f k) = rt_tick k"
  "rt_current_thread (upd_work w f k) = rt_current_thread k"
  "rt_scheduler_lock_nest (upd_work w f k) = rt_scheduler_lock_nest k"
  "kernel_ok (upd_work w f k) = kernel_ok k"
  by (simp_all add: upd_work_def thread_stat_def fun_eq_iff)

lemma upd_workq_fields [simp]:
  "workq_of (upd_workq q f k) r = (if r = q then f (workq_of k q) else workq_of k r)"
  "works (devs (upd_workq q f k)) = works (devs k)"
  "threads (upd_workq q f k) = threads k" "waitq (upd_workq q f k) = waitq k"
  "thread_stat (upd_workq q f k) = thread_stat k" "sems (upd_workq q f k) = sems k"
  "timers (upd_workq q f k) = timers k" "timer_list (upd_workq q f k) = timer_list k"
  "timer_tmp (upd_workq q f k) = timer_tmp k" "rt_tick (upd_workq q f k) = rt_tick k"
  "rt_current_thread (upd_workq q f k) = rt_current_thread k"
  "rt_scheduler_lock_nest (upd_workq q f k) = rt_scheduler_lock_nest k"
  "kernel_ok (upd_workq q f k) = kernel_ok k"
  by (simp_all add: upd_workq_def thread_stat_def fun_eq_iff)

lemma work_unlink_fields [simp]:
  "work_list (work_unlink w k) q = removeAll w (work_list k q)"
  "delayed_list (work_unlink w k) q = removeAll w (delayed_list k q)"
  "work_current (work_unlink w k) q = work_current k q" "work_thread (work_unlink w k) q = work_thread k q"
  "wkq_sem (workq_of (work_unlink w k) q) = wkq_sem (workq_of k q)"
  "works (devs (work_unlink w k)) = works (devs k)"
  "threads (work_unlink w k) = threads k" "waitq (work_unlink w k) = waitq k"
  "thread_stat (work_unlink w k) = thread_stat k" "sems (work_unlink w k) = sems k"
  "timers (work_unlink w k) = timers k" "timer_list (work_unlink w k) = timer_list k"
  "timer_tmp (work_unlink w k) = timer_tmp k" "rt_tick (work_unlink w k) = rt_tick k"
  "rt_current_thread (work_unlink w k) = rt_current_thread k"
  "rt_scheduler_lock_nest (work_unlink w k) = rt_scheduler_lock_nest k"
  "kernel_ok (work_unlink w k) = kernel_ok k"
  by (simp_all add: work_unlink_def thread_stat_def fun_eq_iff)

lemma work_class_frames [simp]:
  "class_frame Work_class k (upd_work w f k)" "class_frame Work_class k (upd_workq q g k)"
  "class_frame Work_class k (work_unlink w k)"
proof -
  have "same_store B k (upd_work w f k) \<and> same_store B k (upd_workq q g k)
      \<and> same_store B k (work_unlink w k)" if "B \<noteq> Work_class" for B
    using that by (cases B) (simp_all add: upd_work_def upd_workq_def work_unlink_def)
  then show "class_frame Work_class k (upd_work w f k)" "class_frame Work_class k (upd_workq q g k)"
    "class_frame Work_class k (work_unlink w k)"
    by (simp_all add: class_frame_def upd_work_def upd_workq_def work_unlink_def)
qed

text \<open>The timer and scheduler calls leave works and queues alone.\<close>

lemma timer_only_devs: "timer_only k k' \<Longrightarrow> devs k' = devs k"
  by (simp add: timer_only_def stores_same_def)

lemma timer_ops_devs [simp]:
  "devs (snd (rt_timer_start t k)) = devs k" "devs (snd (rt_timer_stop t k)) = devs k"
  "devs (upd_timer t f k) = devs k" "devs (timer_remove t k) = devs k"
  using timer_only_devs [OF timer_only_start] by (simp_all add: rt_timer_stop_def upd_timer_def timer_remove_def)

lemma thread_level_devs: "thread_level k k' \<Longrightarrow> devs k' = devs k"
  by (simp add: thread_level_def obj_frameD(8))

section \<open>A work is on one list at most\<close>

definition work_lists :: "kernel \<Rightarrow> nat \<Rightarrow> nat list" where
  "work_lists k q = work_list k q @ delayed_list k q"

text \<open>
  A work that is marked as pending is on a list of works and is not what its queue runs; a work on a
  delay list is marked as submitted and names its queue.
\<close>

definition work_inv :: "kernel \<Rightarrow> bool" where
  "work_inv k \<longleftrightarrow> (\<forall>q. distinct (work_lists k q))
     \<and> (\<forall>q r w. w \<in> set (work_lists k q) \<longrightarrow> w \<in> set (work_lists k r) \<longrightarrow> q = r)
     \<and> (\<forall>w. work_has k w RT_WORK_STATE_PENDING \<longrightarrow> (\<exists>q. w \<in> set (work_list k q)))
     \<and> (\<forall>q w. work_has k w RT_WORK_STATE_PENDING \<longrightarrow> wk_workqueue (work_of k w) = Some q
          \<longrightarrow> work_current k q \<noteq> Some w)
     \<and> (\<forall>q w. w \<in> set (delayed_list k q)
          \<longrightarrow> work_has k w RT_WORK_STATE_SUBMITTING \<and> wk_workqueue (work_of k w) = Some q)"

definition work_free :: "kernel \<Rightarrow> nat \<Rightarrow> bool" where
  "work_free k w \<longleftrightarrow> (\<forall>q. w \<notin> set (work_lists k q))"

interpretation wks: ipc_store Work_class work_inv
  by unfold_locales (simp add: work_inv_def work_lists_def)

abbreviation "work_step \<equiv> class_step Work_class work_inv"

lemma work_lists_set: "w \<in> set (work_lists k q) \<longleftrightarrow> w \<in> set (work_list k q) \<or> w \<in> set (delayed_list k q)"
  by (simp add: work_lists_def)

lemma work_inv_list:
  assumes "work_inv k" "w \<in> set (work_list k q)"
  shows "w \<notin> set (delayed_list k r)"
proof
  assume r: "w \<in> set (delayed_list k r)"
  have one: "\<forall>q r w. w \<in> set (work_lists k q) \<longrightarrow> w \<in> set (work_lists k r) \<longrightarrow> q = r"
    and d: "distinct (work_lists k q)" using assms(1) unfolding work_inv_def by blast+
  have "w \<in> set (work_lists k q)" "w \<in> set (work_lists k r)" using r assms(2) by (simp_all add: work_lists_set)
  then have "q = r" using one by blast
  then show False using d r assms(2) by (auto simp: work_lists_def)
qed

text \<open>Moving one work: the others keep their places and their flags.\<close>

lemma work_inv_move:
  assumes i: "work_inv k" and d: "\<And>q. distinct (work_lists k' q)"
    and l: "\<And>q v. v \<noteq> w \<Longrightarrow> v \<in> set (work_list k' q) \<longleftrightarrow> v \<in> set (work_list k q)"
      "\<And>q v. v \<noteq> w \<Longrightarrow> v \<in> set (delayed_list k' q) \<longleftrightarrow> v \<in> set (delayed_list k q)"
    and o: "\<And>v. v \<noteq> w \<Longrightarrow> work_of k' v = work_of k v"
    and c: "\<And>q v. v \<noteq> w \<Longrightarrow> work_current k' q = Some v \<Longrightarrow> work_current k q = Some v"
      "\<And>q. work_has k' w RT_WORK_STATE_PENDING \<Longrightarrow> wk_workqueue (work_of k' w) = Some q
        \<Longrightarrow> work_current k' q \<noteq> Some w"
    and one: "\<And>q r. w \<in> set (work_lists k' q) \<Longrightarrow> w \<in> set (work_lists k' r) \<Longrightarrow> q = r"
    and p: "work_has k' w RT_WORK_STATE_PENDING \<Longrightarrow> \<exists>q. w \<in> set (work_list k' q)"
    and s: "\<And>q. w \<in> set (delayed_list k' q)
      \<Longrightarrow> work_has k' w RT_WORK_STATE_SUBMITTING \<and> wk_workqueue (work_of k' w) = Some q"
  shows "work_inv k'"
  unfolding work_inv_def
proof (intro conjI allI impI)
  fix q r v
  show "distinct (work_lists k' q)" by (rule d)
  show "q = r" if "v \<in> set (work_lists k' q)" "v \<in> set (work_lists k' r)"
  proof (cases "v = w")
    case True then show ?thesis using one that by simp
  next
    case False
    then have "v \<in> set (work_lists k q)" "v \<in> set (work_lists k r)" using that l by (auto simp: work_lists_set)
    then show ?thesis using i unfolding work_inv_def by blast
  qed
  show "\<exists>q. v \<in> set (work_list k' q)" if "work_has k' v RT_WORK_STATE_PENDING"
  proof (cases "v = w")
    case True then show ?thesis using p that by simp
  next
    case False
    then have "work_has k v RT_WORK_STATE_PENDING" using that o by simp
    then have "\<exists>q. v \<in> set (work_list k q)" using i unfolding work_inv_def by blast
    then show ?thesis using l(1) [OF False] by blast
  qed
  show "work_current k' q \<noteq> Some v"
    if "work_has k' v RT_WORK_STATE_PENDING" "wk_workqueue (work_of k' v) = Some q"
  proof (cases "v = w")
    case True then show ?thesis using c(2) that by simp
  next
    case False
    then have "work_has k v RT_WORK_STATE_PENDING" "wk_workqueue (work_of k v) = Some q" using that o by simp_all
    then have "work_current k q \<noteq> Some v" using i unfolding work_inv_def by blast
    then show ?thesis using c(1) [OF False] by blast
  qed
  assume m: "v \<in> set (delayed_list k' q)"
  have "work_has k' v RT_WORK_STATE_SUBMITTING \<and> wk_workqueue (work_of k' v) = Some q"
  proof (cases "v = w")
    case True then show ?thesis using s m by simp
  next
    case False
    then have "v \<in> set (delayed_list k q)" using m l(2) by simp
    then show ?thesis using i o [OF False] unfolding work_inv_def by simp
  qed
  then show "work_has k' v RT_WORK_STATE_SUBMITTING" "wk_workqueue (work_of k' v) = Some q" by simp_all
qed

lemma work_inv_distinct: "work_inv k \<Longrightarrow> distinct (work_lists k q)"
  by (simp add: work_inv_def)

lemma work_flags_nonzero [simp]: "RT_WORK_STATE_PENDING \<noteq> 0" "RT_WORK_STATE_SUBMITTING \<noteq> 0"
  by (simp_all add: RT_WORK_STATE_PENDING_def RT_WORK_STATE_SUBMITTING_def)

lemma work_flags_disjoint [simp]: "RT_WORK_STATE_PENDING AND RT_WORK_STATE_SUBMITTING = 0"
  by (simp add: RT_WORK_STATE_PENDING_def RT_WORK_STATE_SUBMITTING_def)

lemma work_flag_bits [simp]:
  "(f AND NOT RT_WORK_STATE_PENDING) AND RT_WORK_STATE_PENDING = 0"
  "(f OR RT_WORK_STATE_PENDING) AND RT_WORK_STATE_PENDING \<noteq> 0"
  "(f OR RT_WORK_STATE_SUBMITTING) AND RT_WORK_STATE_SUBMITTING \<noteq> 0"
  "(f AND NOT RT_WORK_STATE_PENDING) AND RT_WORK_STATE_SUBMITTING = f AND RT_WORK_STATE_SUBMITTING"
  "(f OR RT_WORK_STATE_PENDING) AND RT_WORK_STATE_SUBMITTING = f AND RT_WORK_STATE_SUBMITTING"
  "(f OR RT_WORK_STATE_SUBMITTING) AND RT_WORK_STATE_PENDING = f AND RT_WORK_STATE_PENDING"
  "(f AND NOT RT_WORK_STATE_SUBMITTING) AND RT_WORK_STATE_PENDING = f AND RT_WORK_STATE_PENDING"
  "(f AND NOT RT_WORK_STATE_SUBMITTING) AND RT_WORK_STATE_SUBMITTING = 0"
proof -
  have b: "bit (1 :: u16) n \<longleftrightarrow> n = 0" "bit (2 :: u16) n \<longleftrightarrow> n = 1" for n
    using bit_exp_iff [where m = 1 and 'a = u16, of n] by (auto simp: bit_1_iff)
  show "(f AND NOT RT_WORK_STATE_PENDING) AND RT_WORK_STATE_PENDING = 0"
    "(f AND NOT RT_WORK_STATE_PENDING) AND RT_WORK_STATE_SUBMITTING = f AND RT_WORK_STATE_SUBMITTING"
    "(f OR RT_WORK_STATE_PENDING) AND RT_WORK_STATE_SUBMITTING = f AND RT_WORK_STATE_SUBMITTING"
    "(f OR RT_WORK_STATE_SUBMITTING) AND RT_WORK_STATE_PENDING = f AND RT_WORK_STATE_PENDING"
    "(f AND NOT RT_WORK_STATE_SUBMITTING) AND RT_WORK_STATE_PENDING = f AND RT_WORK_STATE_PENDING"
    "(f AND NOT RT_WORK_STATE_SUBMITTING) AND RT_WORK_STATE_SUBMITTING = 0"
    by (rule bit_eqI; auto simp: bit_simps RT_WORK_STATE_PENDING_def RT_WORK_STATE_SUBMITTING_def b)+
  have "bit ((f OR RT_WORK_STATE_PENDING) AND RT_WORK_STATE_PENDING) 0"
    "bit ((f OR RT_WORK_STATE_SUBMITTING) AND RT_WORK_STATE_SUBMITTING) 1"
    by (simp_all add: bit_simps RT_WORK_STATE_PENDING_def RT_WORK_STATE_SUBMITTING_def b)
  then show "(f OR RT_WORK_STATE_PENDING) AND RT_WORK_STATE_PENDING \<noteq> 0"
    "(f OR RT_WORK_STATE_SUBMITTING) AND RT_WORK_STATE_SUBMITTING \<noteq> 0" by force+
qed


lemma work_step_move:
  assumes s: "work_step k k1" and o: "kernel_ok k2" "class_frame Work_class k1 k2"
    and i: "work_inv k1 \<Longrightarrow> work_inv k2"
  shows "work_step k k2"
  by (rule class_stepI [where I = work_inv, OF o(1) i [OF class_stepD(2) [OF s]]
        class_frame_trans [OF class_stepD(3) [OF s] o(2)]])

lemma work_class_frame_trans: "class_frame Work_class k k1 \<Longrightarrow> class_frame Work_class k1 k2 \<Longrightarrow> class_frame Work_class k k2"
  by (rule class_frame_trans)

lemma work_free_pending: "work_inv k \<Longrightarrow> work_free k w \<Longrightarrow> \<not> work_has k w RT_WORK_STATE_PENDING"
  unfolding work_inv_def work_free_def work_lists_set by blast

section \<open>The steps of the operations keep it\<close>

text \<open>The first lines of a submission and of a cancellation.\<close>

definition work_take :: "nat \<Rightarrow> kernel \<Rightarrow> kernel" where
  "work_take w k = upd_work w (clear_work_flag RT_WORK_STATE_PENDING) (work_unlink w k)"

lemma work_take_step:
  assumes s: "work_step k k1"
  shows "work_step k (work_take w k1)" "work_free (work_take w k1) w"
proof -
  show "work_free (work_take w k1) w" by (simp add: work_free_def work_lists_def work_take_def)
  show "work_step k (work_take w k1)"
  proof (rule work_step_move [OF s])
    show "kernel_ok (work_take w k1)" using class_stepD(1) [OF s] by (simp add: work_take_def)
    show "class_frame Work_class k1 (work_take w k1)"
      unfolding work_take_def by (rule work_class_frame_trans [where ?k1.0 = "work_unlink w k1"]) simp_all
    show "work_inv (work_take w k1)" if i: "work_inv k1"
      by (rule work_inv_move [OF i, where w = w])
        (use work_inv_distinct [OF i] in \<open>auto simp: work_take_def work_lists_def distinct_removeAll clear_work_flag_def\<close>)
  qed
qed

lemma work_upd_free_step:
  assumes s: "work_step k k1" and w: "work_free k1 w"
    and p: "\<And>x. wk_flags x AND RT_WORK_STATE_PENDING = 0 \<Longrightarrow> wk_flags (f x) AND RT_WORK_STATE_PENDING = 0"
  shows "work_step k (upd_work w f k1)" "work_free (upd_work w f k1) w"
proof -
  show "work_free (upd_work w f k1) w" using w by (simp add: work_free_def work_lists_def)
  show "work_step k (upd_work w f k1)"
  proof (rule work_step_move [OF s])
    show "kernel_ok (upd_work w f k1)" using class_stepD(1) [OF s] by simp
    show "work_inv (upd_work w f k1)" if i: "work_inv k1"
    proof (rule work_inv_move [OF i, where w = w])
      show "distinct (work_lists (upd_work w f k1) q)" for q
        using work_inv_distinct [OF i, of q] by (simp add: work_lists_def)
    qed (use w p work_free_pending [OF i w] in \<open>simp_all add: work_free_def work_lists_def\<close>)
  qed simp
qed

lemma work_append_step:
  assumes s: "work_step k k1" and w: "work_free k1 w" and c: "work_current k1 q \<noteq> Some w"
    and f: "wk_workqueue (f (work_of k1 w)) = Some q"
  shows "work_step k (upd_work w f (upd_workq q (\<lambda>x. x\<lparr>wkq_work_list := wkq_work_list x @ [w]\<rparr>) k1))"
    (is "work_step k ?k")
proof (rule work_step_move [OF s])
  show "kernel_ok ?k" using class_stepD(1) [OF s] by simp
  show "class_frame Work_class k1 ?k"
    by (rule work_class_frame_trans [OF work_class_frames(2) work_class_frames(1)])
  show "work_inv ?k" if i: "work_inv k1"
    by (rule work_inv_move [OF i, where w = w])
      (use work_inv_distinct [OF i] w c f in \<open>auto simp: work_lists_def work_free_def split: if_splits\<close>)
qed


lemma work_delay_step:
  assumes s: "work_step k k1" and w: "work_free k1 w" and f: "work_has k1 w RT_WORK_STATE_SUBMITTING"
    and q: "wk_workqueue (work_of k1 w) = Some q"
  shows "work_step k (upd_workq q (\<lambda>x. x\<lparr>wkq_delayed_list := wkq_delayed_list x @ [w]\<rparr>) k1)"
    (is "work_step k ?k")
proof (rule work_step_move [OF s])
  show "kernel_ok ?k" using class_stepD(1) [OF s] by simp
  show "work_inv ?k" if i: "work_inv k1"
    by (rule work_inv_move [OF i, where w = w])
      (use work_inv_distinct [OF i] work_free_pending [OF i w] w f q in
        \<open>auto simp: work_lists_def work_free_def split: if_splits\<close>)
qed simp

lemma workqueue_wake_level:
  assumes k: "kernel_ok k" and r: "workqueue_wake q k = Some k'"
  shows "kernel_ok k'" "thread_level k k'"
proof -
  note R = rt_thread_resume_ok(1) [OF k] rt_thread_resume_thread_level [OF k]
  show "kernel_ok k'"
    using r k rt_schedule_kernel_ok [OF R(1)] by (auto simp: workqueue_wake_def split: if_splits)
  show "thread_level k k'"
    using r thread_level_trans [OF R(2) rt_schedule_thread_level [OF R(1)]]
    by (auto simp: workqueue_wake_def split: if_splits)
qed

lemma workqueue_wake_step: "work_step k k1 \<Longrightarrow> workqueue_wake q k1 = Some k2 \<Longrightarrow> work_step k k2"
  using wks.step_thread_level workqueue_wake_level class_stepD(1) by blast

lemma work_timer_steps:
  assumes s: "work_step k k1"
  shows "work_step k (snd (rt_timer_start (UserTimer w) k1))" "work_step k (snd (rt_timer_stop (UserTimer w) k1))"
    "rt_timer_control (UserTimer w) RT_TIMER_CTRL_SET_TIME n k1 = Some (e, a, k2) \<Longrightarrow> work_step k k2"
    "rt_timer_detach (UserTimer w) k1 = Some (e, k2) \<Longrightarrow> work_step k k2"
    "UserTimer w \<notin> set (timer_list k1) \<Longrightarrow> rt_timer_init (UserTimer w) n f k1 = Some k2 \<Longrightarrow> work_step k k2"
proof -
  note k = class_stepD(1) [OF s]
  note step = wks.step_thread_level [OF s]
  show "work_step k (snd (rt_timer_start (UserTimer w) k1))" "work_step k (snd (rt_timer_stop (UserTimer w) k1))"
    by (rule step [OF user_timer_ok(1,2) [OF k]] step [OF user_timer_ok(3,4) [OF k]])+
  show "work_step k k2" if r: "rt_timer_control (UserTimer w) RT_TIMER_CTRL_SET_TIME n k1 = Some (e, a, k2)"
  proof -
    have k2: "k2 = upd_timer (UserTimer w) (\<lambda>x. x\<lparr>tm_init_tick := n\<rparr>) k1"
      using r by (auto simp: rt_timer_control_set_time split: if_splits)
    have "UserTimer w \<in> set (timer_list k1) \<Longrightarrow> activated k1 (UserTimer w)"
      using kernel_okD(2) [OF k] by (simp add: timer_inv_def)
    then show ?thesis unfolding k2 by (intro step upd_user_timer_ok [OF k refl]) (simp_all add: timer_flag_set_def)
  qed
  show "work_step k k2" if "rt_timer_detach (UserTimer w) k1 = Some (e, k2)"
    using that step [OF timer_unlink_ok [OF k refl]] by (auto simp: rt_timer_detach_def)
  show "work_step k k2" if l: "UserTimer w \<notin> set (timer_list k1)"
    and r: "rt_timer_init (UserTimer w) n f k1 = Some k2"
  proof -
    define g :: "timer \<Rightarrow> timer" where "g = (\<lambda>_. \<lparr>tm_flag = f AND NOT RT_TIMER_FLAG_ACTIVATED,
      tm_init_tick = n, tm_timeout_tick = 0, tm_static = True\<rparr>)"
    have k2: "k2 = upd_timer (UserTimer w) g k1"
      using r by (auto simp: rt_timer_init_def timer_init_fields_def g_def split: if_splits)
    have "(f AND NOT RT_TIMER_FLAG_ACTIVATED) AND RT_TIMER_FLAG_ACTIVATED = 0" by (simp add: and.assoc)
    then have "\<not> timer_flag_set (g (timers k1 (UserTimer w))) RT_TIMER_FLAG_ACTIVATED"
      by (simp add: g_def timer_flag_set_def)
    then show ?thesis unfolding k2 using l by (intro step upd_user_timer_ok [OF k refl]) auto
  qed
qed

section \<open>The operations keep it\<close>

text \<open>
  The timer of a work that is not marked as submitted is not running: what \<^verbatim>\<open>rt_timer_init\<close> needs of its
  caller.
\<close>

definition work_timer_idle :: "kernel \<Rightarrow> nat \<Rightarrow> bool" where
  "work_timer_idle k w \<longleftrightarrow> (\<not> work_has k w RT_WORK_STATE_SUBMITTING \<longrightarrow> UserTimer w \<notin> set (timer_list k))"

lemma submit_eq:
  "workqueue_submit_work q w ticks k =
     (let k = work_take w k in
      if ticks = 0
      then if work_current k q \<noteq> Some w
        then do { k \<leftarrow> workqueue_wake q
                   (upd_work w (\<lambda>x. (set_work_flag RT_WORK_STATE_PENDING x)\<lparr>wk_workqueue := Some q\<rparr>)
                     (upd_workq q (\<lambda>x. x\<lparr>wkq_work_list := wkq_work_list x @ [w]\<rparr>) k));
                  Some (RT_EOK, k) }
        else do { k \<leftarrow> workqueue_wake q k; Some (RT_EBUSY, k) }
      else if ticks < half_tick_max
      then do {
        k \<leftarrow> (if work_has k w RT_WORK_STATE_SUBMITTING
              then do {
                (_, _, k) \<leftarrow> rt_timer_control (UserTimer w) RT_TIMER_CTRL_SET_TIME ticks
                               (snd (rt_timer_stop (UserTimer w) k));
                Some k }
              else do {
                k \<leftarrow> rt_timer_init (UserTimer w) ticks (RT_TIMER_FLAG_ONE_SHOT OR RT_TIMER_FLAG_SOFT_TIMER) k;
                Some (upd_work w (set_work_flag RT_WORK_STATE_SUBMITTING) k) });
        let k = upd_work w (\<lambda>x. x\<lparr>wk_workqueue := Some q\<rparr>) k;
        let k = upd_workq q (\<lambda>x. x\<lparr>wkq_delayed_list := wkq_delayed_list x @ [w]\<rparr>) k;
        Some (RT_EOK, snd (rt_timer_start (UserTimer w) k)) }
      else Some (RT_ERROR, k))"
  by (simp add: workqueue_submit_work_def work_take_def Let_def)

lemma workqueue_submit_work_ok [inv_intros]:
  assumes k: "kernel_ok k" and i: "work_inv k" and t: "work_timer_idle k w"
    and r: "workqueue_submit_work q w ticks k = Some (e, k')"
  shows "work_step k k'"
proof -
  let ?t = "work_take w k"
  note T = work_take_step [OF wks.step_refl [OF k i], of w]
  consider (add) "work_current ?t q \<noteq> Some w" "workqueue_wake q
        (upd_work w (\<lambda>x. (set_work_flag RT_WORK_STATE_PENDING x)\<lparr>wk_workqueue := Some q\<rparr>)
          (upd_workq q (\<lambda>x. x\<lparr>wkq_work_list := wkq_work_list x @ [w]\<rparr>) ?t)) = Some k'"
    | (busy) "workqueue_wake q ?t = Some k'"
    | (delay) k1 where "work_step k k1" "work_free k1 w" "work_has k1 w RT_WORK_STATE_SUBMITTING"
        "k' = snd (rt_timer_start (UserTimer w) (upd_workq q (\<lambda>x. x\<lparr>wkq_delayed_list := wkq_delayed_list x @ [w]\<rparr>)
           (upd_work w (\<lambda>x. x\<lparr>wk_workqueue := Some q\<rparr>) k1)))"
    | (bad) "k' = ?t"
  proof (cases "ticks = 0 \<or> \<not> ticks < half_tick_max")
    case True
    then show ?thesis
      using r add busy bad by (auto simp: submit_eq Let_def bind_eq_Some_conv split: if_splits)
  next
    case False
    let ?c = "if work_has ?t w RT_WORK_STATE_SUBMITTING
              then do {
                (_, _, k) \<leftarrow> rt_timer_control (UserTimer w) RT_TIMER_CTRL_SET_TIME ticks
                               (snd (rt_timer_stop (UserTimer w) ?t));
                Some k }
              else do {
                k \<leftarrow> rt_timer_init (UserTimer w) ticks (RT_TIMER_FLAG_ONE_SHOT OR RT_TIMER_FLAG_SOFT_TIMER) ?t;
                Some (upd_work w (set_work_flag RT_WORK_STATE_SUBMITTING) k) }"
    from False r obtain k1 where k1: "?c = Some k1"
      and k': "k' = snd (rt_timer_start (UserTimer w) (upd_workq q (\<lambda>x. x\<lparr>wkq_delayed_list := wkq_delayed_list x @ [w]\<rparr>)
           (upd_work w (\<lambda>x. x\<lparr>wk_workqueue := Some q\<rparr>) k1)))"
      unfolding submit_eq Let_def by (auto simp only: if_False bind_eq_Some_conv not_not de_Morgan_disj if_True)
    have "work_step k k1 \<and> work_free k1 w \<and> work_has k1 w RT_WORK_STATE_SUBMITTING"
    proof (cases "work_has ?t w RT_WORK_STATE_SUBMITTING")
      case True
      with k1 obtain e a where c: "rt_timer_control (UserTimer w) RT_TIMER_CTRL_SET_TIME ticks
          (snd (rt_timer_stop (UserTimer w) ?t)) = Some (e, a, k1)" by (auto simp: bind_eq_Some_conv)
      note s = work_timer_steps(3) [OF work_timer_steps(2) [OF T(1)] c]
      have "devs k1 = devs ?t" using c by (auto simp: rt_timer_control_set_time split: if_splits)
      with T(2) True s show ?thesis by (simp add: work_free_def work_lists_def)
    next
      case False
      with k1 obtain k2 where c: "rt_timer_init (UserTimer w) ticks
          (RT_TIMER_FLAG_ONE_SHOT OR RT_TIMER_FLAG_SOFT_TIMER) ?t = Some k2"
        and k1: "k1 = upd_work w (set_work_flag RT_WORK_STATE_SUBMITTING) k2" by (auto simp: bind_eq_Some_conv)
      have "UserTimer w \<notin> set (timer_list ?t)"
        using False t by (simp add: work_take_def work_timer_idle_def clear_work_flag_def)
      from work_timer_steps(5) [OF T(1) this c] have s: "work_step k k2" .
      have "devs k2 = devs ?t" using c by (auto simp: rt_timer_init_def timer_init_fields_def split: if_splits)
      then have "work_free k2 w" using T(2) by (simp add: work_free_def work_lists_def)
      with work_upd_free_step [OF s this, of "set_work_flag RT_WORK_STATE_SUBMITTING"] show ?thesis
        by (simp add: k1 set_work_flag_def)
    qed
    then show ?thesis using delay k' by blast
  qed
  then show ?thesis
  proof cases
    case add
    show ?thesis by (rule workqueue_wake_step [OF work_append_step [OF T add(1)] add(2)]) simp
  next
    case busy
    then show ?thesis by (rule workqueue_wake_step [OF T(1)])
  next
    case (delay k1)
    let ?u = "upd_work w (\<lambda>x. x\<lparr>wk_workqueue := Some q\<rparr>) k1"
    have u: "work_step k ?u" "work_free ?u w" by (rule work_upd_free_step [OF delay(1,2)]; simp)+
    show ?thesis unfolding delay(4)
      by (rule work_timer_steps(1) [OF work_delay_step [OF u]]) (use delay(3) in simp_all)
  next
    case bad
    with T(1) show ?thesis by simp
  qed
qed


lemma workqueue_cancel_work_ok [inv_intros]:
  assumes s: "work_step k k1" and r: "workqueue_cancel_work q w k1 = Some (e, k')"
  shows "work_step k k'" "work_free k' w" "wk_workqueue (work_of k' w) = None"
    "\<not> work_has k' w RT_WORK_STATE_SUBMITTING" "\<not> work_has k' w RT_WORK_STATE_PENDING"
    "e = (if work_current k1 q = Some w then RT_EBUSY else RT_EOK)" "work_timer_idle k1 w \<Longrightarrow> UserTimer w \<notin> set (timer_list k')"
    "work_list k' r = removeAll w (work_list k1 r)" "delayed_list k' r = removeAll w (delayed_list k1 r)"
    "work_current k' r = work_current k1 r" "rt_scheduler_lock_nest k' = rt_scheduler_lock_nest k1"
proof -
  let ?t = "work_take w k1"
  note T = work_take_step [OF s, of w]
  obtain k2 where k2: "work_step k k2" "work_free k2 w" "\<not> work_has k2 w RT_WORK_STATE_SUBMITTING"
    "workqueues (devs k2) = workqueues (devs ?t)" "rt_scheduler_lock_nest k2 = rt_scheduler_lock_nest k1"
    "\<not> work_has k2 w RT_WORK_STATE_PENDING" "work_timer_idle k1 w \<Longrightarrow> UserTimer w \<notin> set (timer_list k2)"
    and e: "e = (if work_current k2 q \<noteq> Some w then RT_EOK else RT_EBUSY)"
    and k': "k' = upd_work w (\<lambda>x. x\<lparr>wk_workqueue := None\<rparr>) k2"
  proof (cases "work_has ?t w RT_WORK_STATE_SUBMITTING")
    case True
    then obtain a k3 where d: "rt_timer_detach (UserTimer w) (snd (rt_timer_stop (UserTimer w) ?t)) = Some (a, k3)"
      and e: "e = (if work_current k3 q \<noteq> Some w then RT_EOK else RT_EBUSY)"
      and k': "k' = upd_work w (\<lambda>x. x\<lparr>wk_workqueue := None\<rparr>) (upd_work w (clear_work_flag RT_WORK_STATE_SUBMITTING) k3)"
      using r by (auto simp: workqueue_cancel_work_def work_take_def Let_def bind_eq_Some_conv)
    have s3: "work_step k k3" by (rule work_timer_steps(4) [OF work_timer_steps(2) [OF T(1)] d])
    have d3: "devs k3 = devs ?t" "rt_scheduler_lock_nest k3 = rt_scheduler_lock_nest ?t"
      using d by (auto simp: rt_timer_detach_def rt_timer_stop_def upd_timer_def timer_remove_def)
    then have w3: "work_free k3 w" using T(2) by (simp add: work_free_def work_lists_def)
    have l3: "UserTimer w \<notin> set (timer_list k3)" using d by (auto simp: rt_timer_detach_def upd_timer_def timer_remove_def)
    from work_upd_free_step [OF s3 w3, of "clear_work_flag RT_WORK_STATE_SUBMITTING"] that [OF _ _ _ _ _ _ _ _ k'] e d3 l3
    show ?thesis by (simp add: clear_work_flag_def work_take_def)
  next
    case False
    with r have "e = (if work_current ?t q \<noteq> Some w then RT_EOK else RT_EBUSY)"
      "k' = upd_work w (\<lambda>x. x\<lparr>wk_workqueue := None\<rparr>) ?t"
      by (simp_all add: workqueue_cancel_work_def work_take_def Let_def bind_eq_Some_conv)
    with that [OF T False] False show ?thesis by (simp add: work_take_def clear_work_flag_def work_timer_idle_def)
  qed
  show "work_step k k'" "work_free k' w" unfolding k' by (rule work_upd_free_step [OF k2(1,2)]; simp)+
  show "wk_workqueue (work_of k' w) = None" "\<not> work_has k' w RT_WORK_STATE_SUBMITTING"
    "\<not> work_has k' w RT_WORK_STATE_PENDING" "work_timer_idle k1 w \<Longrightarrow> UserTimer w \<notin> set (timer_list k')"
    "work_list k' r = removeAll w (work_list k1 r)" "delayed_list k' r = removeAll w (delayed_list k1 r)"
    "work_current k' r = work_current k1 r" "rt_scheduler_lock_nest k' = rt_scheduler_lock_nest k1"
    using k2 by (simp_all add: k' work_take_def)
  show "e = (if work_current k1 q = Some w then RT_EBUSY else RT_EOK)" using e k2(4) by (simp add: work_take_def)
qed

lemma rt_workqueue_urgent_work_ok [inv_intros]:
  assumes s: "work_step k k1" and r: "rt_workqueue_urgent_work q w k1 = Some (e, k')"
  shows "work_step k k'"
proof -
  let ?p = "upd_workq q (\<lambda>x. x\<lparr>wkq_work_list := w # wkq_work_list x\<rparr>) (work_unlink w k1)"
  have "work_step k ?p"
  proof (rule work_step_move [OF s])
    show "kernel_ok ?p" using class_stepD(1) [OF s] by simp
    show "class_frame Work_class k1 ?p"
      by (rule work_class_frame_trans [OF work_class_frames(3) work_class_frames(2)])
    show "work_inv ?p" if i: "work_inv k1"
    proof (rule work_inv_move [OF i, where w = w])
      show "work_current ?p r \<noteq> Some w"
        if "work_has ?p w RT_WORK_STATE_PENDING" "wk_workqueue (work_of ?p w) = Some r" for r
        using i that unfolding work_inv_def by auto
    qed (use work_inv_distinct [OF i] in \<open>auto simp: work_lists_def distinct_removeAll split: if_splits\<close>)
  qed
  moreover have "workqueue_wake q ?p = Some k'"
    using r by (auto simp: rt_workqueue_urgent_work_def Let_def bind_eq_Some_conv)
  ultimately show ?thesis by (rule workqueue_wake_step)
qed

lemma workqueue_thread_begin_ok [inv_intros]:
  assumes s: "work_step k k1" and r: "workqueue_thread_begin q k1 = Some (res, k')"
  shows "work_step k k'"
proof (cases "work_list k1 q")
  case Nil
  with r obtain t e k2 where t: "rt_thread_suspend t k1 = Some (e, k2)" "rt_schedule k2 = Some k'"
    by (auto simp: workqueue_thread_begin_def bind_eq_Some_conv)
  note k = class_stepD(1) [OF s]
  show ?thesis
    by (rule wks.step_schedule [OF wks.step_thread_level [OF s rt_thread_suspend_ok(1) [OF k t(1)]
            rt_thread_suspend_thread_level [OF k t(1)]] t(2)])
next
  case (Cons w ws)
  let ?c = "upd_workq q (\<lambda>x. x\<lparr>wkq_work_current := Some w\<rparr>) (work_unlink w k1)"
  let ?f = "upd_work w (clear_work_flag RT_WORK_STATE_PENDING) ?c"
  have k': "k' = upd_work w (\<lambda>x. x\<lparr>wk_workqueue := None\<rparr>) ?f"
    using r Cons by (auto simp: workqueue_thread_begin_def Let_def)
  show ?thesis
    unfolding k'
  proof (rule work_step_move [OF s])
    show "kernel_ok (upd_work w (\<lambda>x. x\<lparr>wk_workqueue := None\<rparr>) ?f)" using class_stepD(1) [OF s] by simp
    show "class_frame Work_class k1 (upd_work w (\<lambda>x. x\<lparr>wk_workqueue := None\<rparr>) ?f)"
      by (intro work_class_frame_trans [OF _ work_class_frames(1)] work_class_frame_trans [OF _ work_class_frames(2)]
          work_class_frames(3))
    show "work_inv (upd_work w (\<lambda>x. x\<lparr>wk_workqueue := None\<rparr>) ?f)" if i: "work_inv k1"
      by (rule work_inv_move [OF i, where w = w])
        (use work_inv_distinct [OF i] in
          \<open>auto simp: work_lists_def distinct_removeAll clear_work_flag_def split: if_splits\<close>)
  qed
qed


lemma work_relink_step:
  assumes s: "work_step k k1" and f: "\<And>x. wk_flags (f x) AND RT_WORK_STATE_PENDING = wk_flags x AND RT_WORK_STATE_PENDING"
    and g: "\<And>x. wk_workqueue (f x) = wk_workqueue x" and q: "wk_workqueue (work_of k1 w) = Some q"
  defines "k2 \<equiv> work_unlink w (upd_work w f k1)"
  shows "work_current k1 q \<noteq> Some w \<Longrightarrow> work_step k (upd_work w (set_work_flag RT_WORK_STATE_PENDING)
      (upd_workq q (\<lambda>x. x\<lparr>wkq_work_list := wkq_work_list x @ [w]\<rparr>) k2))"
    "work_current k1 q = Some w \<Longrightarrow> work_step k k2"
proof -
  have c2: "class_frame Work_class k1 k2"
    unfolding k2_def by (rule work_class_frame_trans [OF work_class_frames(1) work_class_frames(3)])
  show "work_step k k2" if c: "work_current k1 q = Some w"
  proof (rule work_step_move [OF s _ c2])
    show "kernel_ok k2" using class_stepD(1) [OF s] by (simp add: k2_def)
    show "work_inv k2" if i: "work_inv k1"
    proof -
      have "\<not> work_has k1 w RT_WORK_STATE_PENDING" using i q c unfolding work_inv_def by blast
      then show ?thesis
        by (intro work_inv_move [OF i, where w = w])
          (use work_inv_distinct [OF i] f in \<open>auto simp: k2_def work_lists_def distinct_removeAll\<close>)
    qed
  qed
  assume c: "work_current k1 q \<noteq> Some w"
  let ?k = "upd_work w (set_work_flag RT_WORK_STATE_PENDING)
      (upd_workq q (\<lambda>x. x\<lparr>wkq_work_list := wkq_work_list x @ [w]\<rparr>) k2)"
  show "work_step k ?k"
  proof (rule work_step_move [OF s])
    show "kernel_ok ?k" using class_stepD(1) [OF s] by (simp add: k2_def)
    show "class_frame Work_class k1 ?k"
      by (rule work_class_frame_trans [OF work_class_frame_trans [OF c2 work_class_frames(2)] work_class_frames(1)])
    show "work_inv ?k" if i: "work_inv k1"
      by (rule work_inv_move [OF i, where w = w])
        (use work_inv_distinct [OF i] c g q in
          \<open>auto simp: k2_def work_lists_def distinct_removeAll set_work_flag_def split: if_splits\<close>)
  qed
qed

lemma delayed_work_timeout_handler_cases:
  assumes r: "delayed_work_timeout_handler w k = Some k'"
  obtains q e k1 where "wk_workqueue (work_of k w) = Some q" "rt_timer_detach (UserTimer w) k = Some (e, k1)"
    "workqueue_wake q (if work_current k1 q \<noteq> Some w
       then upd_work w (set_work_flag RT_WORK_STATE_PENDING)
              (upd_workq q (\<lambda>x. x\<lparr>wkq_work_list := wkq_work_list x @ [w]\<rparr>)
                (work_unlink w (upd_work w (clear_work_flag RT_WORK_STATE_SUBMITTING) k1)))
       else work_unlink w (upd_work w (clear_work_flag RT_WORK_STATE_SUBMITTING) k1)) = Some k'"
  using r by (auto simp: delayed_work_timeout_handler_def bind_eq_Some_conv Let_def)

lemma delayed_work_timeout_handler_ok [inv_intros]:
  assumes k: "kernel_ok k" and i: "work_inv k" and r: "delayed_work_timeout_handler w k = Some k'"
  shows "work_step k k'"
proof -
  from r obtain q e k1 where q: "wk_workqueue (work_of k w) = Some q"
    and d: "rt_timer_detach (UserTimer w) k = Some (e, k1)"
    and w: "workqueue_wake q (if work_current k1 q \<noteq> Some w
       then upd_work w (set_work_flag RT_WORK_STATE_PENDING)
              (upd_workq q (\<lambda>x. x\<lparr>wkq_work_list := wkq_work_list x @ [w]\<rparr>)
                (work_unlink w (upd_work w (clear_work_flag RT_WORK_STATE_SUBMITTING) k1)))
       else work_unlink w (upd_work w (clear_work_flag RT_WORK_STATE_SUBMITTING) k1)) = Some k'"
    by (rule delayed_work_timeout_handler_cases)
  have s: "work_step k k1" by (rule work_timer_steps(4) [OF wks.step_refl [OF k i] d])
  have "devs k1 = devs k" using d by (auto simp: rt_timer_detach_def)
  then have q1: "wk_workqueue (work_of k1 w) = Some q" using q by simp
  have f: "wk_flags (clear_work_flag RT_WORK_STATE_SUBMITTING x) AND RT_WORK_STATE_PENDING
      = wk_flags x AND RT_WORK_STATE_PENDING"
    "wk_workqueue (clear_work_flag RT_WORK_STATE_SUBMITTING x) = wk_workqueue x" for x
    by (simp_all add: clear_work_flag_def)
  note M = work_relink_step [OF s, where f = "clear_work_flag RT_WORK_STATE_SUBMITTING", OF f q1]
  show ?thesis
    by (rule workqueue_wake_step [OF _ w]) (use M in \<open>cases "work_current k1 q = Some w"; simp\<close>)
qed


text \<open>Changes that leave the works where they are.\<close>

lemma work_inv_same:
  assumes i: "work_inv k" and l: "\<And>q. work_list k' q = work_list k q" "\<And>q. delayed_list k' q = delayed_list k q"
    and w: "works (devs k') = works (devs k)"
    and c: "\<And>q v. work_current k' q = Some v \<Longrightarrow> work_current k q = Some v"
  shows "work_inv k'"
proof -
  have "work_current k' q \<noteq> Some v" if "work_has k v RT_WORK_STATE_PENDING" "wk_workqueue (work_of k v) = Some q" for q v
    using i that c [of q v] unfolding work_inv_def by blast
  then show ?thesis using i unfolding work_inv_def work_lists_def l w by blast
qed

text \<open>A work that is on no list may be initialised, and a queue whose lists are empty.\<close>

lemma rt_work_init_ok [inv_intros]: "work_step k k1 \<Longrightarrow> work_free k1 w \<Longrightarrow> work_step k (rt_work_init w k1)"
  unfolding rt_work_init_def by (rule work_upd_free_step(1)) simp_all

lemma workq_reset_step:
  assumes s: "work_step k k1" and l: "work_lists k1 q = []"
  shows "work_step k (upd_workq q (\<lambda>x. x\<lparr>wkq_work_list := [], wkq_delayed_list := [],
    wkq_work_current := None, wkq_sem := sm\<rparr>) k1)" (is "work_step k ?u")
proof (rule work_step_move [OF s])
  show "kernel_ok ?u" using class_stepD(1) [OF s] by simp
  show "work_inv ?u" if "work_inv k1"
    by (rule work_inv_same [OF that]) (use l in \<open>simp_all add: work_lists_def split: if_splits\<close>)
qed simp

lemma workq_thread_step:
  assumes s: "work_step k k1"
  shows "work_step k (upd_workq q (\<lambda>x. x\<lparr>wkq_work_thread := t\<rparr>) k1)" (is "work_step k ?u")
proof (rule work_step_move [OF s])
  show "kernel_ok ?u" using class_stepD(1) [OF s] by simp
  show "work_inv ?u" if "work_inv k1" by (rule work_inv_same [OF that]) (simp_all split: if_splits)
qed simp

section \<open>The end of a work\<close>

lemma rt_exit_critical_runnable:
  assumes k: "kernel_ok k" and r: "rt_exit_critical k = Some k'"
    and t: "thread_stat k t = RT_THREAD_READY \<or> thread_stat k t = RT_THREAD_RUNNING"
  shows "thread_stat k' t = RT_THREAD_READY \<or> thread_stat k' t = RT_THREAD_RUNNING"
proof -
  have n: "kinv (k\<lparr>rt_scheduler_lock_nest := m\<rparr>)" "thread_stat (k\<lparr>rt_scheduler_lock_nest := m\<rparr>) t = thread_stat k t"
    for m using kernel_okD(1) [of "k\<lparr>rt_scheduler_lock_nest := m\<rparr>"] k by (simp_all add: thread_stat_def)
  consider m where "rt_schedule (k\<lparr>rt_scheduler_lock_nest := m\<rparr>) = Some k'"
    | m where "k' = k\<lparr>rt_scheduler_lock_nest := m\<rparr>"
    using r by (auto simp: rt_exit_critical_def Let_def split: if_splits)
  then show ?thesis
  proof cases
    case (1 m)
    show ?thesis by (rule rt_schedule_runnable [OF n(1) 1]) (use t n(2) in simp)
  next
    case (2 m)
    with t n(2) show ?thesis by simp
  qed
qed

text \<open>
  \<^verbatim>\<open>_workqueue_work_completion\<close> returns: each round of the loop releases one waiter, and when there is
  none left the value it stores is taken back.
\<close>

lemma work_completion_loop_ok:
  assumes "kernel_ok k" and "sem_inv k" and "sem_object (sems k s) \<noteq> Obj_none"
    and "rt_scheduler_lock_nest k \<noteq> 0"
  shows "\<exists>k'. work_completion_loop s k = Some (RT_EOK, k') \<and> class_step Sem_class sem_inv k k'
    \<and> waitq k' (SemWait s) = [] \<and> sem_value (sems k' s) = sem_value (sems k s) - (if sem_value (sems k s) = 0 then 0 else 1)
    \<and> (\<forall>t\<in>set (waitq k (SemWait s)). thread_stat k' t \<in> {RT_THREAD_READY, RT_THREAD_RUNNING})
    \<and> (\<forall>t. error (threads k' t) = error (threads k t))
    \<and> (\<forall>t. t \<notin> set (waitq k (SemWait s)) \<longrightarrow> thread_stat k' t = thread_stat k t)
    \<and> devs k' = devs k \<and> rt_scheduler_lock_nest k' = rt_scheduler_lock_nest k
    \<and> rt_current_thread k' = rt_current_thread k \<and> sem_object (sems k' s) = sem_object (sems k s)
    \<and> (stacks_ok k \<longrightarrow> stacks_ok k')"
  using assms
proof (induction "waitq k (SemWait s)" arbitrary: k)
  case Nil
  note w = Nil.hyps [symmetric]
  have a: "sem_inv (upd_sem s f k)" for f
    using Nil.prems(2) w by (auto simp: sem_inv_def waits_guarded_def sem_avail_def split: if_splits)
  have st: "class_step Sem_class sem_inv k (upd_sem s f k)" for f
    using a Nil.prems(1) by (simp add: class_step_def)
  show ?case
  proof (cases "sem_value (sems k s) = 0")
    case True
    let ?u = "upd_sem s (\<lambda>x. x\<lparr>sem_value := sem_value x + 1\<rparr>) k"
    let ?v = "upd_sem s (\<lambda>x. x\<lparr>sem_value := sem_value x - 1\<rparr>) ?u"
    have u: "?v = upd_sem s (\<lambda>x. x) k" by (simp add: upd_sem_def)
    have "rt_sem_trytake s k = Some (Returned RT_ETIMEOUT, k)"
      using True Nil.prems(3) by (simp add: rt_sem_trytake_def rt_sem_take_def)
    moreover have "rt_sem_release s k = Some (RT_EOK, ?u)"
      using True Nil.prems(3) w by (simp add: rt_sem_release_def RT_SEM_VALUE_MAX_def)
    moreover have "rt_sem_trytake s ?u = Some (Returned RT_EOK, ?v)"
      using True Nil.prems(3) by (simp add: rt_sem_trytake_def rt_sem_take_def)
    ultimately have "work_completion_loop s k = Some (RT_EOK, ?v)"
      by (subst work_completion_loop.simps) (simp add: work_completion_loop.simps [of s ?u])
    with st [of "\<lambda>x. x"] True w show ?thesis unfolding u by (auto simp: upd_sem_def stacks_ok_def)
  next
    case False
    let ?v = "upd_sem s (\<lambda>x. x\<lparr>sem_value := sem_value x - 1\<rparr>) k"
    have "rt_sem_trytake s k = Some (Returned RT_EOK, ?v)"
      using False Nil.prems(3) by (simp add: rt_sem_trytake_def rt_sem_take_def word_gt_0)
    then have "work_completion_loop s k = Some (RT_EOK, ?v)" by (subst work_completion_loop.simps) simp
    with st [of "\<lambda>x. x\<lparr>sem_value := sem_value x - 1\<rparr>"] False w show ?thesis
      by (auto simp: upd_sem_def thread_stat_def stacks_ok_def)
  qed
next
  case (Cons t ts)
  note w = Cons.hyps(2) [symmetric]
  have z: "sem_value (sems k s) = 0"
    using Cons.prems(2) w by (auto simp: sem_inv_def waits_guarded_def sem_avail_def word_gt_0)
  obtain k1 where r: "ipc_list_resume (SemWait s) k = Some k1" by (simp add: ipc_list_resume_def w)
  note R = ipc_list_resume_ok [OF Cons.prems(1) w r]
  note F = ipc_frameD [OF R(2)]
  have sc: "rt_schedule k1 = Some k1" by (rule rt_schedule_locked) (simp add: F(2) Cons.prems(4))
  have rel: "rt_sem_release s k = Some (RT_EOK, k1)" using r w sc Cons.prems(3) by (simp add: rt_sem_release_def)
  have s1: "class_step Sem_class sem_inv k k1"
    using rt_sem_release_ok [OF Cons.prems(1,2) rel] by (simp add: class_step_def)
  have tk: "rt_sem_trytake s k = Some (Returned RT_ETIMEOUT, k)"
    using z Cons.prems(3) by (simp add: rt_sem_trytake_def rt_sem_take_def)
  have loop: "work_completion_loop s k = work_completion_loop s k1"
    by (subst work_completion_loop.simps) (simp add: tk rel)
  have "ts = waitq k1 (SemWait s)" by (simp add: R(4))
  from Cons.hyps(1) [OF this class_stepD(1,2) [OF s1]] Cons.prems(3,4) obtain k' where
    k': "work_completion_loop s k1 = Some (RT_EOK, k')" "class_step Sem_class sem_inv k1 k'"
    "waitq k' (SemWait s) = []" "sem_value (sems k' s) = 0"
    "\<forall>u\<in>set ts. thread_stat k' u \<in> {RT_THREAD_READY, RT_THREAD_RUNNING}"
    "\<forall>u. error (threads k' u) = error (threads k1 u)"
    "\<forall>u. u \<notin> set ts \<longrightarrow> thread_stat k' u = thread_stat k1 u" "devs k' = devs k1"
    "rt_scheduler_lock_nest k' = rt_scheduler_lock_nest k1" "rt_current_thread k' = rt_current_thread k1"
    "sem_object (sems k' s) = sem_object (sems k1 s)" "stacks_ok k1 \<longrightarrow> stacks_ok k'"
    by (auto simp: F(2,4) z R(4))
  have s': "class_step Sem_class sem_inv k k'"
    using k'(2) class_frame_trans [OF class_stepD(3) [OF s1] class_stepD(3) [OF k'(2)]] by (simp add: class_step_def)
  have d: "t \<notin> set ts"
    using queue_invD(4) [OF kinvD(1) [OF kernel_okD(1) [OF Cons.prems(1)]]] w
    by (metis distinct.simps(2) wait_inv_def)
  show ?case
  proof (intro exI [of _ k'] conjI)
    show "work_completion_loop s k = Some (RT_EOK, k')" using loop k'(1) by simp
    show "class_step Sem_class sem_inv k k'" by (rule s')
    show "\<forall>u\<in>set (waitq k (SemWait s)). thread_stat k' u \<in> {RT_THREAD_READY, RT_THREAD_RUNNING}"
      using k'(5,7) d R(5) by (auto simp: w)
    show "\<forall>u. u \<notin> set (waitq k (SemWait s)) \<longrightarrow> thread_stat k' u = thread_stat k u"
      using k'(7) R(6) by (auto simp: w)
    show "stacks_ok k \<longrightarrow> stacks_ok k'" using k'(12) ipc_frame_stacks_ok [OF R(2)] by blast
  qed (use k'(3,4,6,8-11) z R(3) in \<open>simp_all add: F\<close>)
qed

text \<open>After a work every thread that waits for its completion is ready.\<close>

lemma workqueue_thread_end_ok:
  assumes s: "work_step k k1" and i: "sem_inv k1" and o: "sem_object (sems k1 (wkq_sem (workq_of k1 q))) \<noteq> Obj_none"
    and r: "workqueue_thread_end q k1 = Some (e, k')" and n: "rt_scheduler_lock_nest k1 + 1 \<noteq> 0"
  shows "e = RT_EOK" "\<exists>k2. work_step k k2 \<and> class_step Sem_class sem_inv k2 k'"
    "t \<in> set (waitq k1 (SemWait (wkq_sem (workq_of k1 q)))) \<Longrightarrow> thread_stat k' t \<in> {RT_THREAD_READY, RT_THREAD_RUNNING}"
    "work_current k' q = None" "waitq k' (SemWait (wkq_sem (workq_of k1 q))) = []"
    "works (devs k') = works (devs k1)" "work_list k' q = work_list k1 q"
proof -
  let ?s = "wkq_sem (workq_of k1 q)"
  let ?c = "upd_workq q (\<lambda>x. x\<lparr>wkq_work_current := None\<rparr>) k1"
  have ic: "work_inv ?c" if i: "work_inv k1"
    using that unfolding work_inv_def work_lists_def by auto
  have c: "work_step k ?c"
    by (rule work_step_move [OF s _ _ ic]) (use class_stepD(1) [OF s] in simp_all)
  let ?l = "rt_enter_critical ?c"
  have l: "kernel_ok ?l" "thread_level ?c ?l" using class_stepD(1) [OF c] by (simp_all add: rt_enter_critical_def)
  have sl: "sem_inv ?l"
    by (rule sem_inv_thread_level [OF sem_inv_class [OF i work_class_frames(2)] l(2)]) simp
  have ol: "sem_object (sems ?l ?s) \<noteq> Obj_none" "rt_scheduler_lock_nest ?l \<noteq> 0"
    using o n by (simp_all add: rt_enter_critical_def)
  obtain k3 where lp: "work_completion_loop ?s ?l = Some (RT_EOK, k3)" and s3: "class_step Sem_class sem_inv ?l k3"
    and w3: "waitq k3 (SemWait ?s) = []" and d3: "devs k3 = devs ?l"
    and t3: "\<forall>t\<in>set (waitq ?l (SemWait ?s)). thread_stat k3 t \<in> {RT_THREAD_READY, RT_THREAD_RUNNING}"
    using work_completion_loop_ok [OF l(1) sl ol] by blast
  have dl: "devs ?l = devs ?c" by (simp add: rt_enter_critical_def)
  have ex: "rt_exit_critical k3 = Some k'" and e: "e = RT_EOK"
    using r lp by (auto simp: workqueue_thread_end_def workqueue_work_completion_def bind_eq_Some_conv)
  show "e = RT_EOK" by (rule e)
  note X = rt_exit_critical_ok [OF class_stepD(1) [OF s3] ex]
  have "work_step k ?l" by (rule wks.step_thread_level [OF c l])
  moreover have "class_step Sem_class sem_inv ?l k'"
    using X(1) sem_inv_thread_level [OF class_stepD(2) [OF s3] X(2)]
      class_frame_trans [OF class_stepD(3) [OF s3] thread_level_class [OF X(2)]] by (simp add: class_step_def)
  ultimately show "\<exists>k2. work_step k k2 \<and> class_step Sem_class sem_inv k2 k'" by blast
  show "work_current k' q = None" "works (devs k') = works (devs k1)" "work_list k' q = work_list k1 q"
    by (simp_all add: thread_level_devs [OF X(2)] d3 dl)
  have "set (waitq k' (SemWait ?s)) \<subseteq> set (waitq k3 (SemWait ?s))" using X(2) by (simp add: thread_level_def)
  then show "waitq k' (SemWait ?s) = []" using w3 by simp
  assume "t \<in> set (waitq k1 (SemWait ?s))"
  then have t: "thread_stat k3 t \<in> {RT_THREAD_READY, RT_THREAD_RUNNING}"
    using t3 by (simp add: rt_enter_critical_def)
  show "thread_stat k' t \<in> {RT_THREAD_READY, RT_THREAD_RUNNING}"
    using rt_exit_critical_runnable [OF class_stepD(1) [OF s3] ex] t by simp
qed


section \<open>The order of the works\<close>

lemma workqueue_wake_effect:
  assumes k: "kernel_ok k" and r: "workqueue_wake q k = Some k'"
  shows "devs k' = devs k"
    "work_current k q = None \<Longrightarrow> thread_stat k' (work_thread k q) \<noteq> RT_THREAD_SUSPEND"
proof -
  show "devs k' = devs k" using workqueue_wake_level(2) [OF k r] by (rule thread_level_devs)
  assume c: "work_current k q = None"
  let ?t = "work_thread k q"
  show "thread_stat k' ?t \<noteq> RT_THREAD_SUSPEND"
  proof (cases "thread_stat k ?t = RT_THREAD_SUSPEND")
    case True
    note R = rt_thread_resume_ok [OF k, of ?t]
    have sc: "rt_schedule (snd (rt_thread_resume ?t k)) = Some k'" using r c True by (simp add: workqueue_wake_def)
    have "thread_stat (snd (rt_thread_resume ?t k)) ?t = RT_THREAD_READY
        \<or> thread_stat (snd (rt_thread_resume ?t k)) ?t = RT_THREAD_RUNNING" using R(3) [OF True] by simp
    from rt_schedule_runnable [OF kernel_okD(1) [OF R(1)] sc this] show ?thesis by auto
  next
    case False
    with r show ?thesis by (simp add: workqueue_wake_def)
  qed
qed

text \<open>What submissions do to the list, on every branch.\<close>

lemma rt_workqueue_dowork_effect:
  assumes k: "kernel_ok k" and r: "rt_workqueue_dowork q w k = Some (e, k')"
  shows "e = (if work_current k q = Some w then RT_EBUSY else RT_EOK)"
    "work_list k' q = removeAll w (work_list k q) @ (if work_current k q = Some w then [] else [w])"
    "r \<noteq> q \<Longrightarrow> work_list k' r = removeAll w (work_list k r)" "delayed_list k' r = removeAll w (delayed_list k r)"
    "work_current k' r = work_current k r" "work_thread k' r = work_thread k r"
    "work_current k q = None \<Longrightarrow> thread_stat k' (work_thread k q) \<noteq> RT_THREAD_SUSPEND"
proof -
  let ?t = "work_take w k"
  let ?a = "upd_work w (\<lambda>x. (set_work_flag RT_WORK_STATE_PENDING x)\<lparr>wk_workqueue := Some q\<rparr>)
              (upd_workq q (\<lambda>x. x\<lparr>wkq_work_list := wkq_work_list x @ [w]\<rparr>) ?t)"
  let ?b = "if work_current k q = Some w then ?t else ?a"
  have c: "work_current ?t r = work_current k r" for r by (simp add: work_take_def)
  have wk: "workqueue_wake q ?b = Some k'" and e: "e = (if work_current k q = Some w then RT_EBUSY else RT_EOK)"
    using r by (auto simp: rt_workqueue_dowork_def submit_eq Let_def c bind_eq_Some_conv split: if_splits)
  have kb: "kernel_ok ?b" using k by (simp add: work_take_def)
  note W = workqueue_wake_effect [OF kb wk]
  show "e = (if work_current k q = Some w then RT_EBUSY else RT_EOK)" by (rule e)
  show "work_list k' q = removeAll w (work_list k q) @ (if work_current k q = Some w then [] else [w])"
    "r \<noteq> q \<Longrightarrow> work_list k' r = removeAll w (work_list k r)" "delayed_list k' r = removeAll w (delayed_list k r)"
    "work_current k' r = work_current k r" "work_thread k' r = work_thread k r"
    by (simp_all add: W(1) work_take_def)
  show "work_current k q = None \<Longrightarrow> thread_stat k' (work_thread k q) \<noteq> RT_THREAD_SUSPEND"
    using W(2) by (simp add: work_take_def)
qed

lemma rt_workqueue_urgent_work_effect:
  assumes k: "kernel_ok k" and r: "rt_workqueue_urgent_work q w k = Some (e, k')"
  shows "e = RT_EOK" "work_list k' q = w # removeAll w (work_list k q)"
    "r \<noteq> q \<Longrightarrow> work_list k' r = removeAll w (work_list k r)" "delayed_list k' r = removeAll w (delayed_list k r)"
    "work_current k' r = work_current k r" "work_thread k' r = work_thread k r"
    "work_current k q = None \<Longrightarrow> thread_stat k' (work_thread k q) \<noteq> RT_THREAD_SUSPEND"
proof -
  let ?p = "upd_workq q (\<lambda>x. x\<lparr>wkq_work_list := w # wkq_work_list x\<rparr>) (work_unlink w k)"
  have wk: "workqueue_wake q ?p = Some k'" and "e = RT_EOK"
    using r by (auto simp: rt_workqueue_urgent_work_def Let_def bind_eq_Some_conv)
  then show "e = RT_EOK" by simp
  have kp: "kernel_ok ?p" using k by simp
  note W = workqueue_wake_effect [OF kp wk]
  show "work_list k' q = w # removeAll w (work_list k q)"
    "r \<noteq> q \<Longrightarrow> work_list k' r = removeAll w (work_list k r)" "delayed_list k' r = removeAll w (delayed_list k r)"
    "work_current k' r = work_current k r" "work_thread k' r = work_thread k r" by (simp_all add: W(1))
  show "work_current k q = None \<Longrightarrow> thread_stat k' (work_thread k q) \<noteq> RT_THREAD_SUSPEND" using W(2) by simp
qed

lemma delayed_work_timeout_handler_effect:
  assumes k: "kernel_ok k" and q: "wk_workqueue (work_of k w) = Some q"
    and r: "delayed_work_timeout_handler w k = Some k'"
  shows "work_list k' q = removeAll w (work_list k q) @ (if work_current k q = Some w then [] else [w])"
    "delayed_list k' p = removeAll w (delayed_list k p)" "work_current k' p = work_current k p"
    "\<not> work_has k' w RT_WORK_STATE_SUBMITTING"
    "work_current k q = None \<Longrightarrow> thread_stat k' (work_thread k q) \<noteq> RT_THREAD_SUSPEND"
proof -
  from r obtain q' e k1 where q': "wk_workqueue (work_of k w) = Some q'"
    and d: "rt_timer_detach (UserTimer w) k = Some (e, k1)"
    and wk: "workqueue_wake q' (if work_current k1 q' \<noteq> Some w
       then upd_work w (set_work_flag RT_WORK_STATE_PENDING)
              (upd_workq q' (\<lambda>x. x\<lparr>wkq_work_list := wkq_work_list x @ [w]\<rparr>)
                (work_unlink w (upd_work w (clear_work_flag RT_WORK_STATE_SUBMITTING) k1)))
       else work_unlink w (upd_work w (clear_work_flag RT_WORK_STATE_SUBMITTING) k1)) = Some k'" (is "workqueue_wake q' ?b = _")
    by (rule delayed_work_timeout_handler_cases)
  have qq: "q' = q" using q q' by simp
  have kb: "kernel_ok ?b" using timer_unlink_ok(1) [OF k refl, of w] d by (auto simp: rt_timer_detach_def)
  have d1: "devs k1 = devs k" using d by (auto simp: rt_timer_detach_def)
  note W = workqueue_wake_effect [OF kb wk]
  show "work_list k' q = removeAll w (work_list k q) @ (if work_current k q = Some w then [] else [w])"
    "delayed_list k' p = removeAll w (delayed_list k p)" "work_current k' p = work_current k p"
    "\<not> work_has k' w RT_WORK_STATE_SUBMITTING"
    by (simp_all add: W(1) d1 qq set_work_flag_def clear_work_flag_def)
  show "thread_stat k' (work_thread k q) \<noteq> RT_THREAD_SUSPEND" if "work_current k q = None"
    using W(2) that by (simp add: qq d1)
qed

lemma workqueue_thread_begin_effect:
  assumes i: "work_inv k" and r: "workqueue_thread_begin q k = Some (res, k')" and w: "work_list k q = w # ws"
  shows "res = Some w" "work_list k' q = ws" "work_current k' q = Some w" "work_free k' w"
    "thread_stat k' = thread_stat k" "wk_workqueue (work_of k' w) = None"
    "r \<noteq> q \<Longrightarrow> work_list k' r = work_list k r" "delayed_list k' r = delayed_list k r"
proof -
  have d: "w \<notin> set ws" using work_inv_distinct [OF i, of q] by (simp add: work_lists_def w)
  have o: "w \<notin> set (work_list k r)" if "r \<noteq> q" for r
    using i that unfolding work_inv_def work_lists_set by (metis list.set_intros(1) w)
  have dl: "w \<notin> set (delayed_list k r)" for r by (rule work_inv_list [OF i, of _ q]) (simp add: w)
  have k': "k' = upd_work w (\<lambda>x. x\<lparr>wk_workqueue := None\<rparr>) (upd_work w (clear_work_flag RT_WORK_STATE_PENDING)
      (upd_workq q (\<lambda>x. x\<lparr>wkq_work_current := Some w\<rparr>) (work_unlink w k)))" and "res = Some w"
    using r w by (auto simp: workqueue_thread_begin_def Let_def)
  then show "res = Some w" by simp
  show "work_list k' q = ws" "work_current k' q = Some w" "work_free k' w" "thread_stat k' = thread_stat k"
    "wk_workqueue (work_of k' w) = None"
    "r \<noteq> q \<Longrightarrow> work_list k' r = work_list k r" "delayed_list k' r = delayed_list k r"
    using d o dl by (simp_all add: k' w work_free_def work_lists_def removeAll_id)
qed

section \<open>Cancelling all works\<close>

text \<open>The timers of submitted works are static objects, as \<^verbatim>\<open>rt_timer_init\<close> makes them.\<close>

definition work_timers_static :: "kernel \<Rightarrow> bool" where
  "work_timers_static k \<longleftrightarrow>
     (\<forall>w. work_has k w RT_WORK_STATE_SUBMITTING \<longrightarrow> tm_static (timers k (UserTimer w)))"

lemma clear_activated_static [simp]: "tm_static (clear_activated x) = tm_static x"
  by (simp add: clear_activated_def)

lemma stop_static: "tm_static (timers (snd (rt_timer_stop t k)) s) = tm_static (timers k s)"
  by (simp add: rt_timer_stop_def upd_timer_def timer_remove_def)

lemma workqueue_cancel_work_returns:
  assumes t: "work_timers_static k"
  shows "\<exists>e k'. workqueue_cancel_work q w k = Some (e, k') \<and> work_timers_static k'"
proof (cases "work_has k w RT_WORK_STATE_SUBMITTING")
  case True
  let ?u = "upd_work w (clear_work_flag RT_WORK_STATE_PENDING) (work_unlink w k)"
  let ?p = "snd (rt_timer_stop (UserTimer w) ?u)"
  have s: "tm_static (timers ?p (UserTimer v)) = tm_static (timers k (UserTimer v))" for v
    by (simp add: stop_static)
  have d: "rt_timer_detach (UserTimer w) ?p
      = Some (RT_EOK, upd_timer (UserTimer w) clear_activated (timer_remove (UserTimer w) ?p))"
    using True t by (simp add: rt_timer_detach_def s work_timers_static_def rt_assert_def)
  with True t show ?thesis
    by (auto simp: workqueue_cancel_work_def Let_def bind_eq_Some_conv clear_work_flag_def work_timers_static_def
        upd_timer_def timer_remove_def stop_static)
next
  case False
  with t show ?thesis
    by (auto simp: workqueue_cancel_work_def Let_def clear_work_flag_def work_timers_static_def)
qed

lemma cancel_works_ok:
  assumes "work_step k k1" and "work_timers_static k1" and "sel = wkq_work_list \<or> sel = wkq_delayed_list"
  shows "\<exists>k'. cancel_works sel q k1 = Some k' \<and> work_step k k' \<and> work_timers_static k'
    \<and> sel (workq_of k' q) = [] \<and> (work_list k1 q = [] \<longrightarrow> work_list k' q = [])
    \<and> rt_scheduler_lock_nest k' = rt_scheduler_lock_nest k1"
  using assms
proof (induction "length (sel (workq_of k1 q))" arbitrary: k1 rule: less_induct)
  case less
  show ?case
  proof (cases "sel (workq_of k1 q)")
    case Nil
    then have "cancel_works sel q k1 = Some k1" by (subst cancel_works.simps) simp
    with less.prems(1,2) Nil show ?thesis by simp
  next
    case (Cons w ws)
    obtain e k2 where c: "workqueue_cancel_work q w k1 = Some (e, k2)" and t: "work_timers_static k2"
      using workqueue_cancel_work_returns [OF less.prems(2)] by blast
    note C = workqueue_cancel_work_ok [OF less.prems(1) c]
    have eq: "cancel_works sel q k1 = cancel_works sel q k2"
      by (subst cancel_works.simps) (simp add: Cons c)
    have "length (sel (workq_of k2 q)) < length (sel (workq_of k1 q))"
      using less.prems(3) Cons C(8,9) by (auto simp: less_Suc_eq_le length_removeAll_less_eq)
    from less.hyps [OF this C(1) t less.prems(3)] show ?thesis
      using C(8) [of q] C(11) by (auto simp: eq)
  qed
qed

lemma rt_workqueue_cancel_all_work_ok [inv_intros]:
  assumes k: "kernel_ok k" and i: "work_inv k" and t: "work_timers_static k"
    and r: "rt_workqueue_cancel_all_work q k = Some (e, k')"
  shows "work_step k k'" "work_list k' q = []" "delayed_list k' q = []" "e = RT_EOK"
proof -
  let ?l = "rt_enter_critical k"
  have l: "kernel_ok ?l" "thread_level k ?l" using k by (simp_all add: rt_enter_critical_def)
  have sl: "work_step k ?l" by (rule wks.step_thread_level [OF wks.step_refl [OF k i] l])
  have tl: "work_timers_static ?l" using t by (simp add: rt_enter_critical_def work_timers_static_def)
  obtain k1 where k1: "cancel_works wkq_work_list q ?l = Some k1" "work_step k k1" "work_timers_static k1"
    "work_list k1 q = []" using cancel_works_ok [OF sl tl, of wkq_work_list q] by blast
  obtain k2 where k2: "cancel_works wkq_delayed_list q k1 = Some k2" "work_step k k2"
    "delayed_list k2 q = []" "work_list k2 q = []"
    using cancel_works_ok [OF k1(2,3), of wkq_delayed_list q] k1(4) by blast
  have ex: "rt_exit_critical k2 = Some k'" "e = RT_EOK"
    using r k1(1) k2(1) by (auto simp: rt_workqueue_cancel_all_work_def bind_eq_Some_conv)
  note X = rt_exit_critical_ok [OF class_stepD(1) [OF k2(2)] ex(1)]
  show "work_step k k'" by (rule wks.step_thread_level [OF k2(2) X])
  show "work_list k' q = []" "delayed_list k' q = []" using k2(3,4) by (simp_all add: thread_level_devs [OF X(2)])
  show "e = RT_EOK" by (rule ex(2))
qed

section \<open>A delayed work submitted again\<close>

text \<open>
  A work that is delayed and then submitted for now, while the worker is busy, keeps its timer running:
  when the worker takes the work it clears the work's queue, and the assertion of the timer's function
  fails.
\<close>

lemma rt_workqueue_submit_delayed_effect:
  assumes n: "ticks \<noteq> 0" and r: "rt_workqueue_submit_work q w ticks k = Some (e, k')"
  shows "e = RT_EOK" "work_list k' p = removeAll w (work_list k p)"
    "delayed_list k' p = removeAll w (delayed_list k p) @ (if p = q then [w] else [])"
    "work_current k' p = work_current k p" "work_thread k' p = work_thread k p"
    "UserTimer w \<in> set (timer_list k')" "tm_timeout_tick (timers k' (UserTimer w)) = rt_tick k + ticks"
    "ticks < half_tick_max" "threads k' = threads k" "wk_workqueue (work_of k' w) = Some q"
    "\<not> work_has k w RT_WORK_STATE_SUBMITTING \<Longrightarrow> tm_static (timers k' (UserTimer w))"
proof -
  let ?t = "work_take w k"
  let ?fin = "\<lambda>k1. snd (rt_timer_start (UserTimer w)
      (upd_workq q (\<lambda>x. x\<lparr>wkq_delayed_list := wkq_delayed_list x @ [w]\<rparr>)
        (upd_work w (\<lambda>x. x\<lparr>wk_workqueue := Some q\<rparr>) k1)))"
  have h: "ticks < half_tick_max" and sw: "workqueue_submit_work q w ticks k = Some (e, k')"
    using r by (simp_all add: rt_workqueue_submit_work_def bind_eq_Some_conv)
  have "\<exists>k1. e = RT_EOK \<and> k' = ?fin k1 \<and> workqueues (devs k1) = workqueues (devs ?t) \<and> rt_tick k1 = rt_tick k
      \<and> (\<not> work_has k w RT_WORK_STATE_SUBMITTING \<longrightarrow> tm_static (timers k1 (UserTimer w))) \<and> tm_init_tick (timers k1 (UserTimer w)) = ticks \<and> threads k1 = threads k"
  proof (cases "work_has ?t w RT_WORK_STATE_SUBMITTING")
    case True
    let ?k1 = "upd_timer (UserTimer w) (\<lambda>x. x\<lparr>tm_init_tick := ticks\<rparr>) (snd (rt_timer_stop (UserTimer w) ?t))"
    have "e = RT_EOK" "k' = ?fin ?k1"
      using sw True n h by (auto simp: submit_eq Let_def rt_timer_control_set_time)
    moreover have "rt_tick ?k1 = rt_tick k" "threads ?k1 = threads k"
      by (simp_all add: rt_timer_stop_def work_take_def upd_timer_def timer_remove_def)
    moreover have "work_has k w RT_WORK_STATE_SUBMITTING" using True by (simp add: work_take_def clear_work_flag_def)
    ultimately show ?thesis by (intro exI [of _ ?k1]) (simp add: upd_timer_def)
  next
    case False
    let ?k1 = "upd_work w (set_work_flag RT_WORK_STATE_SUBMITTING) (timer_init_fields (UserTimer w) True ticks
      (RT_TIMER_FLAG_ONE_SHOT OR RT_TIMER_FLAG_SOFT_TIMER) ?t)"
    have "e = RT_EOK" "k' = ?fin ?k1"
      using sw False n h by (auto simp: submit_eq Let_def rt_timer_init_def rt_assert_def)
    moreover have "rt_tick ?k1 = rt_tick k" "threads ?k1 = threads k" "tm_init_tick (timers ?k1 (UserTimer w)) = ticks"
      "workqueues (devs ?k1) = workqueues (devs ?t)" "tm_static (timers ?k1 (UserTimer w))"
      by (simp_all add: timer_init_fields_def work_take_def upd_timer_def)
    ultimately show ?thesis by (intro exI [of _ ?k1]) simp
  qed
  then obtain k1 where k1: "e = RT_EOK" "k' = ?fin k1" "workqueues (devs k1) = workqueues (devs ?t)"
    "rt_tick k1 = rt_tick k" "tm_init_tick (timers k1 (UserTimer w)) = ticks" "threads k1 = threads k"
    "\<not> work_has k w RT_WORK_STATE_SUBMITTING \<longrightarrow> tm_static (timers k1 (UserTimer w))" by blast
  show "wk_workqueue (work_of k' w) = Some q" by (simp add: k1(2))
  show "\<not> work_has k w RT_WORK_STATE_SUBMITTING \<Longrightarrow> tm_static (timers k' (UserTimer w))"
    using k1(7) by (simp add: k1(2) rt_timer_start_fields set_activated_def)
  show "e = RT_EOK" by (rule k1(1))
  show "work_list k' p = removeAll w (work_list k p)" "work_current k' p = work_current k p"
    "work_thread k' p = work_thread k p"
    "delayed_list k' p = removeAll w (delayed_list k p) @ (if p = q then [w] else [])"
    by (simp_all add: k1(2,3) work_take_def)
  show "UserTimer w \<in> set (timer_list k')" by (simp add: k1(2) rt_timer_start_fields)
  show "tm_timeout_tick (timers k' (UserTimer w)) = rt_tick k + ticks"
    by (simp add: k1 rt_timer_start_fields set_activated_def)
  show "threads k' = threads k" by (simp add: k1 rt_timer_start_fields)
  show "ticks < half_tick_max" by (rule h)
qed

lemma delayed_then_dowork:
  assumes k: "kernel_ok k" and b: "work_current k q = Some v" "v \<noteq> w" and n: "ticks \<noteq> 0"
    and s: "rt_workqueue_submit_work q w ticks k = Some (e1, k1)" and d: "rt_workqueue_dowork q w k1 = Some (e2, k2)"
  shows "UserTimer w \<in> set (timer_list k2)" "w \<in> set (work_list k2 q)" "e1 = RT_EOK" "e2 = RT_EOK"
proof -
  note S = rt_workqueue_submit_delayed_effect [OF n s]
  have c: "work_current k1 q = Some v" using b S(4) by simp
  then have "e2 = RT_EOK \<and> workqueue_wake q (upd_work w (\<lambda>x. (set_work_flag RT_WORK_STATE_PENDING x)\<lparr>wk_workqueue := Some q\<rparr>)
              (upd_workq q (\<lambda>x. x\<lparr>wkq_work_list := wkq_work_list x @ [w]\<rparr>) (work_take w k1))) = Some k2"
    using d b(2) by (auto simp: rt_workqueue_dowork_def submit_eq Let_def work_take_def bind_eq_Some_conv)
  then have e: "e2 = RT_EOK"
    and k2: "k2 = upd_work w (\<lambda>x. (set_work_flag RT_WORK_STATE_PENDING x)\<lparr>wk_workqueue := Some q\<rparr>)
              (upd_workq q (\<lambda>x. x\<lparr>wkq_work_list := wkq_work_list x @ [w]\<rparr>) (work_take w k1))"
    using c by (auto simp: workqueue_wake_def work_take_def split: if_splits)
  show "UserTimer w \<in> set (timer_list k2)" using S(6) by (simp add: k2 work_take_def)
  show "w \<in> set (work_list k2 q)" by (simp add: k2)
  show "e1 = RT_EOK" by (rule S(1))
  show "e2 = RT_EOK" by (rule e)
qed

text \<open>Whenever a worker has taken a work, the function of the work's timer, if it is still armed, stops.\<close>

lemma armed_while_running_stops:
  assumes "work_inv k" and "workqueue_thread_begin q k = Some (Some w, k')"
  shows "delayed_work_timeout_handler w k' = None"
proof -
  obtain v vs where v: "work_list k q = v # vs"
    using assms(2) by (cases "work_list k q") (auto simp: workqueue_thread_begin_def bind_eq_Some_conv)
  note B = workqueue_thread_begin_effect [OF assms v]
  show ?thesis using B(1,6) by (simp add: delayed_work_timeout_handler_def)
qed

end
