(* ===== verification/Rtt_System.thy ===== *)
theory Rtt_System
  imports Rtt_Clock Rtt_Sem Rtt_Mutex Rtt_Event Rtt_Mailbox Rtt_Mqueue Rtt_Mempool
    Rtt_Completion Rtt_Dataqueue Rtt_Waitqueue Rtt_Workqueue
begin

unbundle bit_operations_syntax

text \<open>
  The kernel as a whole: one step is one call of a kernel operation by the running thread or an
  interrupt handler, or the tick. The invariants of all components hold in every reachable state.
\<close>

section \<open>Thread and timer operations touch no object\<close>

lemma rt_thread_yield_thread_level:
  assumes k: "kernel_ok k" and r: "rt_thread_yield k = Some (e, k')"
  shows "thread_level k k'"
proof -
  obtain t where t: "rt_schedule (upd_thread t (\<lambda>x. x\<lparr>remaining_tick := init_tick x,
      stat := stat x OR RT_THREAD_STAT_YIELD\<rparr>) k) = Some k'" (is "rt_schedule ?u = _")
    using r by (auto simp: rt_thread_yield_def Let_def bind_eq_Some_conv)
  have "kernel_ok ?u" by (rule upd_thread_kernel_ok [OF k]) (simp_all add: thread_stat_def thread_prio_def)
  from rt_schedule_thread_level [OF this t] show ?thesis by (rule thread_level_trans [rotated]) simp
qed

lemma rt_thread_sleep_thread_level:
  assumes k: "kernel_ok k" and r: "rt_thread_sleep n k = Some (res, k')"
    and c: "\<And>t. rt_current_thread k = Some t \<Longrightarrow> thread_stat k t = RT_THREAD_RUNNING"
  shows "kernel_ok k'" "thread_level k k'"
proof -
  obtain t e k1 k2 where t: "rt_current_thread k = Some t"
    and s: "rt_thread_suspend t (upd_thread t (set_error RT_EOK) k) = Some (e, k1)"
    and st: "start_thread_timer t n k1 = Some k2" and sc: "rt_schedule k2 = Some k'"
    using r by (auto simp: rt_thread_sleep_def rt_thread_self_def Let_def bind_eq_Some_conv)
  let ?e = "upd_thread t (set_error RT_EOK) k"
  have run: "thread_stat ?e t = RT_THREAD_RUNNING" using c [OF t] by simp
  note Z = sleep_ok [OF set_error_kernel_ok [OF k] run s st sc]
  show "kernel_ok k'" by (rule Z(1))
  show "thread_level k k'" by (rule thread_level_trans [OF _ Z(2)]) simp
qed

lemma rt_thread_delay_until_ok:
  assumes k: "kernel_ok k" and r: "rt_thread_delay_until tk inc k = Some (res, tk', k')"
    and c: "\<And>t. rt_current_thread k = Some t \<Longrightarrow> thread_stat k t = RT_THREAD_RUNNING"
  shows "kernel_ok k'" "thread_level k k'"
proof -
  obtain t where t: "rt_current_thread k = Some t"
    using r by (auto simp: rt_thread_delay_until_def rt_thread_self_def bind_eq_Some_conv)
  let ?e = "upd_thread t (set_error RT_EOK) k"
  have e: "kernel_ok ?e" "thread_level k ?e" using k by simp_all
  have run: "thread_stat ?e t = RT_THREAD_RUNNING" using c [OF t] by simp
  have "kernel_ok k' \<and> thread_level k k'"
  proof (cases "rt_tick_get ?e - tk < inc")
    case True
    then obtain er k1 k2 where "rt_thread_suspend t ?e = Some (er, k1)"
      "start_thread_timer t (tk + inc - rt_tick_get ?e) k1 = Some k2" "rt_schedule k2 = Some k'"
      using r t by (auto simp: rt_thread_delay_until_def rt_thread_self_def Let_def bind_eq_Some_conv)
    from sleep_ok [OF e(1) run this] thread_level_trans [OF e(2)] show ?thesis by blast
  next
    case False
    with r t e show ?thesis
      by (auto simp: rt_thread_delay_until_def rt_thread_self_def Let_def)
  qed
  then show "kernel_ok k'" "thread_level k k'" by blast+
qed

lemma rt_thread_startup_thread_level:
  assumes k: "kernel_ok k" and r: "rt_thread_startup t k = Some (e, k')"
    and p: "thread_prio k t < RT_THREAD_PRIORITY_MAX"
  shows "thread_level k k'"
proof -
  let ?u = "upd_thread t startup_fields k"
  let ?r = "snd (rt_thread_resume t ?u)"
  note C = rt_thread_startup_cases [OF r]
  note U = startup_fields_ok [OF k C(1) p]
  have sc: "(if rt_current_thread ?r \<noteq> None then rt_schedule ?r else Some ?r) = Some k'"
    using C(2) by (simp only: Let_def)
  have kr: "kernel_ok ?r" by (rule rt_thread_resume_ok(1) [OF U(1)])
  have "thread_level k ?u" by (simp add: startup_fields_def)
  also have "thread_level ?u ?r" by (rule rt_thread_resume_thread_level [OF U(1)])
  also have "thread_level ?r k'"
    using sc rt_schedule_thread_level [OF kr] by (auto split: if_splits)
  finally show ?thesis .
qed

lemma thread_close_thread_level:
  assumes "thread_close t k = Some k'"
  shows "thread_level k k'"
proof -
  have k': "\<exists>c. c = upd_thread t (\<lambda>x. x\<lparr>stat := RT_THREAD_CLOSE\<rparr>)
      (upd_timer (ThreadTimer t) clear_activated (timer_remove (ThreadTimer t) k))
      \<and> k' = c\<lparr>rt_thread_defunct := t # rt_thread_defunct c\<rparr>"
    using assms by (auto simp: thread_close_def rt_timer_detach_def rt_thread_defunct_enqueue_def Let_def
        split: if_splits)
  then show ?thesis
    by (auto simp: thread_level_def obj_frame_def stores_same_def event_data_same_def timer_frame_def
        upd_timer_def timer_remove_def)
qed

lemma remove_thread_thread_level: "thread_level k (rt_schedule_remove_thread t k)"
  by (rule thread_levelI) (auto simp: remove_thread_fields)

lemma thread_dispose_thread_level:
  assumes "thread_dispose t k = Some (e, k')"
  shows "thread_level k k'"
proof -
  let ?k = "if thread_stat k t \<noteq> RT_THREAD_INIT then rt_schedule_remove_thread t k else k"
  consider "k' = k" | "thread_close t ?k = Some k'"
    using assms unfolding thread_dispose_def Let_def
    by (cases "thread_stat k t = RT_THREAD_CLOSE") (auto simp: bind_eq_Some_conv)
  then show ?thesis
  proof cases
    case 2
    have "thread_level k ?k" by (simp add: remove_thread_thread_level)
    then show ?thesis using thread_close_thread_level [OF 2] by (rule thread_level_trans)
  qed simp
qed

lemma thread_exit_thread_level:
  assumes k: "kernel_ok k" and run: "\<And>t. rt_current_thread k = Some t \<Longrightarrow> thread_stat k t = RT_THREAD_RUNNING"
    and r: "thread_exit k = Some k'"
  shows "kernel_ok k'" "thread_level k k'"
proof -
  obtain t k1 where t: "rt_current_thread k = Some t"
    and cl: "thread_close t (rt_schedule_remove_thread t k) = Some k1" and sc: "rt_schedule k1 = Some k'"
    using r by (auto simp: thread_exit_def rt_thread_self_def bind_eq_Some_conv)
  show "kernel_ok k'" by (rule thread_exit_ok(1) [OF k t run [OF t] r])
  let ?k = "rt_schedule_remove_thread t k"
  have x: "kinv_except {t} ?k"
    by (rule remove_thread_kinv_except [OF kernel_okD(1) [OF k]]) (simp_all add: run [OF t])
  have ti: "timer_inv ?k" using kernel_okD(2) [OF k] by (simp add: timer_inv_sched [OF sched_frame_remove])
  have sl: "sleep_inv {t} ?k" using kernel_okD(3) [OF k] by (auto simp: sleep_inv_def remove_thread_fields)
  note K1 = thread_close_ok(1) [OF kinvD [OF x] ti sl cl]
  have "thread_level k ?k" by (rule remove_thread_thread_level)
  also have "thread_level ?k k1" by (rule thread_close_thread_level [OF cl])
  also have "thread_level k1 k'" by (rule rt_schedule_thread_level [OF K1 sc])
  finally show "thread_level k k'" .
qed

lemma rt_thread_control_ok [inv_intros]:
  assumes k: "kernel_ok k" and r: "rt_thread_control t cmd k = Some (e, k')"
    and p: "thread_prio k t < RT_THREAD_PRIORITY_MAX"
  shows "kernel_ok k' \<and> thread_level k k'"
proof (cases cmd)
  case RT_THREAD_CTRL_STARTUP
  with r rt_thread_startup_ok(1) [OF k _ p] rt_thread_startup_thread_level [OF k _ p]
  show ?thesis by (simp add: rt_thread_control_def)
next
  case RT_THREAD_CTRL_CLOSE
  then obtain k1 where d: "thread_dispose t k = Some (e, k1)" and s: "rt_schedule k1 = Some k'"
    using r by (auto simp: rt_thread_control_def rt_thread_detach_def rt_thread_delete_def
        bind_eq_Some_conv split: if_splits)
  have k1: "kernel_ok k1" by (rule thread_dispose_ok(1) [OF k d])
  show ?thesis
    using rt_schedule_kernel_ok [OF k1 s]
      thread_level_trans [OF thread_dispose_thread_level [OF d] rt_schedule_thread_level [OF k1 s]] by blast
next
  case (RT_THREAD_CTRL_CHANGE_PRIORITY n)
  then have "thread_change_priority t n k = Some k'"
    using r by (auto simp: rt_thread_control_def bind_eq_Some_conv)
  with thread_change_priority_ok(1) [OF k] thread_change_priority_thread_level(1) [OF k]
  show ?thesis by blast
next
  case Thread_ctrl_unknown
  with r k show ?thesis by (simp add: rt_thread_control_def)
qed

text \<open>A new thread: its control block is on no list.\<close>

lemma thread_init_ok:
  assumes k: "kernel_ok k" and i: "thread_stat k t = RT_THREAD_INIT"
    and r: "thread_init t st a n s0 p tick k = Some (e, k')"
  shows "kernel_ok k'" "thread_stat k' t = RT_THREAD_INIT" "p < RT_THREAD_PRIORITY_MAX"
    "waitq k' = waitq k" "timer_frame k k'"
    "u \<noteq> t \<Longrightarrow> threads k' u = threads k u" "sems k' = sems k" "mutexes k' = mutexes k"
    "events k' = events k" "mailboxes k' = mailboxes k" "msgqueues k' = msgqueues k"
    "mempools k' = mempools k" "thread_prio k' t = p" "devs k' = devs k"
proof -
  note K = kernel_okD [OF k]
  obtain f where k': "k' = timer_init_fields (ThreadTimer t) True 0 RT_TIMER_FLAG_ONE_SHOT (upd_thread t f k)"
    and f: "\<And>x. stat (f x) = RT_THREAD_INIT" "\<And>x. current_priority (f x) = p" and p: "p < RT_THREAD_PRIORITY_MAX"
    using r by (auto simp: thread_init_def rt_timer_init_def bind_eq_Some_conv Let_def split: if_splits)
  show "p < RT_THREAD_PRIORITY_MAX" by (rule p)
  let ?u = "upd_thread t f k"
  have q: "queue_inv {t} ?u" by (rule upd_thread_queue_inv [OF kinvD(1) [OF kinv_take_init [OF K(1) i]]])
  have "queue_inv {} ?u" by (rule queue_inv_drop [OF q]) (simp_all add: f)
  moreover have "current_inv {} ?u"
    using kinvD(2) [OF K(1)] i by (auto simp: current_inv_def f)
  ultimately have ku: "kinv ?u" by (rule kinvI)
  have nt: "ThreadTimer t \<notin> set (timer_list k)" using K(3) i by (auto simp: sleep_inv_def)
  have fl: "timer_flag_set \<lparr>tm_flag = RT_TIMER_FLAG_ONE_SHOT AND NOT RT_TIMER_FLAG_ACTIVATED, tm_init_tick = 0,
       tm_timeout_tick = 0, tm_static = True\<rparr> g = False" if "g \<in> {RT_TIMER_FLAG_ACTIVATED, RT_TIMER_FLAG_PERIODIC}" for g
    using that by (auto simp: timer_flag_set_def RT_TIMER_FLAG_ONE_SHOT_def)
  show "kernel_ok k'"
  proof
    show "kinv k'" using ku by (simp add: k' timer_init_fields_def)
    show "timer_inv k'" using K(2) nt by (auto simp: timer_inv_def k' timer_init_fields_def fl)
    show "sleep_inv {} k'" using K(3) nt by (auto simp: sleep_inv_def k' timer_init_fields_def)
  qed
  show "timer_frame k k'" by (auto simp: timer_frame_def k' timer_init_fields_def fl)
  show "thread_stat k' t = RT_THREAD_INIT" "thread_prio k' t = p"
    by (simp_all add: k' timer_init_fields_def f thread_prio_def)
  show "u \<noteq> t \<Longrightarrow> threads k' u = threads k u" by (simp add: k' timer_init_fields_def)
  show "waitq k' = waitq k" "sems k' = sems k" "mutexes k' = mutexes k"
    "events k' = events k" "mailboxes k' = mailboxes k" "msgqueues k' = msgqueues k"
    "mempools k' = mempools k" "devs k' = devs k"
    by (simp_all add: k' timer_init_fields_def upd_timer_def)
qed

text \<open>Application timers.\<close>

lemma scheduler_start_ok:
  assumes k: "kernel_ok k" and nc: "rt_current_thread k = None"
    and r: "rt_system_scheduler_start k = Some k'"
  shows "kernel_ok k'" "thread_level k k'"
proof -
  note K = kernel_okD [OF k]
  obtain c p where h: "scheduler_get_highest_priority_thread k = Some (c, p)"
    and k': "k' = upd_thread c (\<lambda>x. x\<lparr>stat := RT_THREAD_RUNNING\<rparr>)
      (rt_schedule_remove_thread c (k\<lparr>rt_current_thread := Some c\<rparr>))"
    using r by (auto simp: rt_system_scheduler_start_def Let_def bind_eq_Some_conv)
  have c: "thread_stat k c = RT_THREAD_READY"
    using highest_priority_thread_spec [OF kinvD(1) [OF K(1)] h] by blast
  let ?c = "k\<lparr>rt_current_thread := Some c\<rparr>"
  have st: "thread_stat ?c = thread_stat k" by (simp add: thread_stat_def fun_eq_iff)
  show "kernel_ok k'"
  proof
    show "kinv k'" by (rule rt_system_scheduler_start_kinv(1) [OF K(1) nc r])
    show "timer_inv k'" using K(2) by (simp add: k' timer_inv_def)
    show "sleep_inv {} k'" using K(3) c by (auto simp: k' sleep_inv_def remove_thread_fields st)
  qed
  have "ipc_frame k ?c" by (simp add: ipc_frame_def)
  also have "ipc_frame ?c (rt_schedule_remove_thread c ?c)" by simp
  finally have "obj_frame k (rt_schedule_remove_thread c ?c)" by (rule ipc_frame_obj)
  also have "obj_frame \<dots> k'" unfolding k' by (rule obj_frame_upd_thread(1)) simp_all
  finally show "thread_level k k'" by (auto simp: thread_level_def k' remove_thread_fields)
qed

section \<open>The threads as one state machine\<close>

text \<open>
  One call of a scheduler, thread or timer operation. The calls that suspend the caller are made by
  a thread that is running; the other ones may come from an interrupt handler. A timer is
  initialised when it is on no list, and the applications control timers of their own.
\<close>

inductive sched_call :: "kernel \<Rightarrow> kernel \<Rightarrow> bool" where
  start: "rt_current_thread k = None \<Longrightarrow> rt_system_scheduler_start k = Some k' \<Longrightarrow> sched_call k k'"
| schedule: "rt_schedule k = Some k' \<Longrightarrow> sched_call k k'"
| enter_critical: "sched_call k (rt_enter_critical k)"
| exit_critical: "rt_exit_critical k = Some k' \<Longrightarrow> sched_call k k'"
| interrupt_enter: "sched_call k (rt_interrupt_enter k)"
| interrupt_leave: "sched_call k (rt_interrupt_leave k)"
| tick_set: "sched_call k (rt_tick_set n k)"
| timer_start: "sched_call k (snd (rt_timer_start (UserTimer n) k))"
| timer_stop: "sched_call k (snd (rt_timer_stop (UserTimer n) k))"
| timer_control: "rt_timer_control (UserTimer n) cmd arg k = Some (e, arg', k') \<Longrightarrow> sched_call k k'"
| timer_init: "UserTimer n \<notin> set (timer_list k) \<Longrightarrow> rt_timer_init (UserTimer n) time flag k = Some k'
    \<Longrightarrow> sched_call k k'"
| timer_detach: "rt_timer_detach (UserTimer n) k = Some (e, k') \<Longrightarrow> sched_call k k'"
| timer_delete: "rt_timer_delete (UserTimer n) k = Some (e, k') \<Longrightarrow> sched_call k k'"

inductive thread_call :: "kernel \<Rightarrow> kernel \<Rightarrow> bool" where
  init: "thread_stat k t = RT_THREAD_INIT \<Longrightarrow> rt_thread_init t stk sz s0 p tick k = Some (e, k')
    \<Longrightarrow> thread_call k k'"
| create: "(\<And>t. obj = Some t \<Longrightarrow> thread_stat k t = RT_THREAD_INIT)
    \<Longrightarrow> rt_thread_create obj stk sz s0 p tick k = Some (r, k') \<Longrightarrow> thread_call k k'"
| startup: "rt_thread_startup t k = Some (e, k') \<Longrightarrow> thread_prio k t < RT_THREAD_PRIORITY_MAX
    \<Longrightarrow> thread_call k k'"
| suspend: "rt_thread_suspend t k = Some (e, k') \<Longrightarrow> thread_call k k'"
| resume: "thread_call k (snd (rt_thread_resume t k))"
| yield: "rt_thread_yield k = Some (e, k') \<Longrightarrow> thread_call k k'"
| sleep: "caller_running k \<Longrightarrow> rt_thread_sleep n k = Some (r, k') \<Longrightarrow> thread_call k k'"
| delay: "caller_running k \<Longrightarrow> rt_thread_delay n k = Some (r, k') \<Longrightarrow> thread_call k k'"
| mdelay: "caller_running k \<Longrightarrow> rt_thread_mdelay ms k = Some (r, k') \<Longrightarrow> thread_call k k'"
| delay_until: "caller_running k \<Longrightarrow> rt_thread_delay_until n inc k = Some (r, n', k') \<Longrightarrow> thread_call k k'"
| sleep_end: "thread_call k (snd (rt_thread_sleep_resume t k))"
| control: "rt_thread_control t cmd k = Some (e, k') \<Longrightarrow> thread_prio k t < RT_THREAD_PRIORITY_MAX
    \<Longrightarrow> thread_call k k'"
| detach: "rt_thread_detach t k = Some (e, k') \<Longrightarrow> thread_call k k'"
| delete: "rt_thread_delete t k = Some (e, k') \<Longrightarrow> thread_call k k'"
| exit: "caller_running k \<Longrightarrow> thread_exit k = Some k' \<Longrightarrow> thread_call k k'"
| defunct: "thread_call k (snd (rt_thread_defunct_dequeue k))"

lemma sched_call_ok:
  assumes "sched_call k k'" and k: "kernel_ok k"
  shows "kernel_ok k' \<and> thread_level k k'"
  using assms(1)
proof cases
  case start
  with scheduler_start_ok [OF k] show ?thesis by blast
next
  case schedule
  with rt_schedule_kernel_ok [OF k] rt_schedule_thread_level [OF k] show ?thesis by blast
next
  case enter_critical
  with k show ?thesis by (simp add: rt_enter_critical_def)
next
  case exit_critical
  with rt_exit_critical_ok [OF k] show ?thesis by blast
next
  case interrupt_enter
  with k show ?thesis by (simp add: rt_interrupt_enter_def)
next
  case interrupt_leave
  with k show ?thesis by (simp add: rt_interrupt_leave_def)
next
  case tick_set
  with k show ?thesis by (simp add: rt_tick_set_def)
next
  case timer_start
  with user_timer_ok [OF k] show ?thesis by blast
next
  case timer_stop
  with user_timer_ok [OF k] show ?thesis by blast
next
  case (timer_control n cmd arg e arg')
  then obtain x where x: "timer_control_body cmd arg (timers k (UserTimer n)) = Some (arg', x)"
    and k': "k' = upd_timer (UserTimer n) (\<lambda>_. x) k"
    by (auto simp: rt_timer_control_def bind_eq_Some_conv)
  have "UserTimer n \<in> set (timer_list k) \<Longrightarrow> activated k (UserTimer n)"
    using kernel_okD(2) [OF k] by (simp add: timer_inv_def)
  with timer_control_activated [OF x] upd_user_timer_ok [OF k refl, of n "\<lambda>_. x"]
  show ?thesis unfolding k' by blast
next
  case (timer_init n time flag)
  define g :: "timer \<Rightarrow> timer" where "g = (\<lambda>_. \<lparr>tm_flag = flag AND NOT RT_TIMER_FLAG_ACTIVATED,
    tm_init_tick = time, tm_timeout_tick = 0, tm_static = True\<rparr>)"
  have k': "k' = upd_timer (UserTimer n) g k"
    using timer_init by (auto simp: rt_timer_init_def timer_init_fields_def g_def split: if_splits)
  have "(flag AND NOT RT_TIMER_FLAG_ACTIVATED) AND RT_TIMER_FLAG_ACTIVATED = 0" by (simp add: and.assoc)
  then have g: "\<not> timer_flag_set (g (timers k (UserTimer n))) RT_TIMER_FLAG_ACTIVATED"
    by (simp add: g_def timer_flag_set_def)
  from g upd_user_timer_ok [OF k refl, of n g] timer_init(1) show ?thesis unfolding k' by auto
next
  case timer_detach
  with timer_unlink_ok [OF k refl] show ?thesis by (auto simp: rt_timer_detach_def)
next
  case timer_delete
  with timer_unlink_ok [OF k refl] show ?thesis by (auto simp: rt_timer_delete_def bind_eq_Some_conv)
qed

section \<open>The invariants of all objects\<close>

fun class_inv :: "ipc_class \<Rightarrow> kernel \<Rightarrow> bool" where
  "class_inv Sem_class k = sem_inv k"
| "class_inv Mutex_class k = mutex_inv k"
| "class_inv Event_class k = event_inv k"
| "class_inv Mailbox_class k = mailbox_inv k"
| "class_inv Queue_class k = mqueue_inv k"
| "class_inv Pool_class k = mempool_inv k"
| "class_inv Completion_class k = completion_inv k"
| "class_inv Dataqueue_class k = dataqueue_inv k"
| "class_inv Wqueue_class k = wqueue_inv k"
| "class_inv Work_class k = work_inv k"

definition ipc_inv :: "kernel \<Rightarrow> bool" where
  "ipc_inv k \<longleftrightarrow> (\<forall>A. class_inv A k)"

definition sys_inv :: "kernel \<Rightarrow> bool" where
  "sys_inv k \<longleftrightarrow> check_state k \<and> ipc_inv k"

lemma class_inv_store:
  assumes i: "class_inv A k" and s: "same_store A k k'" and w: "\<And>q. set (waitq k' q) \<subseteq> set (waitq k q)"
  shows "class_inv A k'"
proof (cases A)
  case Sem_class
  with i s semq.guarded_class_frame [OF _ _ w] show ?thesis by (auto simp: sem_inv_def)
next
  case Mutex_class
  with i s mutexq.guarded_class_frame [OF _ _ w] show ?thesis by (simp add: mutex_inv_def mutex_wf_def)
next
  case Event_class
  with i s event_inv_store [OF _ _ w] show ?thesis by simp
next
  case Mailbox_class
  with i s mbs.store [of k k'] show ?thesis by simp
next
  case Queue_class
  with i s mqs.store [of k k'] show ?thesis by simp
next
  case Pool_class
  with i s mps.store [of k k'] show ?thesis by simp
next
  case Completion_class
  with i s completion_inv_store [OF _ _ w] show ?thesis by simp
next
  case Dataqueue_class
  with i s dqs.store [of k k'] show ?thesis by simp
next
  case Wqueue_class
  with i s wqs.store [of k k'] show ?thesis by simp
next
  case Work_class
  with i s wks.store [of k k'] show ?thesis by simp
qed

lemma class_inv_other:
  assumes "class_inv B k" "class_frame A k k'" "A \<noteq> B"
  shows "class_inv B k'"
  using assms sem_inv_class mutex_inv_class event_inv_class mbs.other_class mqs.other_class
    mps.other_class completion_inv_class dqs.other_class wqs.other_class wks.other_class
  by (cases B) auto

lemma ipc_inv_stores:
  assumes "ipc_inv k" and "stores_same k k'" and "\<And>q. set (waitq k' q) \<subseteq> set (waitq k q)"
  shows "ipc_inv k'"
  using class_inv_store [OF _ stores_same_store [OF assms(2)] assms(3)] assms(1) by (simp add: ipc_inv_def)

lemma ipc_inv_thread_level: "ipc_inv k \<Longrightarrow> thread_level k k' \<Longrightarrow> ipc_inv k'"
  by (rule ipc_inv_stores) (auto simp: thread_level_def obj_frame_def)

lemma ipc_inv_class_step:
  assumes "ipc_inv k" and "class_step A (class_inv A) k k'"
  shows "ipc_inv k'"
  unfolding ipc_inv_def
proof
  fix B
  show "class_inv B k'"
    using assms class_inv_other [of B k A k'] by (cases "A = B") (auto simp: class_step_def ipc_inv_def)
qed

lemma sys_invI:
  assumes s: "sys_inv k" and k: "kernel_ok k'" and f: "timer_frame k k'" and i: "ipc_inv k'"
  shows "sys_inv k'"
  using assms by (auto simp: sys_inv_def check_state_def one_shot_threads_def timer_frame_def)

lemma sys_invD:
  assumes "sys_inv k"
  shows "kernel_ok k" "ipc_inv k" "class_inv A k"
  using assms by (auto simp: sys_inv_def check_state_def ipc_inv_def)

lemma sys_inv_thread_level: "sys_inv k \<Longrightarrow> kernel_ok k' \<and> thread_level k k' \<Longrightarrow> sys_inv k'"
  using sys_invI ipc_inv_thread_level sys_invD(2) by (metis thread_level_def obj_frame_def)

lemma sys_inv_class_step: "sys_inv k \<Longrightarrow> class_step A (class_inv A) k k' \<Longrightarrow> sys_inv k'"
  using sys_invI ipc_inv_class_step sys_invD(2) by (metis class_step_def class_frame_def)

lemma ipc_inv_new_thread:
  assumes k: "kernel_ok k" and i: "ipc_inv k" and t: "thread_stat k t = RT_THREAD_INIT"
    and r: "thread_init t st a n s0 p tick k = Some (e, k')"
  shows "ipc_inv k'"
proof -
  note T = thread_init_ok [OF k t r]
  have s: "same_store A k k'" if "A \<noteq> Event_class" for A
    using that by (cases A) (simp_all add: T)
  have ev: "event_inv k'"
    unfolding event_inv_def
  proof (intro allI ballI)
    fix e u assume u: "u \<in> set (waitq k' (EventWait e))"
    then have "thread_stat k u = RT_THREAD_SUSPEND"
      using kinvD(1) [OF kernel_okD(1) [OF k]] by (auto simp: T queue_inv_def wait_inv_def)
    then have "u \<noteq> t" using t by auto
    moreover have "event_waiter_ok k e u" using u i by (auto simp: T ipc_inv_def event_inv_def
        dest: spec [where x = Event_class])
    ultimately show "event_waiter_ok k' e u" by (simp add: event_waiter_ok_def T)
  qed
  show ?thesis
    unfolding ipc_inv_def
  proof
    fix A show "class_inv A k'"
      using class_inv_store [OF _ s, of A] ev i by (cases "A = Event_class") (auto simp: ipc_inv_def T)
  qed
qed

lemma sched_call_sys: "sched_call k k' \<Longrightarrow> sys_inv k \<Longrightarrow> sys_inv k'"
  using sys_inv_thread_level sched_call_ok sys_invD(1) by blast

lemma new_thread_sys:
  assumes s: "sys_inv k" and t: "thread_stat k t = RT_THREAD_INIT"
    and r: "thread_init t st a n s0 p tick k = Some (e, k')"
  shows "sys_inv k'"
  by (rule sys_invI [OF s thread_init_ok(1) [OF sys_invD(1) [OF s] t r]
        thread_init_ok(5) [OF sys_invD(1) [OF s] t r] ipc_inv_new_thread [OF sys_invD(1,2) [OF s] t r]])

lemma defunct_dequeue_ok:
  assumes k: "kernel_ok k"
  shows "kernel_ok (snd (rt_thread_defunct_dequeue k))" "thread_level k (snd (rt_thread_defunct_dequeue k))"
proof -
  note K = kernel_okD [OF k]
  have "kernel_ok (tlist_remove t k) \<and> thread_level k (tlist_remove t k)" if "t \<in> set (rt_thread_defunct k)" for t
  proof
    have c: "thread_stat k t = RT_THREAD_CLOSE"
      using that queue_invD(5) [OF kinvD(1) [OF K(1)]] by (simp add: defunct_inv_def)
    have q: "queue_inv {t} (tlist_remove t k)" by (rule kinvD(1) [OF tlist_remove_kinv [OF K(1)]]) (simp add: c)
    show "kernel_ok (tlist_remove t k)"
    proof
      have "queue_inv {} (tlist_remove t k)" by (rule queue_inv_drop [OF q]) (simp_all add: c)
      moreover have "current_inv {} (tlist_remove t k)" using kinvD(2) [OF K(1)] by (simp add: current_inv_def)
      ultimately show "kinv (tlist_remove t k)" by (rule kinvI)
      show "timer_inv (tlist_remove t k)" using K(2) by (simp add: timer_inv_def)
      show "sleep_inv {} (tlist_remove t k)" using K(3) by (simp add: sleep_inv_def)
    qed
    show "thread_level k (tlist_remove t k)"
      by (rule thread_levelI) auto
  qed
  then show "kernel_ok (snd (rt_thread_defunct_dequeue k))" "thread_level k (snd (rt_thread_defunct_dequeue k))"
    using k by (auto simp: rt_thread_defunct_dequeue_def split: list.splits)
qed

lemma thread_call_ok:
  assumes "thread_call k k'" and s: "sys_inv k"
  shows "sys_inv k'"
  using assms(1)
proof cases
  case (init t stk sz s0 p tick e)
  then show ?thesis by (auto simp: rt_thread_init_def intro: new_thread_sys [OF s] split: if_splits)
next
  case (create obj stk sz s0 p tick r)
  then show ?thesis
    using s by (auto simp: rt_thread_create_def bind_eq_Some_conv intro: new_thread_sys [OF s]
        split: option.splits)
next
  case (startup t e)
  with rt_thread_startup_ok(1) rt_thread_startup_thread_level sys_inv_thread_level [OF s] sys_invD(1) [OF s]
  show ?thesis by blast
next
  case (suspend t e)
  with rt_thread_suspend_ok(1) rt_thread_suspend_thread_level sys_inv_thread_level [OF s] sys_invD(1) [OF s]
  show ?thesis by blast
next
  case (resume t)
  with rt_thread_resume_ok(1) rt_thread_resume_thread_level sys_inv_thread_level [OF s] sys_invD(1) [OF s]
  show ?thesis by blast
next
  case (yield e)
  with rt_thread_yield_ok rt_thread_yield_thread_level sys_inv_thread_level [OF s] sys_invD(1) [OF s]
  show ?thesis by blast
next
  case (sleep n r)
  with rt_thread_sleep_thread_level caller_runningD sys_inv_thread_level [OF s] sys_invD(1) [OF s]
  show ?thesis by blast
next
  case (delay n r)
  with rt_thread_sleep_thread_level caller_runningD sys_inv_thread_level [OF s] sys_invD(1) [OF s]
  show ?thesis unfolding rt_thread_delay_def by blast
next
  case (mdelay ms r)
  with rt_thread_sleep_thread_level caller_runningD sys_inv_thread_level [OF s] sys_invD(1) [OF s]
  show ?thesis unfolding rt_thread_mdelay_def by blast
next
  case (delay_until n inc r n')
  with rt_thread_delay_until_ok caller_runningD sys_inv_thread_level [OF s] sys_invD(1) [OF s]
  show ?thesis by blast
next
  case (sleep_end t)
  have "kernel_ok k' \<and> thread_level k k'"
    using sys_invD(1) [OF s] unfolding sleep_end by (simp add: rt_thread_sleep_resume_def Let_def)
  then show ?thesis by (rule sys_inv_thread_level [OF s])
next
  case (control t cmd e)
  with rt_thread_control_ok sys_inv_thread_level [OF s] sys_invD(1) [OF s] show ?thesis by blast
next
  case (detach t e)
  then have "thread_dispose t k = Some (e, k')" by (auto simp: rt_thread_detach_def bind_eq_Some_conv)
  with thread_dispose_ok(1) thread_dispose_thread_level sys_inv_thread_level [OF s] sys_invD(1) [OF s]
  show ?thesis by blast
next
  case (delete t e)
  then have "thread_dispose t k = Some (e, k')" by (auto simp: rt_thread_delete_def bind_eq_Some_conv)
  with thread_dispose_ok(1) thread_dispose_thread_level sys_inv_thread_level [OF s] sys_invD(1) [OF s]
  show ?thesis by blast
next
  case exit
  with thread_exit_thread_level caller_runningD sys_inv_thread_level [OF s] sys_invD(1) [OF s]
  show ?thesis by blast
next
  case defunct
  with defunct_dequeue_ok sys_inv_thread_level [OF s] sys_invD(1) [OF s] show ?thesis by blast
qed

section \<open>The calls on the IPC objects\<close>

text \<open>
  One relation per class of objects. A suspended call goes on (\<open>..._resume\<close>) when its thread is the
  running one again.
\<close>

inductive sem_call :: "kernel \<Rightarrow> kernel \<Rightarrow> bool" where
  init: "rt_sem_init s v flag k = Some (e, k') \<Longrightarrow> sem_call k k'"
| detach: "rt_sem_detach s k = Some (e, k') \<Longrightarrow> sem_call k k'"
| create: "rt_sem_create obj v flag k = Some (r, k') \<Longrightarrow> sem_call k k'"
| delete: "rt_sem_delete s k = Some (e, k') \<Longrightarrow> sem_call k k'"
| take: "caller_running k \<Longrightarrow> rt_sem_take s timeout k = Some (res, k') \<Longrightarrow> sem_call k k'"
| trytake: "caller_running k \<Longrightarrow> rt_sem_trytake s k = Some (res, k') \<Longrightarrow> sem_call k k'"
| release: "rt_sem_release s k = Some (e, k') \<Longrightarrow> sem_call k k'"
| control: "rt_sem_control s reset arg k = Some (e, k') \<Longrightarrow> sem_call k k'"

inductive mutex_call :: "kernel \<Rightarrow> kernel \<Rightarrow> bool" where
  init: "mutex_call k (snd (rt_mutex_init m flag k))"
| detach: "rt_mutex_detach m k = Some (e, k') \<Longrightarrow> mutex_call k k'"
| create: "rt_mutex_create obj flag k = Some (r, k') \<Longrightarrow> mutex_call k k'"
| delete: "rt_mutex_delete m k = Some (e, k') \<Longrightarrow> mutex_call k k'"
| take: "caller_running k \<Longrightarrow> rt_mutex_take m timeout k = Some (res, k') \<Longrightarrow> mutex_call k k'"
| trytake: "caller_running k \<Longrightarrow> rt_mutex_trytake m k = Some (res, k') \<Longrightarrow> mutex_call k k'"
| release: "rt_mutex_release m k = Some (e, k') \<Longrightarrow> mutex_call k k'"

inductive event_call :: "kernel \<Rightarrow> kernel \<Rightarrow> bool" where
  init: "event_call k (snd (rt_event_init ev flag k))"
| detach: "rt_event_detach ev k = Some (e, k') \<Longrightarrow> event_call k k'"
| create: "rt_event_create obj flag k = Some (r, k') \<Longrightarrow> event_call k k'"
| delete: "rt_event_delete ev k = Some (e, k') \<Longrightarrow> event_call k k'"
| send: "rt_event_send ev bits k = Some (e, k') \<Longrightarrow> event_call k k'"
| recv: "caller_running k \<Longrightarrow> rt_event_recv ev bits option timeout k = Some (res, k') \<Longrightarrow> event_call k k'"
| control: "rt_event_control ev reset k = Some (e, k') \<Longrightarrow> event_call k k'"

inductive mailbox_call :: "kernel \<Rightarrow> kernel \<Rightarrow> bool" where
  init: "unat sz mod 2 ^ 16 \<le> length pool \<Longrightarrow> mailbox_call k (snd (rt_mb_init m pool sz flag k))"
| detach: "rt_mb_detach m k = Some (e, k') \<Longrightarrow> mailbox_call k k'"
| create: "(\<And>msgs. pool = Some msgs \<Longrightarrow> unat sz mod 2 ^ 16 \<le> length msgs)
    \<Longrightarrow> rt_mb_create obj pool sz flag k = Some (r, k') \<Longrightarrow> mailbox_call k k'"
| delete: "rt_mb_delete m k = Some (e, k') \<Longrightarrow> mailbox_call k k'"
| send: "caller_running k \<Longrightarrow> rt_mb_send_wait m v timeout k = Some (res, k') \<Longrightarrow> mailbox_call k k'"
| send_on: "caller_running k \<Longrightarrow> rt_current_thread k = Some (mbs_thread f)
    \<Longrightarrow> rt_mb_send_wait_resume f k = Some (res, k') \<Longrightarrow> mailbox_call k k'"
| urgent: "rt_mb_urgent m v k = Some (e, k') \<Longrightarrow> mailbox_call k k'"
| recv: "caller_running k \<Longrightarrow> rt_mb_recv m timeout k = Some (rcv, k') \<Longrightarrow> mailbox_call k k'"
| recv_on: "caller_running k \<Longrightarrow> rt_current_thread k = Some (mbr_thread g)
    \<Longrightarrow> rt_mb_recv_resume g k = Some (rcv, k') \<Longrightarrow> mailbox_call k k'"
| control: "rt_mb_control m reset k = Some (e, k') \<Longrightarrow> mailbox_call k k'"

text \<open>
  A message queue's nodes hold as many bytes as the rounded message size, and a sender that slept
  goes on with the buffer it called with, which it checked against that size.
\<close>

inductive queue_call :: "kernel \<Rightarrow> kernel \<Rightarrow> bool" where
  init: "(\<And>n. length (pool n) = unat (rt_align4 sz) mod 2 ^ 16)
    \<Longrightarrow> queue_call k (snd (rt_mq_init m pool sz pool_size flag k))"
| detach: "rt_mq_detach m k = Some (e, k') \<Longrightarrow> queue_call k k'"
| create: "(\<And>mem n. mp = Some mem \<Longrightarrow> length (mem n) = unat (rt_align4 sz) mod 2 ^ 16)
    \<Longrightarrow> rt_mq_create obj mp sz maxm flag k = Some (r, k') \<Longrightarrow> queue_call k k'"
| delete: "rt_mq_delete m k = Some (e, k') \<Longrightarrow> queue_call k k'"
| send: "caller_running k \<Longrightarrow> rt_mq_send_wait m bytes timeout k = Some (res, k') \<Longrightarrow> queue_call k k'"
| send_on: "caller_running k \<Longrightarrow> rt_current_thread k = Some (mqs_thread f)
    \<Longrightarrow> length (mqs_buffer f) \<le> mq_msg_size (msgqueues k (mqs_mq f))
    \<Longrightarrow> rt_mq_send_wait_resume f k = Some (res, k') \<Longrightarrow> queue_call k k'"
| urgent: "rt_mq_urgent m bytes k = Some (e, k') \<Longrightarrow> queue_call k k'"
| recv: "caller_running k \<Longrightarrow> rt_mq_recv m n timeout k = Some (rcv, k') \<Longrightarrow> queue_call k k'"
| recv_on: "caller_running k \<Longrightarrow> rt_current_thread k = Some (mqr_thread g)
    \<Longrightarrow> rt_mq_recv_resume g k = Some (rcv, k') \<Longrightarrow> queue_call k k'"
| control: "rt_mq_control m reset k = Some (e, k') \<Longrightarrow> queue_call k k'"

inductive pool_call :: "kernel \<Rightarrow> kernel \<Rightarrow> bool" where
  init: "rt_mp_init m start sz block_size k = Some (e, k') \<Longrightarrow> pool_call k k'"
| detach: "rt_mp_detach m k = Some (e, k') \<Longrightarrow> pool_call k k'"
| create: "rt_mp_create obj mem count block_size k = Some (r, k') \<Longrightarrow> pool_call k k'"
| delete: "rt_mp_delete m k = Some (e, k') \<Longrightarrow> pool_call k k'"
| alloc: "caller_running k \<Longrightarrow> rt_mp_alloc m timeout k = Some (res, k') \<Longrightarrow> pool_call k k'"
| alloc_on: "caller_running k \<Longrightarrow> rt_current_thread k = Some (mpa_thread f)
    \<Longrightarrow> rt_mp_alloc_resume f k = Some (res, k') \<Longrightarrow> pool_call k k'"
| free: "rt_mp_free block k = Some k' \<Longrightarrow> pool_call k k'"

lemma sem_call_ok:
  assumes "sem_call k k'" and k: "kernel_ok k" and i: "sem_inv k"
  shows "class_step Sem_class sem_inv k k'"
proof -
  have "kernel_ok k' \<and> sem_inv k' \<and> class_frame Sem_class k k'"
    using assms(1)
  proof cases
    case init with rt_sem_init_ok [OF k i] show ?thesis by blast
  next
    case detach with rt_sem_detach_ok [OF k i] show ?thesis by blast
  next
    case create with rt_sem_create_ok [OF k i] show ?thesis by blast
  next
    case delete with rt_sem_delete_ok [OF k i] show ?thesis by blast
  next
    case take with rt_sem_take_ok [OF k i _ caller_runningD] show ?thesis by blast
  next
    case trytake with rt_sem_take_ok [OF k i _ caller_runningD] show ?thesis
      unfolding rt_sem_trytake_def by blast
  next
    case release with rt_sem_release_ok [OF k i] show ?thesis by blast
  next
    case control with rt_sem_control_ok [OF k i] show ?thesis by blast
  qed
  then show ?thesis by (simp add: class_step_def)
qed

lemma mutex_call_ok:
  assumes "mutex_call k k'" and k: "kernel_ok k" and i: "mutex_inv k"
  shows "class_step Mutex_class mutex_inv k k'"
proof -
  have "kernel_ok k' \<and> mutex_inv k' \<and> class_frame Mutex_class k k'"
    using assms(1)
  proof cases
    case init with rt_mutex_init_ok [OF k i] show ?thesis by blast
  next
    case detach with rt_mutex_detach_ok [OF k i] show ?thesis by blast
  next
    case create with rt_mutex_create_ok [OF k i] show ?thesis by blast
  next
    case delete with rt_mutex_delete_ok [OF k i] show ?thesis by blast
  next
    case take with rt_mutex_take_ok [OF k i _ caller_runningD] show ?thesis by blast
  next
    case trytake with rt_mutex_take_ok [OF k i _ caller_runningD] show ?thesis
      unfolding rt_mutex_trytake_def by blast
  next
    case release with rt_mutex_release_ok [OF k i] show ?thesis by blast
  qed
  then show ?thesis by (simp add: class_step_def)
qed

lemma event_call_ok:
  assumes "event_call k k'" and k: "kernel_ok k" and i: "event_inv k"
  shows "class_step Event_class event_inv k k'"
proof -
  have "kernel_ok k' \<and> event_inv k' \<and> class_frame Event_class k k'"
    using assms(1)
  proof cases
    case init with rt_event_init_ok [OF k i] show ?thesis by blast
  next
    case detach with rt_event_detach_ok [OF k i] show ?thesis by blast
  next
    case create with rt_event_create_ok [OF k i] show ?thesis by blast
  next
    case delete with rt_event_delete_ok [OF k i] show ?thesis by blast
  next
    case send with rt_event_send_ok(1-3) [OF k i] show ?thesis by blast
  next
    case recv with rt_event_recv_ok [OF k i _ caller_runningD] show ?thesis by blast
  next
    case control with rt_event_control_ok [OF k i] show ?thesis by blast
  qed
  then show ?thesis by (simp add: class_step_def)
qed

lemma mailbox_call_ok:
  assumes "mailbox_call k k'" and k: "kernel_ok k" and i: "mailbox_inv k"
  shows "mb_step_ok k k'"
  using assms(1)
proof cases
  case init with rt_mb_init_ok [OF k i] show ?thesis by blast
next
  case detach with rt_mb_detach_ok [OF k i] show ?thesis by blast
next
  case create with rt_mb_create_ok [OF k i] show ?thesis by blast
next
  case delete with rt_mb_delete_ok [OF k i] show ?thesis by blast
next
  case send with rt_mb_send_wait_ok [OF k i _ caller_runningD] show ?thesis by blast
next
  case send_on with rt_mb_send_wait_resume_ok [OF k i] caller_runningD show ?thesis by blast
next
  case urgent with rt_mb_urgent_ok [OF k i] show ?thesis by blast
next
  case recv with rt_mb_recv_ok [OF k i _ caller_runningD] show ?thesis by blast
next
  case recv_on with rt_mb_recv_resume_ok [OF k i] caller_runningD show ?thesis by blast
next
  case control with rt_mb_control_ok [OF k i] show ?thesis by blast
qed

lemma queue_call_ok:
  assumes "queue_call k k'" and k: "kernel_ok k" and i: "mqueue_inv k"
  shows "mq_step_ok k k'"
  using assms(1)
proof cases
  case init with rt_mq_init_ok [OF k i] show ?thesis by blast
next
  case detach with rt_mq_detach_ok [OF k i] show ?thesis by blast
next
  case create with rt_mq_create_ok [OF k i] show ?thesis by blast
next
  case delete with rt_mq_delete_ok [OF k i] show ?thesis by blast
next
  case send with rt_mq_send_wait_ok [OF k i _ caller_runningD] show ?thesis by blast
next
  case send_on with rt_mq_send_wait_resume_ok [OF k i] caller_runningD show ?thesis by blast
next
  case urgent with rt_mq_urgent_ok [OF k i] show ?thesis by blast
next
  case recv with rt_mq_recv_ok [OF k i _ caller_runningD] show ?thesis by blast
next
  case recv_on with rt_mq_recv_resume_ok [OF k i] caller_runningD show ?thesis by blast
next
  case control with rt_mq_control_ok [OF k i] show ?thesis by blast
qed

lemma pool_call_ok:
  assumes "pool_call k k'" and k: "kernel_ok k" and i: "mempool_inv k"
  shows "mp_step_ok k k'"
  using assms(1)
proof cases
  case init with rt_mp_init_ok [OF k i] show ?thesis by blast
next
  case detach with rt_mp_detach_ok [OF k i] show ?thesis by blast
next
  case create with rt_mp_create_ok [OF k i] show ?thesis by blast
next
  case delete with rt_mp_delete_ok [OF k i] show ?thesis by blast
next
  case alloc with rt_mp_alloc_ok [OF k i _ caller_runningD] show ?thesis by blast
next
  case alloc_on with rt_mp_alloc_resume_ok [OF k i] caller_runningD show ?thesis by blast
next
  case free with rt_mp_free_ok [OF k i] show ?thesis by blast
qed

section \<open>The calls on the objects of the driver framework\<close>

text \<open>
  A data queue is initialised with an array of its size; a call that slept goes on while the queue
  exists, with notifications that keep the invariants. A node is added to a wait queue when it is on
  none, a work is initialised when it is on no list and submitted with its timer idle or armed by an
  earlier submission.
\<close>

inductive completion_call :: "kernel \<Rightarrow> kernel \<Rightarrow> bool" where
  init: "completion_call k (rt_completion_init c k)"
| wait: "caller_running k \<Longrightarrow> rt_completion_wait c timeout k = Some (res, k') \<Longrightarrow> completion_call k k'"
| wait_on: "rt_completion_wait_resume c t k = (e, k') \<Longrightarrow> completion_call k k'"
| signal: "rt_completion_done c k = Some k' \<Longrightarrow> completion_call k k'"

inductive dataqueue_call :: "kernel \<Rightarrow> kernel \<Rightarrow> bool" where
  init: "sz \<le> length items \<Longrightarrow> rt_data_queue_init q sz lwm (Some items) k = Some (e, k') \<Longrightarrow> dataqueue_call k k'"
| push: "caller_running k \<Longrightarrow> dq_notify_ok notify \<Longrightarrow> rt_data_queue_push q v timeout notify k = Some (res, k')
    \<Longrightarrow> dataqueue_call k k'"
| push_on: "caller_running k \<Longrightarrow> dq_notify_ok notify \<Longrightarrow> dq_magic (dataq k q) = DATAQUEUE_MAGIC
    \<Longrightarrow> rt_data_queue_push_resume q v timeout notify t k = Some (res, k') \<Longrightarrow> dataqueue_call k k'"
| pop: "caller_running k \<Longrightarrow> dq_notify_ok notify \<Longrightarrow> rt_data_queue_pop q timeout notify k = Some (rcv, k')
    \<Longrightarrow> dataqueue_call k k'"
| pop_on: "caller_running k \<Longrightarrow> dq_notify_ok notify \<Longrightarrow> dq_magic (dataq k q) = DATAQUEUE_MAGIC
    \<Longrightarrow> rt_data_queue_pop_resume q timeout notify f k = Some (rcv, k') \<Longrightarrow> dataqueue_call k k'"
| reset: "rt_data_queue_reset q k = Some k' \<Longrightarrow> dataqueue_call k k'"
| deinit: "rt_data_queue_deinit q k = Some (e, k') \<Longrightarrow> dataqueue_call k k'"

inductive wqueue_call :: "kernel \<Rightarrow> kernel \<Rightarrow> bool" where
  init: "wqueue_call k (rt_wqueue_init q k)"
| add: "wqnode_free k n \<Longrightarrow> wqueue_call k (rt_wqueue_add q n k)"
| node: "wqueue_call k (set_wqnode n x k)"
| remove: "wqueue_call k (rt_wqueue_remove n k)"
| wakeup: "rt_wqueue_wakeup q key k = Some k' \<Longrightarrow> wqueue_call k k'"
| wait: "caller_running k \<Longrightarrow> wqnode_free k n \<Longrightarrow> rt_wqueue_wait q n condition msec k = Some (res, k')
    \<Longrightarrow> wqueue_call k k'"
| wait_on: "rt_wqueue_wait_resume q n t k = (e, k') \<Longrightarrow> wqueue_call k k'"

inductive work_call :: "kernel \<Rightarrow> kernel \<Rightarrow> bool" where
  init: "work_free k w \<Longrightarrow> work_call k (rt_work_init w k)"
| dowork: "work_timer_idle k w \<Longrightarrow> rt_workqueue_dowork q w k = Some (e, k') \<Longrightarrow> work_call k k'"
| submit: "work_timer_idle k w \<Longrightarrow> rt_workqueue_submit_work q w ticks k = Some (e, k') \<Longrightarrow> work_call k k'"
| urgent: "rt_workqueue_urgent_work q w k = Some (e, k') \<Longrightarrow> work_call k k'"
| cancel: "rt_workqueue_cancel_work q w k = Some (e, k') \<Longrightarrow> work_call k k'"
| cancel_all: "work_timers_static k \<Longrightarrow> rt_workqueue_cancel_all_work q k = Some (e, k') \<Longrightarrow> work_call k k'"
| begin_work: "workqueue_thread_begin q k = Some (r, k') \<Longrightarrow> work_call k k'"

lemma completion_call_ok:
  assumes "completion_call k k'" and k: "kernel_ok k" and i: "completion_inv k"
  shows "completion_step k k'"
  using assms(1)
proof cases
  case init with rt_completion_init_ok [OF k i] show ?thesis by blast
next
  case wait with rt_completion_wait_ok [OF k i _ caller_runningD] show ?thesis by blast
next
  case wait_on with rt_completion_wait_resume_ok [OF k i] show ?thesis by blast
next
  case signal with rt_completion_done_ok [OF k i] show ?thesis by blast
qed

lemma dataqueue_call_ok:
  assumes "dataqueue_call k k'" and k: "kernel_ok k" and i: "dataqueue_inv k"
  shows "dq_step_ok k k'"
  using assms(1)
proof cases
  case init with rt_data_queue_init_ok(1) [OF k i] show ?thesis by blast
next
  case push with rt_data_queue_push_ok [OF k i] show ?thesis by blast
next
  case push_on with rt_data_queue_push_resume_ok [OF k i] show ?thesis by blast
next
  case pop with rt_data_queue_pop_ok [OF k i] show ?thesis by blast
next
  case pop_on with rt_data_queue_pop_resume_ok [OF k i] show ?thesis by blast
next
  case reset with rt_data_queue_reset_ok(1) [OF k i] show ?thesis by blast
next
  case deinit with rt_data_queue_deinit_ok(1) [OF k i] show ?thesis by blast
qed

lemma wqueue_call_ok:
  assumes "wqueue_call k k'" and k: "kernel_ok k" and i: "wqueue_inv k"
  shows "wq_step k k'"
proof -
  note s = wqs.step_refl [OF k i]
  from assms(1) show ?thesis
  proof cases
    case init with rt_wqueue_init_ok [OF s] show ?thesis by blast
  next
    case add with rt_wqueue_add_ok [OF s] show ?thesis by blast
  next
    case node with set_wqnode_step [OF s] show ?thesis by blast
  next
    case remove with rt_wqueue_remove_step [OF s] show ?thesis by blast
  next
    case wakeup with rt_wqueue_wakeup_ok [OF k i] show ?thesis by blast
  next
    case wait with rt_wqueue_wait_ok [OF k i] show ?thesis by blast
  next
    case wait_on with rt_wqueue_wait_resume_ok [OF k i] show ?thesis by blast
  qed
qed

lemma work_call_ok:
  assumes "work_call k k'" and k: "kernel_ok k" and i: "work_inv k"
  shows "work_step k k'"
proof -
  note s = wks.step_refl [OF k i]
  from assms(1) show ?thesis
  proof cases
    case init with rt_work_init_ok [OF s] show ?thesis by blast
  next
    case dowork with workqueue_submit_work_ok [OF k i] show ?thesis unfolding rt_workqueue_dowork_def by blast
  next
    case submit with workqueue_submit_work_ok [OF k i] show ?thesis
      by (auto simp: rt_workqueue_submit_work_def bind_eq_Some_conv)
  next
    case urgent with rt_workqueue_urgent_work_ok [OF s] show ?thesis by blast
  next
    case cancel with workqueue_cancel_work_ok(1) [OF s] show ?thesis unfolding rt_workqueue_cancel_work_def by blast
  next
    case cancel_all with rt_workqueue_cancel_all_work_ok(1) [OF k i] show ?thesis by blast
  next
    case begin_work with workqueue_thread_begin_ok [OF s] show ?thesis by blast
  qed
qed

text \<open>The calls that touch more than one kind of object.\<close>

inductive worker_call :: "kernel \<Rightarrow> kernel \<Rightarrow> bool" where
  create: "(\<And>q. alloc = Some q \<Longrightarrow> work_lists k q = [])
    \<Longrightarrow> (\<And>t. obj = Some t \<Longrightarrow> thread_stat k t = RT_THREAD_INIT)
    \<Longrightarrow> rt_workqueue_create alloc s obj stk sz s0 p k = Some (r, k') \<Longrightarrow> worker_call k k'"
| destroy: "work_timers_static k \<Longrightarrow> rt_workqueue_destroy q k = Some (e, k') \<Longrightarrow> worker_call k k'"
| end_work: "sem_object (sems k (wkq_sem (workq_of k q))) \<noteq> Obj_none \<Longrightarrow> rt_scheduler_lock_nest k + 1 \<noteq> 0
    \<Longrightarrow> workqueue_thread_end q k = Some (e, k') \<Longrightarrow> worker_call k k'"
| cancel_sync: "caller_running k \<Longrightarrow> rt_workqueue_cancel_work_sync q w k = Some (res, k') \<Longrightarrow> worker_call k k'"

lemma sys_inv_work_step: "sys_inv k \<Longrightarrow> work_step k k' \<Longrightarrow> sys_inv k'"
  using sys_inv_class_step [of k Work_class k'] by (simp add: class_step_def)

lemma sys_inv_sem_step: "sys_inv k \<Longrightarrow> class_step Sem_class sem_inv k k' \<Longrightarrow> sys_inv k'"
  using sys_inv_class_step [of k Sem_class k'] by (simp add: class_step_def)

lemma sys_inv_sem_call: "sys_inv k \<Longrightarrow> sem_call k k' \<Longrightarrow> sys_inv k'"
  using sys_inv_sem_step sem_call_ok sys_invD(1) sys_invD(3) [of k Sem_class] by auto

lemma worker_call_ok:
  assumes "worker_call k k'" and s: "sys_inv k"
  shows "sys_inv k'"
proof -
  note S = sys_invD [OF s]
  have W: "work_inv k" "sem_inv k" using S(3) [of Work_class] S(3) [of Sem_class] by simp_all
  note r = wks.step_refl [OF S(1) W(1)]
  from assms(1) show ?thesis
  proof cases
    case (destroy q e)
    obtain e1 k1 e2 k2 e3 where c: "rt_workqueue_cancel_all_work q k = Some (e1, k1)"
      "rt_thread_delete (work_thread k1 q) k1 = Some (e2, k2)" "rt_sem_detach (wkq_sem (workq_of k2 q)) k2 = Some (e3, k')"
      using destroy(2) by (auto simp: rt_workqueue_destroy_def bind_eq_Some_conv)
    have "sys_inv k1"
      by (rule sys_inv_work_step [OF s rt_workqueue_cancel_all_work_ok(1) [OF S(1) W(1) destroy(1) c(1)]])
    then have "sys_inv k2" by (rule thread_call_ok [OF thread_call.delete [OF c(2)]])
    then show ?thesis by (rule sys_inv_sem_call [OF _ sem_call.detach [OF c(3)]])
  next
    case (end_work q e)
    from workqueue_thread_end_ok(2) [OF r W(2) end_work(1,3,2)]
    obtain k2 where k2: "work_step k k2" "class_step Sem_class sem_inv k2 k'" by blast
    show ?thesis by (rule sys_inv_sem_step [OF sys_inv_work_step [OF s k2(1)] k2(2)])
  next
    case (cancel_sync q w res)
    show ?thesis
    proof (cases "work_current k q = Some w")
      case True
      then obtain x where "rt_sem_take (wkq_sem (workq_of k q)) RT_WAITING_FOREVER k = Some (x, k')"
        using cancel_sync(2) by (auto simp: rt_workqueue_cancel_work_sync_def bind_eq_Some_conv)
      from sys_inv_sem_call [OF s sem_call.take [OF cancel_sync(1) this]] show ?thesis .
    next
      case False
      then obtain e where "workqueue_cancel_work q w k = Some (e, k')"
        using cancel_sync(2) by (auto simp: rt_workqueue_cancel_work_sync_def bind_eq_Some_conv)
      from sys_inv_work_step [OF s workqueue_cancel_work_ok(1) [OF r this]] show ?thesis .
    qed
  next
    case (create alloc obj sm stk sz s0 p rr)
    show ?thesis
    proof (cases alloc)
      case None
      with create(3) s show ?thesis by (simp add: rt_workqueue_create_def)
    next
      case (Some q)
      let ?u = "upd_workq q (\<lambda>x. x\<lparr>wkq_work_list := [], wkq_delayed_list := [], wkq_work_current := None, wkq_sem := sm\<rparr>) k"
      obtain e1 k1 r2 k2 where c: "rt_sem_init sm 0 RT_IPC_FLAG_FIFO ?u = Some (e1, k1)"
        "rt_thread_create obj stk sz s0 p 10 k1 = Some (r2, k2)"
        and e: "(case r2 of None \<Rightarrow> Some (None, k2)
           | Some t \<Rightarrow> do { (_, k) \<leftarrow> rt_thread_startup t (upd_workq q (\<lambda>x. x\<lparr>wkq_work_thread := t\<rparr>) k2);
               Some (Some q, k) }) = Some (rr, k')"
        using create(3) Some unfolding rt_workqueue_create_def Let_def by (auto simp: bind_eq_Some_conv)
      have u: "work_step k ?u" by (rule workq_reset_step [OF r create(1) [OF Some]])
      have s1: "sys_inv k1"
        by (rule sys_inv_sem_call [OF sys_inv_work_step [OF s u] sem_call.init [OF c(1)]])
      have st: "thread_stat k1 = thread_stat k"
        using c(1) by (auto simp: rt_sem_init_def Let_def ipc_object_init_def upd_waitq_def thread_stat_def fun_eq_iff
            split: if_splits)
      have s2: "sys_inv k2"
        by (rule thread_call_ok [OF thread_call.create [OF _ c(2)] s1]) (simp add: st create(2))
      show ?thesis
      proof (cases r2)
        case None
        with e s2 show ?thesis by simp
      next
        case t: (Some t)
        let ?w = "upd_workq q (\<lambda>x. x\<lparr>wkq_work_thread := t\<rparr>) k2"
        obtain e3 where e3: "rt_thread_startup t ?w = Some (e3, k')"
          using e t by (auto simp: Let_def bind_eq_Some_conv)
        have "work_step k2 ?w"
          using sys_invD(3) [OF s2, of Work_class] by (intro workq_thread_step wks.step_refl sys_invD(1) [OF s2]) simp
        from sys_inv_work_step [OF s2 this] have s3: "sys_inv ?w" .
        from c(2) t obtain sa where ob: "obj = Some t"
          and ti: "thread_init t False sa sz s0 p 10 k1 = Some (RT_EOK, k2) \<or> (\<exists>e. thread_init t False sa sz s0 p 10 k1 = Some (e, k2))"
          by (auto simp: rt_thread_create_def bind_eq_Some_conv split: option.splits)
        then obtain e4 where ti: "thread_init t False sa sz s0 p 10 k1 = Some (e4, k2)" by blast
        have ini: "thread_stat k1 t = RT_THREAD_INIT" using create(2) [OF ob] by (simp add: st)
        note T = thread_init_ok(3,13) [OF sys_invD(1) [OF s1] ini ti]
        have p: "thread_prio ?w t < RT_THREAD_PRIORITY_MAX" using T by (simp add: thread_prio_def)
        show ?thesis by (rule thread_call_ok [OF thread_call.startup [OF e3 p] s3])
      qed
    qed
  qed
qed

text \<open>The function of a work's timer is one that \<^verbatim>\<open>rt_timer_check\<close> may call.\<close>

lemma work_timer_callback:
  assumes c: "callback_state (UserTimer w) k" and i: "ipc_inv k"
    and r: "delayed_work_timeout_handler w k = Some k'"
  shows "callback_done (UserTimer w) k' \<and> ipc_inv k'"
proof -
  have k: "kernel_ok k" "one_shot_threads k" "timer_tmp k = [UserTimer w]" using c by (simp_all add: callback_state_def)
  have wi: "work_inv k" using i unfolding ipc_inv_def by (metis class_inv.simps(10))
  note s = delayed_work_timeout_handler_ok [OF k(1) wi r]
  have "class_step Work_class (class_inv Work_class) k k'" using s by (simp add: class_step_def)
  from ipc_inv_class_step [OF i this] have i': "ipc_inv k'" .
  from r obtain q e k1 where d: "rt_timer_detach (UserTimer w) k = Some (e, k1)"
    and wk: "workqueue_wake q (if work_current k1 q \<noteq> Some w
       then upd_work w (set_work_flag RT_WORK_STATE_PENDING)
              (upd_workq q (\<lambda>x. x\<lparr>wkq_work_list := wkq_work_list x @ [w]\<rparr>)
                (work_unlink w (upd_work w (clear_work_flag RT_WORK_STATE_SUBMITTING) k1)))
       else work_unlink w (upd_work w (clear_work_flag RT_WORK_STATE_SUBMITTING) k1)) = Some k'" (is "workqueue_wake q ?b = _")
    by (rule delayed_work_timeout_handler_cases)
  have kb: "kernel_ok ?b" using timer_unlink_ok(1) [OF k(1) refl, of w] d by (auto simp: rt_timer_detach_def)
  have "timer_tmp ?b = []" using d k(3) by (auto simp: rt_timer_detach_def upd_timer_def timer_remove_def)
  moreover have "timer_frame ?b k'"
    using workqueue_wake_level(2) [OF kb wk] by (simp add: thread_level_def obj_frame_def)
  ultimately have "timer_tmp k' = []" by (simp add: timer_frame_def)
  moreover have "timer_frame k k'" using class_stepD(3) [OF s] by (simp add: class_frame_def)
  ultimately show ?thesis
    using i' class_stepD(1) [OF s] k(2) by (auto simp: callback_done_def one_shot_threads_def timer_frame_def)
qed

text \<open>So the timers of the works \<open>ws\<close> may be among those of the application.\<close>

definition with_work_timers :: "nat set \<Rightarrow> (nat \<Rightarrow> kernel \<Rightarrow> kernel option) \<Rightarrow> nat \<Rightarrow> kernel \<Rightarrow> kernel option" where
  "with_work_timers ws user n = (if n \<in> ws then delayed_work_timeout_handler n else user n)"

section \<open>The whole kernel\<close>

text \<open>
  \<open>user n\<close> is the function of the application's timer \<open>n\<close>. It may call the kernel as it likes, as
  long as it leaves its invariants, and its own timer, as a timer's function must.
\<close>

definition user_callbacks_ok :: "(nat \<Rightarrow> kernel \<Rightarrow> kernel option) \<Rightarrow> bool" where
  "user_callbacks_ok user \<longleftrightarrow> (\<forall>n k k'. callback_state (UserTimer n) k \<longrightarrow> ipc_inv k
     \<longrightarrow> user n k = Some k' \<longrightarrow> callback_done (UserTimer n) k' \<and> ipc_inv k')"

lemma work_timers_callbacks:
  "user_callbacks_ok user \<Longrightarrow> user_callbacks_ok (with_work_timers ws user)"
  unfolding user_callbacks_ok_def with_work_timers_def using work_timer_callback by metis

lemma sys_timer_callbacks:
  assumes "user_callbacks_ok user"
  shows "timer_callbacks (timeout_func user) ipc_inv"
proof
  show "ipc_inv k'" if "ipc_inv k" "timer_only k k'" for k k'
    by (rule ipc_inv_stores [OF that(1)]) (use that(2) in \<open>simp_all add: timer_only_def\<close>)
  show "callback_done tm k' \<and> ipc_inv k'"
    if c: "callback_state tm k" and i: "ipc_inv k" and r: "timeout_func user tm k = Some k'" for tm k k'
  proof (cases tm)
    case (ThreadTimer t)
    then have r: "thread_timeout t k = Some k'" using r by (simp add: timeout_func_def)
    have k: "kernel_ok k" using c by (simp add: callback_state_def)
    show ?thesis
      using thread_timeout_callback [OF c [unfolded ThreadTimer] r]
        ipc_inv_thread_level [OF i thread_timeout_thread_level [OF k r]] ThreadTimer by simp
  next
    case (UserTimer n)
    with r have "user n k = Some k'" by (simp add: timeout_func_def)
    with assms c i show ?thesis unfolding user_callbacks_ok_def UserTimer by blast
  qed
qed

inductive kernel_step :: "(nat \<Rightarrow> kernel \<Rightarrow> kernel option) \<Rightarrow> kernel \<Rightarrow> kernel \<Rightarrow> bool"
  for user where
  sched: "sched_call k k' \<Longrightarrow> kernel_step user k k'"
| thread: "thread_call k k' \<Longrightarrow> kernel_step user k k'"
| semaphore: "sem_call k k' \<Longrightarrow> kernel_step user k k'"
| mutex: "mutex_call k k' \<Longrightarrow> kernel_step user k k'"
| event: "event_call k k' \<Longrightarrow> kernel_step user k k'"
| mailbox: "mailbox_call k k' \<Longrightarrow> kernel_step user k k'"
| queue: "queue_call k k' \<Longrightarrow> kernel_step user k k'"
| pool: "pool_call k k' \<Longrightarrow> kernel_step user k k'"
| completion: "completion_call k k' \<Longrightarrow> kernel_step user k k'"
| dataqueue: "dataqueue_call k k' \<Longrightarrow> kernel_step user k k'"
| wqueue: "wqueue_call k k' \<Longrightarrow> kernel_step user k k'"
| work: "work_call k k' \<Longrightarrow> kernel_step user k k'"
| worker: "worker_call k k' \<Longrightarrow> kernel_step user k k'"
| tick: "rt_tick_increase (timeout_func user) k = Some k' \<Longrightarrow> kernel_step user k k'"

inductive_cases sem_callE: "sem_call k k'"
inductive_simps kernel_step_iff: "kernel_step user k k'"

lemma kernel_step_ok:
  assumes "kernel_step user k k'" and u: "user_callbacks_ok user" and s: "sys_inv k"
  shows "sys_inv k'"
proof -
  note S = sys_invD [OF s]
  from assms(1) show ?thesis
  proof cases
    case sched with sched_call_sys s show ?thesis by blast
  next
    case thread with thread_call_ok s show ?thesis by blast
  next
    case semaphore
    with sem_call_ok S(1) S(3) [of Sem_class] sys_inv_class_step [OF s, of Sem_class] show ?thesis
      by (simp add: class_step_def)
  next
    case mutex
    with mutex_call_ok S(1) S(3) [of Mutex_class] sys_inv_class_step [OF s, of Mutex_class] show ?thesis
      by (simp add: class_step_def)
  next
    case event
    with event_call_ok S(1) S(3) [of Event_class] sys_inv_class_step [OF s, of Event_class] show ?thesis
      by (simp add: class_step_def)
  next
    case mailbox
    with mailbox_call_ok S(1) S(3) [of Mailbox_class] sys_inv_class_step [OF s, of Mailbox_class]
    show ?thesis by (simp add: class_step_def)
  next
    case queue
    with queue_call_ok S(1) S(3) [of Queue_class] sys_inv_class_step [OF s, of Queue_class]
    show ?thesis by (simp add: class_step_def)
  next
    case pool
    with pool_call_ok S(1) S(3) [of Pool_class] sys_inv_class_step [OF s, of Pool_class]
    show ?thesis by (simp add: class_step_def)
  next
    case completion
    with completion_call_ok S(1) S(3) [of Completion_class] sys_inv_class_step [OF s, of Completion_class]
    show ?thesis by (simp add: class_step_def)
  next
    case dataqueue
    with dataqueue_call_ok S(1) S(3) [of Dataqueue_class] sys_inv_class_step [OF s, of Dataqueue_class]
    show ?thesis by (simp add: class_step_def)
  next
    case wqueue
    with wqueue_call_ok S(1) S(3) [of Wqueue_class] sys_inv_class_step [OF s, of Wqueue_class]
    show ?thesis by (simp add: class_step_def)
  next
    case work
    with work_call_ok S(1) S(3) [of Work_class] sys_inv_work_step [OF s] show ?thesis by simp
  next
    case worker with worker_call_ok s show ?thesis by blast
  next
    case tick
    from rt_tick_increase_ok [OF _ this sys_timer_callbacks [OF u]] ipc_inv_thread_level [OF S(2)] s
    show ?thesis by (simp add: sys_inv_def)
  qed
qed

lemma kernel_steps_ok:
  "(kernel_step user)\<^sup>*\<^sup>* k k' \<Longrightarrow> user_callbacks_ok user \<Longrightarrow> sys_inv k \<Longrightarrow> sys_inv k'"
  by (induction rule: rtranclp_induct) (auto intro: kernel_step_ok)

section \<open>From the start of the system\<close>

text \<open>
  \<open>cleared_memory\<close>: no control block has been initialised and the static variables are zero. The
  boot code then initialises the timer list and the scheduler; the first thread is switched to by
  \<^verbatim>\<open>rt_system_scheduler_start\<close>, once the threads that \<^verbatim>\<open>rtthread_startup\<close> makes are there.
\<close>

definition cleared_memory :: kernel where
  "cleared_memory = \<lparr>rt_tick = 0, rt_current_thread = None, rt_current_priority = 0,
     rt_scheduler_lock_nest = 0, rt_interrupt_nest = 0, rt_thread_priority_table = (\<lambda>_. []),
     rt_thread_ready_priority_group = 0,
     threads = (\<lambda>_. \<lparr>stat = 0, current_priority = 0, number_mask = 0, error = RT_EOK, event_set = 0,
       event_info = 0, init_tick = 0, remaining_tick = 0, stack_addr = 0, stack_size = 0, sp = 0,
       stack_guard = 0, static_object = False\<rparr>),
     timers = (\<lambda>_. \<lparr>tm_flag = 0, tm_init_tick = 0, tm_timeout_tick = 0, tm_static = False\<rparr>),
     timer_list = [], timer_tmp = [], waitq = (\<lambda>_. []), rt_thread_defunct = [],
     sems = (\<lambda>_. \<lparr>sem_object = Obj_none, sem_flag = RT_IPC_FLAG_FIFO, sem_value = 0\<rparr>),
     mutexes = (\<lambda>_. \<lparr>mtx_object = Obj_none, mtx_value = 0, mtx_original_priority = 0, mtx_hold = 0,
       mtx_owner = None\<rparr>),
     events = (\<lambda>_. \<lparr>ev_object = Obj_none, ev_flag = RT_IPC_FLAG_FIFO, ev_set = 0\<rparr>),
     mailboxes = (\<lambda>_. \<lparr>mb_object = Obj_none, mb_flag = RT_IPC_FLAG_FIFO, mb_msg_pool = [],
       mb_size = 0, mb_entry = 0, mb_in_offset = 0, mb_out_offset = 0\<rparr>),
     msgqueues = (\<lambda>_. \<lparr>mq_object = Obj_none, mq_flag = RT_IPC_FLAG_FIFO, mq_msg_size = 0,
       mq_max_msgs = 0, mq_entry = 0, mq_head = None, mq_tail = None, mq_free = None,
       mq_next = (\<lambda>_. None), mq_data = (\<lambda>_. [])\<rparr>),
     mempools = (\<lambda>_. \<lparr>mp_object = Obj_none, mp_start_address = 0, mp_pool_size = 0, mp_block_size = 0,
       mp_block_total_count = 0, mp_block_free_count = 0, mp_block_list = None,
       mp_words = (\<lambda>_. Mp_next None)\<rparr>),
     devs = \<lparr>completions = (\<lambda>_. 0),
       dataqueues = (\<lambda>_. \<lparr>dq_magic = 0, dq_size = 0, dq_lwm = 0, dq_get_index = 0, dq_is_empty = False,
         dq_put_index = 0, dq_is_full = False, dq_queue = []\<rparr>),
       wqueues = (\<lambda>_. \<lparr>wq_flag = 0, wq_waiting_list = []\<rparr>),
       wqnodes = (\<lambda>_. \<lparr>wn_polling_thread = 0, wn_wakeup = (\<lambda>_. 0)\<rparr>),
       works = (\<lambda>_. \<lparr>wk_flags = 0, wk_workqueue = None\<rparr>),
       workqueues = (\<lambda>_. \<lparr>wkq_work_list = [], wkq_delayed_list = [], wkq_work_current = None,
         wkq_sem = 0, wkq_work_thread = 0\<rparr>)\<rparr>\<rparr>"

definition booted :: kernel where
  "booted = rt_system_scheduler_init (rt_system_timer_init cleared_memory)"

lemma booted_fields [simp]:
  "rt_current_thread booted = None" "ready_list booted p = []" "ready_group booted = 0"
  "timer_list booted = []" "timer_tmp booted = []" "waitq booted q = []" "rt_thread_defunct booted = []"
  "timers booted tm = \<lparr>tm_flag = 0, tm_init_tick = 0, tm_timeout_tick = 0, tm_static = False\<rparr>"
  "thread_stat booted t = RT_THREAD_INIT" "mutexes booted m = mutexes cleared_memory m"
  "mailboxes booted m = mb_new Obj_none [] 0 RT_IPC_FLAG_FIFO"
  "msgqueues booted m = mq_new Obj_none (\<lambda>_. []) 0 0 RT_IPC_FLAG_FIFO"
  "mempools booted m = mp_new Obj_none 0 0 0 0"
  by (simp_all add: booted_def cleared_memory_def rt_system_scheduler_init_def rt_system_timer_init_def
      thread_stat_def RT_THREAD_INIT_def mb_new_def mq_new_def mp_new_def)

lemma booted_devs: "devs booted = devs cleared_memory"
  by (simp add: booted_def cleared_memory_def rt_system_scheduler_init_def rt_system_timer_init_def)

lemma booted_inv: "sys_inv booted"
proof -
  have fl [simp]: "\<not> timer_flag_set \<lparr>tm_flag = 0, tm_init_tick = 0, tm_timeout_tick = 0, tm_static = False\<rparr> f"
    for f by (simp add: timer_flag_set_def)
  have "kinv booted"
    by (simp add: kinv_except_def queue_inv_def kinv_part_defs)
  moreover have "timer_inv booted" by (simp add: timer_inv_def)
  moreover have "sleep_inv {} booted" by (simp add: sleep_inv_def)
  ultimately have "check_state booted" by (simp add: check_state_def one_shot_threads_def kernel_ok_def)
  moreover have "class_inv A booted" for A
  proof (cases A)
    case Mutex_class
    then show ?thesis by (simp add: mutex_inv_def mutex_wf_def mutex_ok_def waits_guarded_def cleared_memory_def)
  next
    case Queue_class
    have "mq_wf (mq_new Obj_none (\<lambda>_. []) 0 0 RT_IPC_FLAG_FIFO) {}" by (rule mq_new_wf) simp_all
    then show ?thesis by (simp add: Queue_class mqueue_inv_def)
  qed (simp_all add: sem_inv_def waits_guarded_def event_inv_def mailbox_inv_def mempool_inv_def mp_new_failed_wf
      completion_inv_def completion_alone_def dataqueue_inv_def booted_devs cleared_memory_def DATAQUEUE_MAGIC_def
      wqueue_inv_def work_inv_def work_lists_def)
  ultimately show ?thesis by (simp add: sys_inv_def ipc_inv_def)
qed

lemma reachable_ok:
  "(kernel_step user)\<^sup>*\<^sup>* booted k \<Longrightarrow> user_callbacks_ok user \<Longrightarrow> sys_inv k"
  using kernel_steps_ok booted_inv by blast

end
