(* ===== verification/Rtt_Example.thy ===== *)
theory Rtt_Example
  imports Rtt_System
begin

unbundle bit_operations_syntax

text \<open>
  A small running system, the state the witnesses start from: thread 1 (priority 10) runs, thread 2
  (priority 10) and the idle thread 0 (priority 31) are ready, and thread 3 (priority 5) sleeps on
  the suspend list \<open>q\<close> with a timeout of 100 ticks.
\<close>

definition ex_thread :: "u8 \<Rightarrow> nat \<Rightarrow> thread" where
  "ex_thread st p = \<lparr>stat = st, current_priority = p, number_mask = thread_number_mask p, error = RT_EOK,
     event_set = 1, event_info = RT_EVENT_FLAG_OR, init_tick = 10, remaining_tick = 10,
     stack_addr = 0x1000, stack_size = 0x400, sp = 0x1200, stack_guard = 0x23, static_object = True\<rparr>"

definition ex_threads :: "tid \<Rightarrow> thread" where
  "ex_threads t = (if t = 0 then ex_thread RT_THREAD_READY 31
     else if t = 1 then ex_thread RT_THREAD_RUNNING 10
     else if t = 2 then ex_thread RT_THREAD_READY 10
     else if t = 3 then ex_thread RT_THREAD_SUSPEND 5 else ex_thread RT_THREAD_INIT 0)"

definition ex_mutex :: "nat \<Rightarrow> mutex" where
  "ex_mutex m = \<lparr>mtx_object = (if m < 2 then Obj_static else Obj_none), mtx_value = 0,
     mtx_original_priority = (if m = 0 then 31 else 10), mtx_hold = 1, mtx_owner = Some m\<rparr>"

definition ex_timers :: "timer_id \<Rightarrow> timer" where
  "ex_timers tm = \<lparr>tm_flag = (if tm = ThreadTimer 3 then RT_TIMER_FLAG_ACTIVATED else RT_TIMER_FLAG_ONE_SHOT),
     tm_init_tick = 100, tm_timeout_tick = 100, tm_static = True\<rparr>"

text \<open>Pool 0 has two free blocks of 8 bytes; of the others the only block is in use.\<close>

definition ex_mempool :: "nat \<Rightarrow> mempool" where
  "ex_mempool m = \<lparr>mp_object = Obj_static, mp_start_address = 0x2000, mp_pool_size = 24,
     mp_block_size = 8, mp_block_total_count = (if m = 0 then 2 else 1),
     mp_block_free_count = (if m = 0 then 2 else 0), mp_block_list = (if m = 0 then Some 0 else None),
     mp_words = (\<lambda>_. Mp_next None)(0 := (if m = 0 then Mp_next (Some 1) else Mp_owner m))\<rparr>"

definition demo :: "waitq_id \<Rightarrow> kernel" where
  "demo q = cleared_memory\<lparr>rt_current_thread := Some 1, rt_current_priority := 10,
     rt_thread_priority_table := (\<lambda>p. if p = 31 then [0] else if p = 10 then [2] else []),
     rt_thread_ready_priority_group := 0x80000400,
     threads := ex_threads,
     timers := ex_timers,
     timer_list := [ThreadTimer 3],
     waitq := (\<lambda>_. [])(q := [3]),
     sems := (\<lambda>s. \<lparr>sem_object = Obj_static, sem_flag = RT_IPC_FLAG_PRIO,
       sem_value = (if s = 1 then 2 else 0)\<rparr>),
     mutexes := ex_mutex,
     events := (\<lambda>_. \<lparr>ev_object = Obj_static, ev_flag = RT_IPC_FLAG_FIFO, ev_set = 0\<rparr>),
     mailboxes := (\<lambda>_. mb_new Obj_static [1, 2] 2 RT_IPC_FLAG_FIFO),
     msgqueues := (\<lambda>_. mq_new Obj_static (\<lambda>_. [0, 0, 0, 0]) 4 2 RT_IPC_FLAG_FIFO),
     mempools := ex_mempool,
     devs := (devs cleared_memory)\<lparr>dataqueues := (\<lambda>_. dq_new 2 1 [(0, 0), (0, 0)])\<rparr>\<rparr>"

lemma ex_threads_fields [simp]:
  "current_priority (ex_threads t) = (if t = 0 then 31 else if t = 1 \<or> t = 2 then 10 else if t = 3 then 5 else 0)"
  "stat (ex_threads t) = (if t = 0 \<or> t = 2 then RT_THREAD_READY else if t = 1 then RT_THREAD_RUNNING
     else if t = 3 then RT_THREAD_SUSPEND else RT_THREAD_INIT)"
  "number_mask (ex_threads t) = thread_number_mask (current_priority (ex_threads t))"
  "error (ex_threads t) = RT_EOK" "event_set (ex_threads t) = 1" "event_info (ex_threads t) = RT_EVENT_FLAG_OR"
  "init_tick (ex_threads t) = 10" "remaining_tick (ex_threads t) = 10"
  "static_object (ex_threads t)" "stack_guard (ex_threads t) = 0x23" "sp (ex_threads t) = 0x1200"
  "stack_addr (ex_threads t) = 0x1000" "stack_size (ex_threads t) = 0x400"
  by (simp_all add: ex_threads_def ex_thread_def)

lemma demo_fields [simp]:
  "rt_tick (demo q) = 0" "rt_scheduler_lock_nest (demo q) = 0" "rt_interrupt_nest (demo q) = 0"
  "rt_current_thread (demo q) = Some 1" "timer_list (demo q) = [ThreadTimer 3]" "timer_tmp (demo q) = []"
  "ready_list (demo q) = (\<lambda>p. if p = 31 then [0] else if p = 10 then [2] else [])"
  "ready_group (demo q) = 0x80000400" "threads (demo q) = ex_threads"
  "waitq (demo q) = (\<lambda>_. [])(q := [3])" "rt_thread_defunct (demo q) = []"
  "sems (demo q) = (\<lambda>s. \<lparr>sem_object = Obj_static, sem_flag = RT_IPC_FLAG_PRIO,
     sem_value = (if s = 1 then 2 else 0)\<rparr>)"
  "mutexes (demo q) = ex_mutex"
  "events (demo q) = (\<lambda>_. \<lparr>ev_object = Obj_static, ev_flag = RT_IPC_FLAG_FIFO, ev_set = 0\<rparr>)"
  "mailboxes (demo q) = (\<lambda>_. mb_new Obj_static [1, 2] 2 RT_IPC_FLAG_FIFO)"
  "msgqueues (demo q) = (\<lambda>_. mq_new Obj_static (\<lambda>_. [0, 0, 0, 0]) 4 2 RT_IPC_FLAG_FIFO)"
  "timers (demo q) = ex_timers" "mempools (demo q) = ex_mempool"
  by (simp_all add: demo_def cleared_memory_def)

lemma demo_stat [simp]:
  "thread_stat (demo q) t = (if t = 0 \<or> t = 2 then RT_THREAD_READY else if t = 1 then RT_THREAD_RUNNING
     else if t = 3 then RT_THREAD_SUSPEND else RT_THREAD_INIT)"
  "thread_prio (demo q) t = (if t = 0 then 31 else if t = 1 \<or> t = 2 then 10 else if t = 3 then 5 else 0)"
  by (simp_all add: thread_stat_def thread_prio_def)

lemma ex_mempool_wf: "mp_wf m (ex_mempool m)"
  unfolding mp_wf_def
  by (rule exI [where x = "if m = 0 then [0, 1] else []"])
    (auto simp: mp_shape_def ex_mempool_def mp_next_def mp_stride_def)

lemma demo_kinv: "kinv (demo q)"
proof
  show "queue_inv {} (demo q)"
  proof
    have "(0x80000400 :: u32) = push_bit 31 1 OR push_bit 10 1" by simp
    then have "bit (0x80000400 :: u32) p \<longleftrightarrow> p = 31 \<or> p = 10" for p
      by (simp only: bit_or_iff bit_push_bit_iff) (auto simp: bit_1_iff)
    then show "group_inv (demo q)" by (auto simp: group_inv_def)
    show "ready_inv {} (demo q)" by (auto simp: ready_inv_def)
    show "mask_inv {} (demo q)" by (auto simp: mask_inv_def prio_mask_ok_def)
    show "wait_inv {} (demo q)" by (auto simp: wait_inv_def split: if_splits)
  qed (simp add: defunct_inv_def)
  show "current_inv {} (demo q)" by (simp add: current_inv_def)
qed

lemma demo_flags [simp]:
  "timer_flag_set (ex_timers tm) RT_TIMER_FLAG_ACTIVATED \<longleftrightarrow> tm = ThreadTimer 3"
  "\<not> timer_flag_set (ex_timers tm) RT_TIMER_FLAG_PERIODIC"
  "tm_init_tick (ex_timers tm) = 100" "tm_timeout_tick (ex_timers tm) = 100" "tm_static (ex_timers tm)"
  by (simp_all add: timer_flag_set_def ex_timers_def RT_TIMER_FLAG_ACTIVATED_def RT_TIMER_FLAG_PERIODIC_def
      RT_TIMER_FLAG_ONE_SHOT_def)

lemma demo_kernel_ok: "kernel_ok (demo q)"
  by (rule kernel_okI [OF demo_kinv]) (simp_all add: timer_inv_def sleep_inv_def)

lemma demo_devs:
  "completions (devs (demo q)) c = 0" "dataqueues (devs (demo q)) d = dq_new 2 1 [(0, 0), (0, 0)]"
  by (simp_all add: demo_def cleared_memory_def)

lemma demo_sys_inv:
  assumes "q \<noteq> SemWait 1" shows "sys_inv (demo q)"
proof -
  have "check_state (demo q)" by (simp add: check_state_def one_shot_threads_def demo_kernel_ok)
  moreover have "class_inv A (demo q)" for A
  proof (cases A)
    case Sem_class
    with assms show ?thesis by (simp add: sem_inv_def waits_guarded_def sem_avail_def)
  next
    case Mutex_class
    then show ?thesis
      by (auto simp: mutex_inv_def mutex_wf_def mutex_ok_def mutex_held_def waits_guarded_def mutex_avail_def
          ex_mutex_def)
  next
    case Event_class
    then show ?thesis
      by (auto simp: event_inv_def event_waiter_ok_def event_option_valid_def event_ready_def
          RT_EVENT_FLAG_OR_def RT_EVENT_FLAG_AND_def split: if_splits)
  next
    case Queue_class
    have "mq_wf (mq_new Obj_static (\<lambda>_. [0, 0, 0, 0]) 4 2 RT_IPC_FLAG_FIFO) {}" by (rule mq_new_wf) simp_all
    then show ?thesis by (simp add: Queue_class mqueue_inv_def)
  next
    case Completion_class
    then show ?thesis
      by (auto simp: completion_inv_def waits_guarded_def completion_avail_def completion_alone_def
          demo_devs RT_COMPLETED_def split: if_splits)
  next
    case Dataqueue_class
    then show ?thesis by (simp add: dataqueue_inv_def demo_devs dq_new_wf)
  next
    case Wqueue_class
    then show ?thesis by (simp add: wqueue_inv_def demo_def cleared_memory_def)
  next
    case Work_class
    then show ?thesis by (simp add: work_inv_def work_lists_def demo_def cleared_memory_def)
  qed (simp_all add: mailbox_inv_def mempool_inv_def ex_mempool_wf)
  ultimately show ?thesis by (simp add: sys_inv_def ipc_inv_def)
qed

lemma demo_caller [simp]: "caller_running (demo q)"
  by (simp add: caller_running_def)

lemma demo_stacks: "stacks_ok (demo q)"
  by (simp add: stacks_ok_def scheduler_stack_check_def ex_threads_def ex_thread_def)

lemma demo_mutex_inv: "mutex_inv (demo q)"
  using sys_invD(3) [OF demo_sys_inv, of "SemWait 0" Mutex_class]
  by (auto simp: mutex_inv_def mutex_wf_def waits_guarded_def mutex_avail_def ex_mutex_def)

end
