(* ===== verification/Prop_Threads.thy ===== *)
theory Prop_Threads
  imports Rtt_Example
begin

unbundle bit_operations_syntax

text \<open>
  The properties of the scheduler, the timers, the clock and the threads, each followed by its
  witness on the running system of theory \<open>Rtt_Example\<close>.
\<close>

section \<open>The scheduler\<close>

lemma demo_schedule:
  obtains k' where "rt_schedule (demo q) = Some k'"
  using rt_schedule_returns [OF demo_kinv demo_stacks] by force

text \<open>C2: \<^verbatim>\<open>rt_schedule\<close> with the scheduler unlocked always returns, keeps the kernel's invariants,
  and leaves a running thread that no ready thread precedes in priority.\<close>

theorem schedule_runs_highest:
  assumes "kernel_ok k" and "stacks_ok k" and "rt_scheduler_lock_nest k = 0"
    and "rt_current_thread k = Some c" and "thread_stat k c = RT_THREAD_RUNNING \<or> ready_group k \<noteq> 0"
  shows "\<exists>k' c'. rt_schedule k = Some k' \<and> kernel_ok k' \<and> rt_current_thread k' = Some c'
    \<and> thread_stat k' c' = RT_THREAD_RUNNING
    \<and> (\<forall>t. thread_stat k' t = RT_THREAD_READY \<longrightarrow> thread_prio k' c' \<le> thread_prio k' t)"
proof -
  note K = kernel_okD(1) [OF assms(1)]
  obtain k' where k': "rt_schedule k = Some k'" using rt_schedule_returns [OF K assms(2,4)] by blast
  with rt_schedule_highest [OF K k' assms(3,4,5)] rt_schedule_kernel_ok [OF assms(1) k'] show ?thesis by blast
qed

theorem schedule_runs_highest_witness:
  "\<exists>k' c'. rt_schedule (demo (SemWait 0)) = Some k' \<and> kernel_ok k' \<and> rt_current_thread k' = Some c'
    \<and> thread_stat k' c' = RT_THREAD_RUNNING
    \<and> (\<forall>t. thread_stat k' t = RT_THREAD_READY \<longrightarrow> thread_prio k' c' \<le> thread_prio k' t)"
  by (rule schedule_runs_highest [where c = 1]) (simp_all add: demo_kernel_ok demo_stacks)

text \<open>C3: a running thread that yields goes to the end of the ready list of its priority, gets its
  full time slice, and the first thread of that list runs; no higher priority being ready.\<close>

theorem yield_round_robin:
  assumes k: "kernel_ok k" and r: "rt_thread_yield k = Some (e, k')"
    and u: "rt_scheduler_lock_nest k = 0" and c: "rt_current_thread k = Some c"
    and run: "thread_stat k c = RT_THREAD_RUNNING"
    and l: "ready_list k (thread_prio k c) = t # ts"
    and top: "\<And>p. p < thread_prio k c \<Longrightarrow> ready_list k p = []"
  shows "e = RT_EOK \<and> rt_current_thread k' = Some t \<and> ready_list k' (thread_prio k c) = ts @ [c]
    \<and> remaining_tick (threads k' c) = init_tick (threads k c)"
proof -
  let ?u = "upd_thread c (\<lambda>x. x\<lparr>remaining_tick := init_tick x, stat := stat x OR RT_THREAD_STAT_YIELD\<rparr>) k"
  have s: "rt_schedule ?u = Some k'" and e: "e = RT_EOK"
    using r c by (auto simp: rt_thread_yield_def rt_thread_self_def Let_def bind_eq_Some_conv)
  have ku: "kinv ?u"
    by (rule kernel_okD(1) [OF upd_thread_kernel_ok [OF k]]) (simp_all add: thread_stat_def thread_prio_def)
  have "(x OR RT_THREAD_STAT_YIELD) AND RT_THREAD_STAT_YIELD = RT_THREAD_STAT_YIELD" for x
    by (rule bit_eqI) (auto simp: bit_simps)
  then have y: "stat (threads ?u c) AND RT_THREAD_STAT_YIELD \<noteq> 0" by (simp add: stat_defs)
  have st: "thread_stat ?u c = RT_THREAD_RUNNING" using run by (simp add: thread_stat_def)
  have pr: "thread_prio ?u c = thread_prio k c" by (simp add: thread_prio_def)
  note R = rt_schedule_round_robin [OF ku s _ _ st y, unfolded pr upd_thread_frame, OF u c l top]
  have "remaining_tick (threads k' c) = init_tick (threads k c)"
    using rt_schedule_frame [OF s] by (simp add: sched_frame_def same_thread_data_def)
  with R e show ?thesis by blast
qed

lemma demo_yield:
  obtains e k' where "rt_thread_yield (demo q) = Some (e, k')"
proof -
  let ?u = "upd_thread 1 (\<lambda>x. x\<lparr>remaining_tick := init_tick x, stat := stat x OR RT_THREAD_STAT_YIELD\<rparr>) (demo q)"
  have "kinv ?u"
    by (rule kernel_okD(1) [OF upd_thread_kernel_ok [OF demo_kernel_ok]]) (simp_all add: thread_stat_def thread_prio_def)
  moreover have "stacks_ok ?u" using demo_stacks [of q] by (simp add: stacks_ok_def scheduler_stack_check_def)
  ultimately obtain k' where "rt_schedule ?u = Some k'" using rt_schedule_returns by force
  then show ?thesis using that by (simp add: rt_thread_yield_def rt_thread_self_def Let_def)
qed

theorem yield_round_robin_witness:
  "\<exists>e k'. rt_thread_yield (demo (SemWait 0)) = Some (e, k')
    \<and> e = RT_EOK \<and> rt_current_thread k' = Some 2 \<and> ready_list k' 10 = [1]
    \<and> remaining_tick (threads k' 1) = 10"
proof -
  obtain e k' where r: "rt_thread_yield (demo (SemWait 0)) = Some (e, k')" by (rule demo_yield)
  from yield_round_robin [OF demo_kernel_ok r, where c = 1 and t = 2 and ts = "[]"] r show ?thesis by simp
qed

text \<open>A tick that uses up the running thread's time slice does the same to it.\<close>

theorem tick_round_robin:
  assumes k: "kernel_ok k" and r: "tick_time_slice k = Some k'"
    and u: "rt_scheduler_lock_nest k = 0" and c: "rt_current_thread k = Some c"
    and run: "thread_stat k c = RT_THREAD_RUNNING" and rem: "remaining_tick (threads k c) = 1"
    and l: "ready_list k (thread_prio k c) = t # ts"
    and top: "\<And>p. p < thread_prio k c \<Longrightarrow> ready_list k p = []"
  shows "rt_current_thread k' = Some t \<and> ready_list k' (thread_prio k c) = ts @ [c]
    \<and> remaining_tick (threads k' c) = init_tick (threads k c)"
  using time_slice_round_robin [OF assms] by blast

theorem tick_round_robin_witness:
  "\<exists>k'. tick_time_slice (upd_thread 1 (\<lambda>x. x\<lparr>remaining_tick := 1\<rparr>) (demo (SemWait 0))) = Some k'
    \<and> rt_current_thread k' = Some 2 \<and> ready_list k' 10 = [1] \<and> remaining_tick (threads k' 1) = 10"
proof -
  let ?k = "upd_thread 1 (\<lambda>x. x\<lparr>remaining_tick := 1\<rparr>) (demo (SemWait 0))"
  have k: "kernel_ok ?k"
    by (rule upd_thread_kernel_ok [OF demo_kernel_ok]) (simp_all add: thread_stat_def thread_prio_def)
  let ?u = "upd_thread 1 slice_over (tick_counted 1 ?k)"
  have "kinv ?u" by (rule kernel_okD(1) [OF tick_counted_ok(3) [OF k]])
  moreover have "stacks_ok ?u"
    using demo_stacks [of "SemWait 0"] by (simp add: stacks_ok_def scheduler_stack_check_def slice_over_def tick_counted_def)
  ultimately obtain k' where "rt_schedule ?u = Some k'"
    using rt_schedule_returns [of ?u 1] by (auto simp: tick_counted_def)
  then have r: "tick_time_slice ?k = Some k'" by (simp add: tick_time_slice_eq)
  from tick_round_robin [OF k r, where c = 1 and t = 2 and ts = "[]"] r show ?thesis by simp
qed

text \<open>C4: \<^verbatim>\<open>__rt_ffs\<close> is the number, from 1, of the lowest bit set of any 32-bit value, 0 for 0.\<close>

theorem ffs_lowest_bit:
  "rt_ffs v = (if v = 0 then 0 else (LEAST n. bit v n) + 1)"
proof (cases "v = 0")
  case False
  then have "(LEAST n. bit v n) = rt_ffs v - 1"
    by (intro Least_equality rt_ffs_bit rt_ffs_least)
  with rt_ffs_lowest_bit [OF False] show ?thesis by simp
qed simp

lemma enter_critical_pow: "(rt_enter_critical ^^ n) k = k\<lparr>rt_scheduler_lock_nest := rt_scheduler_lock_nest k + of_nat n\<rparr>"
  by (induction n) (simp_all add: rt_enter_critical_def ac_simps)

lemma exit_critical_inner:
  assumes "0 < m" "m < 2 ^ 15 - 1"
  shows "rt_exit_critical (k\<lparr>rt_scheduler_lock_nest := of_nat (Suc m)\<rparr>)
    = Some (k\<lparr>rt_scheduler_lock_nest := of_nat m\<rparr>)"
proof -
  have "sint (of_nat m :: u16) = int m"
    using assms by (simp add: signed_of_nat signed_take_bit_int_eq_self)
  then have "\<not> (of_nat m :: u16) \<le>s 0" using assms by (simp add: word_sle_eq)
  then show ?thesis by (simp add: rt_exit_critical_def)
qed

text \<open>Critical sections nest: after \<open>n\<close> calls of \<^verbatim>\<open>rt_enter_critical\<close> nothing is switched, the
  first \<open>n - 1\<close> calls of \<^verbatim>\<open>rt_exit_critical\<close> only count down, and the last one schedules.\<close>

theorem critical_sections_nest:
  assumes "rt_scheduler_lock_nest k = 0" and "0 < n" and "n < 2 ^ 15"
    and "rt_current_thread k = Some c"
  shows "rt_schedule ((rt_enter_critical ^^ n) k) = Some ((rt_enter_critical ^^ n) k)
    \<and> (\<forall>m<n. ((\<lambda>r. r \<bind> rt_exit_critical) ^^ m) (Some ((rt_enter_critical ^^ n) k))
             = Some ((rt_enter_critical ^^ (n - m)) k))
    \<and> ((\<lambda>r. r \<bind> rt_exit_critical) ^^ n) (Some ((rt_enter_critical ^^ n) k)) = rt_schedule k"
proof -
  let ?lock = "\<lambda>m. k\<lparr>rt_scheduler_lock_nest := of_nat m\<rparr>"
  have enter: "(rt_enter_critical ^^ m) k = ?lock m" for m
    by (simp add: enter_critical_pow assms(1))
  have "unat (of_nat n :: u16) = n" using assms(3) by (simp add: unat_of_nat take_bit_nat_eq_self)
  then have nz: "(of_nat n :: u16) \<noteq> 0" using assms(2) by (metis less_irrefl unat_0)
  then have locked: "rt_schedule (?lock n) = Some (?lock n)" by (intro rt_schedule_locked) simp
  have inner: "((\<lambda>r. r \<bind> rt_exit_critical) ^^ m) (Some (?lock n)) = Some (?lock (n - m))" if "m < n" for m
    using that
  proof (induction m)
    case (Suc m)
    have "n - m = Suc (n - Suc m)" using Suc.prems by simp
    moreover have "rt_exit_critical (?lock (Suc (n - Suc m))) = Some (?lock (n - Suc m))"
      by (rule exit_critical_inner) (use Suc.prems assms(3) in auto)
    ultimately show ?case using Suc by simp
  qed simp
  obtain m where m: "n = Suc m" using assms(2) gr0_implies_Suc by blast
  have same: "k\<lparr>rt_scheduler_lock_nest := 0\<rparr> = k" using assms(1) by (cases k) simp
  have "rt_exit_critical (?lock 1) = rt_schedule (k\<lparr>rt_scheduler_lock_nest := 0\<rparr>)"
    using assms(4) by (simp add: rt_exit_critical_def word_sle_eq)
  then have "rt_exit_critical (?lock 1) = rt_schedule k" unfolding same .
  moreover have "n - m = 1" using m by simp
  ultimately have "((\<lambda>r. r \<bind> rt_exit_critical) ^^ n) (Some (?lock n)) = rt_schedule k"
    using inner [of m] by (simp add: m)
  with inner locked show ?thesis unfolding enter by blast
qed

theorem critical_sections_nest_witness:
  "((\<lambda>r. r \<bind> rt_exit_critical) ^^ 3) (Some ((rt_enter_critical ^^ 3) (demo (SemWait 0))))
     = rt_schedule (demo (SemWait 0))"
  using critical_sections_nest [of "demo (SemWait 0)" 3 1] by simp

section \<open>Timers\<close>

text \<open>C5: \<^verbatim>\<open>rt_timer_start\<close> keeps the timer list sorted by the time that remains, modulo the tick's
  wrap-around, and puts the timer after the others that expire at the same time.\<close>

theorem timer_start_sorted:
  assumes "timers_sorted k" and "timers_pending k" and "tm_init_tick (timers k t) < half_tick_max"
  shows "timers_sorted (snd (rt_timer_start t k)) \<and> timers_pending (snd (rt_timer_start t k))
    \<and> (\<exists>before after. removeAll t (timer_list k) = before @ after
        \<and> timer_list (snd (rt_timer_start t k)) = before @ t # after
        \<and> (\<forall>a\<in>set before. timer_remaining k a \<le> unat (tm_init_tick (timers k t)))
        \<and> (\<forall>b\<in>set after. unat (tm_init_tick (timers k t)) < timer_remaining k b))"
  using rt_timer_start_sorted [OF assms] rt_timer_start_after_equals [OF assms(2,3,1)] by blast

lemma demo_timers: "timers_sorted (demo q)" "timers_pending (demo q)"
  by (simp_all add: timers_sorted_def timers_pending_def timer_remaining_def half_tick_max_value)

theorem timer_start_sorted_witness:
  "timer_list (snd (rt_timer_start (UserTimer 0) (demo (SemWait 0)))) = [ThreadTimer 3, UserTimer 0]"
proof -
  have h: "tm_init_tick (timers (demo (SemWait 0)) (UserTimer 0)) < half_tick_max"
    by (simp add: half_tick_max_value)
  obtain b a where l: "[ThreadTimer 3] = b @ a"
      "timer_list (snd (rt_timer_start (UserTimer 0) (demo (SemWait 0)))) = b @ UserTimer 0 # a"
      "\<forall>s\<in>set a. 100 < timer_remaining (demo (SemWait 0)) s"
    using timer_start_sorted [OF demo_timers h] by auto
  have "timer_remaining (demo (SemWait 0)) (ThreadTimer 3) = 100" by (simp add: timer_remaining_def)
  with l show ?thesis by (cases b) auto
qed



lemma count_list_distinct: "distinct xs \<Longrightarrow> count_list xs x = (if x \<in> set xs then 1 else 0)"
  by (induction xs) auto

text \<open>\<^verbatim>\<open>rt_timer_start\<close> makes a timer active, whatever it was before, and \<^verbatim>\<open>rt_timer_stop\<close> makes
  it inactive and takes it off the list; the list holds the active timers, each once, throughout;
  stopping a timer that is not active fails and changes nothing.\<close>

theorem timer_start_stop:
  assumes "timer_inv k" and "timer_tmp k = []"
  shows "timer_inv (snd (rt_timer_start t k)) \<and> activated (snd (rt_timer_start t k)) t
    \<and> count_list (timer_list (snd (rt_timer_start t k))) t = 1
    \<and> timer_inv (snd (rt_timer_stop t k)) \<and> \<not> activated (snd (rt_timer_stop t k)) t
    \<and> count_list (timer_list (snd (rt_timer_stop t k))) t = 0
    \<and> (activated k t \<longrightarrow> fst (rt_timer_stop t k) = RT_EOK)
    \<and> (\<not> activated k t \<longrightarrow> rt_timer_stop t k = (RT_ERROR, k))"
proof -
  let ?s = "snd (rt_timer_start t k)"
  have i: "timer_inv ?s" by (rule rt_timer_start_inv [OF assms(1)])
  have a: "activated ?s t" "t \<in> set (timer_list ?s)" using rt_timer_start_active by blast+
  have "distinct (timer_list ?s)" using i by (simp add: timer_inv_def)
  then have "count_list (timer_list ?s) t = 1" using a(2) by (simp add: count_list_distinct)
  moreover have "t \<notin> set (timer_list (snd (rt_timer_stop t k)))" by (rule rt_timer_stop_inactive(2) [OF assms])
  then have "count_list (timer_list (snd (rt_timer_stop t k))) t = 0" by (simp add: count_list_0_iff)
  ultimately show ?thesis
    using i a(1) rt_timer_stop_inactive(1) [OF assms] rt_timer_stop_inv [OF assms(1)]
    by (auto simp: rt_timer_stop_def)
qed

theorem timer_start_stop_witness:
  "activated (snd (rt_timer_start (UserTimer 7) (demo (SemWait 0)))) (UserTimer 7)
    \<and> \<not> activated (snd (rt_timer_stop (ThreadTimer 3) (demo (SemWait 0)))) (ThreadTimer 3)
    \<and> rt_timer_stop (UserTimer 7) (demo (SemWait 0)) = (RT_ERROR, demo (SemWait 0))"
  using timer_start_stop [OF kernel_okD(2) [OF demo_kernel_ok], of "SemWait 0" "UserTimer 7"]
    timer_start_stop [OF kernel_okD(2) [OF demo_kernel_ok], of "SemWait 0" "ThreadTimer 3"]
  by simp

text \<open>\<^verbatim>\<open>RT_TIMER_CTRL_GET_STATE\<close> never reports the state: its case has no \<^verbatim>\<open>break\<close>, and the
  word it stores is overwritten by the absolute expiry tick, as for
  \<^verbatim>\<open>RT_TIMER_CTRL_GET_REMAIN_TIME\<close>; the timer is unchanged by both.\<close>

theorem timer_get_state_falls_through:
  "rt_timer_control t RT_TIMER_CTRL_GET_STATE arg k = rt_timer_control t RT_TIMER_CTRL_GET_REMAIN_TIME arg k
    \<and> rt_timer_control t RT_TIMER_CTRL_GET_STATE arg k
      = Some (RT_EOK, tm_timeout_tick (timers k t), k)"
  by (simp add: rt_timer_control_def timer_get_remain_time_def Let_def upd_timer_def)

text \<open>At 1000 ticks per second the conversion of milliseconds is exact, and a negative number
  means to wait for ever.\<close>

theorem tick_from_millisecond_exact:
  assumes "- (2 ^ 31) \<le> ms" and "ms < 2 ^ 31"
  shows "rt_tick_from_millisecond ms = (if ms < 0 then RT_WAITING_FOREVER else word_of_int ms)"
proof (cases "ms < 0")
  case True
  then show ?thesis by (simp add: rt_tick_from_millisecond_def)
next
  case False
  then have "uint (rt_tick_from_millisecond ms) = ms" using tick_from_ms_exact assms by simp
  with False show ?thesis by (metis word_of_int_uint)
qed

theorem tick_from_millisecond_exact_witness:
  "rt_tick_from_millisecond 1500 = 1500 \<and> rt_tick_from_millisecond (- 1) = RT_WAITING_FOREVER"
  using tick_from_millisecond_exact [of 1500] tick_from_millisecond_exact [of "- 1"] by simp

section \<open>Threads\<close>

text \<open>\<^verbatim>\<open>rt_thread_suspend\<close> of the running thread takes it off every list and stops its timer;
  \<^verbatim>\<open>rt_thread_resume\<close> of a suspended thread takes it off the suspend list it is on and makes it
  ready, and of any other thread fails and changes nothing.\<close>

theorem suspend_resume:
  assumes k: "kernel_ok k" and s: "rt_thread_suspend t k = Some (e, k')" and u: "u \<noteq> t"
  shows "kernel_ok k' \<and> (e = RT_EOK \<longleftrightarrow> thread_stat k t = RT_THREAD_RUNNING)
    \<and> (e = RT_EOK \<longrightarrow> thread_stat k' t = RT_THREAD_SUSPEND \<and> (\<forall>p. t \<notin> set (ready_list k' p))
         \<and> (\<forall>q. t \<notin> set (waitq k' q)) \<and> ThreadTimer t \<notin> set (timer_list k'))
    \<and> thread_stat k' u = thread_stat k u \<and> waitq k' = waitq k
    \<and> (\<forall>r. (let (e, k2) = rt_thread_resume r k in kernel_ok k2
         \<and> (if thread_stat k r = RT_THREAD_SUSPEND
            then e = RT_EOK \<and> (\<forall>q. waitq k2 q = removeAll r (waitq k q))
              \<and> thread_stat k2 r = (if rt_current_thread k = Some r then RT_THREAD_RUNNING else RT_THREAD_READY)
            else e = RT_ERROR \<and> k2 = k)))"
proof -
  note S = rt_thread_suspend_ok [OF k s]
  have "\<forall>p. t \<notin> set (ready_list k' p)" if "e = RT_EOK"
    using queue_invD(2) [OF kinvD(1) [OF kernel_okD(1) [OF S(1)]]] S(3) [OF that]
    by (auto simp: ready_inv_def)
  moreover have "kernel_ok (snd (rt_thread_resume r k))
      \<and> (if thread_stat k r = RT_THREAD_SUSPEND
         then fst (rt_thread_resume r k) = RT_EOK \<and> (\<forall>q. waitq (snd (rt_thread_resume r k)) q = removeAll r (waitq k q))
              \<and> thread_stat (snd (rt_thread_resume r k)) r
                  = (if rt_current_thread k = Some r then RT_THREAD_RUNNING else RT_THREAD_READY)
         else fst (rt_thread_resume r k) = RT_ERROR \<and> snd (rt_thread_resume r k) = k)" for r
    using rt_thread_resume_ok [OF k, of r] by (auto simp: rt_thread_resume_def)
  ultimately show ?thesis using S(1,3,4,6) S(7) [OF u] by (simp add: case_prod_beta Let_def)
qed

lemma demo_suspend: "\<exists>k'. rt_thread_suspend 1 (demo q) = Some (RT_EOK, k')"
  by (simp add: rt_thread_suspend_def rt_thread_self_def)

theorem suspend_resume_witness:
  "\<exists>k'. rt_thread_suspend 1 (demo (SemWait 0)) = Some (RT_EOK, k') \<and> thread_stat k' 1 = RT_THREAD_SUSPEND
    \<and> fst (rt_thread_resume 3 (demo (SemWait 0))) = RT_EOK
    \<and> thread_stat (snd (rt_thread_resume 3 (demo (SemWait 0)))) 3 = RT_THREAD_READY"
proof -
  obtain k' where s: "rt_thread_suspend 1 (demo (SemWait 0)) = Some (RT_EOK, k')" using demo_suspend by blast
  note R = suspend_resume [OF demo_kernel_ok s, of 2]
  have "let (e, k2) = rt_thread_resume 3 (demo (SemWait 0)) in e = RT_EOK \<and> thread_stat k2 3 = RT_THREAD_READY"
    using spec [OF conjunct2 [OF conjunct2 [OF conjunct2 [OF conjunct2 [OF conjunct2 [OF R]]]]], of 3]
    by (auto simp: Let_def)
  with R s show ?thesis by (auto simp: case_prod_beta Let_def)
qed

text \<open>\<^verbatim>\<open>rt_thread_sleep\<close> suspends the caller, with its timer set to the given number of ticks
  from now; when the timer fires the thread can run again and its call returns \<^verbatim>\<open>RT_EOK\<close>.\<close>

theorem sleep_wakes:
  assumes k: "kernel_ok k" and r: "rt_thread_sleep n k = Some (res, k1)"
    and c: "rt_current_thread k = Some t" and run: "thread_stat k t = RT_THREAD_RUNNING"
  shows "res = Waiting t \<and> kernel_ok k1 \<and> thread_stat k1 t = RT_THREAD_SUSPEND
    \<and> ThreadTimer t \<in> set (timer_list k1) \<and> tm_timeout_tick (timers k1 (ThreadTimer t)) = rt_tick k + n
    \<and> (\<forall>k2. thread_timeout t (timer_take (ThreadTimer t) k1) = Some k2
         \<longrightarrow> (thread_stat k2 t = RT_THREAD_READY \<or> thread_stat k2 t = RT_THREAD_RUNNING)
           \<and> fst (rt_thread_sleep_resume t k2) = RT_EOK)"
proof -
  note S = rt_thread_sleep_ok [OF k r c run]
  have "(thread_stat k2 t = RT_THREAD_READY \<or> thread_stat k2 t = RT_THREAD_RUNNING)
           \<and> fst (rt_thread_sleep_resume t k2) = RT_EOK"
    if w: "thread_timeout t (timer_take (ThreadTimer t) k1) = Some k2" for k2
  proof -
    have "kinv (timer_take (ThreadTimer t) k1)" using kernel_okD(1) [OF S(1)] by simp
    note W = thread_timeout_wakes [OF this w]
    show ?thesis using W(1,2) by (simp add: rt_thread_sleep_resume_def Let_def set_error_def)
  qed
  with S show ?thesis by blast
qed

lemma sleep_returns:
  assumes k: "kernel_ok k" and s: "stacks_ok k" and c: "rt_current_thread k = Some t"
    and r: "thread_stat k t = RT_THREAD_RUNNING" and n: "n < half_tick_max"
  obtains k' where "rt_thread_sleep n k = Some (Waiting t, k')"
proof -
  let ?e = "upd_thread t (set_error RT_EOK) k"
  obtain e k1 where k1: "rt_thread_suspend t ?e = Some (e, k1)" by (rule suspend_returns [of ?e t]) (simp add: c)
  note S = rt_thread_suspend_ok [OF set_error_kernel_ok [OF k] k1]
  have "e = RT_EOK" using S(4) r by simp
  then have sus: "thread_stat k1 t = RT_THREAD_SUSPEND" using S(3) by blast
  obtain k2 where k2: "start_thread_timer t n k1 = Some k2" by (rule start_thread_timer_returns [OF n])
  note T = start_thread_timer_ok [OF S(1) sus k2]
  have "stacks_ok k2"
    by (rule ipc_frame_stacks_ok [OF start_thread_timer_frame [OF k2]
        ipc_frame_stacks_ok [OF rt_thread_suspend_frame [OF k1] stacks_ok_set_error [OF s]]])
  then obtain k' where "rt_schedule k2 = Some k'"
    by (rule schedule_returns [OF T(1)]) (simp add: T(3) S(2))
  with k1 k2 that show ?thesis by (simp add: rt_thread_sleep_def rt_thread_self_def c Let_def)
qed

lemma demo_sleep:
  assumes "n < half_tick_max"
  shows "\<exists>k'. rt_thread_sleep n (demo q) = Some (Waiting 1, k')"
proof -
  have "thread_stat (demo q) 1 = RT_THREAD_RUNNING" by simp
  from sleep_returns [OF demo_kernel_ok demo_stacks demo_fields(4) this assms] show ?thesis by blast
qed

theorem sleep_wakes_witness:
  "\<exists>k1. rt_thread_sleep 20 (demo (SemWait 0)) = Some (Waiting 1, k1) \<and> kernel_ok k1
    \<and> thread_stat k1 1 = RT_THREAD_SUSPEND \<and> tm_timeout_tick (timers k1 (ThreadTimer 1)) = 20"
proof -
  obtain k1 where r: "rt_thread_sleep 20 (demo (SemWait 0)) = Some (Waiting 1, k1)"
    using demo_sleep [of 20] by (auto simp: half_tick_max_value)
  from sleep_wakes [OF demo_kernel_ok r] r show ?thesis by simp
qed

text \<open>\<^verbatim>\<open>rt_thread_delay_until\<close> called no later than its next period \<open>tick + inc\<close>, modulo the
  tick's wrap-around, advances \<open>tick\<close> by exactly one period and sleeps until it; called later it
  returns at once with the present tick.\<close>

theorem delay_until_periodic:
  assumes k: "kernel_ok k" and r: "rt_thread_delay_until tick inc k = Some (res, tick', k')"
    and c: "rt_current_thread k = Some t" and run: "thread_stat k t = RT_THREAD_RUNNING"
  shows "if rt_tick k - tick < inc
    then tick' = tick + inc \<and> res = Waiting t \<and> thread_stat k' t = RT_THREAD_SUSPEND
      \<and> ThreadTimer t \<in> set (timer_list k') \<and> tm_timeout_tick (timers k' (ThreadTimer t)) = tick + inc
    else tick' = rt_tick k \<and> res = Returned RT_EOK \<and> k' = upd_thread t (set_error RT_EOK) k"
proof (cases "rt_tick k - tick < inc")
  case False
  with r c show ?thesis by (auto simp: rt_thread_delay_until_def rt_thread_self_def rt_tick_get_def Let_def set_error_def)
next
  case True
  let ?e = "upd_thread t (set_error RT_EOK) k"
  have "rt_thread_sleep (tick + inc - rt_tick k) k = Some (Waiting t, k') \<and> res = Waiting t \<and> tick' = tick + inc"
    using r c True by (auto simp: rt_thread_delay_until_def rt_thread_sleep_def rt_thread_self_def rt_tick_get_def
        Let_def bind_eq_Some_conv)
  with rt_thread_sleep_ok [OF k _ c run] True show ?thesis by fastforce
qed

theorem delay_until_periodic_witness:
  "\<exists>k'. rt_thread_delay_until (- 5) 15 (demo (SemWait 0)) = Some (Waiting 1, 10, k')
    \<and> tm_timeout_tick (timers k' (ThreadTimer 1)) = 10"
proof -
  obtain k' where "rt_thread_sleep 10 (demo (SemWait 0)) = Some (Waiting 1, k')"
    using demo_sleep [of 10] by (auto simp: half_tick_max_value)
  then have r: "rt_thread_delay_until (- 5) 15 (demo (SemWait 0)) = Some (Waiting 1, 10, k')"
    by (auto simp: rt_thread_delay_until_def rt_thread_sleep_def rt_thread_self_def rt_tick_get_def
        Let_def bind_eq_Some_conv)
  from delay_until_periodic [OF demo_kernel_ok r] r show ?thesis by simp
qed

text \<open>\<^verbatim>\<open>rt_thread_detach\<close> of any thread, in whatever state, leaves it closed, on no ready or
  suspend list, with no timeout pending, and on the defunct list if it was not closed before; the
  kernel's invariants hold, so it is never chosen to run again.\<close>

theorem detach_closes:
  assumes k: "kernel_ok k" and r: "rt_thread_detach t k = Some (e, k')"
  shows "e = RT_EOK \<and> kernel_ok k' \<and> thread_stat k' t = RT_THREAD_CLOSE
    \<and> (\<forall>p. t \<notin> set (ready_list k' p)) \<and> (\<forall>q. t \<notin> set (waitq k' q)) \<and> ThreadTimer t \<notin> set (timer_list k')
    \<and> (thread_stat k t \<noteq> RT_THREAD_CLOSE \<longrightarrow> t \<in> set (rt_thread_defunct k'))"
proof -
  have d: "thread_dispose t k = Some (e, k')" using r by (auto simp: rt_thread_detach_def split: if_splits)
  note D = thread_dispose_ok [OF k d]
  note Q = queue_invD [OF kinvD(1) [OF kernel_okD(1) [OF D(1)]]]
  have "\<forall>p. t \<notin> set (ready_list k' p)" using Q(2) D(2) by (auto simp: ready_inv_def)
  moreover have "\<forall>q. t \<notin> set (waitq k' q)" using Q(4) D(2) by (auto simp: wait_inv_def)
  moreover have "ThreadTimer t \<notin> set (timer_list k')"
    using kernel_okD(3) [OF D(1)] D(2) by (auto simp: sleep_inv_def)
  moreover have "t \<in> set (rt_thread_defunct k')" if "thread_stat k t \<noteq> RT_THREAD_CLOSE"
    using d that by (auto simp: thread_dispose_def thread_close_def rt_thread_defunct_enqueue_def Let_def
        bind_eq_Some_conv)
  ultimately show ?thesis using D by blast
qed

theorem detach_closes_witness:
  "\<exists>k'. rt_thread_detach 3 (demo (SemWait 0)) = Some (RT_EOK, k') \<and> kernel_ok k'
    \<and> thread_stat k' 3 = RT_THREAD_CLOSE \<and> 3 \<notin> set (waitq k' (SemWait 0)) \<and> 3 \<in> set (rt_thread_defunct k')"
proof -
  obtain k' where r: "rt_thread_detach 3 (demo (SemWait 0)) = Some (RT_EOK, k')"
    by (auto simp: rt_thread_detach_def thread_dispose_def thread_close_def rt_timer_detach_def Let_def
        rt_schedule_remove_thread_def)
  from detach_closes [OF demo_kernel_ok r] r show ?thesis by simp
qed

text \<open>\<^verbatim>\<open>RT_THREAD_CTRL_CHANGE_PRIORITY\<close> gives the thread the new priority and no other thread,
  keeps every thread's state and the suspend lists, and a ready thread moves to the end of the ready
  list of its new priority; the bitmap follows.\<close>

theorem change_priority_moves:
  assumes k: "kernel_ok k" and r: "rt_thread_control t (RT_THREAD_CTRL_CHANGE_PRIORITY p) k = Some (e, k')"
  shows "e = RT_EOK \<and> kernel_ok k' \<and> thread_prio k' = (thread_prio k)(t := p)
    \<and> thread_stat k' = thread_stat k \<and> waitq k' = waitq k
    \<and> (thread_stat k t = RT_THREAD_READY \<longrightarrow> last (ready_list k' p) = t \<and> bit (ready_group k') p)"
proof -
  have c: "thread_change_priority t p k = Some k'" and e: "e = RT_EOK"
    using r by (auto simp: rt_thread_control_def bind_eq_Some_conv)
  note C = thread_change_priority_ok [OF k c]
  note Q = queue_invD [OF kinvD(1) [OF kernel_okD(1) [OF C(1)]]]
  have l: "last (ready_list k' p) = t" if s: "thread_stat k t = RT_THREAD_READY"
  proof -
    let ?u = "upd_thread t (set_priority p) (rt_schedule_remove_thread t k)"
    have k': "k' = rt_schedule_insert_thread t ?u"
      using c s by (auto simp: thread_change_priority_def split: if_splits)
    have "rt_current_thread k \<noteq> Some t"
      using kinvD(2) [OF kernel_okD(1) [OF k]] s by (auto simp: current_inv_def)
    then have "rt_current_thread ?u \<noteq> Some t" by (simp add: remove_thread_fields)
    from insert_thread_fields(1) [OF this, of p] show ?thesis
      by (simp add: k' set_priority_def)
  qed
  have "bit (ready_group k') p" if s: "thread_stat k t = RT_THREAD_READY"
  proof -
    have "thread_stat k' t = RT_THREAD_READY" using s C(6) by simp
    then have "t \<in> set (ready_list k' p)" using Q(2) C(2) by (auto simp: ready_inv_def)
    then have "ready_list k' p \<noteq> []" by (cases "ready_list k' p") simp_all
    with Q(1) show ?thesis by (simp add: group_inv_def)
  qed
  moreover have "thread_prio k' = (thread_prio k)(t := p)" by (rule ext) (simp add: C(2) C(3))
  ultimately show ?thesis using l C(1,5,6) e by blast
qed

lemma thread_change_priority_returns: "p < 32 \<Longrightarrow> \<exists>k'. thread_change_priority t p k = Some k'"
  unfolding thread_change_priority_def by simp

theorem change_priority_moves_witness:
  "\<exists>k'. rt_thread_control 2 (RT_THREAD_CTRL_CHANGE_PRIORITY 31) (demo (SemWait 0)) = Some (RT_EOK, k')
    \<and> thread_prio k' 2 = 31 \<and> last (ready_list k' 31) = 2 \<and> kernel_ok k'"
proof -
  obtain k' where "thread_change_priority 2 31 (demo (SemWait 0)) = Some k'"
    using thread_change_priority_returns [of 31] by auto
  then have r: "rt_thread_control 2 (RT_THREAD_CTRL_CHANGE_PRIORITY 31) (demo (SemWait 0)) = Some (RT_EOK, k')"
    by (simp only: rt_thread_control_def thread_cmd.case bind.simps)
  from change_priority_moves [OF demo_kernel_ok r] have
    "thread_prio k' = (thread_prio (demo (SemWait 0)))(2 := 31)" "kernel_ok k'"
    "thread_stat (demo (SemWait 0)) 2 = RT_THREAD_READY \<longrightarrow> last (ready_list k' 31) = 2" by blast+
  then have "thread_prio k' 2 = 31 \<and> last (ready_list k' 31) = 2 \<and> kernel_ok k'" by simp
  with r show ?thesis by blast
qed

end
