(* ===== verification/Rtt_Channels.thy ===== *)
theory Rtt_Channels
  imports Rtt_Mailbox Rtt_Mqueue Rtt_Dataqueue
begin

text \<open>
  Mailboxes, message queues and data queues as their callers see them: the kernel calls that do not
  wait are the operations of a bounded queue, for the first two one that can also be extended at the
  front. The interpretations are on whole kernel states, with the waking of waiting threads and the scheduling it brings.
\<close>

section \<open>What every call needs to return\<close>

definition api_ok :: "kernel \<Rightarrow> bool" where
  "api_ok k \<longleftrightarrow> kernel_ok k \<and> stacks_ok k \<and> rt_current_thread k \<noteq> None"

lemma rt_schedule_current:
  assumes "rt_current_thread k \<noteq> None" and "rt_schedule k = Some k'"
  shows "rt_current_thread k' \<noteq> None"
  using assms
  by (auto simp: rt_schedule_def schedule_switch_def Let_def remove_thread_fields bind_eq_Some_conv
      split: if_splits)

lemma api_wake:
  assumes "api_ok k"
  obtains k' where "ipc_wake_one q k = Some k'" "api_ok k'" "ipc_frame k k'"
proof -
  obtain c where k: "kernel_ok k" "stacks_ok k" "rt_current_thread k = Some c"
    using assms by (auto simp: api_ok_def)
  obtain k' where w: "ipc_wake_one q k = Some k'" by (rule ipc_wake_one_returns [OF k])
  note W = ipc_wake_one_ok [OF k(1) w]
  have "rt_current_thread k' \<noteq> None"
  proof (cases "waitq k q")
    case Nil
    with w k(3) show ?thesis by (simp add: ipc_wake_one_def)
  next
    case (Cons t ts)
    then obtain k1 where "ipc_list_resume q k = Some k1" and s: "rt_schedule k1 = Some k'"
      using w by (auto simp: ipc_wake_one_def bind_eq_Some_conv)
    then have "rt_current_thread k1 \<noteq> None" using ipc_list_resume_ok(3) [OF k(1) Cons] k(3) by simp
    then show ?thesis by (rule rt_schedule_current [OF _ s])
  qed
  with W(1,3) ipc_frame_stacks_ok [OF W(3) k(2)] w that show ?thesis by (simp add: api_ok_def)
qed

section \<open>Mailboxes\<close>

text \<open>
  The calls that do not wait, as operations that are refused or done: \<^verbatim>\<open>rt_mb_send\<close>,
  \<^verbatim>\<open>rt_mb_urgent\<close> and \<^verbatim>\<open>rt_mb_recv\<close> with a zero timeout, whoever makes them. A call may wake
  a waiting thread and switch to it; the next call is then one of that thread.
\<close>

definition mb_send_now :: "nat \<Rightarrow> u32 \<Rightarrow> kernel \<Rightarrow> kernel option" where
  "mb_send_now m v k = (case rt_mb_send m v k of
     Some (Returned e, k') \<Rightarrow> if e = RT_EOK then Some k' else None | _ \<Rightarrow> None)"

definition mb_urgent_now :: "nat \<Rightarrow> u32 \<Rightarrow> kernel \<Rightarrow> kernel option" where
  "mb_urgent_now m v k = (case rt_mb_urgent m v k of
     Some (e, k') \<Rightarrow> if e = RT_EOK then Some k' else None | _ \<Rightarrow> None)"

definition mb_recv_now :: "nat \<Rightarrow> kernel \<Rightarrow> (u32 \<times> kernel) option" where
  "mb_recv_now m k = (case rt_mb_recv m 0 k of
     Some (Returned (e, Some v), k') \<Rightarrow> if e = RT_EOK then Some (v, k') else None | _ \<Rightarrow> None)"

definition mb_api_ok :: "nat \<Rightarrow> kernel \<Rightarrow> bool" where
  "mb_api_ok m k \<longleftrightarrow> api_ok k \<and> mailbox_inv k \<and> mb_object (mailboxes k m) \<noteq> Obj_none"

lemma mb_api_update:
  assumes k: "mb_api_ok m k" and x: "mb_inv x" "mb_object x = mb_object (mailboxes k m)"
  obtains k' where "ipc_wake_one q (upd_mailbox m (\<lambda>_. x) k) = Some k'" "mb_api_ok m k'"
    "mailboxes k' m = x"
proof -
  let ?u = "upd_mailbox m (\<lambda>_. x) k"
  have "api_ok ?u" using k by (auto simp: mb_api_ok_def api_ok_def stacks_ok_def)
  then obtain k' where k': "ipc_wake_one q ?u = Some k'" "api_ok k'" "ipc_frame ?u k'" by (rule api_wake)
  have "mailboxes k' = mailboxes ?u" by (rule ipc_frameD(7) [OF k'(3)])
  with k' k x that show ?thesis by (auto simp: mb_api_ok_def mailbox_inv_def)
qed

interpretation mb_api: bounded_deque "mb_api_ok m" "\<lambda>k. mb_contents (mailboxes k m)"
  "\<lambda>k. mb_size (mailboxes k m)" "\<lambda>_ _. True" "mb_send_now m" "mb_recv_now m" "mb_urgent_now m" for m
proof
  fix k :: kernel and v :: u32 and vs
  assume k: "mb_api_ok m k"
  let ?x = "mailboxes k m"
  have i: "mb_inv ?x" and ob: "mb_object ?x \<noteq> Obj_none"
    using k by (auto simp: mb_api_ok_def mailbox_inv_def)
  show "length (mb_contents ?x) \<le> mb_size ?x" using i by (simp add: mb_inv_def)
  show "mb_send_now m v k = None" if "length (mb_contents ?x) = mb_size ?x"
    using that ob by (simp add: mb_send_now_def rt_mb_send_def rt_mb_send_wait_def debug_defs)
  show "mb_urgent_now m v k = None" if "length (mb_contents ?x) = mb_size ?x"
    using that ob by (simp add: mb_urgent_now_def rt_mb_urgent_def)
  show "mb_recv_now m k = None" if "mb_contents ?x = []"
    using that ob length_mb_contents [of ?x] by (simp add: mb_recv_now_def rt_mb_recv_def debug_defs)
  show "\<exists>k'. mb_send_now m v k = Some k' \<and> mb_api_ok m k' \<and> mb_contents (mailboxes k' m) = mb_contents ?x @ [v]
      \<and> mb_size (mailboxes k' m) = mb_size ?x \<and> (\<lambda>_. True) = (\<lambda>_. True)" if "length (mb_contents ?x) < mb_size ?x"
  proof -
    have n: "mb_entry ?x < mb_size ?x" using that by simp
    obtain x where x: "mb_put v ?x = Some (RT_EOK, x)" "mb_inv x" "mb_contents x = mb_contents ?x @ [v]"
      "mb_size x = mb_size ?x" "mb_object x = mb_object ?x" "mb_flag x = mb_flag ?x"
      by (rule mb_put_ok [OF i n])
    obtain k' where k': "ipc_wake_one (MbRecvWait m) (upd_mailbox m (\<lambda>_. x) k) = Some k'" "mb_api_ok m k'"
      "mailboxes k' m = x" by (rule mb_api_update [OF k x(2,5)])
    have "mb_send_now m v k = Some k'"
      using n ob x(1) k'(1) by (simp add: mb_send_now_def rt_mb_send_def rt_mb_send_wait_def debug_defs
          mb_send_loop_def mb_send_finish_def Let_def)
    with x k' show ?thesis by simp
  qed
  show "\<exists>k'. mb_urgent_now m v k = Some k' \<and> mb_api_ok m k' \<and> mb_contents (mailboxes k' m) = v # mb_contents ?x
      \<and> mb_size (mailboxes k' m) = mb_size ?x \<and> (\<lambda>_. True) = (\<lambda>_. True)" if "length (mb_contents ?x) < mb_size ?x"
  proof -
    have n: "mb_entry ?x < mb_size ?x" using that by simp
    obtain x where x: "mb_put_front v ?x = Some x" "mb_inv x" "mb_contents x = v # mb_contents ?x"
      "mb_size x = mb_size ?x" "mb_object x = mb_object ?x" "mb_flag x = mb_flag ?x"
      by (rule mb_put_front_ok [OF i n])
    obtain k' where k': "ipc_wake_one (MbRecvWait m) (upd_mailbox m (\<lambda>_. x) k) = Some k'" "mb_api_ok m k'"
      "mailboxes k' m = x" by (rule mb_api_update [OF k x(2,5)])
    have "mb_urgent_now m v k = Some k'"
      using n ob x(1) k'(1) by (simp add: mb_urgent_now_def rt_mb_urgent_def)
    with x k' show ?thesis by simp
  qed
  show "\<exists>k'. mb_recv_now m k = Some (v, k') \<and> mb_api_ok m k' \<and> mb_contents (mailboxes k' m) = vs
      \<and> mb_size (mailboxes k' m) = mb_size ?x \<and> (\<lambda>_. True) = (\<lambda>_. True)" if c: "mb_contents ?x = v # vs"
  proof -
    have n: "mb_entry ?x \<noteq> 0" using length_mb_contents [of ?x] c by auto
    obtain x where x: "mb_get ?x = Some (v, x)" "mb_inv x" "mb_contents x = vs"
      "mb_size x = mb_size ?x" "mb_object x = mb_object ?x" "mb_flag x = mb_flag ?x"
      by (rule mb_get_ok [OF i c])
    obtain k' where k': "ipc_wake_one (MbSendWait m) (upd_mailbox m (\<lambda>_. x) k) = Some k'" "mb_api_ok m k'"
      "mailboxes k' m = x" by (rule mb_api_update [OF k x(2,5)])
    have "mb_recv_now m k = Some (v, k')"
      using n x(1) ob k'(1) by (simp add: mb_recv_now_def rt_mb_recv_def debug_defs mb_recv_loop_def)
    with x k' show ?thesis by simp
  qed
qed

section \<open>Message queues\<close>

definition mq_send_now :: "nat \<Rightarrow> u8 list \<Rightarrow> kernel \<Rightarrow> kernel option" where
  "mq_send_now m bytes k = (case rt_mq_send m bytes k of
     Some (Returned e, k') \<Rightarrow> if e = RT_EOK then Some k' else None | _ \<Rightarrow> None)"

definition mq_urgent_now :: "nat \<Rightarrow> u8 list \<Rightarrow> kernel \<Rightarrow> kernel option" where
  "mq_urgent_now m bytes k = (case rt_mq_urgent m bytes k of
     Some (e, k') \<Rightarrow> if e = RT_EOK then Some k' else None | _ \<Rightarrow> None)"

definition mq_recv_now :: "nat \<Rightarrow> kernel \<Rightarrow> (u8 list \<times> kernel) option" where
  "mq_recv_now m k = (case rt_mq_recv m (mq_msg_size (msgqueues k m)) 0 k of
     Some (Returned (e, Some bytes), k') \<Rightarrow> if e = RT_EOK then Some (bytes, k') else None | _ \<Rightarrow> None)"

definition mq_api_ok :: "nat \<Rightarrow> kernel \<Rightarrow> bool" where
  "mq_api_ok m k \<longleftrightarrow> api_ok k \<and> mqueue_inv k \<and> mq_object (msgqueues k m) \<noteq> Obj_none
     \<and> 0 < mq_msg_size (msgqueues k m)"

lemma mq_try_put_eq:
  assumes "mq_try_put bytes x = Some y"
  shows "mq_free x \<noteq> None" "mq_put bytes x = Some (RT_EOK, y)"
  using assms by (auto simp: mq_try_put_def split: if_splits option.splits prod.splits rt_err.splits)

lemma mq_try_push_eq:
  assumes "mq_try_push bytes x = Some y"
  shows "mq_free x \<noteq> None" "mq_put_front bytes x = Some (RT_EOK, y)"
  using assms by (auto simp: mq_try_push_def split: if_splits option.splits prod.splits rt_err.splits)

lemma mq_ops_object:
  "mq_put bytes x = Some (e, y) \<Longrightarrow> mq_object y = mq_object x \<and> mq_msg_size y = mq_msg_size x"
  "mq_put_front bytes x = Some (e, y) \<Longrightarrow> mq_object y = mq_object x \<and> mq_msg_size y = mq_msg_size x"
  "mq_get n x = Some (b, y) \<Longrightarrow> mq_object y = mq_object x \<and> mq_msg_size y = mq_msg_size x"
  by (auto simp: mq_put_def mq_put_front_def mq_get_def mq_take_free_def mq_fill_def mq_set_next_def
      mq_link_tail_def mq_link_head_def mq_unlink_head_def mq_give_free_def mq_count_def Let_def
      bind_eq_Some_conv split: option.splits if_splits)

lemma mq_api_update:
  assumes k: "mq_api_ok m k" and x: "mq_wf x {}" "mq_object x = mq_object (msgqueues k m)
      \<and> mq_msg_size x = mq_msg_size (msgqueues k m)"
  obtains k' where "ipc_wake_one q (upd_mq m (\<lambda>_. x) k) = Some k'" "mq_api_ok m k'"
    "msgqueues k' m = x"
proof -
  let ?u = "upd_mq m (\<lambda>_. x) k"
  have "api_ok ?u" using k by (auto simp: mq_api_ok_def api_ok_def stacks_ok_def)
  then obtain k' where k': "ipc_wake_one q ?u = Some k'" "api_ok k'" "ipc_frame ?u k'" by (rule api_wake)
  have "msgqueues k' = msgqueues ?u" by (rule ipc_frameD(8) [OF k'(3)])
  with k' k x that show ?thesis by (auto simp: mq_api_ok_def mqueue_inv_def)
qed

interpretation mq_api: bounded_deque "mq_api_ok m" "\<lambda>k. mq_contents (msgqueues k m)"
  "\<lambda>k. mq_max_msgs (msgqueues k m)" "\<lambda>k. mq_full_size (msgqueues k m)"
  "mq_send_now m" "mq_recv_now m" "mq_urgent_now m" for m
proof
  fix k :: kernel and a :: "u8 list" and as
  assume k: "mq_api_ok m k"
  let ?x = "msgqueues k m"
  have w: "mq_wf ?x {}" and ob: "mq_object ?x \<noteq> Obj_none" "0 < mq_msg_size ?x"
    using k by (auto simp: mq_api_ok_def mqueue_inv_wf)
  have full: "mq_free ?x = None" if "length (mq_contents ?x) = mq_max_msgs ?x"
  proof -
    obtain fs qs where s: "mq_shape ?x fs qs {}" using w by (auto simp: mq_wf_def)
    then have "fs = []" using that mq_shape_count [OF s] by (simp add: mq_shape_contents [OF s])
    then show ?thesis using mq_take_free_none [OF s] by simp
  qed
  show "length (mq_contents ?x) \<le> mq_max_msgs ?x" by (rule mqq.bounded [OF w])
  show "mq_send_now m a k = None" if "length (mq_contents ?x) = mq_max_msgs ?x"
    using full [OF that] ob by (simp add: mq_send_now_def rt_mq_send_def rt_mq_send_wait_def debug_defs)
  show "mq_urgent_now m a k = None" if "length (mq_contents ?x) = mq_max_msgs ?x"
    using full [OF that] ob by (simp add: mq_urgent_now_def rt_mq_urgent_def)
  show "mq_recv_now m k = None" if "mq_contents ?x = []"
  proof -
    obtain fs qs where s: "mq_shape ?x fs qs {}" using w by (auto simp: mq_wf_def)
    then have "mq_entry ?x = 0" using that by (simp add: mq_shape_contents [OF s]) (simp add: mq_shape_def)
    then show ?thesis using ob by (simp add: mq_recv_now_def rt_mq_recv_def debug_defs)
  qed
  show "\<exists>k'. mq_send_now m a k = Some k' \<and> mq_api_ok m k' \<and> mq_contents (msgqueues k' m) = mq_contents ?x @ [a]
      \<and> mq_max_msgs (msgqueues k' m) = mq_max_msgs ?x \<and> mq_full_size (msgqueues k' m) = mq_full_size ?x"
    if v: "mq_full_size ?x a" and r: "length (mq_contents ?x) < mq_max_msgs ?x"
  proof -
    from mqq.enq_room [OF w v r] obtain x where x: "mq_try_put a ?x = Some x" "mq_wf x {}"
      "mq_contents x = mq_contents ?x @ [a]" "mq_max_msgs x = mq_max_msgs ?x" "mq_full_size x = mq_full_size ?x"
      by blast
    note P = mq_try_put_eq [OF x(1)]
    obtain k' where k': "ipc_wake_one (MqRecvWait m) (upd_mq m (\<lambda>_. x) k) = Some k'" "mq_api_ok m k'"
      "msgqueues k' m = x" by (rule mq_api_update [OF k x(2) mq_ops_object(1) [OF P(2)]])
    have "mq_send_now m a k = Some k'"
      using P ob v k'(1) by (auto simp: mq_send_now_def rt_mq_send_def rt_mq_send_wait_def debug_defs
          mq_send_loop_def mq_send_finish_def mq_full_size_def Let_def)
    with x k' show ?thesis by simp
  qed
  show "\<exists>k'. mq_urgent_now m a k = Some k' \<and> mq_api_ok m k' \<and> mq_contents (msgqueues k' m) = a # mq_contents ?x
      \<and> mq_max_msgs (msgqueues k' m) = mq_max_msgs ?x \<and> mq_full_size (msgqueues k' m) = mq_full_size ?x"
    if v: "mq_full_size ?x a" and r: "length (mq_contents ?x) < mq_max_msgs ?x"
  proof -
    from mqq.push_room [OF w v r] obtain x where x: "mq_try_push a ?x = Some x" "mq_wf x {}"
      "mq_contents x = a # mq_contents ?x" "mq_max_msgs x = mq_max_msgs ?x" "mq_full_size x = mq_full_size ?x"
      by blast
    note P = mq_try_push_eq [OF x(1)]
    obtain k' where k': "ipc_wake_one (MqRecvWait m) (upd_mq m (\<lambda>_. x) k) = Some k'" "mq_api_ok m k'"
      "msgqueues k' m = x" by (rule mq_api_update [OF k x(2) mq_ops_object(2) [OF P(2)]])
    have "mq_urgent_now m a k = Some k'"
      using P ob v k'(1) by (auto simp: mq_urgent_now_def rt_mq_urgent_def mq_full_size_def Let_def)
    with x k' show ?thesis by simp
  qed
  show "\<exists>k'. mq_recv_now m k = Some (a, k') \<and> mq_api_ok m k' \<and> mq_contents (msgqueues k' m) = as
      \<and> mq_max_msgs (msgqueues k' m) = mq_max_msgs ?x \<and> mq_full_size (msgqueues k' m) = mq_full_size ?x"
    if c: "mq_contents ?x = a # as"
  proof -
    from mqq.deq_some [OF w c] obtain x where x: "mq_try_get ?x = Some (a, x)" "mq_wf x {}"
      "mq_contents x = as" "mq_max_msgs x = mq_max_msgs ?x" "mq_full_size x = mq_full_size ?x" by blast
    then have P: "mq_entry ?x \<noteq> 0" "mq_get (mq_msg_size ?x) ?x = Some (a, x)"
      by (auto simp: mq_try_get_def split: if_splits)
    obtain k' where k': "ipc_wake_one (MqSendWait m) (upd_mq m (\<lambda>_. x) k) = Some k'" "mq_api_ok m k'"
      "msgqueues k' m = x" by (rule mq_api_update [OF k x(2) mq_ops_object(3) [OF P(2)]])
    have "mq_recv_now m k = Some (a, k')"
      using P ob k'(1) by (simp add: mq_recv_now_def rt_mq_recv_def debug_defs mq_recv_loop_def)
    with x k' show ?thesis by simp
  qed
qed

section \<open>Data queues\<close>

text \<open>
  Queues without a notification. A \<^verbatim>\<open>rt_data_queue_pop\<close> that wakes a producer has its item already;
  what is left of it does nothing.
\<close>

definition dq_no_notify :: dq_notify where
  "dq_no_notify q ev k = Some k"

definition dq_push_now :: "nat \<Rightarrow> dq_item \<Rightarrow> kernel \<Rightarrow> kernel option" where
  "dq_push_now q v k = (case rt_data_queue_push q v 0 dq_no_notify k of
     Some (Returned e, k') \<Rightarrow> if e = RT_EOK then Some k' else None | _ \<Rightarrow> None)"

definition dq_pop_now :: "nat \<Rightarrow> kernel \<Rightarrow> (dq_item \<times> kernel) option" where
  "dq_pop_now q k = (case rt_data_queue_pop q 0 dq_no_notify k of
     Some (Returned (e, Some v), k') \<Rightarrow> if e = RT_EOK then Some (v, k') else None
   | Some (Waiting (Dq_notify v), k') \<Rightarrow>
       (case rt_data_queue_pop_resume q 0 dq_no_notify (Dq_notify v) k' of
          Some (Returned (e, Some v), k') \<Rightarrow> if e = RT_EOK then Some (v, k') else None | _ \<Rightarrow> None)
   | _ \<Rightarrow> None)"

definition dq_api_ok :: "nat \<Rightarrow> kernel \<Rightarrow> bool" where
  "dq_api_ok q k \<longleftrightarrow> api_ok k \<and> dataqueue_inv k \<and> dq_magic (dataq k q) = DATAQUEUE_MAGIC"

lemma dq_api_update:
  assumes k: "dq_api_ok q k" and x: "dq_wf x" "dq_magic x = dq_magic (dataq k q)"
  shows "dq_api_ok q (upd_dataq q (\<lambda>_. x) k)"
    "\<exists>k'. ipc_wake_one w (upd_dataq q (\<lambda>_. x) k) = Some k' \<and> dq_api_ok q k' \<and> dataq k' q = x"
proof -
  let ?u = "upd_dataq q (\<lambda>_. x) k"
  have a: "api_ok ?u" using k by (auto simp: dq_api_ok_def api_ok_def stacks_ok_def)
  show u: "dq_api_ok q ?u" using k x a by (auto simp: dq_api_ok_def dataqueue_inv_def)
  obtain k' where k': "ipc_wake_one w ?u = Some k'" "api_ok k'" "ipc_frame ?u k'" using a by (rule api_wake)
  have "devs k' = devs ?u" by (rule ipc_frameD(14) [OF k'(3)])
  then show "\<exists>k'. ipc_wake_one w ?u = Some k' \<and> dq_api_ok q k' \<and> dataq k' q = x"
    using k' u by (intro exI [of _ k']) (simp add: dq_api_ok_def dataqueue_inv_def)
qed

interpretation dq_api: bounded_fifo "dq_api_ok q" "\<lambda>k. dq_contents (dataq k q)"
  "\<lambda>k. dq_places (dataq k q)" "\<lambda>_ _. True" "dq_push_now q" "dq_pop_now q" for q
proof
  fix k :: kernel and v :: dq_item and vs
  assume k: "dq_api_ok q k"
  let ?x = "dataq k q"
  have m: "dq_magic ?x = DATAQUEUE_MAGIC" and w: "dq_wf ?x"
    using k by (auto simp: dq_api_ok_def dataqueue_inv_def)
  show "length (dq_contents ?x) \<le> dq_places ?x" using dq_count_le [OF w] by simp
  show "dq_push_now q v k = None" if "length (dq_contents ?x) = dq_places ?x"
    using that m dq_count_full [OF w]
    by (simp add: dq_push_now_def rt_data_queue_push_def dq_push_loop_def debug_defs)
  show "dq_pop_now q k = None" if "dq_contents ?x = []"
    using that m dq_count_empty [OF w] length_dq_contents [of ?x]
    by (simp add: dq_pop_now_def rt_data_queue_pop_def dq_pop_loop_def debug_defs)
  show "\<exists>k'. dq_push_now q v k = Some k' \<and> dq_api_ok q k' \<and> dq_contents (dataq k' q) = dq_contents ?x @ [v]
      \<and> dq_places (dataq k' q) = dq_places ?x \<and> (\<lambda>_. True) = (\<lambda>_. True)" if n: "length (dq_contents ?x) < dq_places ?x"
  proof -
    have nf: "\<not> dq_is_full ?x" using n dq_count_full [OF w] by simp
    obtain y where y: "dq_put v ?x = Some y" "dq_wf y" "dq_contents y = dq_contents ?x @ [v]"
      "dq_size y = dq_size ?x" "dq_magic y = dq_magic ?x" by (rule dq_put_ok [OF w nf])
    note U = dq_api_update [OF k y(2,5)]
    obtain k' where k': "ipc_wake_one (DqPopWait q) (upd_dataq q (\<lambda>_. y) k) = Some k'" "dq_api_ok q k'"
      "dataq k' q = y" using U(2) by blast
    have "dq_push_now q v k = Some (if waitq k (DqPopWait q) = [] then upd_dataq q (\<lambda>_. y) k else k')"
      using nf m y(1) k'(1) by (simp add: dq_push_now_def rt_data_queue_push_def dq_push_loop_def debug_defs
          Let_def dq_no_notify_def)
    then show ?thesis using y U(1) k' by (auto simp: dq_places_def)
  qed
  show "\<exists>k'. dq_pop_now q k = Some (v, k') \<and> dq_api_ok q k' \<and> dq_contents (dataq k' q) = vs
      \<and> dq_places (dataq k' q) = dq_places ?x \<and> (\<lambda>_. True) = (\<lambda>_. True)" if c: "dq_contents ?x = v # vs"
  proof -
    have ne: "\<not> dq_is_empty ?x" using dq_count_empty [OF w] length_dq_contents [of ?x] c by auto
    obtain y where y: "dq_get ?x = Some (v, y)" "dq_wf y" "dq_contents y = vs"
      "dq_size y = dq_size ?x" "dq_magic y = dq_magic ?x" by (rule dq_get_ok [OF w c])
    note U = dq_api_update [OF k y(2,5)]
    obtain k' where k': "ipc_wake_one (DqPushWait q) (upd_dataq q (\<lambda>_. y) k) = Some k'" "dq_api_ok q k'"
      "dataq k' q = y" using U(2) by blast
    have "dq_pop_now q k = Some (v, if dq_len y \<le> dq_lwm y \<and> waitq k (DqPushWait q) \<noteq> [] then k' else upd_dataq q (\<lambda>_. y) k)"
      using ne m y(1,5) k'(1) by (simp add: dq_pop_now_def rt_data_queue_pop_def dq_pop_loop_def debug_defs
          Let_def dq_no_notify_def rt_data_queue_len_def rt_data_queue_pop_resume_def)
    then show ?thesis using y U(1) k' by (auto simp: dq_places_def)
  qed
qed

end
