(* ===== verification/Prop_Ipc.thy ===== *)
theory Prop_Ipc
  imports Rtt_Example Rtt_Channels
begin

unbundle bit_operations_syntax

text \<open>
  The properties of the suspend lists, semaphores, mutexes, events, mailboxes and message queues,
  each followed by its witness on the running system of theory \<open>Rtt_Example\<close>.
\<close>

section \<open>Suspend lists\<close>






section \<open>Semaphores\<close>

text \<open>C9: \<^verbatim>\<open>rt_sem_take\<close> takes a unit if there is one; otherwise it reports \<^verbatim>\<open>-RT_ETIMEOUT\<close> at
  once for a zero timeout, and else suspends the caller on the semaphore's list with its order; the
  value is never taken below zero, and nobody waits while there is a unit.\<close>

theorem sem_take_behaviour:
  assumes k: "kernel_ok k" and i: "sem_inv k" and c: "caller_running k"
    and r: "rt_sem_take s timeout k = Some (res, k')"
  shows "kernel_ok k' \<and> sem_inv k'
    \<and> (if 0 < sem_value (sems k s)
       then res = Returned RT_EOK \<and> unat (sem_value (sems k' s)) + 1 = unat (sem_value (sems k s))
         \<and> waitq k' = waitq k
       else if timeout = 0 then res = Returned RT_ETIMEOUT \<and> k' = k
       else (\<exists>t. rt_current_thread k = Some t \<and> res = Waiting t \<and> thread_stat k' t = RT_THREAD_SUSPEND
         \<and> sems k' = sems k
         \<and> waitq k' = (waitq k)(SemWait s :=
             waitq_enqueue (sem_flag (sems k s)) (thread_prio k) t (waitq k (SemWait s)))))"
proof -
  note O = rt_sem_take_ok [OF k i r caller_runningD [OF c]]
  from r show ?thesis
  proof (cases rule: rt_sem_take_cases)
    case got
    then have "unat (sem_value (sems k s) - 1) + 1 = unat (sem_value (sems k s))"
      by (simp add: unat_minus_one word_gt_0 unat_gt_0)
    with got O(1,2) show ?thesis by simp
  next
    case no_wait
    with O(1,2) show ?thesis by simp
  next
    case (wait t k1)
    have run: "thread_stat (upd_thread t (set_error RT_EOK) k) t = RT_THREAD_RUNNING"
      using caller_runningD [OF c wait(4)] by simp
    note W = ipc_wait_ok [OF set_error_kernel_ok [OF k] run wait(7,8)]
    have "sems k' = sems k" using ipc_frameD(4) [OF W(2)] by simp
    with W(3,4) wait(1-4) O(1,2) show ?thesis by simp
  qed
qed

lemma demo_sem_inv: "sem_inv (demo (SemWait 0))"
  using sys_invD(3) [OF demo_sys_inv, of "SemWait 0" Sem_class] by simp

theorem sem_take_behaviour_witness:
  "\<exists>k'. rt_sem_take 1 0 (demo (SemWait 0)) = Some (Returned RT_EOK, k') \<and> sem_value (sems k' 1) = 1"
proof -
  have r: "rt_sem_take 1 0 (demo (SemWait 0)) = Some (Returned RT_EOK,
      upd_sem 1 (\<lambda>x. x\<lparr>sem_value := sem_value x - 1\<rparr>) (demo (SemWait 0)))"
    by (simp add: rt_sem_take_def debug_defs)
  from sem_take_behaviour [OF demo_kernel_ok demo_sem_inv demo_caller r] r show ?thesis by simp
qed

text \<open>C10: \<^verbatim>\<open>rt_sem_release\<close> wakes the first waiter, leaving the value alone, if there is one, and
  otherwise adds a unit, up to the largest value of 16 bits, where it fails with \<^verbatim>\<open>-RT_EFULL\<close>.\<close>

theorem sem_release_behaviour:
  assumes k: "kernel_ok k" and i: "sem_inv k" and r: "rt_sem_release s k = Some (e, k')"
  shows "kernel_ok k' \<and> sem_inv k'
    \<and> (case waitq k (SemWait s) of
         t # ts \<Rightarrow> e = RT_EOK \<and> sems k' = sems k \<and> waitq k' = (waitq k)(SemWait s := ts)
           \<and> (thread_stat k' t = RT_THREAD_READY \<or> thread_stat k' t = RT_THREAD_RUNNING)
       | [] \<Rightarrow> waitq k' = waitq k \<and>
           (if unat (sem_value (sems k s)) < 65535
            then e = RT_EOK \<and> unat (sem_value (sems k' s)) = unat (sem_value (sems k s)) + 1
            else e = RT_EFULL \<and> k' = k))"
proof -
  note O = rt_sem_release_ok [OF k i r]
  from r show ?thesis
  proof (cases rule: rt_sem_release_cases)
    case (wake t ts k1)
    note W = ipc_wake_ok [OF k wake(1,3,4)]
    have "sems k' = sems k" using ipc_frameD(4) [OF W(2)] by simp
    with W(3,4) wake(1,2) O(1,2) show ?thesis by simp
  next
    case count
    then have n: "unat (sem_value (sems k s)) < 65535" by (simp add: RT_SEM_VALUE_MAX_def word_less_nat_alt)
    then have "unat (sem_value (sems k s) + 1) = unat (sem_value (sems k s)) + 1"
      by (simp add: unat_word_ariths)
    with n count O(1,2) show ?thesis by simp
  next
    case full
    with O(1,2) show ?thesis by (simp add: RT_SEM_VALUE_MAX_def)
  qed
qed

lemma demo_wake: "\<exists>k'. ipc_wake_one q' (demo q) = Some k'"
  using ipc_wake_one_returns [OF demo_kernel_ok demo_stacks demo_fields(4)] by metis

theorem sem_release_behaviour_witness:
  "\<exists>k'. rt_sem_release 0 (demo (SemWait 0)) = Some (RT_EOK, k') \<and> waitq k' (SemWait 0) = []
    \<and> (thread_stat k' 3 = RT_THREAD_READY \<or> thread_stat k' 3 = RT_THREAD_RUNNING)"
proof -
  obtain k' where "ipc_wake_one (SemWait 0) (demo (SemWait 0)) = Some k'" using demo_wake by blast
  then have r: "rt_sem_release 0 (demo (SemWait 0)) = Some (RT_EOK, k')"
    by (auto simp: rt_sem_release_def ipc_wake_one_def bind_eq_Some_conv)
  from sem_release_behaviour [OF demo_kernel_ok demo_sem_inv r] r show ?thesis by simp
qed

section \<open>Mutexes\<close>

text \<open>C11: mutual exclusion: \<^verbatim>\<open>rt_mutex_take\<close> succeeds only if the mutex is free or the caller
  holds it already, and then the caller owns it with one hold more; a free mutex is always got.\<close>

theorem mutex_exclusion:
  assumes k: "kernel_ok k" and i: "mutex_inv k" and c: "caller_running k"
    and t: "rt_current_thread k = Some t" and r: "rt_mutex_take m timeout k = Some (res, k')"
  shows "kernel_ok k' \<and> mutex_inv k'
    \<and> (res = Returned RT_EOK \<longrightarrow> (mtx_owner (mutexes k m) = None \<or> mtx_owner (mutexes k m) = Some t)
        \<and> mtx_owner (mutexes k' m) = Some t
        \<and> unat (mtx_hold (mutexes k' m)) = unat (mtx_hold (mutexes k m)) + 1)
    \<and> (mtx_owner (mutexes k m) = None \<longrightarrow> res = Returned RT_EOK)
    \<and> (res \<noteq> Returned RT_EOK \<longrightarrow> mutexes k' m = mutexes k m)"
proof -
  note O = rt_mutex_take_ok [OF k i r caller_runningD [OF c]]
  from i r show ?thesis
  proof (cases rule: rt_mutex_take_cases)
    case (again u)
    then have "unat (mtx_hold (mutexes k m)) < 255" by (simp add: RT_MUTEX_HOLD_MAX_def word_less_nat_alt)
    then have "unat (mtx_hold (mutexes k m) + 1) = unat (mtx_hold (mutexes k m)) + 1"
      by (simp add: unat_word_ariths)
    with again O(1,2) t show ?thesis by (simp add: mutex_hold_inc_def)
  next
    case full
    with O(1,2) t show ?thesis by simp
  next
    case got
    with O(1,2) t show ?thesis by (simp add: mutex_hold_inc_def mutex_acquire_def mutex_free_def)
  next
    case no_wait
    with O(1,2) t show ?thesis by (simp add: mutex_held_def)
  next
    case (wait u owner k0 k1)
    note W = mutex_wait_ok [OF k caller_runningD [OF c wait(1)] wait(4,9-11)]
    have "mutexes k' = mutexes k" by (rule obj_frameD(2) [OF W(2)])
    with wait O(1,2) t show ?thesis by simp
  qed
qed

theorem mutex_exclusion_witness:
  "\<exists>k'. rt_mutex_take 1 0 (demo (SemWait 0)) = Some (Returned RT_EOK, k')
    \<and> mtx_owner (mutexes k' 1) = Some 1 \<and> unat (mtx_hold (mutexes k' 1)) = 2"
proof -
  obtain k' where r: "rt_mutex_take 1 0 (demo (SemWait 0)) = Some (Returned RT_EOK, k')"
    by (simp add: rt_mutex_take_def debug_defs ex_mutex_def RT_MUTEX_HOLD_MAX_def)
  from mutex_exclusion [OF demo_kernel_ok demo_mutex_inv demo_caller demo_fields(4) r] r
  show ?thesis by (simp add: ex_mutex_def)
qed

text \<open>C12: priority inheritance: a thread that has to wait for a mutex gives its priority to the
  owner if that is less urgent, and sleeps on the mutex's list in the order of priority; no other
  priority changes, and what the mutex remembers of the owner's own priority is kept.\<close>

theorem mutex_take_inherits:
  assumes k: "kernel_ok k" and i: "mutex_inv k" and c: "caller_running k"
    and t: "rt_current_thread k = Some t" and o: "mtx_owner (mutexes k m) = Some owner" "owner \<noteq> t"
    and n: "timeout \<noteq> 0" and r: "rt_mutex_take m timeout k = Some (res, k')"
  shows "res = Waiting t \<and> thread_stat k' t = RT_THREAD_SUSPEND
    \<and> thread_prio k' = (thread_prio k)(owner := min (thread_prio k t) (thread_prio k owner))
    \<and> waitq k' = (waitq k)(MutexWait m :=
        waitq_enqueue RT_IPC_FLAG_PRIO (thread_prio k') t (waitq k (MutexWait m)))
    \<and> mutexes k' = mutexes k"
  using i r
proof (cases rule: rt_mutex_take_cases)
  case (wait u owner' k0 k1)
  then have ut: "u = t" "owner' = owner" using t o by simp_all
  note W = mutex_wait_ok [OF k caller_runningD [OF c t] _ wait(9-11) [unfolded ut]]
  have "thread_prio k' = (thread_prio k)(owner := min (thread_prio k t) (thread_prio k owner))"
    by (rule ext) (use W(5,6) o(2) in auto)
  with W(2,3,4,8) o(2) wait(6) ut show ?thesis by (simp add: obj_frameD(2))
qed (use t o n in \<open>auto simp: mutex_free_def\<close>)

lemma change_priority_stacks_ok:
  assumes s: "stacks_ok k" and r: "thread_change_priority t p k = Some k'"
  shows "stacks_ok k'"
proof -
  have g: "stacks_ok (upd_thread t (set_priority p) k)" if "stacks_ok k" for k
    by (rule stacks_ok_upd [OF that]) (simp add: scheduler_stack_check_def set_priority_def)
  have "stacks_ok (rt_schedule_remove_thread t k)" using s sched_frame_stacks_ok [OF sched_frame_remove] by blast
  from g [OF this] g [OF s] r show ?thesis
    using sched_frame_stacks_ok [OF sched_frame_insert]
    by (auto simp: thread_change_priority_def split: if_splits)
qed

lemma demo_mutex_wait: "\<exists>k'. rt_mutex_take 0 50 (demo (SemWait 0)) = Some (Waiting 1, k')"
proof -
  let ?e = "upd_thread 1 (set_error RT_EOK) (demo (SemWait 0))"
  obtain k0 where k0: "thread_change_priority 0 10 ?e = Some k0"
    by (auto simp: thread_change_priority_def)
  note C = thread_change_priority_ok [OF set_error_kernel_ok [OF demo_kernel_ok] k0]
  have st: "stacks_ok k0" by (rule change_priority_stacks_ok [OF stacks_ok_set_error [OF demo_stacks] k0])
  have c: "rt_current_thread k0 = Some 1" using C(4) by simp
  have run: "thread_stat k0 1 = RT_THREAD_RUNNING" using C(6) by simp
  obtain k1 k2 where "ipc_block (MutexWait 0) 1 RT_IPC_FLAG_PRIO 50 k0 = Some k1" "rt_schedule k1 = Some k2"
    using ipc_block_returns [OF C(1) st c run, of 50 "MutexWait 0" RT_IPC_FLAG_PRIO thesis]
    by (auto simp: half_tick_max_value)
  with k0 show ?thesis
    by (auto simp: rt_mutex_take_def debug_defs ex_mutex_def rt_thread_self_def Let_def)
qed

theorem mutex_take_inherits_witness:
  "\<exists>k'. rt_mutex_take 0 50 (demo (SemWait 0)) = Some (Waiting 1, k')
    \<and> thread_prio k' 0 = 10 \<and> waitq k' (MutexWait 0) = [1]"
proof -
  obtain k' where r: "rt_mutex_take 0 50 (demo (SemWait 0)) = Some (Waiting 1, k')" using demo_mutex_wait by blast
  have o: "mtx_owner (mutexes (demo (SemWait 0)) 0) = Some 0" "0 \<noteq> (1 :: nat)" by (simp_all add: ex_mutex_def)
  from mutex_take_inherits [OF demo_kernel_ok demo_mutex_inv demo_caller demo_fields(4) o _ r] r
  show ?thesis by (simp add: waitq_enqueue_def)
qed



text \<open>A thread that does not own a mutex cannot release it; a nested release only counts down.\<close>

theorem mutex_release_other:
  assumes i: "mutex_inv k" and t: "rt_current_thread k = Some t"
    and o: "mtx_owner (mutexes k m) \<noteq> Some t \<or> mtx_hold (mutexes k m) \<noteq> 1"
    and r: "rt_mutex_release m k = Some (e, k')"
  shows "if mtx_owner (mutexes k m) \<noteq> Some t
    then e = RT_ERROR \<and> mutexes k' = mutexes k \<and> waitq k' = waitq k \<and> thread_stat k' = thread_stat k
    else e = RT_EOK \<and> mtx_owner (mutexes k' m) = Some t \<and> waitq k' = waitq k
      \<and> unat (mtx_hold (mutexes k' m)) + 1 = unat (mtx_hold (mutexes k m))"
  using r
proof (cases rule: rt_mutex_release_cases)
  case refused
  with t show ?thesis by (auto simp: fun_eq_iff)
next
  case (nested u)
  have "mutex_held (mutexes k m)" using mutex_cases [OF i nested(6)] nested(2) by (auto simp: mutex_free_def)
  then have "unat (mtx_hold (mutexes k m) - 1) + 1 = unat (mtx_hold (mutexes k m))"
    by (simp add: mutex_held_def unat_minus_one word_gt_0 unat_gt_0)
  with nested t show ?thesis by simp
qed (use t o in auto)

theorem mutex_release_other_witness:
  "\<exists>k'. rt_mutex_release 0 (demo (SemWait 0)) = Some (RT_ERROR, k') \<and> mutexes k' = mutexes (demo (SemWait 0))"
proof -
  obtain k' where r: "rt_mutex_release 0 (demo (SemWait 0)) = Some (RT_ERROR, k')"
    by (simp add: rt_mutex_release_def debug_defs ex_mutex_def)
  from mutex_release_other [OF demo_mutex_inv demo_fields(4) _ r] r show ?thesis by (simp add: ex_mutex_def)
qed

section \<open>Events\<close>





text \<open>C15: \<^verbatim>\<open>rt_event_recv\<close> returns the awaited bits that are set exactly when the condition holds
  (all of them for \<^verbatim>\<open>RT_EVENT_FLAG_AND\<close>, else one at least), clearing all the awaited bits for
  \<^verbatim>\<open>RT_EVENT_FLAG_CLEAR\<close> and no other bit; when it does not hold the event is unchanged, and the
  caller waits unless the timeout is zero.\<close>

theorem event_recv_behaviour:
  assumes k: "kernel_ok k" and i: "event_inv k" and c: "caller_running k" and b: "bits \<noteq> 0"
    and r: "rt_event_recv e bits option timeout k = Some (res, k')"
  shows "kernel_ok k' \<and> event_inv k'
    \<and> (if (if option AND RT_EVENT_FLAG_AND \<noteq> 0 then ev_set (events k e) AND bits = bits
           else ev_set (events k e) AND bits \<noteq> 0)
       then res = Returned (RT_EOK, Some (ev_set (events k e) AND bits))
         \<and> ev_set (events k' e) = (if option AND RT_EVENT_FLAG_CLEAR \<noteq> 0
              then ev_set (events k e) AND NOT bits else ev_set (events k e))
       else events k' = events k
         \<and> (if timeout = 0 then res = Returned (RT_ETIMEOUT, None)
            else \<exists>t. res = Waiting t \<and> thread_stat k' t = RT_THREAD_SUSPEND
              \<and> t \<in> set (waitq k' (EventWait e)) \<and> event_set (threads k' t) = bits))"
proof -
  note O = rt_event_recv_ok [OF k i r caller_runningD [OF c]]
  from r show ?thesis
  proof (cases rule: rt_event_recv_cases)
    case nothing
    with b show ?thesis by simp
  next
    case (got t)
    with O(1,2) show ?thesis by (simp add: event_ready_def Let_def)
  next
    case (no_wait t)
    with O(1,2) show ?thesis by (simp add: event_ready_def)
  next
    case (wait t k1)
    let ?u = "upd_thread t (\<lambda>x. (set_error RT_EOK x)\<lparr>event_set := bits, event_info := option\<rparr>) k"
    have run: "thread_stat ?u t = RT_THREAD_RUNNING" using caller_runningD [OF c wait(2)]
      by (simp add: thread_stat_def)
    have ku: "kernel_ok ?u" by (rule upd_thread_kernel_ok [OF k]) (simp_all add: thread_stat_def thread_prio_def)
    note W = ipc_wait_ok [OF ku run wait(7,8)]
    have "t \<in> set (waitq k' (EventWait e))"
      by (cases "ev_flag (events k e)") (auto simp: W(4) waitq_enqueue_def)
    moreover have "events k' = events k" "event_set (threads k' t) = bits"
      using ipc_frameD(6,10) [OF W(2)] by simp_all
    ultimately show ?thesis using W(3) wait O(1,2) by (simp add: event_ready_def)
  qed
qed

theorem event_recv_behaviour_witness:
  "\<exists>k'. rt_event_recv 0 6 (RT_EVENT_FLAG_OR OR RT_EVENT_FLAG_CLEAR) 0
      (upd_event 0 (\<lambda>v. v\<lparr>ev_set := 10\<rparr>) (demo (SemWait 0))) = Some (Returned (RT_EOK, Some 2), k')
    \<and> ev_set (events k' 0) = 8"
proof -
  let ?k = "upd_event 0 (\<lambda>v. v\<lparr>ev_set := 10\<rparr>) (demo (SemWait 0))"
  obtain k' where r: "rt_event_recv 0 6 (RT_EVENT_FLAG_OR OR RT_EVENT_FLAG_CLEAR) 0 ?k
      = Some (Returned (RT_EOK, Some 2), k')"
    by (simp add: rt_event_recv_def debug_defs event_ready_def RT_EVENT_FLAG_OR_def RT_EVENT_FLAG_AND_def
        RT_EVENT_FLAG_CLEAR_def Let_def set_error_def upd_event_def)
  have k: "kernel_ok ?k" using demo_kernel_ok by simp
  have i: "event_inv ?k" by (simp add: event_inv_def)
  have c: "caller_running ?k" by (simp add: caller_running_def)
  from event_recv_behaviour [OF k i c _ r] r show ?thesis
    by (simp add: RT_EVENT_FLAG_OR_def RT_EVENT_FLAG_AND_def RT_EVENT_FLAG_CLEAR_def)
qed

section \<open>Mailboxes and message queues\<close>

text \<open>C16: a mailbox is a bounded queue: over any sequence of \<^verbatim>\<open>rt_mb_send\<close> and \<^verbatim>\<open>rt_mb_recv\<close>
  calls that do not wait, with all the waking and scheduling they do, the words received are those
  accepted, in order, after those that were there; a send is refused exactly when the mailbox is
  full, and the kernel's invariants hold throughout.\<close>

theorem mailbox_fifo:
  assumes "mb_api_ok m k" and "fifo_run (mb_send_now m) (mb_recv_now m) ops k = (accepted, received, k')"
  shows "mb_api_ok m k'
    \<and> mb_contents (mailboxes k m) @ accepted = received @ mb_contents (mailboxes k' m)
    \<and> mb_size (mailboxes k' m) = mb_size (mailboxes k m)
    \<and> (mb_send_now m v k = None \<longleftrightarrow> mb_entry (mailboxes k m) = mb_size (mailboxes k m))"
proof -
  have "mb_api_ok m k' \<and> mb_contents (mailboxes k m) @ accepted = received @ mb_contents (mailboxes k' m)
    \<and> mb_size (mailboxes k' m) = mb_size (mailboxes k m)"
    by (rule mb_api.run_order [OF assms(1) _ assms(2)]) simp
  moreover have "mb_send_now m v k = None \<longleftrightarrow> mb_entry (mailboxes k m) = mb_size (mailboxes k m)"
    using mb_api.enq_full [OF assms(1), of v] mb_api.enq_room [OF assms(1), of v] mb_api.bounded [OF assms(1)]
    by (cases "mb_entry (mailboxes k m) = mb_size (mailboxes k m)") auto
  ultimately show ?thesis by blast
qed

lemma demo_api: "api_ok (demo q)"
  by (simp add: api_ok_def demo_kernel_ok demo_stacks)

lemma demo_mb_api: "mb_api_ok m (demo q)"
  by (simp add: mb_api_ok_def demo_api mailbox_inv_def) (simp add: mb_new_def)

theorem mailbox_fifo_witness:
  "\<exists>a b k'. fifo_run (mb_send_now 0) (mb_recv_now 0) [Put 7, Put 8, Put 9, Get, Put 5, Get]
      (demo (SemWait 0)) = (a, b, k') \<and> a = b @ mb_contents (mailboxes k' 0)"
proof -
  obtain a b k' where r: "fifo_run (mb_send_now 0) (mb_recv_now 0) [Put 7, Put 8, Put 9, Get, Put 5, Get]
      (demo (SemWait 0)) = (a, b, k')" by (rule prod_cases3)
  from mailbox_fifo [OF demo_mb_api r] r show ?thesis by simp
qed

text \<open>A message sent with \<^verbatim>\<open>rt_mb_urgent\<close> is the next one received, and the rest of the mailbox
  is then as before.\<close>

theorem mailbox_urgent_first:
  assumes "mb_api_ok m k" and "mb_urgent_now m v k = Some k1"
  shows "\<exists>k2. mb_recv_now m k1 = Some (v, k2) \<and> mb_api_ok m k2
    \<and> mb_contents (mailboxes k2 m) = mb_contents (mailboxes k m)"
  by (rule mb_api.push_then_deq [OF assms(1) _ assms(2)]) simp

theorem mailbox_urgent_first_witness:
  "\<exists>k1 k2. mb_urgent_now 0 7 (demo (SemWait 0)) = Some k1 \<and> mb_recv_now 0 k1 = Some (7, k2)"
proof -
  obtain k1 where r: "mb_urgent_now 0 7 (demo (SemWait 0)) = Some k1"
    using mb_api.push_room [OF demo_mb_api, where m = 0 and a = 7 and q1 = "SemWait 0"] by (auto simp: mb_new_def)
  from mailbox_urgent_first [OF demo_mb_api r] r show ?thesis by blast
qed


lemma demo_mq_api: "mq_api_ok m (demo q)"
proof -
  have "mq_wf (mq_new Obj_static (\<lambda>_. [0, 0, 0, 0]) 4 2 RT_IPC_FLAG_FIFO) {}" by (rule mq_new_wf) simp_all
  moreover have "api_ok (demo q)" by (simp add: api_ok_def demo_kernel_ok demo_stacks)
  ultimately show ?thesis by (simp add: mq_api_ok_def mqueue_inv_def)
qed

lemma demo_mq_size: "mq_msg_size (msgqueues (demo q) m) = 4" "mq_max_msgs (msgqueues (demo q) m) = 2"
  "mq_contents (msgqueues (demo q) m) = []"
  using mq_new_wf(2) [of 2 "\<lambda>_. [0, 0, 0, 0]" 4] by simp_all


text \<open>A message sent with \<^verbatim>\<open>rt_mq_urgent\<close> is the next one received, and the rest of the queue
  is then as before.\<close>

theorem mqueue_urgent_first:
  assumes "mq_api_ok m k" and "length b = mq_msg_size (msgqueues k m)" and "mq_urgent_now m b k = Some k1"
  shows "\<exists>k2. mq_recv_now m k1 = Some (b, k2) \<and> mq_api_ok m k2
    \<and> mq_contents (msgqueues k2 m) = mq_contents (msgqueues k m)"
  by (rule mq_api.push_then_deq [OF assms(1) _ assms(3)]) (simp add: mq_full_size_def assms(2))

theorem mqueue_urgent_first_witness:
  "\<exists>k1 k2. mq_urgent_now 0 [1, 2, 3, 4] (demo (SemWait 0)) = Some k1 \<and> mq_recv_now 0 k1 = Some ([1, 2, 3, 4], k2)"
proof -
  have v: "mq_full_size (msgqueues (demo (SemWait 0)) 0) [1, 2, 3, 4]"
    "length (mq_contents (msgqueues (demo (SemWait 0)) 0)) < mq_max_msgs (msgqueues (demo (SemWait 0)) 0)"
    by (simp_all only: mq_full_size_def demo_mq_size) simp_all
  obtain k1 where r: "mq_urgent_now 0 [1, 2, 3, 4] (demo (SemWait 0)) = Some k1"
    using mq_api.push_room [OF demo_mq_api v] by blast
  have "length [1, 2, 3, 4 :: u8] = mq_msg_size (msgqueues (demo (SemWait 0)) 0)" by (simp add: demo_mq_size)
  from mqueue_urgent_first [OF demo_mq_api this r] r show ?thesis by blast
qed

text \<open>\<^verbatim>\<open>rt_mq_init\<close> makes an empty queue of as many messages as fit into the pool with their
  headers: no message node reaches beyond the memory given.\<close>

theorem mq_init_fits:
  assumes "\<And>n. length (pool n) = unat (rt_align4 sz) mod 2 ^ 16"
    and "rt_mq_init m pool sz pool_size flag k = (e, k')"
    and "n < mq_max_msgs (msgqueues k' m)"
  shows "e = RT_EOK \<and> mq_wf (msgqueues k' m) {} \<and> mq_contents (msgqueues k' m) = []
    \<and> (n + 1) * (mq_msg_size (msgqueues k' m) + 4) \<le> unat pool_size"
proof -
  let ?s = "unat (rt_align4 sz) mod 2 ^ 16"
  let ?n = "unat pool_size div (?s + 4) mod 2 ^ 16"
  have x: "msgqueues k' m = mq_new Obj_static pool ?s ?n flag" and e: "e = RT_EOK"
    using assms(2) by (auto simp: rt_mq_init_def Let_def ipc_object_init_def upd_waitq_def)
  have "n < ?n" using assms(3) by (simp only: x mq_new_fields)
  from mq_nodes_fit [OF this] have "(n + 1) * (?s + 4) \<le> unat pool_size" by (simp only: add_mult_distrib mult_1)
  moreover have "mq_wf (msgqueues k' m) {}" "mq_contents (msgqueues k' m) = []"
    unfolding x by (rule mq_new_wf; simp add: assms(1))+
  ultimately show ?thesis by (simp only: e x mq_new_fields)
qed

theorem mq_init_fits_witness:
  "\<exists>k'. rt_mq_init 5 (\<lambda>_. [0, 0, 0, 0]) 3 20 RT_IPC_FLAG_FIFO (demo (SemWait 0)) = (RT_EOK, k')
    \<and> mq_max_msgs (msgqueues k' 5) = 2 \<and> mq_wf (msgqueues k' 5) {}"
proof -
  obtain e k' where r: "rt_mq_init 5 (\<lambda>_. [0, 0, 0, 0]) 3 20 RT_IPC_FLAG_FIFO (demo (SemWait 0)) = (e, k')"
    by (rule prod.exhaust)
  have al: "rt_align4 3 = 4" by (simp add: rt_align4_def)
  then have n: "mq_max_msgs (msgqueues k' 5) = 2"
    using r by (auto simp: rt_mq_init_def Let_def ipc_object_init_def upd_waitq_def)
  have "length ((\<lambda>_. [0, 0, 0, 0 :: u8]) i) = unat (rt_align4 3) mod 2 ^ 16" for i :: nat by (simp add: al)
  from mq_init_fits [OF this r, of 0] n r show ?thesis by simp
qed

text \<open>The loop with which \<^verbatim>\<open>rt_mq_control\<close> empties a queue always ends, and every node of the
  queue is then on the free list.\<close>

theorem mq_drain_ends:
  assumes "mq_wf x {}"
  shows "\<exists>x'. mq_drain x = Some x' \<and> mq_wf (x'\<lparr>mq_entry := 0\<rparr>) {} \<and> mq_contents (x'\<lparr>mq_entry := 0\<rparr>) = []
    \<and> set (list_walk (mq_next x') (mq_free x') (mq_max_msgs x')) = {..<mq_max_msgs x'}"
proof -
  obtain x' where x': "mq_drain x = Some x'" "mq_wf (x'\<lparr>mq_entry := 0\<rparr>) {}" "mq_contents (x'\<lparr>mq_entry := 0\<rparr>) = []"
    by (rule mq_drain_ok [OF assms])
  obtain fs qs where s: "mq_shape (x'\<lparr>mq_entry := 0\<rparr>) fs qs {}" using x'(2) by (auto simp: mq_wf_def)
  then have "qs = []" "list_chain (mq_next x') (mq_free x') fs" "distinct fs" "set fs = {..<mq_max_msgs x'}"
    by (auto simp: mq_shape_def)
  moreover from this have "length fs = mq_max_msgs x'" using distinct_card [of fs] by simp
  ultimately have "set (list_walk (mq_next x') (mq_free x') (mq_max_msgs x')) = {..<mq_max_msgs x'}"
    using list_walk_chain by metis
  with x' show ?thesis by blast
qed

theorem mq_drain_ends_witness:
  "\<exists>x'. mq_drain (mq_new Obj_static (\<lambda>_. [0, 0, 0, 0]) 4 2 RT_IPC_FLAG_FIFO) = Some x'
    \<and> set (list_walk (mq_next x') (mq_free x') (mq_max_msgs x')) = {..<mq_max_msgs x'}"
proof -
  have "mq_wf (mq_new Obj_static (\<lambda>_. [0, 0, 0, 0]) 4 2 RT_IPC_FLAG_FIFO) {}" by (rule mq_new_wf) simp_all
  from mq_drain_ends [OF this] show ?thesis by blast
qed

section \<open>Timeouts\<close>

text \<open>C18: a thread whose timeout fires while it waits for an object leaves every suspend list, can
  run, and its call reports \<^verbatim>\<open>-RT_ETIMEOUT\<close>; the objects' invariants survive.\<close>

theorem wait_times_out:
  assumes k: "kernel_ok k" and i: "ipc_inv k" and r: "thread_timeout t k = Some k'"
  shows "ipc_inv k' \<and> (\<forall>q. waitq k' q = removeAll t (waitq k q))
    \<and> (thread_stat k' t = RT_THREAD_READY \<or> thread_stat k' t = RT_THREAD_RUNNING)
    \<and> rt_sem_take_resume t k' = RT_ETIMEOUT \<and> rt_mutex_take_resume t k' = RT_ETIMEOUT
    \<and> rt_event_recv_resume t k' = (RT_ETIMEOUT, None)
    \<and> (mbs_thread fs = t \<longrightarrow> rt_mb_send_wait_resume fs k' = Some (Returned RT_ETIMEOUT, k'))
    \<and> (mqr_thread fr = t \<longrightarrow> rt_mq_recv_resume fr k' = Some (Returned (RT_ETIMEOUT, None), k'))"
proof -
  note W = thread_timeout_wakes [OF kernel_okD(1) [OF k] r]
  have "ipc_inv k'" by (rule ipc_inv_thread_level [OF i thread_timeout_thread_level [OF k r]])
  with W show ?thesis
    by (auto simp: rt_sem_take_resume_def rt_mutex_take_resume_def rt_event_recv_resume_def
        rt_mb_send_wait_resume_def rt_mq_recv_resume_def)
qed

lemma demo_timeout: "\<exists>k'. thread_timeout 3 (demo q) = Some k'"
proof -
  let ?e = "upd_thread 3 (set_error RT_ETIMEOUT) (demo q)"
  let ?i = "rt_schedule_insert_thread 3 (tlist_remove 3 ?e)"
  have "kinv ?e" using kernel_okD(1) [OF set_error_kernel_ok [OF demo_kernel_ok]] .
  then have k: "kinv ?i" by (rule wake_kinv) simp
  have "ipc_frame ?e ?i" by (rule ipc_frame_trans [OF ipc_frame_basic(3) ipc_frame_basic(2)])
  then have s: "stacks_ok ?i" by (rule ipc_frame_stacks_ok) (simp add: demo_stacks)
  have c: "rt_current_thread ?i = Some 1" by simp
  from rt_schedule_returns [OF k s c] show ?thesis by (auto simp: thread_timeout_def Let_def)
qed

theorem wait_times_out_witness:
  "\<exists>k'. thread_timeout 3 (demo (SemWait 0)) = Some k' \<and> waitq k' (SemWait 0) = []
    \<and> rt_sem_take_resume 3 k' = RT_ETIMEOUT"
proof -
  obtain k' where r: "thread_timeout 3 (demo (SemWait 0)) = Some k'" using demo_timeout by blast
  have i: "ipc_inv (demo (SemWait 0))" by (rule sys_invD(2) [OF demo_sys_inv]) simp
  from wait_times_out [OF demo_kernel_ok i r] r show ?thesis by simp
qed

end
