(* ===== verification/Prop_Mem.thy ===== *)
theory Prop_Mem
  imports Rtt_Example
begin

unbundle bit_operations_syntax

text \<open>
  The properties of the memory managers, each followed by its witness.
\<close>

section \<open>Memory pools\<close>



text \<open>C20: with a free block \<^verbatim>\<open>rt_mp_alloc\<close> hands out one that nobody has, and only that one changes
  hands; without one it returns \<^verbatim>\<open>RT_NULL\<close> at once for a zero timeout and else suspends the caller, who
  goes in front of those that wait already.\<close>

theorem mp_alloc_exclusive:
  assumes k: "kernel_ok k" and i: "mempool_inv k" and c: "caller_running k"
    and r: "rt_mp_alloc m timeout k = Some (res, k')"
  shows "kernel_ok k' \<and> mempool_inv k'
    \<and> (if mp_block_free_count (mempools k m) \<noteq> 0
       then \<exists>n. res = Returned (Some n) \<and> n < mp_block_total_count (mempools k m)
         \<and> n \<notin> mp_used (mempools k m) \<and> mp_used (mempools k' m) = insert n (mp_used (mempools k m))
         \<and> waitq k' = waitq k
       else mempools k' = mempools k \<and>
         (if timeout = 0 then res = Returned None \<and> waitq k' = waitq k
          else \<exists>f. res = Waiting f \<and> rt_current_thread k = Some (mpa_thread f)
            \<and> thread_stat k' (mpa_thread f) = RT_THREAD_SUSPEND
            \<and> waitq k' = (waitq k)(PoolWait m := mpa_thread f # waitq k (PoolWait m))))"
proof -
  have O: "kernel_ok k'" "mempool_inv k'"
    using class_stepD [OF rt_mp_alloc_ok [OF k i r caller_runningD [OF c]]] by simp_all
  have "mp_alloc_loop (rt_current_thread k) m timeout k = Some (res, k')"
    using r by (simp add: rt_mp_alloc_def rt_thread_self_def)
  with i show ?thesis
  proof (cases rule: mp_alloc_loop_cases)
    case none
    with O show ?thesis by (auto simp: rt_set_errno_def split: option.split)
  next
    case (wait t k1)
    let ?e = "upd_thread t (set_error RT_EOK) k"
    have e: "kernel_ok ?e" "thread_stat ?e t = RT_THREAD_RUNNING"
      using k caller_runningD [OF c wait(1)] by simp_all
    note B = mp_block_ok [OF e wait(6)]
    note S = rt_schedule_others [OF kernel_okD(1) [OF B(1)] wait(7)]
    have "thread_stat k' t = RT_THREAD_SUSPEND" using S(1) [of t] B(3) by simp
    moreover have "waitq k' = (waitq k)(PoolWait m := t # waitq k (PoolWait m))" by (simp add: S(2) B(4))
    moreover have "mempools k' = mempools k"
      using ipc_frameD(13) [OF B(2)] ipc_frameD(13) [OF rt_schedule_ipc_frame [OF wait(7)]] by simp
    ultimately show ?thesis using O wait(1-4) by simp
  next
    case (got n x)
    have "distinct (mp_free_blocks (mempools k m))"
      using mempool_invD [OF i, of m] by (simp add: mp_wf_shape mp_shape_def)
    then have "n \<notin> mp_used (mempools k m)" "mp_used x = insert n (mp_used (mempools k m))"
      using got(5,6,7) by (auto simp: mp_used_def)
    with got O show ?thesis by simp
  qed
qed

lemma demo_mempool_inv: "mempool_inv (demo (PoolWait 1))"
  using sys_invD(3) [OF demo_sys_inv, of "PoolWait 1" Pool_class] by simp

theorem mp_alloc_exclusive_witness:
  "\<exists>k'. rt_mp_alloc 0 0 (demo (PoolWait 1)) = Some (Returned (Some 0), k')
    \<and> 0 \<notin> mp_used (ex_mempool 0) \<and> 0 \<in> mp_used (mempools k' 0)"
proof -
  obtain x where r: "rt_mp_alloc 0 0 (demo (PoolWait 1)) =
      Some (Returned (Some 0), upd_mempool 0 (\<lambda>_. x) (demo (PoolWait 1)))"
    by (simp add: rt_mp_alloc_def mp_alloc_loop_def mp_take_def ex_mempool_def)
  have f: "mp_block_free_count (mempools (demo (PoolWait 1)) 0) \<noteq> 0" by (simp add: ex_mempool_def)
  from mp_alloc_exclusive [OF demo_kernel_ok demo_mempool_inv demo_caller r] f r show ?thesis by auto
qed

text \<open>\<^verbatim>\<open>rt_mp_free\<close> accepts only a block in use, makes it the next to be handed out, and wakes
  the thread that has waited for the shortest time, the first of the list; no other waiter moves.\<close>

theorem mp_free_returns:
  assumes k: "kernel_ok k" and i: "mempool_inv k" and r: "rt_mp_free (Some (m, n)) k = Some k'"
  shows "kernel_ok k' \<and> mempool_inv k' \<and> n \<in> mp_used (mempools k m)
    \<and> mp_used (mempools k' m) = mp_used (mempools k m) - {n}
    \<and> mp_free_blocks (mempools k' m) = n # mp_free_blocks (mempools k m)
    \<and> waitq k' = (waitq k)(PoolWait m := tl (waitq k (PoolWait m)))
    \<and> (\<forall>t ts. waitq k (PoolWait m) = t # ts \<longrightarrow> error (threads k' t) = RT_EOK
         \<and> (thread_stat k' t = RT_THREAD_READY \<or> thread_stat k' t = RT_THREAD_RUNNING))"
proof -
  have O: "kernel_ok k'" "mempool_inv k'" using class_stepD [OF rt_mp_free_ok [OF k i r]] by simp_all
  have used: "mp_used y = mp_used x - {n}" if "mp_free_blocks y = n # mp_free_blocks x"
    "mp_block_total_count y = mp_block_total_count x" for x y
    using that by (auto simp: mp_used_def)
  from i r show ?thesis
  proof (cases rule: rt_mp_free_cases)
    case null
    then show ?thesis by simp
  next
    case (idle m' n')
    then have eq: "m' = m" "n' = n" by simp_all
    with idle O used [OF idle(6) [unfolded eq]] show ?thesis by (simp add: fun_upd_idem)
  next
    case (wake m' n' t ts)
    then have eq: "m' = m" "n' = n" by simp_all
    let ?k = "upd_thread t (set_error RT_EOK) (upd_mempool m (mp_give n) k)"
    have ok: "kernel_ok ?k" using k by simp
    have w: "waitq ?k (PoolWait m) = t # ts" using wake(3) by (simp add: eq)
    have b: "ipc_list_resume (PoolWait m) ?k = Some (snd (rt_thread_resume t ?k))"
      unfolding ipc_list_resume_def w by simp
    note W = ipc_wake_ok [OF ok w b wake(6) [unfolded eq]]
    have "mempools k' m = mp_give n (mempools k m)" using ipc_frameD(13) [OF W(2)] by simp
    moreover have "error (threads k' t) = RT_EOK" using ipc_frameD(9) [OF W(2), of t] by simp
    ultimately show ?thesis
      using O W(3,4) wake(2,3,5) used [OF wake(5) [unfolded eq]] by (simp add: eq)
  qed
qed

theorem mp_free_returns_witness:
  "\<exists>k'. rt_mp_free (Some (1, 0)) (demo (PoolWait 1)) = Some k' \<and> mp_free_blocks (mempools k' 1) = [0]
    \<and> waitq k' (PoolWait 1) = [] \<and> (thread_stat k' 3 = RT_THREAD_READY \<or> thread_stat k' 3 = RT_THREAD_RUNNING)"
proof -
  let ?k = "upd_thread 3 (set_error RT_EOK) (upd_mempool 1 (mp_give 0) (demo (PoolWait 1)))"
  have ok: "kernel_ok ?k" "stacks_ok ?k"
    using demo_kernel_ok by (simp, intro stacks_ok_set_error, use demo_stacks in \<open>simp add: stacks_ok_def\<close>)
  have w: "waitq ?k (PoolWait 1) \<noteq> []" by simp
  obtain k' where "ipc_wake_one (PoolWait 1) ?k = Some k'"
    using ipc_wake_one_returns [OF ok, of 1] by auto
  then have "rt_schedule (snd (rt_thread_resume 3 ?k)) = Some k'"
    by (simp add: ipc_wake_one_def ipc_list_resume_def)
  then have r: "rt_mp_free (Some (1, 0)) (demo (PoolWait 1)) = Some k'"
    by (simp add: rt_mp_free_def ex_mempool_def Let_def)
  have f: "mp_free_blocks (ex_mempool 1) = []" by (simp add: mp_free_blocks_def ex_mempool_def)
  from mp_free_returns [OF demo_kernel_ok demo_mempool_inv r] r f show ?thesis by auto
qed

end
