(* ===== verification/Rtt_Smem.thy ===== *)
theory Rtt_Smem
  imports Rtt_Kernel
begin

unbundle bit_operations_syntax

text \<open>
  The small memory algorithm, \<^verbatim>\<open>src/rt-thread/src/mem.c\<close>, which is the system heap of this
  configuration: the heap is cut into items, each with a header that links it to its neighbours; a
  release joins free neighbours, an allocation takes the first free item that is large enough. A heap
  is a value of type \<open>small_mem\<close>; offsets and sizes are natural numbers, and every subtraction and
  addition that could leave 32 bits wraps as in the C.
\<close>

section \<open>The structures\<close>

text \<open>
  A memory item's header, at an offset from \<^verbatim>\<open>heap_ptr\<close> that names it; \<^verbatim>\<open>next\<close> and \<^verbatim>\<open>prev\<close> are
  offsets in the C as well. The name of the thread that allocated it is left out.
\<close>

record sm_item =
  it_pool_ptr :: u32
  it_next :: nat
  it_prev :: nat

text \<open>\<open>sm_data\<close> are the bytes of the heap, by offset; \<open>sm_heap_end\<close> and \<open>sm_lfree\<close> are offsets.\<close>

record small_mem =
  sm_object :: obj_state
  sm_addr :: u32
  sm_total :: nat
  sm_used :: nat
  sm_max :: nat
  sm_heap_ptr :: u32
  sm_heap_end :: nat
  sm_lfree :: nat
  sm_mem_size_aligned :: nat
  sm_item :: "nat \<Rightarrow> sm_item"
  sm_data :: "nat \<Rightarrow> u8"

definition MIN_SIZE_ALIGNED :: nat where "MIN_SIZE_ALIGNED = 12"
definition SIZEOF_STRUCT_MEM :: nat where "SIZEOF_STRUCT_MEM = 16"
definition SIZEOF_SMALL_MEM :: u32 where "SIZEOF_SMALL_MEM = 64"
definition MEM_MASK :: u32 where "MEM_MASK = 0xfffffffe"

definition MEM_USED :: "small_mem \<Rightarrow> u32" where
  "MEM_USED h = (sm_addr h AND MEM_MASK) OR 1"

definition MEM_FREED :: "small_mem \<Rightarrow> u32" where
  "MEM_FREED h = (sm_addr h AND MEM_MASK) OR 0"

definition MEM_ISUSED :: "sm_item \<Rightarrow> bool" where
  "MEM_ISUSED x \<longleftrightarrow> it_pool_ptr x AND NOT MEM_MASK \<noteq> 0"

definition MEM_POOL :: "sm_item \<Rightarrow> u32" where
  "MEM_POOL x = it_pool_ptr x AND MEM_MASK"

definition upd_item :: "nat \<Rightarrow> (sm_item \<Rightarrow> sm_item) \<Rightarrow> small_mem \<Rightarrow> small_mem" where
  "upd_item p f h = h\<lparr>sm_item := (sm_item h)(p := f (sm_item h p))\<rparr>"

section \<open>Merging free neighbours\<close>

text \<open>Joining the item \<open>q\<close> to \<open>p\<close>, the one before it.\<close>

definition smem_merge :: "nat \<Rightarrow> nat \<Rightarrow> small_mem \<Rightarrow> small_mem" where
  "smem_merge p q h =
     (let h = (if sm_lfree h = q then h\<lparr>sm_lfree := p\<rparr> else h);
          h = upd_item q (\<lambda>x. x\<lparr>it_pool_ptr := 0\<rparr>) h;
          h = upd_item p (\<lambda>x. x\<lparr>it_next := it_next (sm_item h q)\<rparr>) h
      in upd_item (it_next (sm_item h q)) (\<lambda>x. x\<lparr>it_prev := p\<rparr>) h)"

definition plug_next :: "nat \<Rightarrow> small_mem \<Rightarrow> small_mem" where
  "plug_next mem h =
     (let nmem = it_next (sm_item h mem)
      in if mem \<noteq> nmem \<and> \<not> MEM_ISUSED (sm_item h nmem) \<and> nmem \<noteq> sm_heap_end h
         then smem_merge mem nmem h else h)"

definition plug_prev :: "nat \<Rightarrow> small_mem \<Rightarrow> small_mem" where
  "plug_prev mem h =
     (let pmem = it_prev (sm_item h mem)
      in if pmem \<noteq> mem \<and> \<not> MEM_ISUSED (sm_item h pmem)
         then smem_merge pmem mem h else h)"

definition plug_holes :: "nat \<Rightarrow> small_mem \<Rightarrow> small_mem option" where
  "plug_holes mem h = do {
     rt_assert (mem < sm_heap_end h);
     Some (plug_prev mem (plug_next mem h)) }"

section \<open>Initialisation\<close>

text \<open>\<open>None\<close> as result of \<^verbatim>\<open>rt_smem_init\<close> is \<^verbatim>\<open>RT_NULL\<close>: the memory is too small.\<close>

definition smem_size :: "u32 \<Rightarrow> u32 \<Rightarrow> u32 option" where
  "smem_size begin_addr sz =
     (let start_addr = rt_align4 begin_addr + SIZEOF_SMALL_MEM;
          begin_align = rt_align4 start_addr;
          end_align = rt_align4_down (begin_addr + sz)
      in if 2 * of_nat SIZEOF_STRUCT_MEM < end_align
            \<and> start_addr \<le> end_align - 2 * of_nat SIZEOF_STRUCT_MEM
         then Some (end_align - begin_align - 2 * of_nat SIZEOF_STRUCT_MEM) else None)"

definition smem_make :: "u32 \<Rightarrow> nat \<Rightarrow> (nat \<Rightarrow> u8) \<Rightarrow> small_mem" where
  "smem_make addr mem_size bytes =
     (let h = \<lparr>sm_object = Obj_static, sm_addr = addr, sm_total = mem_size, sm_used = 0, sm_max = 0,
               sm_heap_ptr = rt_align4 (addr + SIZEOF_SMALL_MEM), sm_heap_end = 0, sm_lfree = 0,
               sm_mem_size_aligned = mem_size,
               sm_item = (\<lambda>_. \<lparr>it_pool_ptr = 0, it_next = 0, it_prev = 0\<rparr>), sm_data = bytes\<rparr>;
          h = upd_item 0 (\<lambda>_. \<lparr>it_pool_ptr = MEM_FREED h, it_next = mem_size + SIZEOF_STRUCT_MEM,
                               it_prev = 0\<rparr>) h;
          h = h\<lparr>sm_heap_end := it_next (sm_item h 0)\<rparr>;
          h = upd_item (sm_heap_end h)
                (\<lambda>_. \<lparr>it_pool_ptr = MEM_USED h, it_next = mem_size + SIZEOF_STRUCT_MEM,
                      it_prev = mem_size + SIZEOF_STRUCT_MEM\<rparr>) h
      in h\<lparr>sm_lfree := 0\<rparr>)"

definition rt_smem_init :: "u32 \<Rightarrow> u32 \<Rightarrow> (nat \<Rightarrow> u8) \<Rightarrow> small_mem option" where
  "rt_smem_init begin_addr sz bytes =
     (case smem_size begin_addr sz of
        None \<Rightarrow> None
      | Some mem_size \<Rightarrow> Some (smem_make (rt_align4 begin_addr) (unat mem_size) bytes))"

definition rt_smem_detach :: "small_mem \<Rightarrow> (rt_err \<times> small_mem) option" where
  "rt_smem_detach h = do {
     rt_assert (sm_object h = Obj_static);
     Some (RT_EOK, h\<lparr>sm_object := Obj_none\<rparr>) }"

section \<open>Allocation\<close>

text \<open>The first-fit search from \<open>ptr\<close> on; it need not end (\<open>None\<close>).\<close>

partial_function (option) smem_search :: "nat \<Rightarrow> nat \<Rightarrow> small_mem \<Rightarrow> nat option option" where
  "smem_search sz ptr h =
     (if ptr \<le> sub32 (sm_mem_size_aligned h) sz
      then if \<not> MEM_ISUSED (sm_item h ptr)
              \<and> sz \<le> sub32 (it_next (sm_item h ptr)) (ptr + SIZEOF_STRUCT_MEM)
           then Some (Some ptr)
           else smem_search sz (it_next (sm_item h ptr)) h
      else Some None)"

text \<open>The lowest free item, from \<open>p\<close> on.\<close>

partial_function (option) smem_skip_used :: "nat \<Rightarrow> small_mem \<Rightarrow> nat option" where
  "smem_skip_used p h =
     (if MEM_ISUSED (sm_item h p) \<and> p \<noteq> sm_heap_end h
      then smem_skip_used (it_next (sm_item h p)) h
      else Some p)"

text \<open>Cutting the item at \<open>ptr\<close> in two; the second, free, begins at \<open>ptr2\<close>.\<close>

definition smem_split :: "nat \<Rightarrow> nat \<Rightarrow> small_mem \<Rightarrow> small_mem" where
  "smem_split ptr ptr2 h =
     (let h = upd_item ptr2 (\<lambda>_. \<lparr>it_pool_ptr = MEM_FREED h, it_next = it_next (sm_item h ptr),
                                  it_prev = ptr\<rparr>) h;
          h = upd_item ptr (\<lambda>x. x\<lparr>it_next := ptr2\<rparr>) h
      in if it_next (sm_item h ptr2) \<noteq> sm_mem_size_aligned h + SIZEOF_STRUCT_MEM
         then upd_item (it_next (sm_item h ptr2)) (\<lambda>x. x\<lparr>it_prev := ptr2\<rparr>) h else h)"

definition smem_count :: "nat \<Rightarrow> small_mem \<Rightarrow> small_mem" where
  "smem_count n h =
     (let h = h\<lparr>sm_used := (sm_used h + n) mod 2 ^ 32\<rparr>
      in if sm_max h < sm_used h then h\<lparr>sm_max := sm_used h\<rparr> else h)"

text \<open>What \<^verbatim>\<open>rt_smem_alloc\<close> does with the item it has found.\<close>

definition smem_take :: "nat \<Rightarrow> nat \<Rightarrow> small_mem \<Rightarrow> small_mem option" where
  "smem_take ptr sz h = do {
     let room = sub32 (it_next (sm_item h ptr)) (ptr + SIZEOF_STRUCT_MEM);
     let h = (if (sz + SIZEOF_STRUCT_MEM + MIN_SIZE_ALIGNED) mod 2 ^ 32 \<le> room
              then smem_count (sz + SIZEOF_STRUCT_MEM) (smem_split ptr (ptr + SIZEOF_STRUCT_MEM + sz) h)
              else smem_count (sub32 (it_next (sm_item h ptr)) ptr) h);
     let h = upd_item ptr (\<lambda>x. x\<lparr>it_pool_ptr := MEM_USED h\<rparr>) h;
     lfree \<leftarrow> (if ptr = sm_lfree h then smem_skip_used (sm_lfree h) h else Some (sm_lfree h));
     let h = h\<lparr>sm_lfree := lfree\<rparr>;
     rt_assert (ptr + SIZEOF_STRUCT_MEM + sz \<le> sm_heap_end h);
     rt_assert ((sm_heap_ptr h + of_nat (ptr + SIZEOF_STRUCT_MEM)) AND 3 = 0);
     rt_assert ((sm_heap_ptr h + of_nat ptr) AND 3 = 0);
     Some h }"

text \<open>The result is the offset of the memory handed out, \<open>None\<close> for \<^verbatim>\<open>RT_NULL\<close>.\<close>

definition rt_smem_alloc :: "u32 \<Rightarrow> small_mem \<Rightarrow> (nat option \<times> small_mem) option" where
  "rt_smem_alloc sz h =
     (if sz = 0 then Some (None, h)
      else do {
        rt_assert (sm_object h = Obj_static);
        let sz = unat (rt_align4 sz);
        (if sm_mem_size_aligned h < sz then Some (None, h)
         else do {
           let sz = (if sz < MIN_SIZE_ALIGNED then MIN_SIZE_ALIGNED else sz);
           found \<leftarrow> smem_search sz (sm_lfree h) h;
           (case found of
              None \<Rightarrow> Some (None, h)
            | Some ptr \<Rightarrow> do {
                h \<leftarrow> smem_take ptr sz h;
                Some (Some (ptr + SIZEOF_STRUCT_MEM), h) }) }) })"

section \<open>Release\<close>

text \<open>
  The argument is an offset in the heap. A header in front of the heap, or one that names another
  heap, is outside the model, which stops.
\<close>

definition rt_smem_free :: "nat option \<Rightarrow> small_mem \<Rightarrow> small_mem option" where
  "rt_smem_free rmem h =
     (case rmem of
        None \<Rightarrow> Some h
      | Some r \<Rightarrow> do {
          rt_assert ((sm_heap_ptr h + of_nat r) AND 3 = 0);
          rt_assert (SIZEOF_STRUCT_MEM \<le> r);
          let mem = r - SIZEOF_STRUCT_MEM;
          rt_assert (MEM_POOL (sm_item h mem) \<noteq> 0 \<and> MEM_POOL (sm_item h mem) = sm_addr h);
          rt_assert (MEM_ISUSED (sm_item h mem));
          rt_assert (sm_object h = Obj_static);
          rt_assert (r < sm_heap_end h);
          rt_assert (MEM_POOL (sm_item h (it_next (sm_item h mem))) = sm_addr h);
          let h = upd_item mem (\<lambda>x. x\<lparr>it_pool_ptr := MEM_FREED h\<rparr>) h;
          let h = (if mem < sm_lfree h then h\<lparr>sm_lfree := mem\<rparr> else h);
          let h = h\<lparr>sm_used := sub32 (sm_used h) (sub32 (it_next (sm_item h mem)) mem)\<rparr>;
          plug_holes mem h })"

section \<open>Changing the size\<close>

definition smem_copy :: "nat \<Rightarrow> nat \<Rightarrow> nat \<Rightarrow> small_mem \<Rightarrow> small_mem" where
  "smem_copy dst src n h =
     h\<lparr>sm_data := (\<lambda>i. if dst \<le> i \<and> i < dst + n then sm_data h (src + (i - dst)) else sm_data h i)\<rparr>"

definition rt_smem_realloc :: "nat option \<Rightarrow> u32 \<Rightarrow> small_mem \<Rightarrow> (nat option \<times> small_mem) option" where
  "rt_smem_realloc rmem newsize h = do {
     rt_assert (sm_object h = Obj_static);
     let new = unat (rt_align4 newsize);
     (if sm_mem_size_aligned h < new then Some (None, h)
      else if new = 0 then do { h \<leftarrow> rt_smem_free rmem h; Some (None, h) }
      else case rmem of
        None \<Rightarrow> rt_smem_alloc (of_nat new) h
      | Some r \<Rightarrow> do {
          rt_assert ((sm_heap_ptr h + of_nat r) AND 3 = 0);
          rt_assert (r < sm_heap_end h);
          rt_assert (SIZEOF_STRUCT_MEM \<le> r);
          let ptr = r - SIZEOF_STRUCT_MEM;
          let sz = sub32 (sub32 (it_next (sm_item h ptr)) ptr) SIZEOF_STRUCT_MEM;
          (if sz = new then Some (Some r, h)
           else if (new + SIZEOF_STRUCT_MEM + MIN_SIZE_ALIGNED) mod 2 ^ 32 < sz
           then do {
             let h = h\<lparr>sm_used := sub32 (sm_used h) (sz - new)\<rparr>;
             let ptr2 = ptr + SIZEOF_STRUCT_MEM + new;
             let h = smem_split ptr ptr2 h;
             let h = (if ptr2 < sm_lfree h then h\<lparr>sm_lfree := ptr2\<rparr> else h);
             h \<leftarrow> plug_holes ptr2 h;
             Some (Some r, h) }
           else do {
             (nmem, h) \<leftarrow> rt_smem_alloc (of_nat new) h;
             (case nmem of
                None \<Rightarrow> Some (None, h)
              | Some q \<Rightarrow> do {
                  let h = smem_copy q r (if sz < new then sz else new) h;
                  h \<leftarrow> rt_smem_free (Some r) h;
                  Some (Some q, h) }) }) }) }"

section \<open>Chains of items\<close>

text \<open>
  The items \<open>ps\<close> follow each other without a gap from \<open>p\<close> to \<open>e\<close>, each linked back to the one
  before; the one before the first is \<open>pv\<close>.
\<close>

fun smem_seg :: "(nat \<Rightarrow> sm_item) \<Rightarrow> nat \<Rightarrow> nat \<Rightarrow> nat list \<Rightarrow> nat \<Rightarrow> bool" where
  "smem_seg it pv p [] e \<longleftrightarrow> p = e"
| "smem_seg it pv p (q # qs) e \<longleftrightarrow> q = p \<and> it_prev (it p) = pv \<and> p + 20 \<le> it_next (it p)
     \<and> smem_seg it p (it_next (it p)) qs e"

lemma smem_seg_append:
  "smem_seg it pv p (xs @ ys) e \<longleftrightarrow> (\<exists>m. smem_seg it pv p xs m \<and> smem_seg it (last (pv # xs)) m ys e)"
  by (induction xs arbitrary: pv p) auto

lemma smem_seg_bounds: "smem_seg it pv p ps e \<Longrightarrow> q \<in> set ps \<Longrightarrow> p \<le> q \<and> q + 20 \<le> it_next (it q) \<and> it_next (it q) \<le> e"
proof (induction ps arbitrary: pv p)
  case (Cons a ps)
  have e: "smem_seg it pv p ps e \<Longrightarrow> p \<le> e" for pv p
    by (induction ps arbitrary: pv p) fastforce+
  show ?case
  proof (cases "q = p")
    case True
    then show ?thesis using Cons.prems e by auto
  next
    case False
    then have "it_next (it p) \<le> q \<and> q + 20 \<le> it_next (it q) \<and> it_next (it q) \<le> e"
      using Cons.prems by (intro Cons.IH) auto
    then show ?thesis using Cons.prems by auto
  qed
qed simp

lemma smem_seg_le: "smem_seg it pv p ps e \<Longrightarrow> p \<le> e"
  by (induction ps arbitrary: pv p) fastforce+

lemma smem_seg_less: "smem_seg it pv p ps e \<Longrightarrow> q \<in> set ps \<Longrightarrow> q < e"
  using smem_seg_bounds by fastforce

lemma smem_seg_cong:
  "smem_seg it pv p ps e \<Longrightarrow> (\<And>q. q \<in> set ps \<Longrightarrow> it' q = it q) \<Longrightarrow> smem_seg it' pv p ps e"
  by (induction ps arbitrary: pv p) auto

text \<open>Linking the first item of a chain back to another one.\<close>

lemma smem_seg_relink:
  assumes s: "smem_seg it pv p ps e"
  shows "smem_seg (it(p := (it p)\<lparr>it_prev := pv'\<rparr>)) pv' p ps e"
proof (cases ps)
  case (Cons q qs)
  then have t: "smem_seg it p (it_next (it p)) qs e" "p + 20 \<le> it_next (it p)" "q = p" using s by auto
  have "x \<noteq> p" if "x \<in> set qs" for x using smem_seg_bounds [OF t(1) that] t(2) by linarith
  then have "smem_seg (it(p := (it p)\<lparr>it_prev := pv'\<rparr>)) p (it_next (it p)) qs e"
    by (intro smem_seg_cong [OF t(1)]) simp
  with t Cons show ?thesis by simp
qed (use s in simp)

text \<open>The place of one item in the chain.\<close>

lemma smem_seg_at:
  assumes "smem_seg it 0 0 (xs @ p # ys) e"
  shows "smem_seg it 0 0 xs p" "it_prev (it p) = last (0 # xs)" "p + 20 \<le> it_next (it p)"
    "smem_seg it p (it_next (it p)) ys e" "\<And>q. q \<in> set xs \<Longrightarrow> q < p" "\<And>q. q \<in> set ys \<Longrightarrow> it_next (it p) \<le> q"
    "it_next (it p) \<le> e"
proof -
  from assms obtain m where m: "smem_seg it 0 0 xs m" "smem_seg it (last (0 # xs)) m (p # ys) e"
    unfolding smem_seg_append by blast
  from m show a: "smem_seg it 0 0 xs p" "it_prev (it p) = last (0 # xs)" "p + 20 \<le> it_next (it p)"
    "smem_seg it p (it_next (it p)) ys e" by auto
  show "q < p" if "q \<in> set xs" for q using smem_seg_less [OF a(1) that] .
  show "it_next (it p) \<le> q" if "q \<in> set ys" for q using smem_seg_bounds [OF a(4) that] by simp
  show "it_next (it p) \<le> e" using smem_seg_le [OF a(4)] .
qed

lemma smem_segI:
  assumes "smem_seg it 0 0 xs p" "it_prev (it p) = last (0 # xs)" "p + 20 \<le> it_next (it p)"
    "smem_seg it p (it_next (it p)) ys e"
  shows "smem_seg it 0 0 (xs @ p # ys) e"
  unfolding smem_seg_append using assms by auto

text \<open>Changes above or below a chain.\<close>

lemma smem_seg_below:
  "smem_seg it pv p xs e \<Longrightarrow> (\<And>x. x < e \<Longrightarrow> g x = it x) \<Longrightarrow> smem_seg g pv p xs e"
  using smem_seg_cong smem_seg_less by metis

lemma smem_seg_above:
  "smem_seg it pv p ys e \<Longrightarrow> (\<And>x. p \<le> x \<Longrightarrow> g x = it x) \<Longrightarrow> smem_seg g pv p ys e"
  using smem_seg_cong smem_seg_bounds by metis

lemma smem_seg_relink_above:
  assumes "smem_seg it pv p ys e" and "\<And>x. p < x \<Longrightarrow> g x = it x" and "g p = (it p)\<lparr>it_prev := pv'\<rparr>"
  shows "smem_seg g pv' p ys e"
  by (rule smem_seg_above [OF smem_seg_relink [OF assms(1)]]) (use assms(2,3) in \<open>auto simp: le_less\<close>)

text \<open>Cutting an item in two, and joining two.\<close>

lemma smem_seg_cut:
  assumes s: "smem_seg it 0 0 (xs @ p # ys) e" and q: "p + 20 \<le> q" "q + 20 \<le> n"
    and n: "n = it_next (it p)"
    and g: "\<And>x. x \<noteq> p \<Longrightarrow> x \<noteq> q \<Longrightarrow> x \<noteq> n \<Longrightarrow> g x = it x" "g p = (it p)\<lparr>it_next := q\<rparr>"
      "it_next (g q) = n" "it_prev (g q) = p"
      "g n = (it n)\<lparr>it_prev := q\<rparr> \<or> n = e"
  shows "smem_seg g 0 0 (xs @ p # q # ys) e"
proof -
  note A = smem_seg_at [OF s]
  have ys: "smem_seg g q n ys e"
  proof (cases "n = e")
    case True
    have "ys = []" using A(4) smem_seg_bounds [OF A(4)] n True by (cases ys) fastforce+
    with True show ?thesis by simp
  next
    case False
    have a: "smem_seg it p n ys e" unfolding n by (rule A(4))
    show ?thesis by (rule smem_seg_relink_above [OF a]) (use False q g(1,5) in auto)
  qed
  have xs: "smem_seg g 0 0 xs p" by (rule smem_seg_below [OF A(1)]) (use q g(1) in auto)
  show ?thesis by (rule smem_segI [OF xs]) (use A(2) q g(2,3,4) ys in auto)
qed

lemma smem_seg_join:
  assumes s: "smem_seg it 0 0 (xs @ p # q # ys) e" and n: "n = it_next (it q)"
    and g: "\<And>x. x \<noteq> p \<Longrightarrow> x \<noteq> q \<Longrightarrow> x \<noteq> n \<Longrightarrow> g x = it x" "g p = (it p)\<lparr>it_next := n\<rparr>"
      "g n = (it n)\<lparr>it_prev := p\<rparr>"
  shows "smem_seg g 0 0 (xs @ p # ys) e"
proof -
  note A = smem_seg_at [OF s]
  have q: "it_next (it p) = q" "q + 20 \<le> n" "smem_seg it q n ys e"
    using A(4) by (auto simp: n)
  have ys: "smem_seg g p n ys e"
    by (rule smem_seg_relink_above [OF q(3)]) (use q A(3) g(1,3) in auto)
  have xs: "smem_seg g 0 0 xs p" by (rule smem_seg_below [OF A(1)]) (use A(3) q(1,2) g(1) in auto)
  show ?thesis by (rule smem_segI [OF xs]) (use A(2,3) q(1,2) g(2) ys in auto)
qed

text \<open>The items found by walking along the chain.\<close>

fun smem_walk :: "(nat \<Rightarrow> sm_item) \<Rightarrow> nat \<Rightarrow> nat \<Rightarrow> nat \<Rightarrow> nat list" where
  "smem_walk it 0 p e = []"
| "smem_walk it (Suc i) p e = (if p = e then [] else p # smem_walk it i (it_next (it p)) e)"

lemma smem_walk_seg: "smem_seg it pv p ps e \<Longrightarrow> e \<le> p + i \<Longrightarrow> smem_walk it i p e = ps"
proof (induction ps arbitrary: pv p i)
  case Nil
  then show ?case by (cases i) auto
next
  case (Cons q qs)
  have qp: "q = p" using Cons.prems(1) by simp
  have l: "p < e" using smem_seg_less [OF Cons.prems(1), of q] qp by simp
  then obtain j where i: "i = Suc j" using Cons.prems(2) by (cases i) simp_all
  have w: "smem_walk it j (it_next (it p)) e = qs"
  proof (rule Cons.IH)
    show "smem_seg it p (it_next (it p)) qs e" using Cons.prems(1) by simp
    have "p + 20 \<le> it_next (it p)" using Cons.prems(1) by simp
    then show "e \<le> it_next (it p) + j" using Cons.prems(2) i by linarith
  qed
  show ?case using l by (simp add: i w qp)
qed

end
