(* ===== verification/Rtt_Heap.thy ===== *)
theory Rtt_Heap
  imports Rtt_Smem
begin

unbundle bit_operations_syntax

text \<open>
  What the small memory algorithm keeps true of a heap, and what its operations do to it: the heap
  is a list of blocks without gaps, and allocation, release and change of size are functions on
  that list (first fit, and joining of free neighbours).
\<close>

section \<open>The heap as a list of blocks\<close>

text \<open>A block is an offset, a length that includes the header, and whether it is in use.\<close>

type_synonym block = "nat \<times> nat \<times> bool"

definition smem_view :: "(nat \<Rightarrow> sm_item) \<Rightarrow> nat list \<Rightarrow> block list" where
  "smem_view it ps = map (\<lambda>p. (p, it_next (it p) - p, MEM_ISUSED (it p))) ps"

definition smem_blocks :: "small_mem \<Rightarrow> block list" where
  "smem_blocks h = smem_view (sm_item h) (smem_walk (sm_item h) (sm_heap_end h) 0 (sm_heap_end h))"

definition first_free :: "block list \<Rightarrow> nat \<Rightarrow> nat" where
  "first_free bs e = hd (map fst (filter (\<lambda>(p, l, u). \<not> u) bs) @ [e])"

definition used_bytes :: "block list \<Rightarrow> nat" where
  "used_bytes bs = sum_list (map (\<lambda>(p, l, u). if u then l else 0) bs)"

text \<open>No two free blocks follow each other.\<close>

definition coalesced :: "block list \<Rightarrow> bool" where
  "coalesced bs = successively (\<lambda>(p, l, u) (p', l', u'). u \<or> u') bs"

text \<open>What does not change while the heap is in use, and the chain of items.\<close>

definition smem_env :: "small_mem \<Rightarrow> bool" where
  "smem_env h \<longleftrightarrow> sm_object h = Obj_static \<and> sm_addr h AND MEM_MASK = sm_addr h \<and> sm_addr h \<noteq> 0
     \<and> sm_heap_ptr h AND 3 = 0 \<and> sm_heap_end h = sm_mem_size_aligned h + 16 \<and> 4 dvd sm_heap_end h
     \<and> 12 \<le> sm_mem_size_aligned h \<and> sm_heap_end h + 16 \<le> 2 ^ 32"

definition smem_chain :: "small_mem \<Rightarrow> nat list \<Rightarrow> bool" where
  "smem_chain h ps \<longleftrightarrow> smem_env h \<and> smem_seg (sm_item h) 0 0 ps (sm_heap_end h)
     \<and> (\<forall>p\<in>set ps. 4 dvd p \<and> MEM_POOL (sm_item h p) = sm_addr h)
     \<and> MEM_POOL (sm_item h (sm_heap_end h)) = sm_addr h \<and> MEM_ISUSED (sm_item h (sm_heap_end h))"

definition smem_shape :: "small_mem \<Rightarrow> nat list \<Rightarrow> bool" where
  "smem_shape h ps \<longleftrightarrow> smem_chain h ps
     \<and> sm_lfree h = first_free (smem_view (sm_item h) ps) (sm_heap_end h)
     \<and> sm_used h = used_bytes (smem_view (sm_item h) ps)
     \<and> coalesced (smem_view (sm_item h) ps)"

definition smem_wf :: "small_mem \<Rightarrow> bool" where
  "smem_wf h \<longleftrightarrow> (\<exists>ps. smem_shape h ps)"

lemma smem_chain_walk: "smem_chain h ps \<Longrightarrow> smem_walk (sm_item h) (sm_heap_end h) 0 (sm_heap_end h) = ps"
  by (rule smem_walk_seg) (auto simp: smem_chain_def)

lemma smem_chain_blocks: "smem_chain h ps \<Longrightarrow> smem_blocks h = smem_view (sm_item h) ps"
  by (simp add: smem_blocks_def smem_chain_walk)

lemma smem_view_simps [simp]:
  "smem_view it [] = []" "smem_view it (p # ps) = (p, it_next (it p) - p, MEM_ISUSED (it p)) # smem_view it ps"
  "smem_view it (xs @ ys) = smem_view it xs @ smem_view it ys" "smem_view it xs = [] \<longleftrightarrow> xs = []"
  by (simp_all add: smem_view_def)

lemma smem_view_cong:
  "(\<And>p. p \<in> set ps \<Longrightarrow> it_next (g p) = it_next (it p) \<and> it_pool_ptr (g p) = it_pool_ptr (it p))
    \<Longrightarrow> smem_view g ps = smem_view it ps"
  by (simp add: smem_view_def MEM_ISUSED_def)

lemma block_list_simps [simp]:
  "first_free [] e = e" "first_free ((p, l, u) # bs) e = (if u then first_free bs e else p)"
  "used_bytes [] = 0" "used_bytes ((p, l, u) # bs) = (if u then l else 0) + used_bytes bs"
  "used_bytes (as @ bs) = used_bytes as + used_bytes bs"
  "coalesced []" "coalesced [b]"
  "coalesced ((p, l, u) # (p', l', u') # bs) \<longleftrightarrow> (u \<or> u') \<and> coalesced ((p', l', u') # bs)"
  by (auto simp: first_free_def used_bytes_def coalesced_def)

lemma first_free_append: "first_free (as @ bs) e = first_free as (first_free bs e)"
  by (induction as) auto

lemma coalesced_append:
  "coalesced (as @ bs) \<longleftrightarrow> coalesced as \<and> coalesced bs
     \<and> (as = [] \<or> bs = [] \<or> snd (snd (last as)) \<or> snd (snd (hd bs)))"
  by (auto simp: coalesced_def successively_append_iff split: prod.splits)

section \<open>Flags\<close>

lemma mem_flags:
  assumes "sm_addr h AND MEM_MASK = sm_addr h"
  shows "MEM_ISUSED (x\<lparr>it_pool_ptr := MEM_USED h\<rparr>)" "\<not> MEM_ISUSED (x\<lparr>it_pool_ptr := MEM_FREED h\<rparr>)"
    "MEM_POOL (x\<lparr>it_pool_ptr := MEM_USED h\<rparr>) = sm_addr h"
    "MEM_POOL (x\<lparr>it_pool_ptr := MEM_FREED h\<rparr>) = sm_addr h"
proof -
  let ?a = "sm_addr h"
  have n: "NOT MEM_MASK = 1" by (simp add: MEM_MASK_def)
  have m: "MEM_MASK AND 1 = 0" by (simp add: MEM_MASK_def)
  have "?a AND 1 = (?a AND MEM_MASK) AND 1" by (simp only: assms)
  also have "\<dots> = ?a AND (MEM_MASK AND 1)" by (simp only: and.assoc)
  finally have z: "?a AND 1 = 0" by (simp add: m)
  show "MEM_ISUSED (x\<lparr>it_pool_ptr := MEM_USED h\<rparr>)" "\<not> MEM_ISUSED (x\<lparr>it_pool_ptr := MEM_FREED h\<rparr>)"
    unfolding MEM_ISUSED_def n by (simp_all add: MEM_USED_def MEM_FREED_def assms z bit.conj_disj_distrib2)
  have "1 AND MEM_MASK = 0" by (simp add: MEM_MASK_def)
  then show "MEM_POOL (x\<lparr>it_pool_ptr := MEM_USED h\<rparr>) = sm_addr h"
    "MEM_POOL (x\<lparr>it_pool_ptr := MEM_FREED h\<rparr>) = sm_addr h"
    by (simp_all add: MEM_POOL_def MEM_USED_def MEM_FREED_def assms bit.conj_disj_distrib2)
qed

lemma mem_used_cong:
  "it_pool_ptr x = it_pool_ptr y \<Longrightarrow> MEM_ISUSED x = MEM_ISUSED y"
  "it_pool_ptr x = it_pool_ptr y \<Longrightarrow> MEM_POOL x = MEM_POOL y"
  by (simp_all add: MEM_ISUSED_def MEM_POOL_def)

lemma upd_item_fields [simp]:
  "sm_item (upd_item p f h) = (sm_item h)(p := f (sm_item h p))"
  "sm_object (upd_item p f h) = sm_object h" "sm_addr (upd_item p f h) = sm_addr h"
  "sm_total (upd_item p f h) = sm_total h"
  "sm_used (upd_item p f h) = sm_used h" "sm_max (upd_item p f h) = sm_max h"
  "sm_heap_ptr (upd_item p f h) = sm_heap_ptr h" "sm_heap_end (upd_item p f h) = sm_heap_end h"
  "sm_lfree (upd_item p f h) = sm_lfree h"
  "sm_mem_size_aligned (upd_item p f h) = sm_mem_size_aligned h" "sm_data (upd_item p f h) = sm_data h"
  "MEM_USED (upd_item p f h) = MEM_USED h" "MEM_FREED (upd_item p f h) = MEM_FREED h"
  by (simp_all add: upd_item_def MEM_USED_def MEM_FREED_def)

lemma smem_env_cong:
  assumes "smem_env h" "sm_object g = sm_object h" "sm_addr g = sm_addr h" "sm_heap_ptr g = sm_heap_ptr h"
    "sm_heap_end g = sm_heap_end h" "sm_mem_size_aligned g = sm_mem_size_aligned h"
  shows "smem_env g"
  using assms(1) unfolding smem_env_def assms(2-6) .

lemma smem_chainD:
  assumes "smem_chain h ps"
  shows "smem_env h" "smem_seg (sm_item h) 0 0 ps (sm_heap_end h)"
    "p \<in> set ps \<Longrightarrow> 4 dvd p" "p \<in> set ps \<Longrightarrow> MEM_POOL (sm_item h p) = sm_addr h"
    "sm_addr h AND MEM_MASK = sm_addr h"
    "MEM_POOL (sm_item h (sm_heap_end h)) = sm_addr h" "MEM_ISUSED (sm_item h (sm_heap_end h))"
  using assms by (auto simp: smem_chain_def smem_env_def)

text \<open>The order of the items.\<close>

lemma smem_chain_order:
  assumes "smem_chain h (xs @ p # ys)"
  shows "q \<in> set xs \<Longrightarrow> q < p" "q \<in> set ys \<Longrightarrow> p < q" "p < sm_heap_end h"
    "q \<in> set ys \<Longrightarrow> it_next (sm_item h p) \<le> q" "p + 20 \<le> it_next (sm_item h p)"
    "it_next (sm_item h p) \<le> sm_heap_end h"
    "it_next (sm_item h p) = (case ys of [] \<Rightarrow> sm_heap_end h | q # _ \<Rightarrow> q)"
    "it_prev (sm_item h p) = last (0 # xs)"
proof -
  note A = smem_seg_at [OF smem_chainD(2) [OF assms]]
  show "q \<in> set xs \<Longrightarrow> q < p" by (rule A(5))
  show "q \<in> set ys \<Longrightarrow> p < q" using A(6) [of q] A(3) by simp
  show "p < sm_heap_end h" using A(3,7) by simp
  show "q \<in> set ys \<Longrightarrow> it_next (sm_item h p) \<le> q" by (rule A(6))
  show "p + 20 \<le> it_next (sm_item h p)" "it_next (sm_item h p) \<le> sm_heap_end h" by (rule A(3,7))+
  show "it_next (sm_item h p) = (case ys of [] \<Rightarrow> sm_heap_end h | q # _ \<Rightarrow> q)"
    using A(4) by (cases ys) auto
  show "it_prev (sm_item h p) = last (0 # xs)" by (rule A(2))
qed

section \<open>Marking, joining, cutting\<close>

lemma smem_mark:
  assumes c: "smem_chain h (xs @ p # ys)" and f: "f = MEM_USED h \<or> f = MEM_FREED h"
  defines "g \<equiv> upd_item p (\<lambda>x. x\<lparr>it_pool_ptr := f\<rparr>) h"
  shows "smem_chain g (xs @ p # ys)"
    "smem_view (sm_item g) (xs @ p # ys) = smem_view (sm_item h) xs
       @ (p, it_next (sm_item h p) - p, f = MEM_USED h) # smem_view (sm_item h) ys"
proof -
  note C = smem_chainD [OF c] and O = smem_chain_order [OF c]
  note F = mem_flags [OF C(5)]
  have pe: "p \<noteq> sm_heap_end h" using O(3) by simp
  have seg: "smem_seg (sm_item g) 0 0 (xs @ p # ys) (sm_heap_end h)"
  proof (rule smem_segI)
    note A = smem_seg_at [OF C(2)]
    show "smem_seg (sm_item g) 0 0 xs p" by (rule smem_seg_below [OF A(1)]) (simp add: g_def)
    show "it_prev (sm_item g p) = last (0 # xs)" "p + 20 \<le> it_next (sm_item g p)"
      using A(2,3) by (simp_all add: g_def)
    show "smem_seg (sm_item g) p (it_next (sm_item g p)) ys (sm_heap_end h)"
    proof -
      have "smem_seg (sm_item g) p (it_next (sm_item h p)) ys (sm_heap_end h)"
      proof (rule smem_seg_cong [OF A(4)])
        show "sm_item g q = sm_item h q" if "q \<in> set ys" for q using O(2) [OF that] by (simp add: g_def)
      qed
      then show ?thesis by (simp add: g_def)
    qed
  qed
  have "MEM_POOL ((sm_item h p)\<lparr>it_pool_ptr := f\<rparr>) = sm_addr h" using f F(3,4) by auto
  then show "smem_chain g (xs @ p # ys)"
    using seg C(3,4,6,7) pe smem_env_cong [OF C(1), of g]
    by (simp add: smem_chain_def g_def)
  have ne: "MEM_USED h \<noteq> MEM_FREED h" using F(1,2) by metis
  have "p \<notin> set xs" "p \<notin> set ys" using O(1,2) by blast+
  then have "smem_view (sm_item g) xs = smem_view (sm_item h) xs" "smem_view (sm_item g) ys = smem_view (sm_item h) ys"
    by (auto simp: g_def intro: smem_view_cong)
  moreover have "MEM_ISUSED ((sm_item h p)\<lparr>it_pool_ptr := f\<rparr>) = (f = MEM_USED h)"
    using f F(1,2) ne by auto
  ultimately show "smem_view (sm_item g) (xs @ p # ys) = smem_view (sm_item h) xs
       @ (p, it_next (sm_item h p) - p, f = MEM_USED h) # smem_view (sm_item h) ys"
    by (simp add: g_def)
qed

lemma smem_merge_item:
  assumes "p \<noteq> q"
  shows "sm_item (smem_merge p q h) = (let n = it_next (sm_item h q);
      g = (sm_item h)(q := (sm_item h q)\<lparr>it_pool_ptr := 0\<rparr>, p := (sm_item h p)\<lparr>it_next := n\<rparr>)
    in g(n := (g n)\<lparr>it_prev := p\<rparr>))"
    "sm_object (smem_merge p q h) = sm_object h" "sm_addr (smem_merge p q h) = sm_addr h"
    "sm_used (smem_merge p q h) = sm_used h" "sm_max (smem_merge p q h) = sm_max h"
    "sm_heap_ptr (smem_merge p q h) = sm_heap_ptr h" "sm_heap_end (smem_merge p q h) = sm_heap_end h"
    "sm_lfree (smem_merge p q h) = (if sm_lfree h = q then p else sm_lfree h)"
    "sm_mem_size_aligned (smem_merge p q h) = sm_mem_size_aligned h" "sm_data (smem_merge p q h) = sm_data h"
    "sm_total (smem_merge p q h) = sm_total h"
  using assms by (simp_all add: smem_merge_def Let_def)

lemma smem_join:
  assumes c: "smem_chain h (xs @ p # q # ys)"
  defines "g \<equiv> smem_merge p q h"
  shows "smem_chain g (xs @ p # ys)"
    "smem_view (sm_item g) (xs @ p # ys) = smem_view (sm_item h) xs
       @ (p, it_next (sm_item h q) - p, MEM_ISUSED (sm_item h p)) # smem_view (sm_item h) ys"
proof -
  note C = smem_chainD [OF c] and O = smem_chain_order [OF c]
  have c2: "smem_chain h ((xs @ [p]) @ q # ys)" using c by simp
  note P = smem_chain_order [OF c2]
  let ?n = "it_next (sm_item h q)"
  have q: "it_next (sm_item h p) = q" using O(7) by simp
  then have d: "p + 20 \<le> q" "q + 20 \<le> ?n" "?n \<le> sm_heap_end h" using O(5) P(5,6) by simp_all
  have pq: "p \<noteq> q" using d by simp
  note M = smem_merge_item [OF pq, of h]
  have it: "sm_item g x = (if x = ?n then (sm_item h x)\<lparr>it_prev := p\<rparr> else if x = p then (sm_item h x)\<lparr>it_next := ?n\<rparr>
      else if x = q then (sm_item h x)\<lparr>it_pool_ptr := 0\<rparr> else sm_item h x)" for x
    using d by (auto simp: g_def M(1) Let_def)
  have seg: "smem_seg (sm_item g) 0 0 (xs @ p # ys) (sm_heap_end g)"
    unfolding g_def M(7)
    by (rule smem_seg_join [OF C(2) refl]) (use d in \<open>simp_all add: it [unfolded g_def]\<close>)
  have keep: "it_pool_ptr (sm_item g x) = it_pool_ptr (sm_item h x)" if "x \<noteq> q" for x
    using that by (simp add: it)
  have keepn: "it_next (sm_item g x) = it_next (sm_item h x)" if "x \<noteq> p" for x
    using that by (simp add: it)
  have nq: "x \<noteq> q" if "x \<in> set (xs @ p # ys) \<or> x = sm_heap_end h" for x
    using that P(1,2) [of x] O(3) P(3) by auto
  have pool: "MEM_POOL (sm_item g x) = MEM_POOL (sm_item h x)"
    "MEM_ISUSED (sm_item g x) = MEM_ISUSED (sm_item h x)"
    if "x \<in> set (xs @ p # ys) \<or> x = sm_heap_end h" for x
    using mem_used_cong keep [OF nq [OF that]] by blast+
  have "smem_env g" by (rule smem_env_cong [OF C(1)]) (simp_all add: g_def M)
  then show "smem_chain g (xs @ p # ys)"
    using seg pool C(3,4,6,7) by (auto simp: smem_chain_def g_def M(3,7))
  have v: "smem_view (sm_item g) zs = smem_view (sm_item h) zs" if "p \<notin> set zs" "q \<notin> set zs" for zs
    using that keep keepn by (intro smem_view_cong) metis
  have "p \<notin> set xs" "q \<notin> set xs" "p \<notin> set ys" "q \<notin> set ys" using O(1,2) P(1,2) pq by force+
  then have "smem_view (sm_item g) xs = smem_view (sm_item h) xs"
    "smem_view (sm_item g) ys = smem_view (sm_item h) ys" using v by blast+
  moreover have "it_next (sm_item g p) = ?n" using d by (simp add: it)
  ultimately show "smem_view (sm_item g) (xs @ p # ys) = smem_view (sm_item h) xs
       @ (p, ?n - p, MEM_ISUSED (sm_item h p)) # smem_view (sm_item h) ys"
    using pool(2) [of p] by simp
qed

lemma smem_split_item:
  assumes "p \<noteq> q" and "it_next (sm_item h p) \<noteq> p"
  shows "sm_item (smem_split p q h) = (let n = it_next (sm_item h p);
      g = (sm_item h)(q := \<lparr>it_pool_ptr = MEM_FREED h, it_next = n, it_prev = p\<rparr>,
                      p := (sm_item h p)\<lparr>it_next := q\<rparr>)
    in if n \<noteq> sm_mem_size_aligned h + 16 then g(n := (g n)\<lparr>it_prev := q\<rparr>) else g)"
    "sm_object (smem_split p q h) = sm_object h" "sm_addr (smem_split p q h) = sm_addr h"
    "sm_used (smem_split p q h) = sm_used h" "sm_max (smem_split p q h) = sm_max h"
    "sm_heap_ptr (smem_split p q h) = sm_heap_ptr h" "sm_heap_end (smem_split p q h) = sm_heap_end h"
    "sm_lfree (smem_split p q h) = sm_lfree h"
    "sm_mem_size_aligned (smem_split p q h) = sm_mem_size_aligned h" "sm_data (smem_split p q h) = sm_data h"
    "sm_total (smem_split p q h) = sm_total h"
  using assms by (simp_all add: smem_split_def Let_def SIZEOF_STRUCT_MEM_def)

lemma smem_cut:
  assumes c: "smem_chain h (xs @ p # ys)" and q: "p + 20 \<le> q" "q + 20 \<le> it_next (sm_item h p)" "4 dvd q"
  defines "g \<equiv> smem_split p q h"
  shows "smem_chain g (xs @ p # q # ys)"
    "smem_view (sm_item g) (xs @ p # q # ys) = smem_view (sm_item h) xs
       @ (p, q - p, MEM_ISUSED (sm_item h p)) # (q, it_next (sm_item h p) - q, False) # smem_view (sm_item h) ys"
proof -
  note C = smem_chainD [OF c] and O = smem_chain_order [OF c]
  let ?n = "it_next (sm_item h p)"
  have pq: "p \<noteq> q" "?n \<noteq> p" using q by simp_all
  note M = smem_split_item [OF pq]
  have e: "sm_heap_end h = sm_mem_size_aligned h + 16" using C(1) by (simp add: smem_env_def)
  have it: "sm_item g x = (if x = ?n \<and> ?n \<noteq> sm_heap_end h then (sm_item h x)\<lparr>it_prev := q\<rparr>
      else if x = p then (sm_item h x)\<lparr>it_next := q\<rparr>
      else if x = q then \<lparr>it_pool_ptr = MEM_FREED h, it_next = ?n, it_prev = p\<rparr> else sm_item h x)" for x
    using q by (auto simp: g_def M(1) Let_def e)
  have seg: "smem_seg (sm_item g) 0 0 (xs @ p # q # ys) (sm_heap_end g)"
    unfolding g_def M(7)
    by (rule smem_seg_cut [OF C(2) q(1,2) refl]) (use q in \<open>auto simp: it [unfolded g_def]\<close>)
  have nq: "x \<noteq> q" if "x \<in> set (xs @ p # ys) \<or> x = sm_heap_end h" for x
    using that O(1,4) [of x] O(6) q by auto
  have keep: "it_pool_ptr (sm_item g x) = it_pool_ptr (sm_item h x)" if "x \<noteq> q" for x
    using that by (simp add: it)
  have pool: "MEM_POOL (sm_item g x) = MEM_POOL (sm_item h x)"
    "MEM_ISUSED (sm_item g x) = MEM_ISUSED (sm_item h x)"
    if "x \<in> set (xs @ p # ys) \<or> x = sm_heap_end h" for x
    using mem_used_cong keep [OF nq [OF that]] by blast+
  have gq: "sm_item g q = \<lparr>it_pool_ptr = MEM_FREED h, it_next = ?n, it_prev = p\<rparr>"
    using q by (simp add: it)
  have fq: "MEM_POOL (sm_item g q) = sm_addr h" "\<not> MEM_ISUSED (sm_item g q)"
    using mem_flags(2,4) [OF C(5), of "sm_item g q"] by (simp_all add: gq)
  have "smem_env g" by (rule smem_env_cong [OF C(1)]) (simp_all add: g_def M)
  then show "smem_chain g (xs @ p # q # ys)"
    using seg pool fq C(3,4,6,7) q(3) by (auto simp: smem_chain_def g_def M(3,7))
  have v: "smem_view (sm_item g) zs = smem_view (sm_item h) zs" if "p \<notin> set zs" "q \<notin> set zs" for zs
  proof (rule smem_view_cong)
    fix x assume "x \<in> set zs"
    with that have "x \<noteq> p" "x \<noteq> q" by auto
    then show "it_next (sm_item g x) = it_next (sm_item h x) \<and> it_pool_ptr (sm_item g x) = it_pool_ptr (sm_item h x)"
      by (simp add: it)
  qed
  have "p \<notin> set xs" "q \<notin> set xs" "p \<notin> set ys" "q \<notin> set ys" using O(1,2) nq by force+
  then have "smem_view (sm_item g) xs = smem_view (sm_item h) xs"
    "smem_view (sm_item g) ys = smem_view (sm_item h) ys" using v by blast+
  moreover have "it_next (sm_item g p) = q" using pq by (simp add: it)
  ultimately show "smem_view (sm_item g) (xs @ p # q # ys) = smem_view (sm_item h) xs
       @ (p, q - p, MEM_ISUSED (sm_item h p)) # (q, ?n - q, False) # smem_view (sm_item h) ys"
    using pool(2) [of p] fq gq by simp
qed

section \<open>Release\<close>

text \<open>What a release does to the blocks: the one at \<open>p\<close> is free, and free neighbours are joined.\<close>

definition mark_free :: "nat \<Rightarrow> block list \<Rightarrow> block list" where
  "mark_free p bs = map (\<lambda>(q, l, u). (q, l, u \<and> q \<noteq> p)) bs"

fun join_free :: "block list \<Rightarrow> block list" where
  "join_free ((p, l, u) # (q, m, v) # bs) =
     (if \<not> u \<and> \<not> v then join_free ((p, l + m, False) # bs) else (p, l, u) # join_free ((q, m, v) # bs))"
| "join_free [b] = [b]"
| "join_free [] = []"

lemma join_free_hd:
  "bs \<noteq> [] \<Longrightarrow> join_free bs \<noteq> [] \<and> snd (snd (hd (join_free bs))) = snd (snd (hd bs))"
  by (induction bs rule: join_free.induct) auto

lemma coalesced_Cons:
  "coalesced ((p, l, u) # bs) \<longleftrightarrow> coalesced bs \<and> (bs = [] \<or> u \<or> snd (snd (hd bs)))"
  by (cases bs) auto

lemma join_free_sums:
  "used_bytes (join_free bs) = used_bytes bs" "first_free (join_free bs) e = first_free bs e"
  by (induction bs rule: join_free.induct) auto

lemma coalesced_join_free: "coalesced (join_free bs)"
proof (induction bs rule: join_free.induct)
  case (1 p l u q m v bs)
  then show ?case using join_free_hd [of "(q, m, v) # bs"] by (auto simp: coalesced_Cons)
qed auto

lemma join_free_coalesced: "coalesced bs \<Longrightarrow> join_free bs = bs"
  by (induction bs rule: join_free.induct) auto

lemma join_free_append:
  "coalesced as \<Longrightarrow> as = [] \<or> bs = [] \<or> snd (snd (last as)) \<or> snd (snd (hd bs))
    \<Longrightarrow> join_free (as @ bs) = as @ join_free bs"
proof (induction as rule: join_free.induct)
  case (2 b)
  then show ?case by (cases b; cases bs) auto
qed auto

lemma join_free_Cons_join: "join_free ((p, l, u) # join_free bs) = join_free ((p, l, u) # bs)"
proof (induction bs arbitrary: p l u rule: join_free.induct)
  case (1 q m v r n w bs)
  then show ?case by (cases u; cases v; cases w) (simp_all add: add.assoc)
qed auto

lemma join_free_append_join: "join_free (as @ join_free bs) = join_free (as @ bs)"
proof (induction as rule: join_free.induct)
  case (1 p l u q m v as)
  then show ?case by (cases u; cases v) simp_all
next
  case (2 b)
  then show ?case by (cases b) (simp add: join_free_Cons_join)
next
  case 3
  then show ?case by (simp add: join_free_coalesced coalesced_join_free)
qed

text \<open>The first free block is at or before any free block.\<close>

lemma first_free_view: "first_free (smem_view it xs) e \<in> insert e (set xs)"
  by (induction xs) auto

lemma plug_next_ok:
  assumes c: "smem_chain h (xs @ p # ys)" and u: "\<not> MEM_ISUSED (sm_item h p)"
    and k: "coalesced (smem_view (sm_item h) ys)"
    and f: "sm_lfree h = first_free (smem_view (sm_item h) (xs @ p # ys)) (sm_heap_end h)"
  obtains zs l where "smem_chain (plug_next p h) (xs @ p # zs)"
    "smem_view (sm_item (plug_next p h)) (xs @ p # zs)
       = smem_view (sm_item h) xs @ (p, l, False) # smem_view (sm_item (plug_next p h)) zs"
    "join_free (smem_view (sm_item h) (p # ys)) = (p, l, False) # smem_view (sm_item (plug_next p h)) zs"
    "sm_lfree (plug_next p h) = sm_lfree h" "sm_used (plug_next p h) = sm_used h"
    "sm_max (plug_next p h) = sm_max h" "sm_data (plug_next p h) = sm_data h"
    "sm_heap_end (plug_next p h) = sm_heap_end h" "sm_mem_size_aligned (plug_next p h) = sm_mem_size_aligned h"
    "sm_heap_ptr (plug_next p h) = sm_heap_ptr h" "\<not> MEM_ISUSED (sm_item (plug_next p h) p)"
    "smem_view (sm_item (plug_next p h)) xs = smem_view (sm_item h) xs"
proof -
  note O = smem_chain_order [OF c] and C = smem_chainD [OF c]
  show ?thesis
  proof (cases "ys \<noteq> [] \<and> \<not> MEM_ISUSED (sm_item h (hd ys))")
    case False
    have "plug_next p h = h"
    proof (cases ys)
      case Nil
      then show ?thesis using O(7) by (simp add: plug_next_def Let_def)
    next
      case (Cons q qs)
      with False O(7) show ?thesis by (simp add: plug_next_def)
    qed
    moreover have "join_free (smem_view (sm_item h) (p # ys)) = smem_view (sm_item h) (p # ys)"
      by (rule join_free_coalesced) (use k False u in \<open>cases ys; auto simp: coalesced_Cons\<close>)
    ultimately show ?thesis using that [of ys "it_next (sm_item h p) - p"] c u by simp
  next
    case True
    then obtain q qs where ys: "ys = q # qs" and uq: "\<not> MEM_ISUSED (sm_item h q)" by (cases ys) auto
    have c': "smem_chain h ((xs @ [p]) @ q # qs)" using c ys by simp
    note P = smem_chain_order [OF c']
    have q: "it_next (sm_item h p) = q" using O(7) by (simp add: ys)
    have pq: "p \<noteq> q" using O(5) q by simp
    have pl: "plug_next p h = smem_merge p q h" using uq pq P(3) by (simp add: plug_next_def q)
    note J = smem_join [OF c [unfolded ys]] and M = smem_merge_item [OF pq, of h]
    have "sm_lfree h \<in> insert p (set xs)"
      using first_free_view [of "sm_item h" xs p] u by (simp add: f first_free_append)
    then have lf: "sm_lfree h \<noteq> q" using O(1) pq P(1) [of "sm_lfree h"] by auto
    have len: "length (smem_view g xs) = length (smem_view g' xs)" for g g' by (simp add: smem_view_def)
    have J2: "smem_view (sm_item (smem_merge p q h)) xs = smem_view (sm_item h) xs"
      "smem_view (sm_item (smem_merge p q h)) [p] = [(p, it_next (sm_item h q) - p, False)]"
      "smem_view (sm_item (smem_merge p q h)) qs = smem_view (sm_item h) qs"
      using J(2) u append_eq_append_conv [OF disjI1 [OF len]] by auto
    have k2: "coalesced ((p, it_next (sm_item h q) - p, False) # smem_view (sm_item h) qs)"
      using k uq by (auto simp: ys coalesced_Cons)
    have "join_free (smem_view (sm_item h) (p # ys)) = join_free ((p, it_next (sm_item h q) - p, False) # smem_view (sm_item h) qs)"
      using u uq q P(5) O(5) by (simp add: ys)
    then have jf: "join_free (smem_view (sm_item h) (p # ys)) = (p, it_next (sm_item h q) - p, False) # smem_view (sm_item h) qs"
      using join_free_coalesced [OF k2] by simp
    show ?thesis
      by (rule that [of qs "it_next (sm_item h q) - p"])
        (use J(1) J2 jf lf in \<open>simp_all add: pl M\<close>)
  qed
qed

lemma smem_view_eqD:
  assumes "smem_view g (xs @ ys) = smem_view h xs @ bs"
  shows "smem_view g xs = smem_view h xs" "smem_view g ys = bs"
proof -
  have "length (smem_view g xs) = length (smem_view h xs)" by (simp add: smem_view_def)
  with assms show "smem_view g xs = smem_view h xs" "smem_view g ys = bs" by simp_all
qed

lemma plug_prev_ok:
  assumes c: "smem_chain h (xs @ p # ys)" and u: "\<not> MEM_ISUSED (sm_item h p)"
    and k: "coalesced (smem_view (sm_item h) xs)"
    and l: "join_free (smem_view (sm_item h) (p # ys)) = smem_view (sm_item h) (p # ys)"
    and f: "sm_lfree h = first_free (smem_view (sm_item h) (xs @ p # ys)) (sm_heap_end h)"
  obtains zs where "smem_chain (plug_prev p h) zs"
    "smem_view (sm_item (plug_prev p h)) zs = join_free (smem_view (sm_item h) (xs @ p # ys))"
    "sm_lfree (plug_prev p h) = sm_lfree h" "sm_used (plug_prev p h) = sm_used h"
    "sm_max (plug_prev p h) = sm_max h" "sm_data (plug_prev p h) = sm_data h"
    "sm_heap_end (plug_prev p h) = sm_heap_end h" "sm_mem_size_aligned (plug_prev p h) = sm_mem_size_aligned h"
    "sm_heap_ptr (plug_prev p h) = sm_heap_ptr h"
proof -
  note O = smem_chain_order [OF c] and C = smem_chainD [OF c]
  let ?v = "smem_view (sm_item h)"
  show ?thesis
  proof (cases "xs \<noteq> [] \<and> \<not> MEM_ISUSED (sm_item h (last xs))")
    case False
    have "plug_prev p h = h"
    proof (cases "xs = []")
      case True
      then have "p = 0" using C(2) by simp
      with O(8) True show ?thesis by (simp add: plug_prev_def)
    next
      case ne: False
      with False O(8) show ?thesis by (simp add: plug_prev_def)
    qed
    moreover have "join_free (?v xs @ ?v (p # ys)) = ?v xs @ join_free (?v (p # ys))"
    proof (rule join_free_append [OF k])
      show "?v xs = [] \<or> ?v (p # ys) = [] \<or> snd (snd (last (?v xs))) \<or> snd (snd (hd (?v (p # ys))))"
        using False by (auto simp: smem_view_def last_map)
    qed
    ultimately show ?thesis using that [of "xs @ p # ys"] c l by simp
  next
    case True
    then obtain ws r where xs: "xs = ws @ [r]" and ur: "\<not> MEM_ISUSED (sm_item h r)"
      by (cases xs rule: rev_cases) auto
    have c': "smem_chain h (ws @ r # p # ys)" using c xs by simp
    note P = smem_chain_order [OF c']
    have r: "it_prev (sm_item h p) = r" using O(8) by (simp add: xs)
    have rp: "r \<noteq> p" using O(1) [of r] by (auto simp: xs)
    have pl: "plug_prev p h = smem_merge r p h" using ur rp by (simp add: plug_prev_def r)
    note J = smem_join [OF c'] and M = smem_merge_item [OF rp, of h]
    have "sm_lfree h \<in> insert r (set ws)"
      using first_free_view [of "sm_item h" ws r] ur by (simp add: f xs first_free_append)
    then have lf: "sm_lfree h \<noteq> p" using O(1) [of "sm_lfree h"] by (auto simp: xs)
    have k2: "coalesced (?v ws)" "ws = [] \<or> MEM_ISUSED (sm_item h (last ws))"
      using k ur by (cases ws rule: rev_cases; auto simp: xs coalesced_append)+
    have pn: "it_next (sm_item h r) = p" using P(7) by simp
    let ?b = "(r, it_next (sm_item h p) - r, False)"
    have "join_free (?v (r # p # ys)) = join_free (?b # ?v ys)"
      using u ur pn P(5) O(5) by simp
    also have "\<dots> = ?b # ?v ys"
    proof (cases ys)
      case (Cons y yy)
      have co: "coalesced (?v (p # ys))" using coalesced_join_free [of "?v (p # ys)"] by (simp only: l)
      then have "coalesced (?b # ?v ys)" using u by (auto simp: coalesced_Cons)
      then show ?thesis by (rule join_free_coalesced)
    qed simp
    finally have jf: "join_free (?v (r # p # ys)) = ?b # ?v ys" .
    have "join_free (?v ws @ ?v (r # p # ys)) = ?v ws @ join_free (?v (r # p # ys))"
      by (rule join_free_append [OF k2(1)]) (use k2(2) in \<open>auto simp: smem_view_def last_map\<close>)
    then have jv: "join_free (?v (xs @ p # ys)) = ?v ws @ ?b # ?v ys" by (simp only: xs append.assoc
        append_Cons append_Nil smem_view_simps(3) jf)
    show ?thesis
      by (rule that [of "ws @ r # ys"])
        (use J(1) J(2) ur lf jv in \<open>simp_all add: pl M\<close>)
  qed
qed

lemma plug_holes_ok:
  assumes c: "smem_chain h (xs @ p # ys)" and u: "\<not> MEM_ISUSED (sm_item h p)"
    and k: "coalesced (smem_view (sm_item h) xs)" "coalesced (smem_view (sm_item h) ys)"
    and f: "sm_lfree h = first_free (smem_view (sm_item h) (xs @ p # ys)) (sm_heap_end h)"
    and n: "sm_used h = used_bytes (smem_view (sm_item h) (xs @ p # ys))"
  obtains g where "plug_holes p h = Some g" "smem_wf g"
    "smem_blocks g = join_free (smem_view (sm_item h) (xs @ p # ys))"
    "sm_max g = sm_max h" "sm_data g = sm_data h" "sm_mem_size_aligned g = sm_mem_size_aligned h"
    "sm_heap_ptr g = sm_heap_ptr h" "sm_used g = sm_used h"
proof -
  let ?m = "plug_next p h"
  from plug_next_ok [OF c u k(2) f] obtain zs l where
    z: "smem_chain ?m (xs @ p # zs)"
    "smem_view (sm_item ?m) (xs @ p # zs) = smem_view (sm_item h) xs @ (p, l, False) # smem_view (sm_item ?m) zs"
    "join_free (smem_view (sm_item h) (p # ys)) = (p, l, False) # smem_view (sm_item ?m) zs"
    "sm_lfree ?m = sm_lfree h" "sm_used ?m = sm_used h" "sm_max ?m = sm_max h" "sm_data ?m = sm_data h"
    "sm_heap_end ?m = sm_heap_end h" "sm_mem_size_aligned ?m = sm_mem_size_aligned h"
    "sm_heap_ptr ?m = sm_heap_ptr h" "\<not> MEM_ISUSED (sm_item ?m p)"
    "smem_view (sm_item ?m) xs = smem_view (sm_item h) xs" by metis
  have pz: "smem_view (sm_item ?m) (p # zs) = (p, l, False) # smem_view (sm_item ?m) zs"
    by (rule smem_view_eqD(2) [OF z(2)])
  have j1: "join_free (smem_view (sm_item ?m) (p # zs)) = smem_view (sm_item ?m) (p # zs)"
    unfolding pz z(3) [symmetric] by (rule join_free_coalesced [OF coalesced_join_free])
  have f1: "first_free (smem_view (sm_item h) (xs @ p # ys)) e = first_free (smem_view (sm_item ?m) (xs @ p # zs)) e" for e
    using u z(11) by (simp add: first_free_append z(12))
  have f2: "sm_lfree ?m = first_free (smem_view (sm_item ?m) (xs @ p # zs)) (sm_heap_end ?m)"
    by (simp only: z(4,8) f f1)
  have jj: "join_free (smem_view (sm_item ?m) (xs @ p # zs)) = join_free (smem_view (sm_item h) (xs @ p # ys))"
    using join_free_append_join [of "smem_view (sm_item h) xs" "smem_view (sm_item h) (p # ys)"]
    unfolding z(3) by (simp add: z(12) pz [simplified])
  have k1: "coalesced (smem_view (sm_item ?m) xs)" using k(1) by (simp add: z(12))
  from plug_prev_ok [OF z(1,11) k1 j1 f2] obtain ps where
    g: "smem_chain (plug_prev p ?m) ps"
    "smem_view (sm_item (plug_prev p ?m)) ps = join_free (smem_view (sm_item ?m) (xs @ p # zs))"
    "sm_lfree (plug_prev p ?m) = sm_lfree ?m" "sm_used (plug_prev p ?m) = sm_used ?m"
    "sm_max (plug_prev p ?m) = sm_max ?m" "sm_data (plug_prev p ?m) = sm_data ?m"
    "sm_heap_end (plug_prev p ?m) = sm_heap_end ?m"
    "sm_mem_size_aligned (plug_prev p ?m) = sm_mem_size_aligned ?m"
    "sm_heap_ptr (plug_prev p ?m) = sm_heap_ptr ?m" by metis
  let ?g = "plug_prev p ?m"
  have "smem_shape ?g ps"
    unfolding smem_shape_def
  proof (intro conjI)
    show "sm_lfree ?g = first_free (smem_view (sm_item ?g) ps) (sm_heap_end ?g)"
      by (simp only: g(2,3,7) jj z(4,8) join_free_sums f)
    show "sm_used ?g = used_bytes (smem_view (sm_item ?g) ps)"
      by (simp only: g(2,4) jj z(5) join_free_sums n)
    show "coalesced (smem_view (sm_item ?g) ps)" by (simp only: g(2) coalesced_join_free)
  qed (rule g(1))
  then have wf: "smem_wf ?g" by (auto simp: smem_wf_def)
  have bl: "smem_blocks ?g = join_free (smem_view (sm_item h) (xs @ p # ys))"
    using smem_chain_blocks [OF g(1)] by (simp only: g(2) jj)
  have pl: "plug_holes p h = Some ?g" using smem_chain_order(3) [OF c] by (simp add: plug_holes_def)
  show ?thesis by (rule that [OF pl wf bl]) (simp_all add: g z)
qed

text \<open>The blocks fill the heap.\<close>

lemma used_bytes_le: "smem_seg it pv p ps e \<Longrightarrow> used_bytes (smem_view it ps) + p \<le> e"
proof (induction ps arbitrary: pv p)
  case (Cons q qs)
  then have "used_bytes (smem_view it qs) + it_next (it p) \<le> e" "q = p" "p + 20 \<le> it_next (it p)" by auto
  then show ?case by auto
qed simp

lemma first_free_used_or_free:
  "(\<forall>x. first_free (smem_view it xs) x = x) \<or> (\<exists>c\<in>set xs. \<forall>x. first_free (smem_view it xs) x = c)"
  by (induction xs) auto

lemma smem_chain_cong [simp]:
  "smem_chain (h\<lparr>sm_lfree := a\<rparr>) ps = smem_chain h ps" "smem_chain (h\<lparr>sm_used := b\<rparr>) ps = smem_chain h ps"
  "smem_chain (h\<lparr>sm_max := c\<rparr>) ps = smem_chain h ps" "smem_chain (h\<lparr>sm_data := d\<rparr>) ps = smem_chain h ps"
  by (simp_all add: smem_chain_def smem_env_def)

lemma smem_blocks_cong [simp]:
  "smem_blocks (h\<lparr>sm_lfree := a\<rparr>) = smem_blocks h" "smem_blocks (h\<lparr>sm_used := b\<rparr>) = smem_blocks h"
  "smem_blocks (h\<lparr>sm_max := c\<rparr>) = smem_blocks h" "smem_blocks (h\<lparr>sm_data := d\<rparr>) = smem_blocks h"
  by (simp_all add: smem_blocks_def)

lemma smem_env_le: "smem_env h \<Longrightarrow> sm_heap_end h < 2 ^ 32"
  by (simp add: smem_env_def)

text \<open>Addresses of items are multiples of four.\<close>

lemma and_3_eq_0: "w AND 3 = (0 :: u32) \<longleftrightarrow> 4 dvd unat w"
proof -
  have "mask 2 = (3 :: u32)" by (simp add: mask_eq_exp_minus_1)
  then have m: "w AND 3 = take_bit 2 w" by (simp add: take_bit_eq_mask)
  have "unat (take_bit 2 w) = take_bit 2 (unat w)" by (rule unsigned_take_bit_eq)
  then have "unat (take_bit 2 w) = unat w mod 4" by (simp only: take_bit_eq_mod) simp
  then show ?thesis unfolding m dvd_eq_mod_eq_0 by (metis unat_0 unsigned_eq_0_iff)
qed

lemma word_add_and_3:
  assumes "a AND 3 = (0 :: u32)" "4 dvd n"
  shows "(a + of_nat n) AND 3 = 0"
proof -
  have "unat (a + of_nat n) = (unat a + n) mod 2 ^ 32" by (simp add: unat_word_ariths unat_of_nat mod_simps)
  moreover have "4 dvd unat a + n" using assms by (simp add: and_3_eq_0)
  ultimately have "4 dvd unat (a + of_nat n)" by (simp add: dvd_mod)
  then show ?thesis by (simp only: and_3_eq_0)
qed

lemma smem_block_at:
  assumes c: "smem_chain h ps" and b: "(p, l, u) \<in> set (smem_blocks h)"
  obtains xs ys where "ps = xs @ p # ys" "l = it_next (sm_item h p) - p" "u = MEM_ISUSED (sm_item h p)"
    "mark_free p (smem_blocks h) = smem_view (sm_item h) xs @ (p, l, False) # smem_view (sm_item h) ys"
proof -
  have p: "p \<in> set ps" and f: "l = it_next (sm_item h p) - p" "u = MEM_ISUSED (sm_item h p)"
    using b by (auto simp: smem_chain_blocks [OF c] smem_view_def)
  obtain xs ys where s: "ps = xs @ p # ys" using split_list [OF p] by blast
  note O = smem_chain_order [OF c [unfolded s]]
  have m: "mark_free p (smem_view it zs) = smem_view it zs" if "p \<notin> set zs" for it zs
    using that by (induction zs) (auto simp: mark_free_def)
  have "p \<notin> set xs" "p \<notin> set ys" using O(1,2) by blast+
  then have "mark_free p (smem_blocks h) = smem_view (sm_item h) xs @ (p, l, False) # smem_view (sm_item h) ys"
    using m [of xs "sm_item h"] m [of ys "sm_item h"]
    by (simp add: smem_chain_blocks [OF c] s mark_free_def f)
  with s f show ?thesis by (rule that)
qed

lemma rt_smem_free_ok:
  assumes w: "smem_wf h" and b: "(p, l, True) \<in> set (smem_blocks h)"
  obtains g where "rt_smem_free (Some (p + 16)) h = Some g" "smem_wf g"
    "smem_blocks g = join_free (mark_free p (smem_blocks h))"
    "sm_max g = sm_max h" "sm_data g = sm_data h" "sm_mem_size_aligned g = sm_mem_size_aligned h"
    "sm_heap_ptr g = sm_heap_ptr h" "sm_used g = sm_used h - l"
proof -
  obtain ps where s: "smem_shape h ps" using w by (auto simp: smem_wf_def)
  then have c: "smem_chain h ps" by (simp add: smem_shape_def)
  from smem_block_at [OF c b] obtain xs ys where ps: "ps = xs @ p # ys"
    and l: "l = it_next (sm_item h p) - p" and u: "MEM_ISUSED (sm_item h p)"
    and mk: "mark_free p (smem_blocks h) = smem_view (sm_item h) xs @ (p, l, False) # smem_view (sm_item h) ys"
    by metis
  note c = c [unfolded ps]
  note C = smem_chainD [OF c] and O = smem_chain_order [OF c]
  let ?v = "smem_view (sm_item h)" and ?n = "it_next (sm_item h p)"
  let ?h1 = "upd_item p (\<lambda>x. x\<lparr>it_pool_ptr := MEM_FREED h\<rparr>) h"
  let ?h2 = "if p < sm_lfree ?h1 then ?h1\<lparr>sm_lfree := p\<rparr> else ?h1"
  let ?h3 = "?h2\<lparr>sm_used := sub32 (sm_used ?h2) (sub32 (it_next (sm_item ?h2 p)) p)\<rparr>"
  have E: "sm_object h = Obj_static" "sm_addr h \<noteq> 0" "sm_heap_ptr h AND 3 = 0"
    "sm_heap_end h = sm_mem_size_aligned h + 16" "4 dvd sm_heap_end h"
    using C(1) unfolding smem_env_def by blast+
  have dv: "4 dvd p + 16" using C(3) [of p] by simp
  have npool: "MEM_POOL (sm_item h ?n) = sm_addr h"
    using O(7) C(4,6) by (cases ys) auto
  have nh: "p + 16 < sm_heap_end h" using O(5,6) by linarith
  have fr: "rt_smem_free (Some (p + 16)) h = plug_holes p ?h3"
    using E nh npool u C(4) [of p] word_add_and_3 [OF E(3) dv]
    by (simp add: rt_smem_free_def SIZEOF_STRUCT_MEM_def Let_def)
  have ne: "MEM_FREED h \<noteq> MEM_USED h" using mem_flags(1,2) [OF C(5)] by metis
  note M = smem_mark [OF c disjI2 [OF refl]]
  have v1: "smem_view (sm_item ?h1) (xs @ p # ys) = ?v xs @ (p, l, False) # ?v ys"
    using M(2) ne by (simp add: l)
  have i3: "sm_item ?h3 = sm_item ?h1" by simp
  have vx: "smem_view (sm_item ?h3) xs = ?v xs" and vy: "smem_view (sm_item ?h3) (p # ys) = (p, l, False) # ?v ys"
    unfolding i3 using smem_view_eqD [OF v1] by blast+
  have c3: "smem_chain ?h3 (xs @ p # ys)" using M(1) by simp
  have co: "coalesced (?v xs)" "coalesced (?v ys)"
    using s by (auto simp: smem_shape_def ps coalesced_append coalesced_Cons)
  have lf: "sm_lfree h = first_free (?v xs) (first_free (?v ys) (sm_heap_end h))"
    using s u by (simp add: smem_shape_def ps first_free_append)
  have f3: "sm_lfree ?h3 = first_free (smem_view (sm_item ?h3) (xs @ p # ys)) (sm_heap_end ?h3)"
  proof -
    have "first_free (smem_view (sm_item ?h3) (xs @ p # ys)) (sm_heap_end ?h3) = first_free (?v xs) p"
      by (simp only: smem_view_simps(3) vx vy first_free_append) simp
    moreover have "sm_lfree ?h3 = first_free (?v xs) p"
      using first_free_used_or_free [of "sm_item h" xs]
    proof (elim disjE bexE)
      assume used: "\<forall>x. first_free (?v xs) x = x"
      have "first_free (?v ys) (sm_heap_end h) \<in> insert (sm_heap_end h) (set ys)" by (rule first_free_view)
      then have "p < sm_lfree h" using lf used O(2,3) by auto
      with used show ?thesis by simp
    next
      fix c assume free: "c \<in> set xs" "\<forall>x. first_free (?v xs) x = c"
      then have "sm_lfree h = c" "c < p" using lf O(1) by simp_all
      with free show ?thesis by simp
    qed
    ultimately show ?thesis by simp
  qed
  have uh: "sm_used h = used_bytes (?v xs) + l + used_bytes (?v ys)"
    using s u by (simp add: smem_shape_def ps l)
  have le: "sm_used h < 2 ^ 32"
    using used_bytes_le [OF C(2)] s smem_env_le [OF C(1)] by (simp add: smem_shape_def ps)
  have sub: "sub32 (sm_used h) (sub32 ?n p) = sm_used h - l"
  proof -
    have "sub32 ?n p = l" using O(5,6) smem_env_le [OF C(1)] by (simp add: l)
    then show ?thesis using uh le by simp
  qed
  have u3: "sm_used ?h3 = used_bytes (smem_view (sm_item ?h3) (xs @ p # ys))"
  proof -
    have "used_bytes (smem_view (sm_item ?h3) (xs @ p # ys)) = used_bytes (?v xs) + used_bytes (?v ys)"
      by (simp only: smem_view_simps(3) vx vy block_list_simps) simp
    moreover have "sm_used ?h3 = sm_used h - l" by (simp add: sub)
    ultimately show ?thesis using uh by simp
  qed
  have un: "\<not> MEM_ISUSED (sm_item ?h3 p)" using vy by simp
  have cx: "coalesced (smem_view (sm_item ?h3) xs)" "coalesced (smem_view (sm_item ?h3) ys)"
    using co vx vy by simp_all
  from plug_holes_ok [OF c3 un cx f3 u3] obtain g where g: "plug_holes p ?h3 = Some g" "smem_wf g"
    "smem_blocks g = join_free (smem_view (sm_item ?h3) (xs @ p # ys))"
    "sm_max g = sm_max ?h3" "sm_data g = sm_data ?h3" "sm_mem_size_aligned g = sm_mem_size_aligned ?h3"
    "sm_heap_ptr g = sm_heap_ptr ?h3" "sm_used g = sm_used ?h3" by blast
  have bl: "smem_blocks g = join_free (mark_free p (smem_blocks h))"
    unfolding g(3) mk by (simp only: smem_view_simps(3) vx vy)
  have us: "sm_used g = sm_used h - l" by (simp add: g(8) sub)
  have "rt_smem_free (Some (p + 16)) h = Some g" by (simp only: fr g(1))
  then show ?thesis by (rule that [OF _ g(2) bl _ _ _ _ us]) (simp_all add: g)
qed

section \<open>Allocation\<close>

text \<open>
  First fit: the first free block with room for \<open>n\<close> bytes and a header. What is left of it is a block
  of its own if it has room for the smallest size.
\<close>

definition carve :: "nat \<Rightarrow> nat \<Rightarrow> nat \<Rightarrow> block list" where
  "carve n p l = (if n + 44 \<le> l then [(p, n + 16, True), (p + 16 + n, l - (n + 16), False)] else [(p, l, True)])"

fun first_fit :: "nat \<Rightarrow> block list \<Rightarrow> (nat \<times> block list) option" where
  "first_fit n [] = None"
| "first_fit n ((p, l, u) # bs) =
     (if \<not> u \<and> n + 16 \<le> l then Some (p, carve n p l @ bs)
      else map_option (\<lambda>(q, bs'). (q, (p, l, u) # bs')) (first_fit n bs))"

definition smem_fits :: "(nat \<Rightarrow> sm_item) \<Rightarrow> nat \<Rightarrow> nat \<Rightarrow> bool" where
  "smem_fits it n p \<longleftrightarrow> \<not> MEM_ISUSED (it p) \<and> n + 16 \<le> it_next (it p) - p"

lemma first_fit_none:
  "\<forall>q\<in>set xs. \<not> smem_fits it n q \<Longrightarrow>
    first_fit n (smem_view it xs @ bs) = map_option (\<lambda>(q, bs'). (q, smem_view it xs @ bs')) (first_fit n bs)"
  by (induction xs) (auto simp: smem_fits_def option.map_comp comp_def split_def option.map_ident)

lemma first_fit_find:
  "first_fit n (smem_view it ps) = None \<longleftrightarrow> find (smem_fits it n) ps = None"
  "find (smem_fits it n) (xs @ p # ys) = Some p \<Longrightarrow> \<forall>q\<in>set xs. \<not> smem_fits it n q \<Longrightarrow> smem_fits it n p \<Longrightarrow>
    first_fit n (smem_view it (xs @ p # ys))
      = Some (p, smem_view it xs @ carve n p (it_next (it p) - p) @ smem_view it ys)"
proof -
  show "first_fit n (smem_view it ps) = None \<longleftrightarrow> find (smem_fits it n) ps = None"
    by (induction ps) (auto simp: smem_fits_def)
  assume "\<forall>q\<in>set xs. \<not> smem_fits it n q" "smem_fits it n p"
  then show "first_fit n (smem_view it (xs @ p # ys))
      = Some (p, smem_view it xs @ carve n p (it_next (it p) - p) @ smem_view it ys)"
    using first_fit_none [of xs it n "smem_view it (p # ys)"] by (simp add: smem_fits_def)
qed

lemma find_split:
  "find P ps = Some p \<Longrightarrow> \<exists>xs ys. ps = xs @ p # ys \<and> (\<forall>q\<in>set xs. \<not> P q) \<and> P p"
proof (induction ps)
  case (Cons a ps)
  show ?case
  proof (cases "P a")
    case True
    with Cons.prems show ?thesis by (intro exI [where x = "[]"] exI [where x = ps]) auto
  next
    case False
    with Cons obtain xs ys where "ps = xs @ p # ys" "\<forall>q\<in>set xs. \<not> P q" "P p" by auto
    with False show ?thesis by (intro exI [where x = "a # xs"] exI [where x = ys]) auto
  qed
qed simp

lemma smem_search_seg:
  assumes "smem_seg (sm_item h) pv p ps (sm_heap_end h)" and env: "smem_env h" and n: "n \<le> sm_mem_size_aligned h"
  shows "smem_search n p h = Some (find (smem_fits (sm_item h) n) ps)"
  using assms(1)
proof (induction ps arbitrary: pv p)
  case Nil
  have e: "sm_heap_end h = sm_mem_size_aligned h + 16" "sm_mem_size_aligned h < 2 ^ 32"
    using env unfolding smem_env_def by linarith+
  have "\<not> p \<le> sub32 (sm_mem_size_aligned h) n" using Nil n e by simp
  then show ?case by (subst smem_search.simps) simp
next
  case (Cons q ps)
  have e: "sm_heap_end h = sm_mem_size_aligned h + 16" "sm_heap_end h < 2 ^ 32"
    using env unfolding smem_env_def by linarith+
  have q: "q = p" "p + 20 \<le> it_next (sm_item h p)" "smem_seg (sm_item h) p (it_next (sm_item h p)) ps (sm_heap_end h)"
    using Cons.prems by simp_all
  have le: "it_next (sm_item h p) \<le> sm_heap_end h" by (rule smem_seg_le [OF q(3)])
  have s1: "sub32 (sm_mem_size_aligned h) n = sm_mem_size_aligned h - n" using n e by simp
  have s2: "sub32 (it_next (sm_item h p)) (p + 16) = it_next (sm_item h p) - (p + 16)" using q(2) le e(2) by simp
  show ?case
  proof (cases "p \<le> sm_mem_size_aligned h - n")
    case True
    have f: "smem_fits (sm_item h) n p \<longleftrightarrow>
        \<not> MEM_ISUSED (sm_item h p) \<and> n \<le> sub32 (it_next (sm_item h p)) (p + SIZEOF_STRUCT_MEM)"
      using q(2) by (auto simp: smem_fits_def SIZEOF_STRUCT_MEM_def s2)
    show ?thesis
      by (subst smem_search.simps) (simp add: s1 True q(1) f [symmetric] Cons.IH [OF q(3)])
  next
    case False
    have "\<not> smem_fits (sm_item h) n x" if "x \<in> set (p # ps)" for x
    proof -
      have "p \<le> x \<and> it_next (sm_item h x) \<le> sm_heap_end h"
        using smem_seg_bounds [OF Cons.prems, of x] that q(1) by auto
      then show ?thesis using False n e(1) by (auto simp: smem_fits_def)
    qed
    then have "find (smem_fits (sm_item h) n) (q # ps) = None" unfolding q(1) find_None_iff by blast
    then show ?thesis by (subst smem_search.simps) (simp add: s1 False)
  qed
qed

lemma smem_skip_used_seg:
  assumes "smem_seg (sm_item h) pv p ps (sm_heap_end h)"
  shows "smem_skip_used p h = Some (first_free (smem_view (sm_item h) ps) (sm_heap_end h))"
  using assms
proof (induction ps arbitrary: pv p)
  case Nil
  then show ?case by (subst smem_skip_used.simps) simp
next
  case (Cons q ps)
  have q: "q = p" "smem_seg (sm_item h) p (it_next (sm_item h p)) ps (sm_heap_end h)" using Cons.prems by simp_all
  have "p \<noteq> sm_heap_end h" using smem_seg_less [OF Cons.prems, of p] q(1) by simp
  then show ?case
    by (subst smem_skip_used.simps) (simp add: q(1) Cons.IH [OF q(2)])
qed

text \<open>The items before the first free one are in use, and the chain goes on from there.\<close>

lemma first_free_split:
  assumes "smem_seg it 0 0 ps e"
  obtains xs ys where "ps = xs @ ys" "\<forall>x\<in>set xs. MEM_ISUSED (it x)"
    "smem_seg it (last (0 # xs)) (first_free (smem_view it ps) e) ys e"
proof -
  have "\<exists>xs ys. ps = xs @ ys \<and> (\<forall>x\<in>set xs. MEM_ISUSED (it x))
    \<and> smem_seg it (last (pv # xs)) (first_free (smem_view it ps) e) ys e" if "smem_seg it pv p ps e" for pv p
    using that
  proof (induction ps arbitrary: pv p)
    case Nil
    then show ?case by simp
  next
    case (Cons q ps)
    have q: "q = p" "smem_seg it p (it_next (it p)) ps e" using Cons.prems by simp_all
    show ?case
    proof (cases "MEM_ISUSED (it p)")
      case True
      obtain xs ys where "ps = xs @ ys" "\<forall>x\<in>set xs. MEM_ISUSED (it x)"
        "smem_seg it (last (p # xs)) (first_free (smem_view it ps) e) ys e" using Cons.IH [OF q(2)] by blast
      with True q(1) show ?thesis by (intro exI [where x = "p # xs"] exI [where x = ys]) simp
    next
      case False
      with Cons.prems q(1) show ?thesis by (intro exI [where x = "[]"] exI [where x = "q # ps"]) simp
    qed
  qed
  with assms that show ?thesis by blast
qed

lemma smem_search_ok:
  assumes s: "smem_shape h ps" and n: "n \<le> sm_mem_size_aligned h"
  shows "smem_search n (sm_lfree h) h = Some (find (smem_fits (sm_item h) n) ps)"
proof -
  have c: "smem_chain h ps" and f: "sm_lfree h = first_free (smem_view (sm_item h) ps) (sm_heap_end h)"
    using s by (simp_all add: smem_shape_def)
  note C = smem_chainD [OF c]
  from first_free_split [OF C(2)] obtain xs ys where ps: "ps = xs @ ys" and u: "\<forall>x\<in>set xs. MEM_ISUSED (sm_item h x)"
    and seg: "smem_seg (sm_item h) (last (0 # xs)) (sm_lfree h) ys (sm_heap_end h)" unfolding f by metis
  have "find (smem_fits (sm_item h) n) (xs @ ys) = find (smem_fits (sm_item h) n) ys"
    using u by (induction xs) (auto simp: smem_fits_def)
  with smem_search_seg [OF seg C(1) n] show ?thesis by (simp add: ps)
qed

lemma smem_count_fields [simp]:
  "sm_item (smem_count n h) = sm_item h" "sm_lfree (smem_count n h) = sm_lfree h"
  "sm_used (smem_count n h) = (sm_used h + n) mod 2 ^ 32" "sm_data (smem_count n h) = sm_data h"
  "sm_heap_end (smem_count n h) = sm_heap_end h" "sm_heap_ptr (smem_count n h) = sm_heap_ptr h"
  "sm_mem_size_aligned (smem_count n h) = sm_mem_size_aligned h" "sm_addr (smem_count n h) = sm_addr h"
  "smem_chain (smem_count n h) ps = smem_chain h ps" "MEM_USED (smem_count n h) = MEM_USED h"
  by (simp_all add: smem_count_def Let_def MEM_USED_def)

text \<open>An item that is free, and found, becomes used; the lowest free one is then looked for again.\<close>

lemma smem_claim:
  assumes c: "smem_chain g (xs @ p # ys)" and u: "\<not> MEM_ISUSED (sm_item g p)"
    and f: "sm_lfree g = first_free (smem_view (sm_item g) (xs @ p # ys)) (sm_heap_end g)"
  defines "k \<equiv> upd_item p (\<lambda>x. x\<lparr>it_pool_ptr := MEM_USED g\<rparr>) g"
  shows "(if p = sm_lfree k then smem_skip_used (sm_lfree k) k else Some (sm_lfree k))
      = Some (first_free (smem_view (sm_item k) (xs @ p # ys)) (sm_heap_end k))"
    "smem_chain k (xs @ p # ys)"
    "smem_view (sm_item k) (xs @ p # ys) = smem_view (sm_item g) xs
       @ (p, it_next (sm_item g p) - p, True) # smem_view (sm_item g) ys"
proof -
  note M = smem_mark [OF c disjI1 [OF refl], folded k_def]
  show ck: "smem_chain k (xs @ p # ys)" by (rule M(1))
  show vk: "smem_view (sm_item k) (xs @ p # ys) = smem_view (sm_item g) xs
       @ (p, it_next (sm_item g p) - p, True) # smem_view (sm_item g) ys" using M(2) by simp
  have lk: "sm_lfree k = first_free (smem_view (sm_item g) xs) p" "sm_heap_end k = sm_heap_end g"
    using u by (simp_all add: k_def f first_free_append)
  have seg: "smem_seg (sm_item k) (last (0 # xs)) p (p # ys) (sm_heap_end k)"
    using smem_seg_at [OF smem_chainD(2) [OF ck]] by simp
  have vy: "smem_view (sm_item k) (p # ys) = (p, it_next (sm_item g p) - p, True) # smem_view (sm_item g) ys"
    and vx: "smem_view (sm_item k) xs = smem_view (sm_item g) xs"
    using smem_view_eqD [OF vk] by blast+
  have sk: "smem_skip_used p k = Some (first_free (smem_view (sm_item k) (p # ys)) (sm_heap_end k))"
    by (rule smem_skip_used_seg [OF seg])
  have fk: "first_free (smem_view (sm_item k) (xs @ p # ys)) (sm_heap_end k)
      = first_free (smem_view (sm_item g) xs) (first_free (smem_view (sm_item k) (p # ys)) (sm_heap_end k))"
    by (simp only: smem_view_simps(3) first_free_append vx)
  show "(if p = sm_lfree k then smem_skip_used (sm_lfree k) k else Some (sm_lfree k))
      = Some (first_free (smem_view (sm_item k) (xs @ p # ys)) (sm_heap_end k))"
    using first_free_used_or_free [of "sm_item g" xs]
  proof (elim disjE bexE)
    assume "\<forall>x. first_free (smem_view (sm_item g) xs) x = x"
    then show ?thesis using sk fk lk(1) by simp
  next
    fix a assume a: "a \<in> set xs" "\<forall>x. first_free (smem_view (sm_item g) xs) x = a"
    then have "a < p" using smem_chain_order(1) [OF c] by blast
    with a fk lk(1) show ?thesis by simp
  qed
qed

lemma smem_take_ok:
  assumes s: "smem_shape h (xs @ p # ys)" and ft: "smem_fits (sm_item h) n p"
    and n: "12 \<le> n" "4 dvd n" "n \<le> sm_mem_size_aligned h"
  obtains g where "smem_take p n h = Some g" "smem_wf g"
    "smem_blocks g = smem_view (sm_item h) xs @ carve n p (it_next (sm_item h p) - p) @ smem_view (sm_item h) ys"
    "sm_data g = sm_data h" "sm_mem_size_aligned g = sm_mem_size_aligned h" "sm_heap_ptr g = sm_heap_ptr h"
proof -
  have c: "smem_chain h (xs @ p # ys)"
    and f: "sm_lfree h = first_free (smem_view (sm_item h) (xs @ p # ys)) (sm_heap_end h)"
    and us: "sm_used h = used_bytes (smem_view (sm_item h) (xs @ p # ys))"
    and co: "coalesced (smem_view (sm_item h) (xs @ p # ys))"
    using s by (simp_all add: smem_shape_def)
  note C = smem_chainD [OF c] and O = smem_chain_order [OF c]
  let ?v = "smem_view (sm_item h)" and ?n = "it_next (sm_item h p)" and ?q = "p + 16 + n"
  have e: "sm_heap_end h = sm_mem_size_aligned h + 16" "sm_heap_end h + 16 \<le> 2 ^ 32"
    using C(1) unfolding smem_env_def by blast+
  have u: "\<not> MEM_ISUSED (sm_item h p)" and room: "n + 16 \<le> ?n - p" using ft by (simp_all add: smem_fits_def)
  have sub: "sub32 ?n (p + 16) = ?n - (p + 16)" "sub32 ?n p = ?n - p" using O(5,6) e by simp_all
  have md: "(n + 16 + 12) mod 2 ^ 32 = n + 28" using n(3) e by simp
  let ?split = "n + 44 \<le> ?n - p"
  define zs where "zs = (if ?split then ?q # ys else ys)"
  define g1 where "g1 = (if ?split then smem_count (n + 16) (smem_split p ?q h) else smem_count (?n - p) h)"
  let ?V = "?v xs @ carve n p (?n - p) @ ?v ys"
  have pq: "p \<noteq> ?q" "?n \<noteq> p" using room n by simp_all
  have dq: "4 dvd ?q" using C(3) [of p] n(2) by (simp add: dvd_add)
  have q: "p + 20 \<le> ?q" "?split \<Longrightarrow> ?q + 20 \<le> ?n" using n(1) by linarith+
  have g1: "smem_chain g1 (xs @ p # zs)" "sm_heap_end g1 = sm_heap_end h" "sm_lfree g1 = sm_lfree h"
    "sm_data g1 = sm_data h" "sm_mem_size_aligned g1 = sm_mem_size_aligned h" "sm_heap_ptr g1 = sm_heap_ptr h"
    using c smem_cut(1) [OF c q(1) _ dq] q(2) smem_split_item [OF pq] by (auto simp: g1_def zs_def)
  have v1: "smem_view (sm_item g1) (xs @ p # zs) = ?v xs @ (p, (if ?split then n + 16 else ?n - p), False)
      # (if ?split then [(?q, ?n - ?q, False)] else []) @ ?v ys"
    using smem_cut(2) [OF c q(1) _ dq] q(2) u by (auto simp: g1_def zs_def)
  have ux: "smem_view (sm_item g1) xs = ?v xs"
    and uz: "smem_view (sm_item g1) (p # zs) = (p, (if ?split then n + 16 else ?n - p), False)
      # (if ?split then [(?q, ?n - ?q, False)] else []) @ ?v ys"
    using smem_view_eqD [OF v1] by blast+
  have u1: "\<not> MEM_ISUSED (sm_item g1 p)" using uz by simp
  have f1: "sm_lfree g1 = first_free (smem_view (sm_item g1) (xs @ p # zs)) (sm_heap_end g1)"
    unfolding g1(2,3) f v1 using u by (simp add: first_free_append)
  let ?k = "upd_item p (\<lambda>x. x\<lparr>it_pool_ptr := MEM_USED g1\<rparr>) g1"
  note K = smem_claim [OF g1(1) u1 f1]
  have vk: "smem_view (sm_item ?k) (xs @ p # zs) = ?V"
    unfolding K(3) ux using uz by (auto simp: carve_def)
  define g where "g = ?k\<lparr>sm_lfree := first_free (smem_view (sm_item ?k) (xs @ p # zs)) (sm_heap_end ?k)\<rparr>"
  have ch: "smem_chain g (xs @ p # zs)" using K(2) by (simp add: g_def)
  have "used_bytes ?V \<le> sm_heap_end h"
    using used_bytes_le [OF smem_chainD(2) [OF K(2)]] unfolding vk by (simp add: g1)
  moreover have "used_bytes ?V = sm_used h + (if ?split then n + 16 else ?n - p)"
    using u by (simp add: us carve_def)
  ultimately have u2: "sm_used g = used_bytes ?V"
    using e(2) smem_split_item(4) [OF pq] by (auto simp: g_def g1_def)
  have co2: "coalesced ?V"
    using co u by (auto simp: carve_def coalesced_append coalesced_Cons)
  have ig: "sm_item g = sm_item ?k" "sm_heap_end g = sm_heap_end ?k" by (simp_all add: g_def)
  have "smem_shape g (xs @ p # zs)"
    unfolding smem_shape_def ig vk using ch u2 co2 vk by (simp add: g_def)
  then have wf: "smem_wf g" by (auto simp: smem_wf_def)
  have bl: "smem_blocks g = ?V" using smem_chain_blocks [OF ch] by (simp only: ig vk)
  have hp: "sm_heap_ptr h AND 3 = 0" using C(1) by (simp add: smem_env_def)
  have al: "(sm_heap_ptr h + of_nat (p + 16)) AND 3 = 0" "(sm_heap_ptr h + of_nat p) AND 3 = 0"
    using C(3) [of p] by (intro word_add_and_3 [OF hp]; simp)+
  have fit: "p + 16 + n \<le> sm_heap_end h" using room O(6) by linarith
  have tk: "smem_take p n h = Some g"
  proof -
    have h1: "(if (n + 16 + 12) mod 2 ^ 32 \<le> ?n - (p + 16)
              then smem_count (n + 16) (smem_split p (p + 16 + n) h) else smem_count (?n - p) h) = g1"
      using room unfolding md g1_def by (rule_tac if_cong) auto
    have sk: "(if p = sm_lfree ?k then smem_skip_used (sm_lfree ?k) ?k else Some (sm_lfree ?k))
      = Some (sm_lfree g)" unfolding K(1) g_def by simp
    show ?thesis
      unfolding smem_take_def Let_def SIZEOF_STRUCT_MEM_def MIN_SIZE_ALIGNED_def sub h1 sk
      using al fit g1 by (simp add: g_def)
  qed
  show ?thesis by (rule that [OF tk wf bl]) (simp_all add: g_def g1)
qed

text \<open>The bytes an allocation looks for.\<close>

definition smem_request :: "u32 \<Rightarrow> nat" where
  "smem_request sz = max 12 (unat (rt_align4 sz))"

lemma smem_request_ok:
  assumes "sz \<le> 0xfffffffc"
  shows "12 \<le> smem_request sz" "4 dvd smem_request sz" "unat sz \<le> smem_request sz"
    "unat (rt_align4 sz) \<le> smem_request sz"
proof -
  note A = unat_align4 [OF assms]
  show "12 \<le> smem_request sz" "unat sz \<le> smem_request sz" "unat (rt_align4 sz) \<le> smem_request sz"
    using A(2) by (simp_all add: smem_request_def)
  have "4 dvd unat (rt_align4 sz)" using A(4) by (simp add: dvd_eq_mod_eq_0)
  then show "4 dvd smem_request sz" by (simp add: smem_request_def max_def)
qed

lemma smem_wf_shape:
  assumes "smem_wf h"
  obtains ps where "smem_shape h ps" "smem_chain h ps" "smem_blocks h = smem_view (sm_item h) ps" "smem_env h"
    "smem_seg (sm_item h) 0 0 ps (sm_heap_end h)"
  using assms smem_chain_blocks by (auto simp: smem_wf_def smem_shape_def smem_chain_def)

lemma first_fit_too_large:
  assumes w: "smem_wf h" and n: "sm_mem_size_aligned h < n"
  shows "first_fit n (smem_blocks h) = None"
proof -
  obtain ps where ps: "smem_blocks h = smem_view (sm_item h) ps" "smem_env h"
    "smem_seg (sm_item h) 0 0 ps (sm_heap_end h)" using smem_wf_shape [OF w] by metis
  have "\<not> smem_fits (sm_item h) n x" if "x \<in> set ps" for x
    using smem_seg_bounds [OF ps(3) that] ps(2) n by (auto simp: smem_fits_def smem_env_def)
  then show ?thesis unfolding ps(1) first_fit_find(1) find_None_iff by blast
qed

lemma rt_smem_alloc_ok:
  assumes w: "smem_wf h" and z: "0 < sz" "sz \<le> 0xfffffffc"
  shows "case first_fit (smem_request sz) (smem_blocks h) of
      None \<Rightarrow> rt_smem_alloc sz h = Some (None, h)
    | Some (p, bs) \<Rightarrow> \<exists>g. rt_smem_alloc sz h = Some (Some (p + 16), g) \<and> smem_wf g \<and> smem_blocks g = bs
        \<and> sm_data g = sm_data h \<and> sm_mem_size_aligned g = sm_mem_size_aligned h
        \<and> sm_heap_ptr g = sm_heap_ptr h"
proof -
  note R = smem_request_ok [OF z(2)]
  let ?m = "unat (rt_align4 sz)" and ?n = "smem_request sz"
  obtain ps where ps: "smem_shape h ps" "smem_chain h ps" "smem_blocks h = smem_view (sm_item h) ps"
    "smem_env h" using smem_wf_shape [OF w] by metis
  have ob: "sm_object h = Obj_static" and mn: "12 \<le> sm_mem_size_aligned h" using ps(4) by (simp_all add: smem_env_def)
  have nz: "sz \<noteq> 0" using z(1) by auto
  show ?thesis
  proof (cases "sm_mem_size_aligned h < ?m")
    case True
    then have "rt_smem_alloc sz h = Some (None, h)" using nz ob by (simp add: rt_smem_alloc_def Let_def)
    moreover have "first_fit ?n (smem_blocks h) = None"
      by (rule first_fit_too_large [OF w]) (use True R(4) in linarith)
    ultimately show ?thesis by simp
  next
    case False
    then have nl: "?n \<le> sm_mem_size_aligned h" using mn by (simp add: smem_request_def)
    have n: "(if ?m < MIN_SIZE_ALIGNED then MIN_SIZE_ALIGNED else ?m) = ?n"
      by (simp add: smem_request_def MIN_SIZE_ALIGNED_def max_def)
    have al: "rt_smem_alloc sz h = (case find (smem_fits (sm_item h) ?n) ps of None \<Rightarrow> Some (None, h)
        | Some p \<Rightarrow> do { h \<leftarrow> smem_take p ?n h; Some (Some (p + 16), h) })"
      using False nz ob smem_search_ok [OF ps(1) nl]
      by (simp add: rt_smem_alloc_def Let_def n SIZEOF_STRUCT_MEM_def)
    show ?thesis
    proof (cases "find (smem_fits (sm_item h) ?n) ps")
      case None
      then have "first_fit ?n (smem_blocks h) = None" unfolding ps(3) first_fit_find(1) .
      with None al show ?thesis by simp
    next
      case (Some p)
      from find_split [OF Some] obtain xs ys where s: "ps = xs @ p # ys"
        "\<forall>q\<in>set xs. \<not> smem_fits (sm_item h) ?n q" "smem_fits (sm_item h) ?n p" by blast
      from smem_take_ok [OF ps(1) [unfolded s(1)] s(3) R(1,2) nl] obtain g where
        g: "smem_take p ?n h = Some g" "smem_wf g"
        "smem_blocks g = smem_view (sm_item h) xs @ carve ?n p (it_next (sm_item h p) - p) @ smem_view (sm_item h) ys"
        "sm_data g = sm_data h" "sm_mem_size_aligned g = sm_mem_size_aligned h" "sm_heap_ptr g = sm_heap_ptr h"
        by metis
      have "first_fit ?n (smem_blocks h) = Some (p, smem_blocks g)"
        unfolding ps(3) s(1) g(3) by (rule first_fit_find(2) [OF Some [unfolded s(1)] s(2,3)])
      with al Some g show ?thesis by simp
    qed
  qed
qed

section \<open>The blocks do not overlap\<close>

lemma smem_blocks_disjoint:
  assumes w: "smem_wf h" and b: "(p, l, u) \<in> set (smem_blocks h)" "(q, m, v) \<in> set (smem_blocks h)" and ne: "p \<noteq> q"
  shows "p + l \<le> q \<or> q + m \<le> p"
proof -
  obtain ps where ps: "smem_chain h ps" "smem_blocks h = smem_view (sm_item h) ps"
    using smem_wf_shape [OF w] by metis
  have p: "p \<in> set ps" "l = it_next (sm_item h p) - p" and q: "q \<in> set ps" "m = it_next (sm_item h q) - q"
    using b by (auto simp: ps(2) smem_view_def)
  obtain xs ys where s: "ps = xs @ p # ys" using split_list [OF p(1)] by blast
  note O = smem_chain_order [OF ps(1) [unfolded s]]
  have pl: "p + l = it_next (sm_item h p)" using O(5) by (simp add: p(2))
  from q(1) ne s consider (after) "q \<in> set ys" | (before) "q \<in> set xs" by auto
  then show ?thesis
  proof cases
    case after
    then show ?thesis using O(4) pl by simp
  next
    case before
    then obtain as bs where t: "xs = as @ q # bs" using split_list by metis
    have "smem_chain h (as @ q # bs @ p # ys)" using ps(1) by (simp add: s t)
    note Q = smem_chain_order [OF this]
    have "it_next (sm_item h q) \<le> p" by (rule Q(4)) simp
    moreover have "q + m = it_next (sm_item h q)" using Q(5) by (simp add: q(2))
    ultimately show ?thesis by simp
  qed
qed

lemma smem_block_bounds:
  assumes w: "smem_wf h" and b: "(p, l, u) \<in> set (smem_blocks h)"
  shows "20 \<le> l" "p + l \<le> sm_heap_end h" "sm_heap_end h = sm_mem_size_aligned h + 16"
    "(sm_heap_ptr h + of_nat (p + 16)) AND 3 = 0"
proof -
  obtain ps where ps: "smem_chain h ps" "smem_blocks h = smem_view (sm_item h) ps" "smem_env h"
    "smem_seg (sm_item h) 0 0 ps (sm_heap_end h)" using smem_wf_shape [OF w] by metis
  have p: "p \<in> set ps" "l = it_next (sm_item h p) - p" using b by (auto simp: ps(2) smem_view_def)
  show "20 \<le> l" "p + l \<le> sm_heap_end h" using smem_seg_bounds [OF ps(4) p(1)] p(2) by auto
  show "sm_heap_end h = sm_mem_size_aligned h + 16" using ps(3) unfolding smem_env_def by blast
  have "4 dvd p + 16" using smem_chainD(3) [OF ps(1) p(1)] by simp
  then show "(sm_heap_ptr h + of_nat (p + 16)) AND 3 = 0"
    by (rule word_add_and_3 [rotated]) (use ps(3) in \<open>simp add: smem_env_def\<close>)
qed

text \<open>First fit turns one free block into one in use and leaves the others.\<close>

lemma first_fit_blocks:
  assumes "first_fit n bs = Some (p, bs')"
  obtains l where "(p, l, False) \<in> set bs" "n + 16 \<le> l"
    "\<exists>m. (p, m, True) \<in> set bs' \<and> n + 16 \<le> m \<and> m \<le> l"
    "\<And>b. b \<in> set bs \<Longrightarrow> b \<noteq> (p, l, False) \<Longrightarrow> b \<in> set bs'"
proof -
  have "\<exists>l. (p, l, False) \<in> set bs \<and> n + 16 \<le> l \<and> (\<exists>m. (p, m, True) \<in> set bs' \<and> n + 16 \<le> m \<and> m \<le> l)
    \<and> (\<forall>b\<in>set bs. b \<noteq> (p, l, False) \<longrightarrow> b \<in> set bs')"
    using assms
  proof (induction bs arbitrary: bs')
    case (Cons b bs)
    obtain q l u where b: "b = (q, l, u)" by (cases b)
    show ?case
    proof (cases "\<not> u \<and> n + 16 \<le> l")
      case True
      then have "p = q" "bs' = carve n q l @ bs" using Cons.prems by (auto simp: b)
      with True show ?thesis by (intro exI [where x = l]) (auto simp: b carve_def)
    next
      case False
      then obtain bs2 where r: "first_fit n bs = Some (p, bs2)" "bs' = b # bs2"
        using Cons.prems by (auto simp: b)
      from Cons.IH [OF r(1)] show ?thesis unfolding r(2) by (elim exE conjE) (rule exI, auto)
    qed
  qed simp
  with that show ?thesis by blast
qed

text \<open>Releasing what was just allocated gives the old blocks back.\<close>

lemma mark_free_view: "p \<notin> fst ` set bs \<Longrightarrow> mark_free p bs = bs"
  by (induction bs) (auto simp: mark_free_def)

lemma mark_free_append [simp]: "mark_free p (as @ bs) = mark_free p as @ mark_free p bs"
  "mark_free p [] = []" "mark_free p ((q, l, u) # bs) = (q, l, u \<and> q \<noteq> p) # mark_free p bs"
  by (simp_all add: mark_free_def)

lemma first_fit_release:
  assumes "first_fit n bs = Some (p, bs')" and "coalesced bs" and "distinct (map fst bs)"
  shows "join_free (mark_free p bs') = bs"
  using assms
proof (induction bs arbitrary: bs')
  case (Cons b bs)
  obtain q l u where b: "b = (q, l, u)" by (cases b)
  show ?case
  proof (cases "\<not> u \<and> n + 16 \<le> l")
    case True
    then have p: "p = q" "bs' = carve n q l @ bs" using Cons.prems by (auto simp: b)
    have "p \<notin> fst ` set bs" using Cons.prems(3) by (simp add: b p)
    then have m: "mark_free p bs = bs" by (rule mark_free_view)
    have co: "coalesced ((q, l, False) # bs)" using Cons.prems(2) True by (simp add: b)
    have "mark_free p bs' = map (\<lambda>(q, m, v). (q, m, False)) (carve n q l) @ bs"
      using True by (simp add: p carve_def m [unfolded p])
    then have "join_free (mark_free p bs') = join_free ((q, l, False) # bs)"
      using True by (cases bs) (auto simp: carve_def)
    then show ?thesis using join_free_coalesced [OF co] True by (simp add: b)
  next
    case False
    then obtain bs2 where r: "first_fit n bs = Some (p, bs2)" "bs' = b # bs2"
      using Cons.prems by (auto simp: b)
    have IH: "join_free (mark_free p bs2) = bs"
      by (rule Cons.IH [OF r(1)]) (use Cons.prems in \<open>auto simp: b coalesced_Cons\<close>)
    have "p \<in> fst ` set bs" using first_fit_blocks [OF r(1)] by (metis fst_conv image_eqI)
    then have qp: "q \<noteq> p" using Cons.prems(3) by (auto simp: b)
    have "join_free (mark_free p bs') = join_free ((q, l, u) # join_free (mark_free p bs2))"
      using qp by (simp add: r(2) b join_free_Cons_join)
    also have "\<dots> = join_free (b # bs)" by (simp add: IH b)
    also have "\<dots> = b # bs" by (rule join_free_coalesced [OF Cons.prems(2)])
    finally show ?thesis .
  qed
qed simp

section \<open>A new heap\<close>

lemma align4_id:
  assumes "4 dvd unat w"
  shows align4_max: "w \<le> 0xfffffffc" and "rt_align4 w = w"
proof -
  obtain x where x: "unat w = 4 * x" using assms by (auto elim: dvdE)
  have "unat w < 2 ^ 32" using unsigned_less [of w] by simp
  then have "unat w \<le> 0xfffffffc" unfolding x by simp
  then show w: "w \<le> 0xfffffffc" by (simp add: word_le_nat_alt)
  then have "unat (rt_align4 w) = unat w" by (simp add: unat_align4(1) x)
  then show "rt_align4 w = w" by (rule unsigned_word_eqI)
qed

lemma smem_size_ok:
  assumes b: "unat b + 68 \<le> 2 ^ 32" and n: "unat b + unat sz < 2 ^ 32" and m: "smem_size b sz = Some m"
  defines "a \<equiv> rt_align4 b"
  shows "unat b \<le> unat a" "unat a + 64 < 2 ^ 32" "4 dvd unat a" "4 dvd unat m"
    "unat a + 64 + unat m + 32 \<le> unat b + unat sz" "rt_align4 (a + SIZEOF_SMALL_MEM) = a + SIZEOF_SMALL_MEM"
proof -
  have "b \<le> 0xfffffffc" using b by (simp add: word_le_nat_alt)
  note A = unat_align4 [OF this, folded a_def]
  have ba: "unat a < unat b + 4" "unat b \<le> unat a" "4 dvd unat a" using A by (auto simp: dvd_eq_mod_eq_0)
  have lt: "unat a + 64 < 2 ^ 32" using ba(1) b by simp
  let ?s = "a + SIZEOF_SMALL_MEM" and ?e = "rt_align4_down (b + sz)"
  have s: "unat ?s = unat a + 64" using lt by (simp add: SIZEOF_SMALL_MEM_def unat_word_ariths)
  have ds: "4 dvd unat ?s" unfolding s using ba(3) by simp
  note as = align4_id(2) [OF ds]
  have bs: "unat (b + sz) = unat b + unat sz" using n by (simp add: unat_word_ariths)
  note D = unat_align4_down [of "b + sz", unfolded bs]
  have c: "32 < ?e" "?s \<le> ?e - 32" "m = ?e - ?s - 32"
    using m by (auto simp: smem_size_def Let_def a_def SIZEOF_STRUCT_MEM_def as [unfolded a_def] split: if_splits)
  have e32: "unat (?e - 32) = unat ?e - 32" using c(1) by (intro unat_sub_if_size [THEN trans]) (simp add: word_less_nat_alt word_le_nat_alt)
  have mm: "m = ?e - 32 - ?s" by (simp add: c(3))
  have um: "unat m = unat ?e - 32 - unat ?s" unfolding mm using c(2) e32 by (simp add: unat_sub_if_size word_le_nat_alt)
  have ge: "unat ?s + 32 \<le> unat ?e" using c(1,2) e32 by (simp add: word_le_nat_alt word_less_nat_alt)
  show "unat b \<le> unat a" "unat a + 64 < 2 ^ 32" "4 dvd unat a" by (rule ba lt)+
  show "rt_align4 (a + SIZEOF_SMALL_MEM) = a + SIZEOF_SMALL_MEM" by (rule as)
  have "4 dvd unat ?e" using D(3) by (simp add: dvd_eq_mod_eq_0)
  then show "4 dvd unat m" unfolding um using ds by (simp add: dvd_diff_nat)
  show "unat a + 64 + unat m + 32 \<le> unat b + unat sz" using um ge s D(2) by linarith
qed

lemma rt_smem_init_ok:
  assumes b: "b \<noteq> 0" "unat b + 68 \<le> 2 ^ 32" and n: "unat b + unat sz < 2 ^ 32"
    and h: "rt_smem_init b sz bytes = Some h" and big: "12 \<le> sm_mem_size_aligned h"
  shows "smem_wf h" "smem_blocks h = [(0, sm_mem_size_aligned h + 16, False)]"
    "unat b \<le> unat (sm_addr h)" "unat (sm_heap_ptr h) = unat (sm_addr h) + 64"
    "unat (sm_heap_ptr h) + sm_heap_end h + 16 \<le> unat b + unat sz" "sm_data h = bytes"
proof -
  from h obtain m where m: "smem_size b sz = Some m" and
    h: "h = smem_make (rt_align4 b) (unat m) bytes" by (auto simp: rt_smem_init_def split: option.splits)
  note S = smem_size_ok [OF b(2) n m]
  let ?a = "rt_align4 b"
  have F: "sm_object h = Obj_static" "sm_addr h = ?a" "sm_heap_ptr h = ?a + SIZEOF_SMALL_MEM"
    "sm_heap_end h = unat m + 16" "sm_mem_size_aligned h = unat m" "sm_lfree h = 0" "sm_used h = 0" "sm_data h = bytes"
    "sm_item h 0 = \<lparr>it_pool_ptr = (?a AND MEM_MASK) OR 0, it_next = unat m + 16, it_prev = 0\<rparr>"
    "sm_item h (unat m + 16) = \<lparr>it_pool_ptr = (?a AND MEM_MASK) OR 1, it_next = unat m + 16, it_prev = unat m + 16\<rparr>"
    by (simp_all add: h smem_make_def Let_def upd_item_def S(6) SIZEOF_STRUCT_MEM_def MEM_FREED_def MEM_USED_def)
  show D: "sm_data h = bytes" by (rule F)
  show P: "unat (sm_heap_ptr h) = unat (sm_addr h) + 64" using S(2) by (simp add: F SIZEOF_SMALL_MEM_def unat_word_ariths)
  show B: "unat b \<le> unat (sm_addr h)" unfolding F by (rule S)
  show E: "unat (sm_heap_ptr h) + sm_heap_end h + 16 \<le> unat b + unat sz" unfolding P F(2,4) using S(5) by simp
  have am: "?a AND MEM_MASK = ?a"
  proof -
    have "NOT 3 AND MEM_MASK = NOT (3 :: u32)" by (simp add: MEM_MASK_def)
    then show ?thesis by (simp only: rt_align4_def and.assoc)
  qed
  have env: "smem_env h"
    unfolding smem_env_def
  proof (intro conjI)
    show "sm_heap_ptr h AND 3 = 0" unfolding and_3_eq_0 P unfolding F using S(3) by simp
    show "sm_addr h \<noteq> 0" using b(1) S(1) unfolding F by (metis le_zero_eq unat_eq_zero unsigned_0)
    show "4 dvd sm_heap_end h" using S(4) F by simp
    show "sm_heap_end h + 16 \<le> 2 ^ 32" using E n by linarith
  qed (use am big in \<open>simp_all add: F\<close>)
  note L = mem_flags [of h, unfolded F, OF am]
  have it: "sm_item h 0 = (sm_item h 0)\<lparr>it_pool_ptr := MEM_FREED h\<rparr>"
    "sm_item h (unat m + 16) = (sm_item h (unat m + 16))\<lparr>it_pool_ptr := MEM_USED h\<rparr>"
    by (simp_all add: F MEM_FREED_def MEM_USED_def)
  have u: "\<not> MEM_ISUSED (sm_item h 0)" "MEM_POOL (sm_item h 0) = ?a"
    "MEM_ISUSED (sm_item h (unat m + 16))" "MEM_POOL (sm_item h (unat m + 16)) = ?a"
    using L by (metis it)+
  have "smem_shape h [0]"
    using env big u unfolding smem_shape_def smem_chain_def by (simp add: F)
  then show "smem_wf h" by (auto simp: smem_wf_def)
  have "smem_chain h [0]" using \<open>smem_shape h [0]\<close> by (simp add: smem_shape_def)
  then show "smem_blocks h = [(0, sm_mem_size_aligned h + 16, False)]"
    using u(1) by (simp add: smem_chain_blocks F)
qed

section \<open>Changing the size\<close>

lemma join_free_used: "(q, m, True) \<in> set (join_free bs) \<longleftrightarrow> (q, m, True) \<in> set bs"
  by (induction bs rule: join_free.induct) auto

lemma mark_free_used: "(q, m, True) \<in> set (mark_free p bs) \<longleftrightarrow> (q, m, True) \<in> set bs \<and> q \<noteq> p"
  by (force simp: mark_free_def)

lemma smem_block_unique:
  assumes w: "smem_wf h" and b: "(p, l, u) \<in> set (smem_blocks h)" "(p, m, v) \<in> set (smem_blocks h)"
  shows "l = m" "u = v"
proof -
  obtain ps where "smem_blocks h = smem_view (sm_item h) ps" using smem_wf_shape [OF w] by metis
  then show "l = m" "u = v" using b by (auto simp: smem_view_def)
qed

lemma smem_wf_data [simp]: "smem_wf (smem_copy d s n h) = smem_wf h" "smem_blocks (smem_copy d s n h) = smem_blocks h"
  by (simp_all add: smem_copy_def smem_wf_def smem_shape_def)

lemma smem_copy_data:
  "i < n \<Longrightarrow> sm_data (smem_copy d s n h) (d + i) = sm_data h (s + i)"
  "j < d \<or> d + n \<le> j \<Longrightarrow> sm_data (smem_copy d s n h) j = sm_data h j"
  by (auto simp: smem_copy_def)

text \<open>The block at \<open>p\<close> keeps room for \<open>n\<close> bytes; the rest of it is free.\<close>

definition shrink :: "nat \<Rightarrow> nat \<Rightarrow> block list \<Rightarrow> block list" where
  "shrink p n bs = concat (map (\<lambda>(q, l, u).
     if q = p then [(p, n + 16, u), (p + 16 + n, l - (n + 16), False)] else [(q, l, u)]) bs)"

lemma shrink_simps [simp]:
  "shrink p n [] = []" "shrink p n (as @ bs) = shrink p n as @ shrink p n bs"
  "shrink p n ((q, l, u) # bs) =
     (if q = p then [(p, n + 16, u), (p + 16 + n, l - (n + 16), False)] else [(q, l, u)]) @ shrink p n bs"
  by (simp_all add: shrink_def)

lemma shrink_view: "p \<notin> set ps \<Longrightarrow> shrink p n (smem_view it ps) = smem_view it ps"
  by (induction ps) (simp_all)

lemma shrink_used:
  "(p, l, True) \<in> set bs \<Longrightarrow> (p, n + 16, True) \<in> set (shrink p n bs)"
  "(q, m, True) \<in> set bs \<Longrightarrow> q \<noteq> p \<Longrightarrow> (q, m, True) \<in> set (shrink p n bs)"
  by (force simp: shrink_def)+

lemma realloc_shrinks:
  assumes w: "smem_wf h" and b: "(p, l, True) \<in> set (smem_blocks h)"
    and z: "newsize \<le> 0xfffffffc" and n: "n = unat (rt_align4 newsize)" "0 < n" "n + 28 < l - 16"
  obtains g where "rt_smem_realloc (Some (p + 16)) newsize h = Some (Some (p + 16), g)" "smem_wf g"
    "smem_blocks g = join_free (shrink p n (smem_blocks h))" "sm_data g = sm_data h"
    "sm_heap_ptr g = sm_heap_ptr h" "sm_mem_size_aligned g = sm_mem_size_aligned h"
proof -
  obtain ps where s: "smem_shape h ps" using w by (auto simp: smem_wf_def)
  then have c: "smem_chain h ps" by (simp add: smem_shape_def)
  from smem_block_at [OF c b] obtain xs ys where ps: "ps = xs @ p # ys"
    and l: "l = it_next (sm_item h p) - p" and u: "MEM_ISUSED (sm_item h p)" by metis
  note c = c [unfolded ps]
  have f: "sm_lfree h = first_free (smem_view (sm_item h) (xs @ p # ys)) (sm_heap_end h)"
    and us: "sm_used h = used_bytes (smem_view (sm_item h) (xs @ p # ys))"
    and co: "coalesced (smem_view (sm_item h) (xs @ p # ys))"
    using s by (simp_all add: smem_shape_def ps)
  note C = smem_chainD [OF c] and O = smem_chain_order [OF c]
  let ?v = "smem_view (sm_item h)" and ?n = "it_next (sm_item h p)"
  define q where "q = p + 16 + n"
  have e: "sm_heap_end h = sm_mem_size_aligned h + 16" "sm_heap_end h + 16 \<le> 2 ^ 32"
    "sm_object h = Obj_static" "sm_heap_ptr h AND 3 = 0"
    using C(1) unfolding smem_env_def by blast+
  have d4: "4 dvd n" using unat_align4(4) [OF z] by (simp add: n(1) dvd_eq_mod_eq_0)
  have dq: "4 dvd q" using C(3) [of p] d4 by (simp add: q_def dvd_add)
  have qq: "p + 20 \<le> q" "q + 20 \<le> ?n" using n d4 l by (auto simp: q_def dest: dvd_imp_le)
  have sz: "sub32 (sub32 ?n p) 16 = l - 16" using O(5,6) e(2) l n(3) by simp
  define d where "d = sub32 (sm_used h) (l - 16 - n)"
  have d: "d = sm_used h - (l - 16 - n)"
    using used_bytes_le [OF C(2)] u l e(2) unfolding us d_def by simp
  define h1 where "h1 = smem_split p q (h\<lparr>sm_used := d\<rparr>)"
  define h2 where "h2 = (if q < sm_lfree h1 then h1\<lparr>sm_lfree := q\<rparr> else h1)"
  have c1: "smem_chain (h\<lparr>sm_used := d\<rparr>) (xs @ p # ys)" using c by simp
  have K: "smem_chain h1 (xs @ p # q # ys)"
    "smem_view (sm_item h1) (xs @ p # q # ys) = ?v xs @ (p, q - p, True) # (q, ?n - q, False) # ?v ys"
    using smem_cut [OF c1 qq(1) _ dq, folded h1_def] qq(2) u by simp_all
  have pq: "p \<noteq> q" "?n \<noteq> p" using qq by simp_all
  note M = smem_split_item [of p q "h\<lparr>sm_used := d\<rparr>", folded h1_def, simplified, OF pq]
  have c2: "smem_chain h2 ((xs @ [p]) @ q # ys)" using K(1) by (simp add: h2_def)
  have v2: "smem_view (sm_item h2) ((xs @ [p]) @ q # ys) = (?v xs @ [(p, q - p, True)]) @ (q, ?n - q, False) # ?v ys"
    using K(2) by (simp add: h2_def)
  have F: "sm_lfree h2 = min q (sm_lfree h)" "sm_heap_end h2 = sm_heap_end h" "sm_data h2 = sm_data h"
    "sm_used h2 = sm_used h - (l - 16 - n)"
    "sm_heap_ptr h2 = sm_heap_ptr h" "sm_mem_size_aligned h2 = sm_mem_size_aligned h"
    by (auto simp: h2_def M d)
  have vx: "smem_view (sm_item h2) (xs @ [p]) = ?v xs @ [(p, q - p, True)]"
    and vq: "smem_view (sm_item h2) (q # ys) = (q, ?n - q, False) # ?v ys"
    using v2 by (simp_all add: smem_view_def)
  have uq: "\<not> MEM_ISUSED (sm_item h2 q)" using vq by simp
  have k1: "coalesced (smem_view (sm_item h2) (xs @ [p]))"
    unfolding vx using co u by (auto simp: coalesced_append)
  have k2: "coalesced (smem_view (sm_item h2) ys)"
    using vq co by (auto simp: coalesced_append coalesced_Cons)
  have f2: "sm_lfree h2 = first_free (smem_view (sm_item h2) ((xs @ [p]) @ q # ys)) (sm_heap_end h2)"
    using first_free_used_or_free [of "sm_item h" xs]
  proof (elim disjE bexE)
    assume a: "\<forall>x. first_free (?v xs) x = x"
    have "first_free (?v ys) (sm_heap_end h) \<in> insert (sm_heap_end h) (set ys)" by (rule first_free_view)
    then have "q \<le> first_free (?v ys) (sm_heap_end h)" using O(4,6) qq(2) by fastforce
    then show ?thesis unfolding F v2 f using a u by (simp add: first_free_append)
  next
    fix c assume a: "c \<in> set xs" "\<forall>x. first_free (?v xs) x = c"
    then have "c < q" using O(1) qq(1) by fastforce
    then show ?thesis unfolding F v2 f using a by (simp add: first_free_append)
  qed
  have n2: "sm_used h2 = used_bytes (smem_view (sm_item h2) ((xs @ [p]) @ q # ys))"
    unfolding F v2 us using u l n(3) by (simp add: q_def)
  from plug_holes_ok [OF c2 uq k1 k2 f2 n2] obtain g where
    g: "plug_holes q h2 = Some g" "smem_wf g"
      "smem_blocks g = join_free (smem_view (sm_item h2) ((xs @ [p]) @ q # ys))" "sm_data g = sm_data h2"
      "sm_heap_ptr g = sm_heap_ptr h2" "sm_mem_size_aligned g = sm_mem_size_aligned h2"
    by metis
  have bl: "smem_blocks g = join_free (shrink p n (smem_blocks h))"
  proof -
    have "p \<notin> set xs" "p \<notin> set ys" using O(1,2) by blast+
    then have "shrink p n (?v (xs @ p # ys)) = ?v xs @ (p, n + 16, True) # (q, l - (n + 16), False) # ?v ys"
      using u by (simp add: shrink_view q_def l)
    moreover have "q - p = n + 16" "?n - q = l - (n + 16)" by (simp_all add: q_def l)
    ultimately show ?thesis unfolding g(3) v2 smem_chain_blocks [OF c] by simp
  qed
  have al: "(sm_heap_ptr h + of_nat (p + 16)) AND 3 = 0"
    using C(3) [of p] by (intro word_add_and_3 [OF e(4)]) simp
  have nl: "n \<le> sm_mem_size_aligned h" using n(3) l O(6) e(1) by simp
  have pe: "p + 16 < sm_heap_end h" using O(5,6) by simp
  have md: "(n + 16 + 12) mod 2 ^ 32 = n + 28" using nl e by simp
  have "rt_smem_realloc (Some (p + 16)) newsize h = Some (Some (p + 16), g)"
    using nl n(2,3) al pe g(1) [unfolded h2_def]
    by (simp add: rt_smem_realloc_def Let_def e(3) SIZEOF_STRUCT_MEM_def MIN_SIZE_ALIGNED_def
        n(1) [symmetric] sz md [simplified] d_def [symmetric, simplified] flip: q_def h1_def split: if_splits)
  then show ?thesis by (rule that [OF _ g(2) bl]) (simp_all add: g F)
qed

text \<open>
  The contract of a change of size: the caller's bytes, as many as both sizes hold, are at the place
  that is returned, the other blocks in use keep their place and their bytes, and a heap that has no
  room is left as it was.
\<close>

lemma rt_smem_realloc_ok:
  assumes w: "smem_wf h" and b: "(p, l, True) \<in> set (smem_blocks h)"
    and z: "0 < newsize" "newsize \<le> 0xfffffffc"
  shows "\<exists>res g. rt_smem_realloc (Some (p + 16)) newsize h = Some (res, g) \<and> smem_wf g \<and>
    sm_heap_ptr g = sm_heap_ptr h \<and> sm_mem_size_aligned g = sm_mem_size_aligned h \<and>
    (case res of
       None \<Rightarrow> g = h \<and> first_fit (smem_request newsize) (smem_blocks h) = None
     | Some r \<Rightarrow> \<exists>q m. r = q + 16 \<and> (q, m, True) \<in> set (smem_blocks g) \<and> unat newsize + 16 \<le> m
         \<and> (\<forall>i < min (l - 16) (unat newsize). sm_data g (r + i) = sm_data h (p + 16 + i))
         \<and> (\<forall>a k. (a, k, True) \<in> set (smem_blocks h) \<and> a \<noteq> p \<longrightarrow> (a, k, True) \<in> set (smem_blocks g)
              \<and> (\<forall>i < k - 16. sm_data g (a + 16 + i) = sm_data h (a + 16 + i))))"
proof -
  note R = smem_request_ok [OF z(2)] and A = unat_align4 [OF z(2)]
  define n where "n = unat (rt_align4 newsize)"
  have n0: "0 < n" using A(2) z(1) by (simp add: n_def word_less_nat_alt)
  have nz: "unat newsize \<le> n" using A(2) by (simp add: n_def)
  have w4: "of_nat n = rt_align4 newsize" by (simp add: n_def)
  have a4: "rt_align4 (rt_align4 newsize) = rt_align4 newsize"
    by (rule align4_id(2)) (use A(4) in \<open>simp add: dvd_eq_mod_eq_0\<close>)
  have rq: "smem_request (rt_align4 newsize) = smem_request newsize" by (simp add: smem_request_def a4)
  have env: "smem_env h" using smem_wf_shape [OF w] by metis
  have e: "sm_object h = Obj_static" "sm_heap_end h = sm_mem_size_aligned h + 16" "sm_heap_end h < 2 ^ 32"
    using env smem_env_le unfolding smem_env_def by blast+
  note B = smem_block_bounds [OF w b]
  have l: "it_next (sm_item h p) = p + l"
  proof -
    obtain ps where "smem_chain h ps" using smem_wf_shape [OF w] by metis
    from smem_block_at [OF this b] smem_chain_order(5) show ?thesis using \<open>smem_chain h ps\<close>
      by (metis add_leD1 le_add_diff_inverse)
  qed
  have sz: "sub32 (sub32 (it_next (sm_item h p)) p) 16 = l - 16" using B(1,2) e(3) by (simp add: l)
  have al: "(sm_heap_ptr h + of_nat (p + 16)) AND 3 = 0" by (rule B(4))
  have pe: "p + 16 < sm_heap_end h" using B(1,2) by simp
  note unf = rt_smem_realloc_def Let_def e(1) SIZEOF_STRUCT_MEM_def MIN_SIZE_ALIGNED_def n_def [symmetric] sz w4
  consider (big) "sm_mem_size_aligned h < n" | (same) "n \<le> sm_mem_size_aligned h" "l - 16 = n"
    | (less) "n + 28 < l - 16"
    | (move) "n \<le> sm_mem_size_aligned h" "l - 16 \<noteq> n" "\<not> n + 28 < l - 16" by linarith
  then show ?thesis
  proof cases
    case big
    then have "first_fit (smem_request newsize) (smem_blocks h) = None"
      by (intro first_fit_too_large [OF w]) (use R(4) in \<open>simp add: n_def\<close>)
    then show ?thesis using big w by (intro exI [where x = None] exI [where x = h]) (simp add: unf)
  next
    case same
    then have "rt_smem_realloc (Some (p + 16)) newsize h = Some (Some (p + 16), h)"
      using n0 al pe by (simp add: unf)
    then show ?thesis using same w b B(1) nz
      by (intro exI [where x = "Some (p + 16)"] exI [where x = h]) auto
  next
    case less
    from realloc_shrinks [OF w b z(2) n_def n0 less] obtain g where
      g: "rt_smem_realloc (Some (p + 16)) newsize h = Some (Some (p + 16), g)" "smem_wf g"
      "smem_blocks g = join_free (shrink p n (smem_blocks h))" "sm_data g = sm_data h"
      "sm_heap_ptr g = sm_heap_ptr h" "sm_mem_size_aligned g = sm_mem_size_aligned h" by metis
    have "(p, n + 16, True) \<in> set (smem_blocks g)"
      "(a, k, True) \<in> set (smem_blocks h) \<Longrightarrow> a \<noteq> p \<Longrightarrow> (a, k, True) \<in> set (smem_blocks g)" for a k
      using shrink_used(1) [OF b] shrink_used(2) unfolding g(3) join_free_used by blast+
    with g nz show ?thesis
      by (intro exI [where x = "Some (p + 16)"] exI [where x = g]) (auto intro!: exI [where x = "n + 16"])
  next
    case move
    let ?bs = "smem_blocks h" and ?k = "if l - 16 < n then l - 16 else n"
    have md: "(n + 16 + 12) mod 2 ^ 32 = n + 28" using move(1) e(2,3) env by (simp add: smem_env_def)
    have re: "rt_smem_realloc (Some (p + 16)) newsize h = do {
       (nmem, h) \<leftarrow> rt_smem_alloc (rt_align4 newsize) h;
       (case nmem of
          None \<Rightarrow> Some (None, h)
        | Some q \<Rightarrow> do {
            h \<leftarrow> rt_smem_free (Some (p + 16)) (smem_copy q (p + 16) ?k h);
            Some (Some q, h) }) }"
      unfolding unf option.case add_diff_cancel_right' sz using move n0 al pe md by simp
    have pos: "0 < rt_align4 newsize" "rt_align4 newsize \<le> 0xfffffffc"
      using n0 A(4) by (simp_all add: n_def word_less_nat_alt align4_max dvd_eq_mod_eq_0)
    note AL = rt_smem_alloc_ok [OF w pos, unfolded rq]
    show ?thesis
    proof (cases "first_fit (smem_request newsize) ?bs")
      case None
      with AL re w show ?thesis by (intro exI [where x = None] exI [where x = h]) simp
    next
      case (Some x)
      then obtain q bs' where ff: "first_fit (smem_request newsize) ?bs = Some (q, bs')" by (cases x) auto
      from AL [unfolded ff] obtain h1 where
        h1: "rt_smem_alloc (rt_align4 newsize) h = Some (Some (q + 16), h1)" "smem_wf h1" "smem_blocks h1 = bs'"
        "sm_data h1 = sm_data h" "sm_heap_ptr h1 = sm_heap_ptr h"
        "sm_mem_size_aligned h1 = sm_mem_size_aligned h" by auto
      from first_fit_blocks [OF ff] obtain lq m where
        q: "(q, lq, False) \<in> set ?bs" "(q, m, True) \<in> set bs'" "smem_request newsize + 16 \<le> m"
        "\<And>b. b \<in> set ?bs \<Longrightarrow> b \<noteq> (q, lq, False) \<Longrightarrow> b \<in> set bs'" by metis
      define h2 where "h2 = smem_copy (q + 16) (p + 16) ?k h1"
      have h2: "smem_wf h2" "smem_blocks h2 = bs'" by (simp_all add: h2_def h1)
      have pq: "p \<noteq> q" using smem_block_unique(2) [OF w b] q(1) by blast
      have b2: "(p, l, True) \<in> set (smem_blocks h2)" unfolding h2 by (rule q(4) [OF b]) simp
      from rt_smem_free_ok [OF h2(1) b2] obtain g where
        g: "rt_smem_free (Some (p + 16)) h2 = Some g" "smem_wf g" "smem_blocks g = join_free (mark_free p bs')"
        "sm_data g = sm_data h2" "sm_heap_ptr g = sm_heap_ptr h2"
        "sm_mem_size_aligned g = sm_mem_size_aligned h2" unfolding h2(2) by metis
      have same: "sm_heap_ptr g = sm_heap_ptr h" "sm_mem_size_aligned g = sm_mem_size_aligned h"
        by (simp_all add: g h2_def smem_copy_def h1)
      have res: "rt_smem_realloc (Some (p + 16)) newsize h = Some (Some (q + 16), g)"
        by (simp add: re h1 h2_def [symmetric] g(1) del: if_split)
      have in_g: "(a, k, True) \<in> set (smem_blocks g)" if "(a, k, True) \<in> set bs'" "a \<noteq> p" for a k
        using that unfolding g(3) join_free_used mark_free_used by simp
      have kk: "?k + 16 \<le> m" using q(3) R(4) by (simp add: n_def)
      have new: "sm_data g (q + 16 + i) = sm_data h (p + 16 + i)" if "i < min (l - 16) (unat newsize)" for i
        using that nz unfolding g(4) h2_def h1(4) [symmetric] by (intro smem_copy_data(1)) auto
      have old: "(a, k, True) \<in> set (smem_blocks g)"
        "i < k - 16 \<Longrightarrow> sm_data g (a + 16 + i) = sm_data h (a + 16 + i)"
        if a: "(a, k, True) \<in> set ?bs" "a \<noteq> p" for a k i
      proof -
        have a1: "(a, k, True) \<in> set bs'" by (rule q(4) [OF a(1)]) simp
        then show "(a, k, True) \<in> set (smem_blocks g)" using a(2) by (rule in_g)
        have "a \<noteq> q" using smem_block_unique(2) [OF w a(1)] q(1) by blast
        then have "a + k \<le> q \<or> q + m \<le> a"
          using smem_blocks_disjoint [OF h1(2)] a1 q(2) unfolding h1(3) by blast
        then show "sm_data g (a + 16 + i) = sm_data h (a + 16 + i)" if "i < k - 16"
          using that kk unfolding g(4) h2_def h1(4) [symmetric] by (intro smem_copy_data(2)) linarith
      qed
      have mq: "unat newsize + 16 \<le> m" using q(3) R(3) by linarith
      from res g(2) in_g [OF q(2)] pq mq new old same show ?thesis
        by (intro exI [where x = "Some (q + 16)"] exI [where x = g]) auto
    qed
  qed
qed

section \<open>Programs on the heap\<close>

text \<open>
  A program that uses the heap as it may: sizes below \<^verbatim>\<open>0xfffffffd\<close> (above, the rounding wraps),
  and it gives back only what it was given. It can also write to the heap's bytes.
\<close>

inductive heap_step :: "small_mem \<Rightarrow> small_mem \<Rightarrow> bool" where
  alloc: "sz \<le> 0xfffffffc \<Longrightarrow> rt_smem_alloc sz h = Some (r, g) \<Longrightarrow> heap_step h g"
| free: "(p, l, True) \<in> set (smem_blocks h) \<Longrightarrow> rt_smem_free (Some (p + 16)) h = Some g \<Longrightarrow> heap_step h g"
| realloc: "(p, l, True) \<in> set (smem_blocks h) \<Longrightarrow> newsize \<le> 0xfffffffc
    \<Longrightarrow> rt_smem_realloc (Some (p + 16)) newsize h = Some (r, g) \<Longrightarrow> heap_step h g"
| realloc_new: "newsize \<le> 0xfffffffc \<Longrightarrow> rt_smem_realloc None newsize h = Some (r, g) \<Longrightarrow> heap_step h g"
| store: "heap_step h (h\<lparr>sm_data := d\<rparr>)"

definition heap_ok :: "u32 \<Rightarrow> u32 \<Rightarrow> small_mem \<Rightarrow> bool" where
  "heap_ok b sz h \<longleftrightarrow> smem_wf h \<and> unat b + 64 \<le> unat (sm_heap_ptr h)
     \<and> unat (sm_heap_ptr h) + sm_heap_end h + 16 \<le> unat b + unat sz"

lemma smem_wf_object: "smem_wf h \<Longrightarrow> sm_object h = Obj_static"
  using smem_wf_shape smem_env_def by metis

lemma smem_wf_end: "smem_wf h \<Longrightarrow> sm_heap_end h = sm_mem_size_aligned h + 16"
  using smem_wf_shape smem_env_def by metis

lemma rt_smem_alloc_returns:
  assumes "smem_wf h" "sz \<le> 0xfffffffc"
  shows "\<exists>r g. rt_smem_alloc sz h = Some (r, g)"
proof (cases "sz = 0")
  case True
  then show ?thesis by (simp add: rt_smem_alloc_def)
next
  case False
  then have "0 < sz" by (simp add: word_gt_0)
  from rt_smem_alloc_ok [OF assms(1) this assms(2)] show ?thesis by (force split: option.splits)
qed

lemma rt_smem_alloc_keeps:
  assumes "smem_wf h" "sz \<le> 0xfffffffc" "rt_smem_alloc sz h = Some (r, g)"
  shows "smem_wf g \<and> sm_heap_ptr g = sm_heap_ptr h \<and> sm_mem_size_aligned g = sm_mem_size_aligned h"
proof (cases "sz = 0")
  case True
  then show ?thesis using assms by (simp add: rt_smem_alloc_def)
next
  case False
  then have "0 < sz" by (simp add: word_gt_0)
  from rt_smem_alloc_ok [OF assms(1) this assms(2)] assms(1,3) show ?thesis by (auto split: option.splits)
qed

lemma rt_smem_realloc_zero:
  assumes "smem_wf h"
  shows "rt_smem_realloc r 0 h = do { h \<leftarrow> rt_smem_free r h; Some (None, h) }"
  using smem_wf_object [OF assms] by (simp add: rt_smem_realloc_def rt_align4_def Let_def)

lemma rt_smem_realloc_null:
  assumes "smem_wf h" "newsize \<noteq> 0" "newsize \<le> 0xfffffffc"
  shows "rt_smem_realloc None newsize h =
    (if sm_mem_size_aligned h < unat (rt_align4 newsize) then Some (None, h)
     else rt_smem_alloc (rt_align4 newsize) h)"
  using smem_wf_object [OF assms(1)] unat_align4(2) [OF assms(3)] assms(2)
  by (auto simp: rt_smem_realloc_def Let_def unat_eq_zero)


lemma rt_smem_free_keeps:
  assumes "smem_wf h" "(p, l, True) \<in> set (smem_blocks h)"
  shows "\<exists>g. rt_smem_free (Some (p + 16)) h = Some g \<and> smem_wf g \<and> sm_heap_ptr g = sm_heap_ptr h
    \<and> sm_mem_size_aligned g = sm_mem_size_aligned h"
  using rt_smem_free_ok [OF assms] by metis

lemma rt_smem_realloc_keeps:
  assumes w: "smem_wf h" and b: "(p, l, True) \<in> set (smem_blocks h)" and n: "newsize \<le> 0xfffffffc"
  shows "\<exists>r g. rt_smem_realloc (Some (p + 16)) newsize h = Some (r, g) \<and> smem_wf g \<and> sm_heap_ptr g = sm_heap_ptr h
    \<and> sm_mem_size_aligned g = sm_mem_size_aligned h"
proof (cases "newsize = 0")
  case True
  with rt_smem_free_keeps [OF w b] rt_smem_realloc_zero [OF w] show ?thesis by auto
next
  case False
  then have "0 < newsize" by (simp add: word_gt_0)
  from rt_smem_realloc_ok [OF w b this n] show ?thesis by blast
qed

lemma rt_smem_realloc_null_keeps:
  assumes w: "smem_wf h" and n: "newsize \<le> 0xfffffffc"
  shows "\<exists>r g. rt_smem_realloc None newsize h = Some (r, g) \<and> smem_wf g \<and> sm_heap_ptr g = sm_heap_ptr h
    \<and> sm_mem_size_aligned g = sm_mem_size_aligned h"
proof (cases "newsize = 0")
  case True
  with rt_smem_realloc_zero [OF w] w show ?thesis by (simp add: rt_smem_free_def)
next
  case False
  have a: "rt_align4 newsize \<le> 0xfffffffc"
    by (rule align4_max) (use unat_align4(4) [OF n] in \<open>simp add: dvd_eq_mod_eq_0\<close>)
  from rt_smem_realloc_null [OF w False n] rt_smem_alloc_returns [OF w a] rt_smem_alloc_keeps [OF w a] w
  show ?thesis by (cases "sm_mem_size_aligned h < unat (rt_align4 newsize)") auto
qed

lemma heap_step_ok:
  assumes "heap_step h g" "heap_ok b sz h"
  shows "heap_ok b sz g"
proof -
  have w: "smem_wf h" using assms(2) by (simp add: heap_ok_def)
  have "smem_wf g \<and> sm_heap_ptr g = sm_heap_ptr h \<and> sm_mem_size_aligned g = sm_mem_size_aligned h"
    using assms(1)
  proof cases
    case (alloc n r)
    with rt_smem_alloc_keeps [OF w] show ?thesis by blast
  next
    case (free p l)
    with rt_smem_free_keeps [OF w] show ?thesis by fastforce
  next
    case (realloc p l n r)
    with rt_smem_realloc_keeps [OF w] show ?thesis by fastforce
  next
    case (realloc_new n r)
    with rt_smem_realloc_null_keeps [OF w] show ?thesis by fastforce
  next
    case (store d)
    then show ?thesis using w by (simp add: smem_wf_def smem_shape_def)
  qed
  with assms(2) smem_wf_end [OF w] show ?thesis by (auto simp: heap_ok_def dest: smem_wf_end)
qed

lemma heap_steps_ok: "heap_step\<^sup>*\<^sup>* h g \<Longrightarrow> heap_ok b sz h \<Longrightarrow> heap_ok b sz g"
  by (induction rule: rtranclp_induct) (auto intro: heap_step_ok)

section \<open>Allocation and release\<close>

lemma smem_blocks_distinct: "smem_wf h \<Longrightarrow> distinct (map fst (smem_blocks h))"
proof -
  assume "smem_wf h"
  then obtain ps where ps: "smem_blocks h = smem_view (sm_item h) ps"
    "smem_seg (sm_item h) 0 0 ps (sm_heap_end h)" by (rule smem_wf_shape)
  have "distinct xs" if "smem_seg it pv p xs e" for it pv p xs e
    using that
  proof (induction it pv p xs e rule: smem_seg.induct)
    case (2 it pv p q ps e)
    have "x \<noteq> q" if "x \<in> set ps" for x using smem_seg_bounds [of it p "it_next (it q)" ps e x] 2(2) that by auto
    then show ?case using 2 by auto
  qed simp
  with ps show ?thesis by (simp add: smem_view_def comp_def)
qed

lemma smem_blocks_coalesced: "smem_wf h \<Longrightarrow> coalesced (smem_blocks h)"
  by (auto simp: smem_wf_def smem_shape_def smem_chain_blocks)

lemma alloc_then_free:
  assumes w: "smem_wf h" and z: "0 < sz" "sz \<le> 0xfffffffc" and a: "rt_smem_alloc sz h = Some (Some r, g)"
  shows "\<exists>h'. rt_smem_free (Some r) g = Some h' \<and> smem_wf h' \<and> smem_blocks h' = smem_blocks h
    \<and> sm_used h' = sm_used h \<and> sm_data h' = sm_data h"
proof -
  from rt_smem_alloc_ok [OF w z] a obtain p where
    ff: "first_fit (smem_request sz) (smem_blocks h) = Some (p, smem_blocks g)" and
    g: "r = p + 16" "smem_wf g" "sm_data g = sm_data h" by (auto split: option.splits)
  from first_fit_blocks [OF ff] obtain m where m: "(p, m, True) \<in> set (smem_blocks g)" by metis
  from rt_smem_free_ok [OF g(2) m] obtain h' where
    h': "rt_smem_free (Some (p + 16)) g = Some h'" "smem_wf h'"
      "smem_blocks h' = join_free (mark_free p (smem_blocks g))" "sm_data h' = sm_data g" by metis
  have b: "smem_blocks h' = smem_blocks h"
    unfolding h'(3) by (rule first_fit_release [OF ff smem_blocks_coalesced [OF w] smem_blocks_distinct [OF w]])
  have u: "sm_used k = used_bytes (smem_blocks k)" if "smem_wf k" for k
    using that by (auto simp: smem_wf_def smem_shape_def smem_chain_blocks)
  show ?thesis using h' g b u [OF w] u [OF h'(2)] by simp
qed

end
