(* ===== verification/Rtt_Malloc.thy ===== *)
theory Rtt_Malloc
  imports Rtt_Heap Rtt_Mutex Rtt_Clock
begin

unbundle bit_operations_syntax

text \<open>
  The heap's front end in \<^verbatim>\<open>src/kservice.c\<close>: every call holds the mutex \<^verbatim>\<open>_lock\<close> while it is in the
  small memory algorithm, unless no thread runs yet. \<open>m\<close> names the mutex. A caller that has to wait for
  it continues in the \<open>_resume\<close> part. Memory is named by its offset in the heap; where the C computes
  with addresses, so does the model.
\<close>

section \<open>The lock\<close>

record heap_sys =
  hs_kernel :: kernel
  hs_heap :: "small_mem option"

definition heap_lock :: "nat \<Rightarrow> kernel \<Rightarrow> ((tid, rt_err) outcome \<times> kernel) option" where
  "heap_lock m k =
     (if rt_thread_self k \<noteq> None then rt_mutex_take m RT_WAITING_FOREVER k
      else Some (Returned RT_EOK, k))"

definition heap_unlock :: "nat \<Rightarrow> rt_err \<Rightarrow> kernel \<Rightarrow> kernel option" where
  "heap_unlock m level k = do {
     rt_assert (level = RT_EOK);
     (if rt_thread_self k \<noteq> None then map_option snd (rt_mutex_release m k) else Some k) }"

text \<open>What runs between lock and unlock; \<^verbatim>\<open>system_heap\<close> is \<^verbatim>\<open>RT_NULL\<close> if its initialisation failed.\<close>

definition heap_locked ::
    "nat \<Rightarrow> (small_mem \<Rightarrow> ('a \<times> small_mem) option) \<Rightarrow> rt_err \<Rightarrow> heap_sys \<Rightarrow> ('a \<times> heap_sys) option" where
  "heap_locked m f level s = do {
     h \<leftarrow> hs_heap s;
     (r, h) \<leftarrow> f h;
     k \<leftarrow> heap_unlock m level (hs_kernel s);
     Some (r, \<lparr>hs_kernel = k, hs_heap = Some h\<rparr>) }"

definition heap_call ::
    "nat \<Rightarrow> (small_mem \<Rightarrow> ('a \<times> small_mem) option) \<Rightarrow> heap_sys \<Rightarrow> ((tid, 'a) outcome \<times> heap_sys) option" where
  "heap_call m f s = do {
     (res, k) \<leftarrow> heap_lock m (hs_kernel s);
     let s = s\<lparr>hs_kernel := k\<rparr>;
     (case res of
        Waiting t \<Rightarrow> Some (Waiting t, s)
      | Returned level \<Rightarrow> do { (r, s) \<leftarrow> heap_locked m f level s; Some (Returned r, s) }) }"

definition heap_call_resume ::
    "nat \<Rightarrow> (small_mem \<Rightarrow> ('a \<times> small_mem) option) \<Rightarrow> tid \<Rightarrow> heap_sys \<Rightarrow> ('a \<times> heap_sys) option" where
  "heap_call_resume m f t s = heap_locked m f (rt_mutex_take_resume t (hs_kernel s)) s"

section \<open>The operations\<close>

definition rt_system_heap_init :: "nat \<Rightarrow> u32 \<Rightarrow> u32 \<Rightarrow> (nat \<Rightarrow> u8) \<Rightarrow> kernel \<Rightarrow> heap_sys option" where
  "rt_system_heap_init m begin_addr end_addr bytes k =
     (let begin_align = rt_align4 begin_addr;
          end_align = rt_align4_down end_addr
      in do {
        rt_assert (begin_align < end_align);
        Some \<lparr>hs_kernel = snd (rt_mutex_init m RT_IPC_FLAG_PRIO k),
              hs_heap = rt_smem_init begin_addr (end_align - begin_align) bytes\<rparr> })"

definition rt_malloc :: "nat \<Rightarrow> u32 \<Rightarrow> heap_sys \<Rightarrow> ((tid, nat option) outcome \<times> heap_sys) option" where
  "rt_malloc m sz = heap_call m (rt_smem_alloc sz)"

definition rt_malloc_resume :: "nat \<Rightarrow> u32 \<Rightarrow> tid \<Rightarrow> heap_sys \<Rightarrow> (nat option \<times> heap_sys) option" where
  "rt_malloc_resume m sz = heap_call_resume m (rt_smem_alloc sz)"

definition rt_realloc ::
    "nat \<Rightarrow> nat option \<Rightarrow> u32 \<Rightarrow> heap_sys \<Rightarrow> ((tid, nat option) outcome \<times> heap_sys) option" where
  "rt_realloc m rmem newsize = heap_call m (rt_smem_realloc rmem newsize)"

definition rt_free :: "nat \<Rightarrow> nat option \<Rightarrow> heap_sys \<Rightarrow> ((tid, unit) outcome \<times> heap_sys) option" where
  "rt_free m rmem = heap_call m (\<lambda>h. map_option (\<lambda>h. ((), h)) (rt_smem_free rmem h))"

definition rt_memory_info :: "nat \<Rightarrow> heap_sys \<Rightarrow> ((tid, nat \<times> nat \<times> nat) outcome \<times> heap_sys) option" where
  "rt_memory_info m = heap_call m (\<lambda>h. Some ((sm_total h, sm_used h, sm_max h), h))"

text \<open>\<^verbatim>\<open>rt_memset(p, 0, n)\<close>.\<close>

definition smem_zero :: "nat \<Rightarrow> nat \<Rightarrow> small_mem \<Rightarrow> small_mem" where
  "smem_zero p n h = h\<lparr>sm_data := (\<lambda>i. if p \<le> i \<and> i < p + n then 0 else sm_data h i)\<rparr>"

definition calloc_finish :: "u32 \<Rightarrow> nat option \<Rightarrow> heap_sys \<Rightarrow> heap_sys" where
  "calloc_finish n p s =
     (case p of None \<Rightarrow> s
      | Some p \<Rightarrow> s\<lparr>hs_heap := map_option (smem_zero p (unat n)) (hs_heap s)\<rparr>)"

definition rt_calloc :: "nat \<Rightarrow> u32 \<Rightarrow> u32 \<Rightarrow> heap_sys \<Rightarrow> ((tid, nat option) outcome \<times> heap_sys) option" where
  "rt_calloc m count sz s = do {
     (res, s) \<leftarrow> rt_malloc m (count * sz) s;
     (case res of
        Waiting t \<Rightarrow> Some (Waiting t, s)
      | Returned p \<Rightarrow> Some (Returned p, calloc_finish (count * sz) p s)) }"

section \<open>Aligned memory\<close>

text \<open>A word in memory, least significant byte first.\<close>

definition store_word :: "nat \<Rightarrow> u32 \<Rightarrow> small_mem \<Rightarrow> small_mem" where
  "store_word p w h = h\<lparr>sm_data := (sm_data h)(p := ucast w, p + 1 := ucast (drop_bit 8 w),
     p + 2 := ucast (drop_bit 16 w), p + 3 := ucast (drop_bit 24 w))\<rparr>"

definition load_word :: "nat \<Rightarrow> small_mem \<Rightarrow> u32" where
  "load_word p h = ucast (sm_data h p) OR push_bit 8 (ucast (sm_data h (p + 1)))
     OR push_bit 16 (ucast (sm_data h (p + 2))) OR push_bit 24 (ucast (sm_data h (p + 3)))"

text \<open>Where \<^verbatim>\<open>rt_malloc_align\<close> puts the aligned memory in what it was given at the address \<open>ptr\<close>.\<close>

definition align_address :: "u32 \<Rightarrow> u32 \<Rightarrow> u32" where
  "align_address align ptr =
     (if ptr AND (align - 1) = 0 then ptr + align
      else (ptr + (align - 1)) AND NOT (align - 1))"

definition malloc_align_finish :: "u32 \<Rightarrow> nat option \<Rightarrow> heap_sys \<Rightarrow> (nat option \<times> heap_sys) option" where
  "malloc_align_finish align p s =
     (case p of None \<Rightarrow> Some (None, s)
      | Some p \<Rightarrow> do {
          h \<leftarrow> hs_heap s;
          let ptr = sm_heap_ptr h + of_nat p;
          let q = unat (align_address align ptr - sm_heap_ptr h);
          rt_assert (4 \<le> q \<and> q \<le> sm_heap_end h);
          Some (Some q, s\<lparr>hs_heap := Some (store_word (q - 4) ptr h)\<rparr>) })"

definition rt_malloc_align ::
    "nat \<Rightarrow> u32 \<Rightarrow> u32 \<Rightarrow> heap_sys \<Rightarrow> ((tid, nat option) outcome \<times> heap_sys) option" where
  "rt_malloc_align m sz align s = do {
     let align = rt_align4 align;
     (res, s) \<leftarrow> rt_malloc m (rt_align4 sz + align) s;
     (case res of
        Waiting t \<Rightarrow> Some (Waiting t, s)
      | Returned p \<Rightarrow> do { (q, s) \<leftarrow> malloc_align_finish align p s; Some (Returned q, s) }) }"

definition rt_free_align :: "nat \<Rightarrow> nat \<Rightarrow> heap_sys \<Rightarrow> ((tid, unit) outcome \<times> heap_sys) option" where
  "rt_free_align m q s = do {
     h \<leftarrow> hs_heap s;
     rt_assert (4 \<le> q);
     rt_free m (Some (unat (load_word (q - 4) h - sm_heap_ptr h))) s }"

section \<open>One thread at a time\<close>

text \<open>The running thread \<open>t\<close> may call the heap, and nobody else does.\<close>

definition heap_lock_free :: "nat \<Rightarrow> tid \<Rightarrow> kernel \<Rightarrow> bool" where
  "heap_lock_free m t k \<longleftrightarrow> rt_current_thread k = Some t \<and> mutex_free (mutexes k m)
     \<and> waitq k (MutexWait m) = [] \<and> mtx_object (mutexes k m) \<noteq> Obj_none
     \<and> rt_interrupt_nest k = 0 \<and> rt_scheduler_lock_nest k = 0"

lemma heap_lock_free_error [simp]: "heap_lock_free m t (upd_thread s (set_error e) k) = heap_lock_free m t k"
  by (simp add: heap_lock_free_def upd_thread_def)

lemma heap_call_free:
  assumes lf: "heap_lock_free m t k" and h: "f h = Some (r, h')"
  shows "heap_call m f \<lparr>hs_kernel = k, hs_heap = Some h\<rparr>
    = Some (Returned r, \<lparr>hs_kernel = upd_thread t (set_error RT_EOK) k, hs_heap = Some h'\<rparr>)"
proof -
  have t: "rt_current_thread k = Some t" and f: "mutex_free (mutexes k m)" "waitq k (MutexWait m) = []"
    and o: "mtx_object (mutexes k m) \<noteq> Obj_none"
    and c: "rt_interrupt_nest k = 0" "rt_scheduler_lock_nest k = 0"
    using lf by (simp_all add: heap_lock_free_def)
  let ?e = "upd_thread t (set_error RT_EOK) k"
  let ?k = "upd_mutex m (\<lambda>x. mutex_hold_inc (mutex_acquire t (thread_prio k t) x)) ?e"
  have e: "thread_prio ?e = thread_prio k" "mutexes ?e = mutexes k" "rt_current_thread ?e = Some t"
    "rt_interrupt_nest ?e = 0" "waitq ?e = waitq k"
    using t c by (simp_all add: upd_thread_def thread_prio_def set_error_def fun_eq_iff)
  have two: "upd_mutex m g (upd_mutex m f k) = upd_mutex m (\<lambda>x. g (f x)) k" for f g k
    by (simp add: upd_mutex_def)
  have take: "rt_mutex_take m RT_WAITING_FOREVER k = Some (Returned RT_EOK, ?k)"
    using t f o c by (simp add: rt_mutex_take_def debug_defs Let_def two mutex_free_def mutex_acquire_def RT_MUTEX_HOLD_MAX_def)
  have id: "upd_mutex m (\<lambda>x. x) ?e = ?e" by (simp add: upd_mutex_def)
  have rel: "rt_mutex_release m ?k = Some (RT_EOK, upd_mutex m (\<lambda>_. mutexes k m) ?e)"
  proof -
    let ?g = "\<lambda>x. x\<lparr>mtx_value := mtx_value x + 1, mtx_owner := None, mtx_original_priority := 0xff\<rparr>"
    let ?h = "\<lambda>x. x\<lparr>mtx_hold := mtx_hold x - 1\<rparr>"
    have "?g (?h (mutex_hold_inc (mutex_acquire t (thread_prio k t) (mutexes k m)))) = mutexes k m"
      using f(1) by (cases "mutexes k m") (simp add: mutex_free_def mutex_hold_inc_def mutex_acquire_def)
    then have bk: "upd_mutex m ?g (upd_mutex m ?h ?k) = upd_mutex m (\<lambda>_. mutexes k m) ?e"
      by (simp add: upd_mutex_def e)
    have "mutex_give_up m (upd_mutex m ?h ?k) = Some (RT_EOK, upd_mutex m ?g (upd_mutex m ?h ?k))"
      using f by (simp add: mutex_give_up_def e mutex_free_def mutex_hold_inc_def mutex_acquire_def
          RT_MUTEX_VALUE_MAX_def)
    moreover have "rt_interrupt_nest (upd_mutex m g ?e) = 0" for g using e(4) by (simp add: upd_mutex_def)
    ultimately show ?thesis
      using f(1) o t by (simp add: rt_mutex_release_def debug_defs e mutex_free_def mutex_hold_inc_def
          mutex_acquire_def Let_def flip: bk)
  qed
  have "upd_mutex m (\<lambda>_. mutexes k m) ?e = ?e" by (simp add: upd_mutex_def e fun_upd_idem)
  with take rel t show ?thesis
    by (simp add: heap_call_def heap_lock_def heap_locked_def heap_unlock_def rt_thread_self_def h e)
qed

lemma heap_call_held:
  assumes k: "kernel_ok k" and i: "mutex_inv k" and t: "rt_current_thread k = Some t" "thread_stat k t = RT_THREAD_RUNNING"
    and o: "mtx_owner (mutexes k m) = Some ow" "ow \<noteq> t"
    and r: "heap_call m f \<lparr>hs_kernel = k, hs_heap = h\<rparr> = Some (res, s)"
  shows "res = Waiting t" "hs_heap s = h" "kernel_ok (hs_kernel s)" "mutex_inv (hs_kernel s)"
    "thread_stat (hs_kernel s) t = RT_THREAD_SUSPEND" "t \<in> set (waitq (hs_kernel s) (MutexWait m))"
    "mutexes (hs_kernel s) = mutexes k"
proof -
  obtain res' k' where r': "rt_mutex_take m RT_WAITING_FOREVER k = Some (res', k')"
    using r t by (auto simp: heap_call_def heap_lock_def rt_thread_self_def bind_eq_Some_conv)
  note M = rt_mutex_take_ok [OF k i r']
  have W: "res' = Waiting t \<and> thread_stat k' t = RT_THREAD_SUSPEND \<and> mutexes k' = mutexes k
     \<and> t \<in> set (waitq k' (MutexWait m))"
    using i r'
  proof (cases rule: rt_mutex_take_cases)
    case (wait u owner k0 k1)
    then have ut: "u = t" "owner = ow" using t o by simp_all
    note W = mutex_wait_ok [OF k t(2) o(2) wait(9-11) [unfolded ut]]
    have "t \<in> set (waitq_enqueue RT_IPC_FLAG_PRIO (thread_prio k0) t (waitq k (MutexWait m)))"
      by simp
    with W wait(6) ut show ?thesis by (simp add: obj_frameD(2))
  qed (use t o in \<open>auto simp: mutex_free_def RT_WAITING_FOREVER_def\<close>)
  then have "res = Waiting t \<and> s = \<lparr>hs_kernel = k', hs_heap = h\<rparr>"
    using r r' t by (auto simp: heap_call_def heap_lock_def rt_thread_self_def)
  with W M t show "res = Waiting t" "hs_heap s = h" "kernel_ok (hs_kernel s)" "mutex_inv (hs_kernel s)"
    "thread_stat (hs_kernel s) t = RT_THREAD_SUSPEND" "t \<in> set (waitq (hs_kernel s) (MutexWait m))"
    "mutexes (hs_kernel s) = mutexes k" by auto
qed


section \<open>Aligned memory\<close>

lemma load_store_word: "load_word p (store_word p w h) = w"
proof -
  have "ucast (ucast w :: u8) OR push_bit 8 (ucast (ucast (drop_bit 8 w) :: u8))
     OR push_bit 16 (ucast (ucast (drop_bit 16 w) :: u8)) OR push_bit 24 (ucast (ucast (drop_bit 24 w) :: u8)) = (w :: u32)"
  proof (rule bit_eqI)
    fix n
    have e: "m \<le> n \<Longrightarrow> m + (n - m) = n" for m :: nat by simp
    assume "possible_bit TYPE(u32) n"
    then have n: "n < 32" by simp
    consider "n < 8" | "8 \<le> n" "n < 16" | "16 \<le> n" "n < 24" | "24 \<le> n" by linarith
    then show "bit (ucast (ucast w :: u8) OR push_bit 8 (ucast (ucast (drop_bit 8 w) :: u8))
     OR push_bit 16 (ucast (ucast (drop_bit 16 w) :: u8)) OR push_bit 24 (ucast (ucast (drop_bit 24 w) :: u8)) :: u32) n = bit w n"
      using n by cases (auto simp: bit_simps e)
  qed
  then show ?thesis by (simp add: load_word_def store_word_def)
qed

lemma store_word_other: "i < p \<or> p + 4 \<le> i \<Longrightarrow> sm_data (store_word p w h) i = sm_data h i"
  by (auto simp: store_word_def)

lemma store_word_simps [simp]:
  "smem_wf (store_word p w h) = smem_wf h" "smem_blocks (store_word p w h) = smem_blocks h"
  "sm_heap_ptr (store_word p w h) = sm_heap_ptr h" "sm_heap_end (store_word p w h) = sm_heap_end h"
  by (simp_all add: store_word_def smem_wf_def smem_shape_def)

lemma unat_and_mask: "unat (w AND (2 ^ j - 1) :: u32) = unat w mod 2 ^ j"
proof -
  have "w AND (2 ^ j - 1) = take_bit j w" by (simp add: take_bit_eq_mask mask_eq_exp_minus_1)
  moreover have "unat (take_bit j w) = take_bit j (unat w)" by (rule unsigned_take_bit_eq)
  moreover have "take_bit j (unat w) = unat w mod 2 ^ j" by (rule take_bit_eq_mod)
  ultimately show ?thesis by metis
qed

lemma unat_and_not_mask: "unat (w AND NOT (2 ^ j - 1) :: u32) = unat w div 2 ^ j * 2 ^ j"
proof -
  have m: "2 ^ j - 1 = (mask j :: u32)" by (simp add: mask_eq_exp_minus_1)
  have s: "j + (n - j) = n" if "j \<le> n" for n using that by simp
  have "w AND NOT (mask j) = push_bit j (drop_bit j w)"
    by (rule bit_eqI) (auto simp: bit_simps not_less s)
  moreover have "w AND mask j = take_bit j w" by (simp add: take_bit_eq_mask)
  ultimately have "w = (w AND NOT (2 ^ j - 1)) + (w AND (2 ^ j - 1))" unfolding m by (metis bits_ident)
  then have "w AND NOT (2 ^ j - 1) = w - (w AND (2 ^ j - 1))" by (metis add_diff_cancel_right')
  moreover have "w AND (2 ^ j - 1) \<le> w" by (simp add: word_le_nat_alt unat_and_mask)
  ultimately have "unat (w AND NOT (2 ^ j - 1)) = unat w - unat (w AND (2 ^ j - 1))"
    by (metis unat_sub)
  then have "unat (w AND NOT (2 ^ j - 1)) = unat w - unat w mod 2 ^ j" by (simp add: unat_and_mask)
  then show ?thesis by (simp add: minus_mod_eq_div_mult)
qed

lemma unat_exp:
  assumes "j < 32"
  shows "unat (2 ^ j :: u32) = 2 ^ j"
proof -
  have "take_bit LENGTH(32) (2 ^ j) = (2 ^ j :: nat)" using assms by (simp add: take_bit_of_exp)
  moreover have "unat (of_nat (2 ^ j) :: u32) = take_bit LENGTH(32) (2 ^ j)" by (simp only: unsigned_of_nat of_nat_id)
  moreover have "(of_nat (2 ^ j) :: u32) = 2 ^ j" by simp
  ultimately show ?thesis by metis
qed

text \<open>The aligned address is behind the word that remembers the block, and no further than \<open>align\<close>.\<close>

lemma align_address_ok:
  assumes j: "2 \<le> j" "j < 32" and p: "4 dvd unat ptr" and fit: "unat ptr + 2 ^ j < 2 ^ 32"
  shows "unat ptr + 4 \<le> unat (align_address (2 ^ j) ptr)" "unat (align_address (2 ^ j) ptr) \<le> unat ptr + 2 ^ j"
    "2 ^ j dvd unat (align_address (2 ^ j) ptr)" "4 dvd unat (align_address (2 ^ j) ptr)"
proof -
  let ?a = "unat (align_address (2 ^ j) ptr)" and ?p = "unat ptr" and ?n = "2 ^ j :: nat"
  have n: "4 dvd ?n" using le_imp_power_dvd [OF j(1), of "2 :: nat"] by simp
  have u: "unat (2 ^ j :: u32) = ?n" by (rule unat_exp [OF j(2)])
  have A: "?p + 4 \<le> ?a \<and> ?a \<le> ?p + ?n \<and> ?n dvd ?a"
  proof (cases "?p mod ?n = 0")
    case True
    then have "ptr AND (2 ^ j - 1) = 0" by (metis unat_and_mask unsigned_0 unsigned_word_eqI)
    then have "?a = ?p + ?n" using fit u by (simp add: align_address_def unat_word_ariths)
    moreover have "4 \<le> ?n" using n by (auto dest: dvd_imp_le)
    ultimately show ?thesis using True by (simp add: dvd_eq_mod_eq_0)
  next
    case False
    then have "ptr AND (2 ^ j - 1) \<noteq> 0" by (metis unat_and_mask unsigned_0)
    moreover have "unat (ptr + (2 ^ j - 1)) = ?p + (?n - 1)"
    proof -
      have "(1 :: u32) \<le> 2 ^ j" using u by (simp add: word_le_nat_alt)
      then have "unat (2 ^ j - 1 :: u32) = ?n - 1" using u by (simp add: unat_sub)
      then show ?thesis using fit by (simp add: unat_word_ariths)
    qed
    ultimately have a: "?a = (?p + (?n - 1)) div ?n * ?n" by (simp add: align_address_def unat_and_not_mask)
    obtain d r where d: "?p = d * ?n + r" "0 < r" "r < ?n" using False
      by (metis bot_nat_0.not_eq_extremum div_mult_mod_eq mod_less_divisor zero_less_numeral zero_less_power)
    have "(?p + (?n - 1)) div ?n = d + 1"
    proof -
      have "?p + (?n - 1) = (d + 1) * ?n + (r - 1)" using d by simp
      also have "\<dots> div ?n = d + 1" using d(3) by (subst div_mult_self3) simp_all
      finally show ?thesis .
    qed
    then have a1: "?a = (d + 1) * ?n" using a by simp
    have "4 dvd ?a" using a1 n by simp
    then have "4 dvd ?a - ?p" using p by (rule dvd_diff_nat)
    moreover have "?p < ?a" "?a \<le> ?p + ?n" using a1 d by simp_all
    ultimately show ?thesis using a1 by (auto dest: dvd_imp_le)
  qed
  then show "?p + 4 \<le> ?a" "?a \<le> ?p + ?n" "?n dvd ?a" by blast+
  with n show "4 dvd ?a" using dvd_trans by blast
qed


text \<open>The aligned memory of \<^verbatim>\<open>rt_malloc_align\<close>.\<close>

lemma malloc_align_finish_ok:
  assumes w: "smem_wf h" and b: "(p, l, True) \<in> set (smem_blocks h)"
    and lim: "unat (sm_heap_ptr h) + sm_heap_end h < 2 ^ 32"
    and j: "2 \<le> j" "j < 32" and l: "unat sz + 2 ^ j + 16 \<le> l"
  shows "\<exists>q g. malloc_align_finish (2 ^ j) (Some (p + 16)) \<lparr>hs_kernel = k, hs_heap = Some h\<rparr>
      = Some (Some q, \<lparr>hs_kernel = k, hs_heap = Some g\<rparr>)
    \<and> smem_wf g \<and> smem_blocks g = smem_blocks h \<and> 2 ^ j dvd unat (sm_heap_ptr g + of_nat q)
    \<and> sm_heap_ptr g = sm_heap_ptr h \<and> p + 20 \<le> q \<and> q + unat sz \<le> p + l
    \<and> load_word (q - 4) g = sm_heap_ptr h + of_nat (p + 16)
    \<and> (\<forall>i. i < p + 16 \<or> p + l \<le> i \<longrightarrow> sm_data g i = sm_data h i)"
proof -
  note B = smem_block_bounds [OF w b]
  let ?H = "unat (sm_heap_ptr h)" and ?ptr = "sm_heap_ptr h + of_nat (p + 16)"
  have pp: "unat ?ptr = ?H + (p + 16)"
  proof -
    have "?H + (p + 16) < 2 ^ 32" using lim B(1,2) by simp
    moreover have "unat ?ptr = (?H + (p + 16)) mod 2 ^ 32" by (simp add: unat_word_ariths unat_of_nat mod_simps)
    ultimately show ?thesis by simp
  qed
  have "4 dvd unat ?ptr" using B(4) by (simp add: and_3_eq_0)
  moreover have "unat ?ptr + 2 ^ j < 2 ^ 32" using pp l B(2) lim by simp
  ultimately have A: "unat ?ptr + 4 \<le> unat (align_address (2 ^ j) ?ptr)"
    "unat (align_address (2 ^ j) ?ptr) \<le> unat ?ptr + 2 ^ j" "2 ^ j dvd unat (align_address (2 ^ j) ?ptr)"
    using align_address_ok [OF j] by blast+
  let ?a = "align_address (2 ^ j) ?ptr"
  define q where "q = unat (?a - sm_heap_ptr h)"
  have "sm_heap_ptr h \<le> ?a" using A(1) pp by (simp add: word_le_nat_alt)
  then have q: "q = unat ?a - ?H" by (simp add: q_def unat_sub)
  have qa: "sm_heap_ptr h + of_nat q = ?a" by (simp add: q_def)
  have b1: "p + 20 \<le> q" "q + unat sz \<le> p + l" "q \<le> sm_heap_end h" using A(1,2) pp q l B(2) by linarith+
  let ?g = "store_word (q - 4) ?ptr h"
  have "malloc_align_finish (2 ^ j) (Some (p + 16)) \<lparr>hs_kernel = k, hs_heap = Some h\<rparr>
      = Some (Some q, \<lparr>hs_kernel = k, hs_heap = Some ?g\<rparr>)"
    using b1 unfolding q_def by (simp add: malloc_align_finish_def Let_def)
  moreover have "sm_data ?g i = sm_data h i" if "i < p + 16 \<or> p + l \<le> i" for i
    by (rule store_word_other) (use that b1 in linarith)
  ultimately show ?thesis
    using w b1 A(3) by (intro exI [where x = q] exI [where x = ?g]) (simp add: load_store_word qa)
qed


lemma rt_malloc_align_ok:
  assumes lf: "heap_lock_free m t k" and w: "smem_wf h"
    and lim: "unat (sm_heap_ptr h) + sm_heap_end h < 2 ^ 32"
    and j: "2 \<le> j" "j < 32" and sz: "unat sz + 2 ^ j + 4 \<le> 0xfffffffc"
  shows "case first_fit (smem_request (rt_align4 sz + 2 ^ j)) (smem_blocks h) of
      None \<Rightarrow> rt_malloc_align m sz (2 ^ j) \<lparr>hs_kernel = k, hs_heap = Some h\<rparr>
        = Some (Returned None, \<lparr>hs_kernel = upd_thread t (set_error RT_EOK) k, hs_heap = Some h\<rparr>)
    | Some (p, bs) \<Rightarrow> \<exists>q g l. rt_malloc_align m sz (2 ^ j) \<lparr>hs_kernel = k, hs_heap = Some h\<rparr>
        = Some (Returned (Some q), \<lparr>hs_kernel = upd_thread t (set_error RT_EOK) k, hs_heap = Some g\<rparr>)
      \<and> smem_wf g \<and> smem_blocks g = bs \<and> sm_heap_ptr g = sm_heap_ptr h
      \<and> 2 ^ j dvd unat (sm_heap_ptr g + of_nat q)
      \<and> (p, l, True) \<in> set bs \<and> p + 20 \<le> q \<and> q + unat sz \<le> p + l
      \<and> load_word (q - 4) g = sm_heap_ptr h + of_nat (p + 16)
      \<and> (\<forall>i. i < p + 16 \<or> p + l \<le> i \<longrightarrow> sm_data g i = sm_data h i)"
proof -
  let ?n = "2 ^ j :: u32" and ?s = "\<lparr>hs_kernel = k, hs_heap = Some h\<rparr>" and ?k = "upd_thread t (set_error RT_EOK) k"
  let ?r = "rt_align4 sz + ?n"
  have u: "unat ?n = 2 ^ j" by (rule unat_exp [OF j(2)])
  have "4 dvd unat ?n" using le_imp_power_dvd [OF j(1), of "2 :: nat"] by (simp add: u)
  then have an: "rt_align4 ?n = ?n" by (rule align4_id(2))
  have "unat sz \<le> 0xfffffffc" using sz by simp
  then have z: "sz \<le> 0xfffffffc" by (simp add: word_le_nat_alt)
  note A = unat_align4 [OF z]
  have ur: "unat ?r = unat (rt_align4 sz) + 2 ^ j" using A(3) sz by (simp add: unat_word_ariths u)
  have r: "0 < ?r" "?r \<le> 0xfffffffc" using ur A(3) sz by (simp_all add: word_less_nat_alt word_le_nat_alt)
  note AL = rt_smem_alloc_ok [OF w r] and R = smem_request_ok [OF r(2)]
  show ?thesis
  proof (cases "first_fit (smem_request ?r) (smem_blocks h)")
    case None
    then have "rt_smem_alloc ?r h = Some (None, h)" using AL by simp
    from heap_call_free [where f = "rt_smem_alloc ?r", OF lf this] None show ?thesis
      by (simp add: rt_malloc_align_def rt_malloc_def an Let_def malloc_align_finish_def)
  next
    case (Some x)
    then obtain p bs where ff: "first_fit (smem_request ?r) (smem_blocks h) = Some (p, bs)" by (cases x) auto
    from AL [unfolded ff] obtain g where g: "rt_smem_alloc ?r h = Some (Some (p + 16), g)" "smem_wf g"
      "smem_blocks g = bs" "sm_data g = sm_data h" "sm_heap_ptr g = sm_heap_ptr h"
      "sm_mem_size_aligned g = sm_mem_size_aligned h" by auto
    from first_fit_blocks [OF ff] obtain l where l: "(p, l, True) \<in> set (smem_blocks g)" "smem_request ?r + 16 \<le> l"
      unfolding g(3) by metis
    have room: "unat sz + 2 ^ j + 16 \<le> l" using l(2) R(3) ur A(2) by linarith
    have lim': "unat (sm_heap_ptr g) + sm_heap_end g < 2 ^ 32"
      using lim smem_wf_end [OF w] smem_wf_end [OF g(2)] g(5,6) by simp
    from malloc_align_finish_ok [OF g(2) l(1) lim' j room, of ?k, unfolded g(3-5)] obtain q g' where
      q: "malloc_align_finish ?n (Some (p + 16)) \<lparr>hs_kernel = ?k, hs_heap = Some g\<rparr>
        = Some (Some q, \<lparr>hs_kernel = ?k, hs_heap = Some g'\<rparr>)" and
      g': "smem_wf g' \<and> smem_blocks g' = bs \<and> 2 ^ j dvd unat (sm_heap_ptr h + of_nat q)
        \<and> sm_heap_ptr g' = sm_heap_ptr h \<and> p + 20 \<le> q \<and> q + unat sz \<le> p + l
        \<and> load_word (q - 4) g' = sm_heap_ptr h + of_nat (p + 16)
        \<and> (\<forall>i. i < p + 16 \<or> p + l \<le> i \<longrightarrow> sm_data g' i = sm_data h i)"
      by metis
    have "rt_malloc_align m sz ?n ?s = Some (Returned (Some q), \<lparr>hs_kernel = ?k, hs_heap = Some g'\<rparr>)"
      using heap_call_free [where f = "rt_smem_alloc ?r", OF lf g(1)] q
      by (simp add: rt_malloc_align_def rt_malloc_def an Let_def)
    moreover have "2 ^ j dvd unat (sm_heap_ptr g' + of_nat q)" using g' by metis
    ultimately show ?thesis unfolding ff option.case prod.case using g' l(1) [unfolded g(3)] by blast
  qed
qed

text \<open>\<^verbatim>\<open>rt_free_align\<close> finds the block again in the word in front of the aligned memory.\<close>

lemma rt_free_align_ok:
  assumes lf: "heap_lock_free m t k" and w: "smem_wf g" and b: "(p, l, True) \<in> set (smem_blocks g)"
    and q: "p + 20 \<le> q" "load_word (q - 4) g = sm_heap_ptr g + of_nat (p + 16)"
  shows "\<exists>h. rt_free_align m q \<lparr>hs_kernel = k, hs_heap = Some g\<rparr>
      = Some (Returned (), \<lparr>hs_kernel = upd_thread t (set_error RT_EOK) k, hs_heap = Some h\<rparr>)
    \<and> smem_wf h \<and> smem_blocks h = join_free (mark_free p (smem_blocks g)) \<and> sm_data h = sm_data g"
proof -
  from rt_smem_free_ok [OF w b] obtain h where h: "rt_smem_free (Some (p + 16)) g = Some h" "smem_wf h"
    "smem_blocks h = join_free (mark_free p (smem_blocks g))" "sm_data h = sm_data g" by metis
  obtain ps where "smem_env g" using smem_wf_shape [OF w] by metis
  then have "sm_heap_end g < 2 ^ 32" by (rule smem_env_le)
  then have "p + 16 < 2 ^ 32" using smem_block_bounds(1,2) [OF w b] by linarith
  then have "take_bit LENGTH(32) (p + 16) = p + 16" by (simp add: take_bit_nat_eq_self)
  moreover have "unat (of_nat (p + 16) :: u32) = take_bit LENGTH(32) (p + 16)" by (simp only: unsigned_of_nat of_nat_id)
  ultimately have "unat (of_nat (p + 16) :: u32) = p + 16" by metis
  then have "unat (load_word (q - 4) g - sm_heap_ptr g) = p + 16" unfolding q(2) add_diff_cancel_left' .
  then have "rt_free_align m q \<lparr>hs_kernel = k, hs_heap = Some g\<rparr> = rt_free m (Some (p + 16)) \<lparr>hs_kernel = k, hs_heap = Some g\<rparr>"
    using q(1) by (simp add: rt_free_align_def)
  moreover have "(\<lambda>h. map_option (\<lambda>h. ((), h)) (rt_smem_free (Some (p + 16)) h)) g = Some ((), h)" using h(1) by simp
  ultimately show ?thesis using heap_call_free [OF lf, of "\<lambda>h. map_option (\<lambda>h. ((), h)) (rt_smem_free (Some (p + 16)) h)"] h
    by (simp add: rt_free_def)
qed


text \<open>\<^verbatim>\<open>rt_calloc\<close> of sizes whose product is below 2^32.\<close>

lemma rt_calloc_ok:
  assumes lf: "heap_lock_free m t k" and w: "smem_wf h"
    and n: "unat count * unat sz \<le> 0xfffffffc" "0 < unat count * unat sz"
  shows "case first_fit (smem_request (count * sz)) (smem_blocks h) of
      None \<Rightarrow> rt_calloc m count sz \<lparr>hs_kernel = k, hs_heap = Some h\<rparr>
        = Some (Returned None, \<lparr>hs_kernel = upd_thread t (set_error RT_EOK) k, hs_heap = Some h\<rparr>)
    | Some (p, bs) \<Rightarrow> \<exists>g l. rt_calloc m count sz \<lparr>hs_kernel = k, hs_heap = Some h\<rparr>
        = Some (Returned (Some (p + 16)), \<lparr>hs_kernel = upd_thread t (set_error RT_EOK) k, hs_heap = Some g\<rparr>)
      \<and> smem_wf g \<and> smem_blocks g = bs \<and> (p, l, True) \<in> set bs \<and> unat count * unat sz + 16 \<le> l
      \<and> (\<forall>i < unat count * unat sz. sm_data g (p + 16 + i) = 0)
      \<and> (\<forall>i. i < p + 16 \<or> p + l \<le> i \<longrightarrow> sm_data g i = sm_data h i)"
proof -
  let ?n = "count * sz"
  have u: "unat ?n = unat count * unat sz" using n by (simp add: unat_word_ariths)
  have r: "0 < ?n" "?n \<le> 0xfffffffc" using n u by (simp_all add: word_less_nat_alt word_le_nat_alt)
  note AL = rt_smem_alloc_ok [OF w r] and R = smem_request_ok [OF r(2)]
  show ?thesis
  proof (cases "first_fit (smem_request ?n) (smem_blocks h)")
    case None
    then have "rt_smem_alloc ?n h = Some (None, h)" using AL by simp
    from heap_call_free [where f = "rt_smem_alloc ?n", OF lf this] None show ?thesis
      by (simp add: rt_calloc_def rt_malloc_def calloc_finish_def)
  next
    case (Some x)
    then obtain p bs where ff: "first_fit (smem_request ?n) (smem_blocks h) = Some (p, bs)" by (cases x) auto
    from AL [unfolded ff] obtain g where g: "rt_smem_alloc ?n h = Some (Some (p + 16), g)" "smem_wf g"
      "smem_blocks g = bs" "sm_data g = sm_data h" by auto
    from first_fit_blocks [OF ff] obtain l where l: "(p, l, True) \<in> set bs" "smem_request ?n + 16 \<le> l" by metis
    have len: "unat count * unat sz + 16 \<le> l" using l(2) R(3) u by linarith
    let ?z = "smem_zero (p + 16) (unat ?n) g"
    have "rt_calloc m count sz \<lparr>hs_kernel = k, hs_heap = Some h\<rparr>
        = Some (Returned (Some (p + 16)), \<lparr>hs_kernel = upd_thread t (set_error RT_EOK) k, hs_heap = Some ?z\<rparr>)"
      using heap_call_free [where f = "rt_smem_alloc ?n", OF lf g(1)]
      by (simp add: rt_calloc_def rt_malloc_def calloc_finish_def)
    moreover have "smem_wf ?z" "smem_blocks ?z = bs"
      using g(2,3) by (simp_all add: smem_zero_def smem_wf_def smem_shape_def)
    moreover have "\<forall>i < unat count * unat sz. sm_data ?z (p + 16 + i) = 0" by (simp add: smem_zero_def u)
    moreover have "\<forall>i. i < p + 16 \<or> p + l \<le> i \<longrightarrow> sm_data ?z i = sm_data h i"
      using len by (auto simp: smem_zero_def u g(4))
    ultimately show ?thesis unfolding ff option.case prod.case using l(1) len by blast
  qed
qed

text \<open>Above 2^32 the product wraps, and the caller is given less than it asked for.\<close>

lemma rt_calloc_wraps: "rt_calloc m 0x10001 0x10000 = rt_calloc m 1 0x10000"
proof -
  have "0x10001 * 0x10000 = 1 * (0x10000 :: u32)" by simp
  then show ?thesis by (intro ext) (simp only: rt_calloc_def)
qed

end
