(* ===== verification/Prop_Heap.thy ===== *)
theory Prop_Heap
  imports Rtt_Malloc Rtt_Example
begin

unbundle bit_operations_syntax

text \<open>
  The properties of the small memory algorithm, each followed by its witness.
\<close>

section \<open>A heap for the witnesses\<close>

text \<open>256 bytes at address \<^verbatim>\<open>0x1000\<close>; the same with one block of 20 bytes in use.\<close>

definition ex_heap :: small_mem where
  "ex_heap = smem_make 0x1000 160 (\<lambda>_. 0)"

lemma ex_heap_init: "rt_smem_init 0x1000 256 (\<lambda>_. 0) = Some ex_heap"
  by (simp add: rt_smem_init_def smem_size_def ex_heap_def rt_align4_def rt_align4_down_def Let_def
      SIZEOF_STRUCT_MEM_def SIZEOF_SMALL_MEM_def)

lemma ex_heap_size: "sm_mem_size_aligned ex_heap = 160"
  by (simp add: ex_heap_def smem_make_def Let_def upd_item_def)

lemma ex_heap_wf: "smem_wf ex_heap" "smem_blocks ex_heap = [(0, 176, False)]"
  using rt_smem_init_ok(1,2) [OF _ _ _ ex_heap_init] by (simp_all add: ex_heap_size)

lemma ex_request: "smem_request 20 = 20"
  by (simp add: smem_request_def rt_align4_def)

lemma ex_first_fit: "first_fit 20 (smem_blocks ex_heap) = Some (0, [(0, 36, True), (36, 140, False)])"
  by (simp add: ex_heap_wf carve_def)

lemma ex_alloc:
  obtains g where "rt_smem_alloc 20 ex_heap = Some (Some 16, g)" "smem_wf g"
    "smem_blocks g = [(0, 36, True), (36, 140, False)]" "sm_data g = (\<lambda>_. 0)"
proof -
  have "sm_data ex_heap = (\<lambda>_. 0)" by (simp add: ex_heap_def smem_make_def Let_def upd_item_def)
  moreover from rt_smem_alloc_ok [OF ex_heap_wf(1), of 20] obtain g where
    "rt_smem_alloc 20 ex_heap = Some (Some 16, g)" "smem_wf g"
    "smem_blocks g = [(0, 36, True), (36, 140, False)]" "sm_data g = sm_data ex_heap"
    by (auto simp: ex_request ex_first_fit)
  ultimately show ?thesis using that by metis
qed

section \<open>The small memory algorithm\<close>

text \<open>C21: whatever a program does with a heap, from \<^verbatim>\<open>rt_smem_init\<close> on, by allocating, releasing and
  changing the size of what it was given, and by writing into its bytes: the blocks in use never
  overlap, each is inside the memory the heap was made of, behind the heap's own structure, and
  aligned to four bytes; and every further call returns, with no assertion failing and no search
  running for ever.\<close>

theorem heap_sound:
  assumes b: "b \<noteq> 0" "unat b + 68 \<le> 2 ^ 32" "unat b + unat sz < 2 ^ 32"
    and h0: "rt_smem_init b sz bytes = Some h0" "12 \<le> sm_mem_size_aligned h0"
    and run: "heap_step\<^sup>*\<^sup>* h0 h"
  shows "(\<forall>p l q m. (p, l, True) \<in> set (smem_blocks h) \<and> (q, m, True) \<in> set (smem_blocks h) \<and> p \<noteq> q
      \<longrightarrow> p + l \<le> q \<or> q + m \<le> p)
    \<and> (\<forall>p l. (p, l, True) \<in> set (smem_blocks h) \<longrightarrow> 20 \<le> l
      \<and> unat b + 64 \<le> unat (sm_heap_ptr h) + p \<and> unat (sm_heap_ptr h) + p + l \<le> unat b + unat sz
      \<and> (sm_heap_ptr h + of_nat (p + 16)) AND 3 = 0)
    \<and> (\<forall>n\<le>0xfffffffc. rt_smem_alloc n h \<noteq> None)
    \<and> (\<forall>p l. (p, l, True) \<in> set (smem_blocks h) \<longrightarrow> rt_smem_free (Some (p + 16)) h \<noteq> None
      \<and> (\<forall>n\<le>0xfffffffc. rt_smem_realloc (Some (p + 16)) n h \<noteq> None))"
proof -
  note I = rt_smem_init_ok [OF b h0]
  have "heap_ok b sz h0" using I(1,3,4,5) by (simp add: heap_ok_def)
  from heap_steps_ok [OF run this] have ok: "heap_ok b sz h" .
  then have w: "smem_wf h" by (simp add: heap_ok_def)
  have "\<forall>p l. (p, l, True) \<in> set (smem_blocks h) \<longrightarrow> 20 \<le> l
      \<and> unat b + 64 \<le> unat (sm_heap_ptr h) + p \<and> unat (sm_heap_ptr h) + p + l \<le> unat b + unat sz
      \<and> (sm_heap_ptr h + of_nat (p + 16)) AND 3 = 0"
  proof (intro allI impI)
    fix p l
    assume "(p, l, True) \<in> set (smem_blocks h)"
    from smem_block_bounds [OF w this] ok show "20 \<le> l
      \<and> unat b + 64 \<le> unat (sm_heap_ptr h) + p \<and> unat (sm_heap_ptr h) + p + l \<le> unat b + unat sz
      \<and> (sm_heap_ptr h + of_nat (p + 16)) AND 3 = 0"
      unfolding heap_ok_def by linarith
  qed
  moreover have "\<forall>p l q m. (p, l, True) \<in> set (smem_blocks h) \<and> (q, m, True) \<in> set (smem_blocks h) \<and> p \<noteq> q
      \<longrightarrow> p + l \<le> q \<or> q + m \<le> p"
    using smem_blocks_disjoint [OF w] by blast
  moreover have "\<forall>n\<le>0xfffffffc. rt_smem_alloc n h \<noteq> None" using rt_smem_alloc_returns [OF w] by fastforce
  moreover have "\<forall>p l. (p, l, True) \<in> set (smem_blocks h) \<longrightarrow> rt_smem_free (Some (p + 16)) h \<noteq> None
      \<and> (\<forall>n\<le>0xfffffffc. rt_smem_realloc (Some (p + 16)) n h \<noteq> None)"
    using rt_smem_free_keeps [OF w] rt_smem_realloc_keeps [OF w] by fastforce
  ultimately show ?thesis by blast
qed

theorem heap_sound_witness:
  "\<exists>g. rt_smem_alloc 20 ex_heap = Some (Some 16, g) \<and> rt_smem_free (Some 16) g \<noteq> None
    \<and> rt_smem_realloc (Some 16) 8 g \<noteq> None \<and> rt_smem_alloc 8 g \<noteq> None"
proof -
  obtain g where g: "rt_smem_alloc 20 ex_heap = Some (Some 16, g)" "smem_blocks g = [(0, 36, True), (36, 140, False)]"
    by (rule ex_alloc)
  have run: "heap_step\<^sup>*\<^sup>* ex_heap g" using heap_step.alloc [OF _ g(1)] by simp
  have "(0, 36, True) \<in> set (smem_blocks g)" by (simp add: g(2))
  moreover have "(8 :: u32) \<le> 0xfffffffc" by simp
  ultimately have "rt_smem_alloc 8 g \<noteq> None \<and> rt_smem_free (Some (0 + 16)) g \<noteq> None
    \<and> rt_smem_realloc (Some (0 + 16)) 8 g \<noteq> None"
    using heap_sound [OF _ _ _ ex_heap_init _ run, unfolded ex_heap_size] by fastforce
  with g(1) show ?thesis by simp
qed

text \<open>C22: \<^verbatim>\<open>rt_smem_alloc\<close> is first fit on the list of blocks: it hands out the first free block with
  room for the size, rounded up to a multiple of four and at least twelve, and cuts off what is left
  of it; it returns \<^verbatim>\<open>RT_NULL\<close> exactly if there is no such block, and then changes nothing.\<close>

theorem smem_alloc_first_fit:
  assumes "smem_wf h" and "0 < sz" "sz \<le> 0xfffffffc"
  shows "case first_fit (smem_request sz) (smem_blocks h) of
      None \<Rightarrow> rt_smem_alloc sz h = Some (None, h)
    | Some (p, bs) \<Rightarrow> \<exists>g. rt_smem_alloc sz h = Some (Some (p + 16), g) \<and> smem_wf g \<and> smem_blocks g = bs
        \<and> sm_data g = sm_data h"
  using rt_smem_alloc_ok [OF assms] by (auto split: option.splits)

theorem smem_alloc_first_fit_witness:
  "\<exists>g. rt_smem_alloc 20 ex_heap = Some (Some 16, g) \<and> smem_blocks g = [(0, 36, True), (36, 140, False)]"
  using smem_alloc_first_fit [OF ex_heap_wf(1), of 20] by (auto simp: ex_request ex_first_fit)

text \<open>C23: releasing what was just allocated gives the heap back as it was: the same blocks, joined
  again, the same number of bytes in use, and no byte changed.\<close>

theorem smem_alloc_free:
  assumes "smem_wf h" and "0 < sz" "sz \<le> 0xfffffffc" and "rt_smem_alloc sz h = Some (Some r, g)"
  shows "\<exists>h'. rt_smem_free (Some r) g = Some h' \<and> smem_wf h' \<and> smem_blocks h' = smem_blocks h
    \<and> sm_used h' = sm_used h \<and> sm_data h' = sm_data h"
  by (rule alloc_then_free [OF assms])

theorem smem_alloc_free_witness:
  "\<exists>g h'. rt_smem_alloc 20 ex_heap = Some (Some 16, g) \<and> rt_smem_free (Some 16) g = Some h'
    \<and> smem_blocks h' = [(0, 176, False)]"
proof -
  obtain g where g: "rt_smem_alloc 20 ex_heap = Some (Some 16, g)" by (rule ex_alloc)
  from smem_alloc_free [OF ex_heap_wf(1) _ _ g] g show ?thesis by (auto simp: ex_heap_wf)
qed

text \<open>C24: \<^verbatim>\<open>rt_smem_realloc\<close> returns memory of the new size that begins with the caller's bytes, as many
  as both sizes hold; every other block in use keeps its place and its bytes; and if there is no
  room it returns \<^verbatim>\<open>RT_NULL\<close> and leaves the caller's block as it was.\<close>

theorem smem_realloc_keeps_contents:
  assumes "smem_wf h" and "(p, l, True) \<in> set (smem_blocks h)" and "0 < newsize" "newsize \<le> 0xfffffffc"
  shows "\<exists>res g. rt_smem_realloc (Some (p + 16)) newsize h = Some (res, g) \<and> smem_wf g \<and>
    (case res of
       None \<Rightarrow> g = h \<and> first_fit (smem_request newsize) (smem_blocks h) = None
     | Some r \<Rightarrow> \<exists>q m. r = q + 16 \<and> (q, m, True) \<in> set (smem_blocks g) \<and> unat newsize + 16 \<le> m
         \<and> (\<forall>i < min (l - 16) (unat newsize). sm_data g (r + i) = sm_data h (p + 16 + i))
         \<and> (\<forall>a k. (a, k, True) \<in> set (smem_blocks h) \<and> a \<noteq> p \<longrightarrow> (a, k, True) \<in> set (smem_blocks g)
              \<and> (\<forall>i < k - 16. sm_data g (a + 16 + i) = sm_data h (a + 16 + i))))"
  using rt_smem_realloc_ok [OF assms] by blast

theorem smem_realloc_keeps_contents_witness:
  "\<exists>g res k. rt_smem_alloc 20 ex_heap = Some (Some 16, g) \<and> rt_smem_realloc (Some 16) 40 g = Some (res, k)
    \<and> smem_wf k"
proof -
  obtain g where g: "rt_smem_alloc 20 ex_heap = Some (Some 16, g)" "smem_wf g"
    "smem_blocks g = [(0, 36, True), (36, 140, False)]" by (rule ex_alloc)
  have "(0, 36, True) \<in> set (smem_blocks g)" by (simp add: g(3))
  from smem_realloc_keeps_contents [OF g(2) this, of 40] g(1) show ?thesis by auto
qed

section \<open>The heap's front end\<close>

text \<open>The running system, with a fifth mutex for the heap.\<close>

definition ex_locked :: kernel where
  "ex_locked = snd (rt_mutex_init 5 RT_IPC_FLAG_PRIO (demo (SemWait 0)))"

lemma ex_locked_free: "heap_lock_free 5 1 ex_locked"
  by (simp add: heap_lock_free_def ex_locked_def rt_mutex_init_def ipc_object_init_def upd_waitq_def upd_mutex_def
      mutex_new_def mutex_free_def demo_def cleared_memory_def)

text \<open>C27: one thread at a time is in the heap: a thread that calls it while its mutex is free runs the
  operation of the small memory algorithm and leaves the mutex free; a thread that calls while another
  one holds the mutex goes to sleep on it, and the heap is untouched.\<close>

theorem heap_exclusive:
  assumes "kernel_ok k" and "mutex_inv k" and "rt_current_thread k = Some t" "thread_stat k t = RT_THREAD_RUNNING"
  shows "(heap_lock_free m t k \<and> rt_smem_alloc sz h = Some (p, g)
      \<longrightarrow> rt_malloc m sz \<lparr>hs_kernel = k, hs_heap = Some h\<rparr>
        = Some (Returned p, \<lparr>hs_kernel = upd_thread t (set_error RT_EOK) k, hs_heap = Some g\<rparr>))
    \<and> (\<forall>ow res s. mtx_owner (mutexes k m) = Some ow \<and> ow \<noteq> t
        \<and> rt_malloc m sz \<lparr>hs_kernel = k, hs_heap = Some h\<rparr> = Some (res, s)
      \<longrightarrow> res = Waiting t \<and> hs_heap s = Some h \<and> kernel_ok (hs_kernel s) \<and> mutex_inv (hs_kernel s)
        \<and> thread_stat (hs_kernel s) t = RT_THREAD_SUSPEND \<and> t \<in> set (waitq (hs_kernel s) (MutexWait m)))"
  unfolding rt_malloc_def
proof (intro conjI allI impI, elim conjE)
  assume "heap_lock_free m t k" "rt_smem_alloc sz h = Some (p, g)"
  then show "heap_call m (rt_smem_alloc sz) \<lparr>hs_kernel = k, hs_heap = Some h\<rparr>
      = Some (Returned p, \<lparr>hs_kernel = upd_thread t (set_error RT_EOK) k, hs_heap = Some g\<rparr>)"
    by (rule heap_call_free [where f = "rt_smem_alloc sz"])
next
  fix ow res s
  assume a: "mtx_owner (mutexes k m) = Some ow \<and> ow \<noteq> t
    \<and> heap_call m (rt_smem_alloc sz) \<lparr>hs_kernel = k, hs_heap = Some h\<rparr> = Some (res, s)"
  then have o: "mtx_owner (mutexes k m) = Some ow" "ow \<noteq> t"
    and r: "heap_call m (rt_smem_alloc sz) \<lparr>hs_kernel = k, hs_heap = Some h\<rparr> = Some (res, s)" by simp_all
  note H = heap_call_held [OF assms o r]
  show "res = Waiting t" "hs_heap s = Some h" "kernel_ok (hs_kernel s)" "mutex_inv (hs_kernel s)"
    "thread_stat (hs_kernel s) t = RT_THREAD_SUSPEND" "t \<in> set (waitq (hs_kernel s) (MutexWait m))"
    by (rule H)+
qed

theorem heap_exclusive_witness:
  "\<exists>g. rt_malloc 5 20 \<lparr>hs_kernel = ex_locked, hs_heap = Some ex_heap\<rparr>
    = Some (Returned (Some 16), \<lparr>hs_kernel = upd_thread 1 (set_error RT_EOK) ex_locked, hs_heap = Some g\<rparr>)"
proof -
  have i: "kernel_ok ex_locked" "mutex_inv ex_locked"
    using rt_mutex_init_ok [OF demo_kernel_ok demo_mutex_inv] unfolding ex_locked_def by blast+
  have t: "rt_current_thread ex_locked = Some 1" "thread_stat ex_locked 1 = RT_THREAD_RUNNING"
    by (simp_all add: ex_locked_def rt_mutex_init_def ipc_object_init_def upd_waitq_def upd_mutex_def
        demo_def cleared_memory_def thread_stat_def)
  obtain g where "rt_smem_alloc 20 ex_heap = Some (Some 16, g)" by (rule ex_alloc)
  with heap_exclusive [OF i t, of 5 20 ex_heap "Some 16" g] ex_locked_free show ?thesis by blast
qed

text \<open>\<^verbatim>\<open>rt_calloc\<close>, for sizes whose product does not wrap, returns a block with room for all
  objects, all bytes of them zero, and changes no byte of any other block; it returns \<^verbatim>\<open>RT_NULL\<close> exactly if
  no free block is large enough.\<close>

theorem calloc_zeroed:
  assumes "heap_lock_free m t k" and "smem_wf h"
    and "unat count * unat sz \<le> 0xfffffffc" "0 < unat count * unat sz"
  shows "case first_fit (smem_request (count * sz)) (smem_blocks h) of
      None \<Rightarrow> rt_calloc m count sz \<lparr>hs_kernel = k, hs_heap = Some h\<rparr>
        = Some (Returned None, \<lparr>hs_kernel = upd_thread t (set_error RT_EOK) k, hs_heap = Some h\<rparr>)
    | Some (p, bs) \<Rightarrow> \<exists>g l. rt_calloc m count sz \<lparr>hs_kernel = k, hs_heap = Some h\<rparr>
        = Some (Returned (Some (p + 16)), \<lparr>hs_kernel = upd_thread t (set_error RT_EOK) k, hs_heap = Some g\<rparr>)
      \<and> smem_wf g \<and> smem_blocks g = bs \<and> (p, l, True) \<in> set bs \<and> unat count * unat sz + 16 \<le> l
      \<and> (\<forall>i < unat count * unat sz. sm_data g (p + 16 + i) = 0)
      \<and> (\<forall>i. i < p + 16 \<or> p + l \<le> i \<longrightarrow> sm_data g i = sm_data h i)"
  by (rule rt_calloc_ok [OF assms])

theorem calloc_zeroed_witness:
  "\<exists>s. rt_calloc 5 4 5 \<lparr>hs_kernel = ex_locked, hs_heap = Some ex_heap\<rparr> = Some (Returned (Some 16), s)"
  using calloc_zeroed [OF ex_locked_free ex_heap_wf(1), of 4 5] by (auto simp: ex_request ex_first_fit)

text \<open>C28: \<^verbatim>\<open>rt_malloc_align\<close> returns memory aligned to the power of two asked for, inside a block of the
  heap, and touches no byte outside that block; \<^verbatim>\<open>rt_free_align\<close> of it finds the block and gives the
  heap back as it was before.\<close>

theorem malloc_align_free_align:
  assumes lf: "heap_lock_free m t k" and w: "smem_wf h" and lim: "unat (sm_heap_ptr h) + sm_heap_end h < 2 ^ 32"
    and j: "2 \<le> j" "j < 32" and sz: "unat sz + 2 ^ j + 4 \<le> 0xfffffffc"
    and room: "first_fit (smem_request (rt_align4 sz + 2 ^ j)) (smem_blocks h) = Some (p, bs)"
  shows "\<exists>q s l s' g'. rt_malloc_align m sz (2 ^ j) \<lparr>hs_kernel = k, hs_heap = Some h\<rparr> = Some (Returned (Some q), s)
    \<and> 2 ^ j dvd unat (sm_heap_ptr h + of_nat q) \<and> (p, l, True) \<in> set bs \<and> p + 20 \<le> q \<and> q + unat sz \<le> p + l
    \<and> (\<forall>g i. hs_heap s = Some g \<and> (i < p + 16 \<or> p + l \<le> i) \<longrightarrow> sm_data g i = sm_data h i)
    \<and> rt_free_align m q s = Some (Returned (), s') \<and> hs_heap s' = Some g' \<and> smem_wf g'
    \<and> smem_blocks g' = smem_blocks h"
proof -
  let ?k = "upd_thread t (set_error RT_EOK) k"
  from rt_malloc_align_ok [OF lf w lim j sz, unfolded room option.case prod.case] obtain q g l where
    r: "rt_malloc_align m sz (2 ^ j) \<lparr>hs_kernel = k, hs_heap = Some h\<rparr>
        = Some (Returned (Some q), \<lparr>hs_kernel = ?k, hs_heap = Some g\<rparr>)" and
    g: "smem_wf g" "smem_blocks g = bs" "sm_heap_ptr g = sm_heap_ptr h" "2 ^ j dvd unat (sm_heap_ptr g + of_nat q)"
      "(p, l, True) \<in> set bs" "p + 20 \<le> q" "q + unat sz \<le> p + l"
      "load_word (q - 4) g = sm_heap_ptr h + of_nat (p + 16)"
      "\<forall>i. i < p + 16 \<or> p + l \<le> i \<longrightarrow> sm_data g i = sm_data h i" by metis
  have lf': "heap_lock_free m t ?k" using lf by simp
  from rt_free_align_ok [OF lf' g(1) g(5) [folded g(2)] g(6) g(8) [folded g(3)]] obtain h' where
    f: "rt_free_align m q \<lparr>hs_kernel = ?k, hs_heap = Some g\<rparr>
        = Some (Returned (), \<lparr>hs_kernel = upd_thread t (set_error RT_EOK) ?k, hs_heap = Some h'\<rparr>)"
      "smem_wf h'" "smem_blocks h' = join_free (mark_free p (smem_blocks g))" by blast
  have "smem_blocks h' = smem_blocks h"
    unfolding f(3) g(2) by (rule first_fit_release [OF room smem_blocks_coalesced [OF w] smem_blocks_distinct [OF w]])
  then show ?thesis
    using r f(1,2) g by (intro exI conjI) (assumption | simp)+
qed

theorem malloc_align_free_align_witness:
  "\<exists>q s s' g'. rt_malloc_align 5 4 16 \<lparr>hs_kernel = ex_locked, hs_heap = Some ex_heap\<rparr> = Some (Returned (Some q), s)
    \<and> rt_free_align 5 q s = Some (Returned (), s') \<and> hs_heap s' = Some g' \<and> smem_blocks g' = [(0, 176, False)]"
proof -
  have e: "unat (sm_heap_ptr ex_heap) + sm_heap_end ex_heap < 2 ^ 32"
    by (simp add: ex_heap_def smem_make_def Let_def upd_item_def rt_align4_def SIZEOF_SMALL_MEM_def SIZEOF_STRUCT_MEM_def)
  have r: "first_fit (smem_request (rt_align4 4 + 2 ^ 4)) (smem_blocks ex_heap)
      = Some (0, [(0, 36, True), (36, 140, False)])"
    by (simp add: ex_heap_wf smem_request_def rt_align4_def carve_def)
  from malloc_align_free_align [OF ex_locked_free ex_heap_wf(1) e _ _ _ r] show ?thesis
    by (simp add: ex_heap_wf) blast
qed

section \<open>A heap that is too small\<close>

text \<open>
  \<^verbatim>\<open>rt_smem_init\<close> accepts memory that leaves fewer than twelve bytes, and the first allocation then
  never returns: the smallest request is rounded up past the size, and the bound of the search wraps.
\<close>

definition ex_tiny :: small_mem where
  "ex_tiny = smem_make 0x1000 8 (\<lambda>_. 0)"

lemma ex_tiny_init: "rt_smem_init 0x1000 104 (\<lambda>_. 0) = Some ex_tiny"
  by (simp add: rt_smem_init_def smem_size_def ex_tiny_def rt_align4_def rt_align4_down_def Let_def
      SIZEOF_STRUCT_MEM_def SIZEOF_SMALL_MEM_def)

lemma ex_tiny_items:
  "it_next (sm_item ex_tiny 0) = 24" "\<not> MEM_ISUSED (sm_item ex_tiny 0)"
  "it_next (sm_item ex_tiny 24) = 24" "MEM_ISUSED (sm_item ex_tiny 24)" "sm_mem_size_aligned ex_tiny = 8"
  "sm_lfree ex_tiny = 0" "sm_object ex_tiny = Obj_static"
  by (simp_all add: ex_tiny_def smem_make_def Let_def upd_item_def MEM_ISUSED_def MEM_USED_def MEM_FREED_def
      MEM_MASK_def SIZEOF_STRUCT_MEM_def)

lemma smem_search_tiny:
  assumes "smem_search n p h = Some r"
  shows "\<not> (h = ex_tiny \<and> n = 12 \<and> p \<in> {0, 24})"
proof (rule smem_search.raw_induct [OF _ assms])
  fix f n p h r
  assume IH: "\<And>n p h r. f n p h = Some r \<Longrightarrow> \<not> (h = ex_tiny \<and> n = 12 \<and> p \<in> {0, 24})"
    and r: "(if p \<le> sub32 (sm_mem_size_aligned h) n
      then if \<not> MEM_ISUSED (sm_item h p) \<and> n \<le> sub32 (it_next (sm_item h p)) (p + SIZEOF_STRUCT_MEM)
           then Some (Some p) else f n (it_next (sm_item h p)) h
      else Some None) = Some (r :: nat option)"
  show "\<not> (h = ex_tiny \<and> n = 12 \<and> p \<in> {0, 24})"
  proof
    assume a: "h = ex_tiny \<and> n = 12 \<and> p \<in> {0, 24}"
    then have "f 12 24 ex_tiny = Some r"
      using r by (auto simp: ex_tiny_items sub32_def SIZEOF_STRUCT_MEM_def)
    then show False using IH by blast
  qed
qed

lemma alloc_tiny_diverges: "rt_smem_alloc 4 ex_tiny = None"
proof -
  have "smem_search 12 0 ex_tiny = None" using smem_search_tiny by fastforce
  then show ?thesis by (simp add: rt_smem_alloc_def ex_tiny_items rt_align4_def Let_def MIN_SIZE_ALIGNED_def)
qed

end
