(* ===== verification/Rtt_Ringbuffer.thy ===== *)
theory Rtt_Ringbuffer
  imports Rtt_Fifo
begin

text \<open>
  Ring buffers, \<^verbatim>\<open>components/drivers/ipc/ringbuffer.c\<close>: a circular array of bytes whose indices have
  a mirror bit each, so that the whole array can be used: equal indices mean empty if the mirrors
  are equal and full if they differ. The caller's \<^verbatim>\<open>ptr\<close> and \<^verbatim>\<open>length\<close> are a list of bytes, of at most
  65535 as the length is an \<^verbatim>\<open>rt_uint16_t\<close>. \<open>None\<close> is an access outside the array.
\<close>

section \<open>The structure\<close>

datatype rb_state = RT_RINGBUFFER_EMPTY | RT_RINGBUFFER_FULL | RT_RINGBUFFER_HALFFULL

record ringbuffer =
  rb_buffer :: "u8 list"
  rb_read_mirror :: bool
  rb_read_index :: nat
  rb_write_mirror :: bool
  rb_write_index :: nat
  rb_size :: nat

definition rt_ringbuffer_status :: "ringbuffer \<Rightarrow> rb_state" where
  "rt_ringbuffer_status rb =
     (if rb_read_index rb = rb_write_index rb
      then (if rb_read_mirror rb = rb_write_mirror rb then RT_RINGBUFFER_EMPTY else RT_RINGBUFFER_FULL)
      else RT_RINGBUFFER_HALFFULL)"

definition rt_ringbuffer_data_len :: "ringbuffer \<Rightarrow> nat" where
  "rt_ringbuffer_data_len rb =
     (case rt_ringbuffer_status rb of
        RT_RINGBUFFER_EMPTY \<Rightarrow> 0
      | RT_RINGBUFFER_FULL \<Rightarrow> rb_size rb
      | RT_RINGBUFFER_HALFFULL \<Rightarrow>
          (let wi = rb_write_index rb; ri = rb_read_index rb
           in if ri < wi then wi - ri else sub32 (rb_size rb) (ri - wi)))"

definition rt_ringbuffer_space_len :: "ringbuffer \<Rightarrow> nat" where
  "rt_ringbuffer_space_len rb = sub32 (rb_size rb) (rt_ringbuffer_data_len rb)"

definition rt_ringbuffer_init :: "u8 list \<Rightarrow> nat \<Rightarrow> ringbuffer option" where
  "rt_ringbuffer_init pool sz = do {
     rt_assert (0 < sz \<and> sz < 2 ^ 15);
     Some \<lparr>rb_buffer = pool, rb_read_mirror = False, rb_read_index = 0,
           rb_write_mirror = False, rb_write_index = 0, rb_size = sz div 4 * 4\<rparr> }"

text \<open>\<open>obj\<close> and \<open>pool\<close> are the results of the two allocations, of the structure and of \<open>sz div 4 * 4\<close>
  bytes.\<close>

definition rt_ringbuffer_create :: "bool \<Rightarrow> u8 list option \<Rightarrow> nat \<Rightarrow> ringbuffer option option" where
  "rt_ringbuffer_create obj pool sz = do {
     rt_assert (0 < sz);
     let sz = sz div 4 * 4;
     (if \<not> obj then Some None
      else case pool of
        None \<Rightarrow> Some None
      | Some p \<Rightarrow> do { rb \<leftarrow> rt_ringbuffer_init p sz; Some (Some rb) }) }"

definition rt_ringbuffer_reset :: "ringbuffer \<Rightarrow> ringbuffer" where
  "rt_ringbuffer_reset rb = rb\<lparr>rb_read_mirror := False, rb_read_index := 0,
     rb_write_mirror := False, rb_write_index := 0\<rparr>"

section \<open>Copying in and out\<close>

text \<open>\<^verbatim>\<open>rt_memcpy(&buf[pos], xs, length)\<close>.\<close>

definition buf_write :: "nat \<Rightarrow> u8 list \<Rightarrow> u8 list \<Rightarrow> u8 list option" where
  "buf_write pos xs buf = do {
     rt_assert (pos + length xs \<le> length buf);
     Some (take pos buf @ xs @ drop (pos + length xs) buf) }"

definition buf_read :: "nat \<Rightarrow> nat \<Rightarrow> u8 list \<Rightarrow> u8 list option" where
  "buf_read pos n buf = do { rt_assert (pos + n \<le> length buf); Some (take n (drop pos buf)) }"

text \<open>
  The part \<^verbatim>\<open>rt_ringbuffer_put\<close> and \<^verbatim>\<open>rt_ringbuffer_put_force\<close> have in common; the result says whether the
  write index went round. A write index behind the end would make the first length negative.
\<close>

definition rb_write :: "u8 list \<Rightarrow> ringbuffer \<Rightarrow> (bool \<times> ringbuffer) option" where
  "rb_write ptr rb =
     (if rb_write_index rb + length ptr < rb_size rb
      then do {
        buf \<leftarrow> buf_write (rb_write_index rb) ptr (rb_buffer rb);
        Some (False, rb\<lparr>rb_buffer := buf, rb_write_index := (rb_write_index rb + length ptr) mod 2 ^ 15\<rparr>) }
      else do {
        rt_assert (rb_write_index rb \<le> rb_size rb);
        let room = rb_size rb - rb_write_index rb;
        buf \<leftarrow> buf_write (rb_write_index rb) (take room ptr) (rb_buffer rb);
        buf \<leftarrow> buf_write 0 (drop room ptr) buf;
        Some (True, rb\<lparr>rb_buffer := buf, rb_write_mirror := \<not> rb_write_mirror rb,
                       rb_write_index := (length ptr - room) mod 2 ^ 15\<rparr>) })"

definition rt_ringbuffer_put :: "u8 list \<Rightarrow> ringbuffer \<Rightarrow> (nat \<times> ringbuffer) option" where
  "rt_ringbuffer_put ptr rb =
     (let sz = rt_ringbuffer_space_len rb mod 2 ^ 16
      in if sz = 0 then Some (0, rb)
         else do {
           let ptr = (if sz < length ptr then take sz ptr else ptr);
           (_, rb) \<leftarrow> rb_write ptr rb;
           Some (length ptr, rb) })"

definition rt_ringbuffer_put_force :: "u8 list \<Rightarrow> ringbuffer \<Rightarrow> (nat \<times> ringbuffer) option" where
  "rt_ringbuffer_put_force ptr rb =
     (let space_length = rt_ringbuffer_space_len rb mod 2 ^ 16;
          ptr = (if rb_size rb < length ptr then drop (length ptr - rb_size rb) ptr else ptr)
      in do {
        (wrapped, rb) \<leftarrow> rb_write ptr rb;
        Some (length ptr,
          if space_length < length ptr
          then (let rb = (if wrapped \<and> rb_write_index rb \<le> rb_read_index rb
                          then rb\<lparr>rb_read_mirror := \<not> rb_read_mirror rb\<rparr> else rb)
                in rb\<lparr>rb_read_index := rb_write_index rb\<rparr>)
          else rb) })"

text \<open>The bytes copied out are part of the result.\<close>

definition rt_ringbuffer_get :: "nat \<Rightarrow> ringbuffer \<Rightarrow> (u8 list \<times> ringbuffer) option" where
  "rt_ringbuffer_get n rb =
     (let sz = rt_ringbuffer_data_len rb
      in if sz = 0 then Some ([], rb)
         else let n = (if sz < n then sz else n)
         in if rb_read_index rb + n < rb_size rb
            then do {
              out \<leftarrow> buf_read (rb_read_index rb) n (rb_buffer rb);
              Some (out, rb\<lparr>rb_read_index := (rb_read_index rb + n) mod 2 ^ 15\<rparr>) }
            else do {
              rt_assert (rb_read_index rb \<le> rb_size rb);
              let room = rb_size rb - rb_read_index rb;
              out1 \<leftarrow> buf_read (rb_read_index rb) room (rb_buffer rb);
              out2 \<leftarrow> buf_read 0 (n - room) (rb_buffer rb);
              Some (out1 @ out2, rb\<lparr>rb_read_mirror := \<not> rb_read_mirror rb,
                                    rb_read_index := (n - room) mod 2 ^ 15\<rparr>) })"

text \<open>\<^verbatim>\<open>*ptr\<close> is the offset in the array, \<open>None\<close> for \<^verbatim>\<open>RT_NULL\<close>.\<close>

definition rt_ringbuffer_peak :: "ringbuffer \<Rightarrow> nat \<times> nat option \<times> ringbuffer" where
  "rt_ringbuffer_peak rb =
     (let sz = rt_ringbuffer_data_len rb
      in if sz = 0 then (0, None, rb)
         else if sz < rb_size rb - rb_read_index rb
         then (sz, Some (rb_read_index rb), rb\<lparr>rb_read_index := (rb_read_index rb + sz) mod 2 ^ 15\<rparr>)
         else (rb_size rb - rb_read_index rb, Some (rb_read_index rb),
               rb\<lparr>rb_read_mirror := \<not> rb_read_mirror rb, rb_read_index := 0\<rparr>))"

section \<open>Single bytes\<close>

definition rb_store :: "u8 \<Rightarrow> ringbuffer \<Rightarrow> ringbuffer option" where
  "rb_store ch rb = do {
     rt_assert (rb_write_index rb < length (rb_buffer rb));
     Some (rb\<lparr>rb_buffer := (rb_buffer rb)[rb_write_index rb := ch]\<rparr>) }"

definition rt_ringbuffer_putchar :: "u8 \<Rightarrow> ringbuffer \<Rightarrow> (nat \<times> ringbuffer) option" where
  "rt_ringbuffer_putchar ch rb =
     (if rt_ringbuffer_space_len rb = 0 then Some (0, rb)
      else do {
        rb \<leftarrow> rb_store ch rb;
        Some (1, if rb_write_index rb + 1 = rb_size rb
                 then rb\<lparr>rb_write_mirror := \<not> rb_write_mirror rb, rb_write_index := 0\<rparr>
                 else rb\<lparr>rb_write_index := (rb_write_index rb + 1) mod 2 ^ 15\<rparr>) })"

definition rt_ringbuffer_putchar_force :: "u8 \<Rightarrow> ringbuffer \<Rightarrow> (nat \<times> ringbuffer) option" where
  "rt_ringbuffer_putchar_force ch rb =
     (let old_state = rt_ringbuffer_status rb
      in do {
        rb \<leftarrow> rb_store ch rb;
        Some (1,
          if rb_write_index rb + 1 = rb_size rb
          then (let rb = rb\<lparr>rb_write_mirror := \<not> rb_write_mirror rb, rb_write_index := 0\<rparr>
                in if old_state = RT_RINGBUFFER_FULL
                   then rb\<lparr>rb_read_mirror := \<not> rb_read_mirror rb, rb_read_index := rb_write_index rb\<rparr>
                   else rb)
          else (let rb = rb\<lparr>rb_write_index := (rb_write_index rb + 1) mod 2 ^ 15\<rparr>
                in if old_state = RT_RINGBUFFER_FULL then rb\<lparr>rb_read_index := rb_write_index rb\<rparr> else rb)) })"

definition rt_ringbuffer_getchar :: "ringbuffer \<Rightarrow> (u8 option \<times> ringbuffer) option" where
  "rt_ringbuffer_getchar rb =
     (if rt_ringbuffer_data_len rb = 0 then Some (None, rb)
      else do {
        rt_assert (rb_read_index rb < length (rb_buffer rb));
        let ch = rb_buffer rb ! rb_read_index rb;
        Some (Some ch,
          if rb_read_index rb + 1 = rb_size rb
          then rb\<lparr>rb_read_mirror := \<not> rb_read_mirror rb, rb_read_index := 0\<rparr>
          else rb\<lparr>rb_read_index := (rb_read_index rb + 1) mod 2 ^ 15\<rparr>) })"

section \<open>What a ring buffer holds\<close>

definition rb_wf :: "ringbuffer \<Rightarrow> bool" where
  "rb_wf rb \<longleftrightarrow> rb_size rb < 2 ^ 15 \<and> rb_size rb \<le> length (rb_buffer rb)
     \<and> rb_read_index rb < rb_size rb \<and> rb_write_index rb < rb_size rb
     \<and> (rb_read_index rb < rb_write_index rb \<longrightarrow> rb_read_mirror rb = rb_write_mirror rb)
     \<and> (rb_write_index rb < rb_read_index rb \<longrightarrow> rb_read_mirror rb \<noteq> rb_write_mirror rb)"

definition rb_contents :: "ringbuffer \<Rightarrow> u8 list" where
  "rb_contents rb = ring_contents (rb_buffer rb) (rb_size rb) (rb_read_index rb) (rt_ringbuffer_data_len rb)"

lemma mod_wrap: "a < 2 * n \<Longrightarrow> a mod n = (if a < n then a else a - (n :: nat))"
  by (simp add: mod_if)

lemma rb_lens:
  assumes "rb_wf rb"
  shows "rt_ringbuffer_data_len rb =
      (if rb_read_mirror rb = rb_write_mirror rb then rb_write_index rb - rb_read_index rb
       else rb_size rb - (rb_read_index rb - rb_write_index rb))"
    and "rt_ringbuffer_data_len rb \<le> rb_size rb"
    and "rt_ringbuffer_space_len rb = rb_size rb - rt_ringbuffer_data_len rb"
proof -
  show d: "rt_ringbuffer_data_len rb =
      (if rb_read_mirror rb = rb_write_mirror rb then rb_write_index rb - rb_read_index rb
       else rb_size rb - (rb_read_index rb - rb_write_index rb))"
    using assms by (auto simp: rt_ringbuffer_data_len_def rt_ringbuffer_status_def rb_wf_def Let_def)
  show l: "rt_ringbuffer_data_len rb \<le> rb_size rb"
    using assms unfolding d by (auto simp: rb_wf_def)
  show "rt_ringbuffer_space_len rb = rb_size rb - rt_ringbuffer_data_len rb"
    using l assms by (simp add: rt_ringbuffer_space_len_def rb_wf_def)
qed

lemma length_rb_contents [simp]: "length (rb_contents rb) = rt_ringbuffer_data_len rb"
  by (simp add: rb_contents_def)

lemma rb_contents_nth:
  assumes "rb_wf rb" "i < rt_ringbuffer_data_len rb"
  shows "rb_contents rb ! i = rb_buffer rb ! (if rb_read_index rb + i < rb_size rb then rb_read_index rb + i
      else rb_read_index rb + i - rb_size rb)"
proof -
  have "rb_read_index rb + i < 2 * rb_size rb" using assms rb_lens(2) [OF assms(1)] by (auto simp: rb_wf_def)
  then show ?thesis using assms(2) by (simp add: rb_contents_def ring_contents_def mod_wrap)
qed

lemma buf_write_some:
  assumes "pos + length xs \<le> length buf"
  obtains b where "buf_write pos xs buf = Some b" "length b = length buf"
    "\<And>j. j < length buf \<Longrightarrow> b ! j = (if pos \<le> j \<and> j < pos + length xs then xs ! (j - pos) else buf ! j)"
proof -
  let ?b = "take pos buf @ xs @ drop (pos + length xs) buf"
  have "?b ! j = (if pos \<le> j \<and> j < pos + length xs then xs ! (j - pos) else buf ! j)" if "j < length buf" for j
    using assms that by (auto simp: nth_append)
  moreover have "buf_write pos xs buf = Some ?b" "length ?b = length buf" using assms by (simp_all add: buf_write_def)
  ultimately show ?thesis using that by blast
qed

text \<open>The bytes after a write: the array, and where the write index is.\<close>

lemma rb_write_some:
  assumes w: "rb_wf rb" and d: "length d \<le> rb_size rb"
  obtains b where "rb_write d rb = Some (rb_size rb \<le> rb_write_index rb + length d,
      rb\<lparr>rb_buffer := b,
         rb_write_mirror := (rb_write_mirror rb \<noteq> (rb_size rb \<le> rb_write_index rb + length d)),
         rb_write_index := (if rb_size rb \<le> rb_write_index rb + length d
                            then rb_write_index rb + length d - rb_size rb else rb_write_index rb + length d)\<rparr>)"
    "length b = length (rb_buffer rb)"
    "\<And>j. j < rb_size rb \<Longrightarrow> b ! j =
       (if rb_write_index rb \<le> j \<and> j < rb_write_index rb + length d then d ! (j - rb_write_index rb)
        else if j + rb_size rb < rb_write_index rb + length d then d ! (j + rb_size rb - rb_write_index rb)
        else rb_buffer rb ! j)"
proof -
  let ?n = "rb_size rb" and ?w = "rb_write_index rb" and ?buf = "rb_buffer rb"
  have W: "?n < 2 ^ 15" "?n \<le> length ?buf" "?w < ?n" using w by (simp_all add: rb_wf_def)
  show ?thesis
  proof (cases "?w + length d < ?n")
    case True
    then have l: "?w + length d \<le> length ?buf" using W by simp
    obtain b where b: "buf_write ?w d ?buf = Some b" "length b = length ?buf"
      "\<And>j. j < length ?buf \<Longrightarrow> b ! j = (if ?w \<le> j \<and> j < ?w + length d then d ! (j - ?w) else ?buf ! j)"
      using buf_write_some [OF l] by metis
    show ?thesis
      by (rule that [of b]) (use True W b in \<open>auto simp: rb_write_def\<close>)
  next
    case False
    let ?room = "?n - ?w"
    have l1: "?w + length (take ?room d) \<le> length ?buf" using W by simp
    obtain b1 where b1: "buf_write ?w (take ?room d) ?buf = Some b1" "length b1 = length ?buf"
      "\<And>j. j < length ?buf \<Longrightarrow> b1 ! j = (if ?w \<le> j \<and> j < ?w + length (take ?room d)
          then take ?room d ! (j - ?w) else ?buf ! j)" using buf_write_some [OF l1] by metis
    have l2: "0 + length (drop ?room d) \<le> length b1" using W d b1(2) by simp
    obtain b where b: "buf_write 0 (drop ?room d) b1 = Some b" "length b = length b1"
      "\<And>j. j < length b1 \<Longrightarrow> b ! j = (if 0 \<le> j \<and> j < 0 + length (drop ?room d)
          then drop ?room d ! (j - 0) else b1 ! j)" using buf_write_some [OF l2] by metis
    have m: "(length d - ?room) mod 2 ^ 15 = ?w + length d - ?n" using False W d by simp
    have nth: "b ! j = (if ?w \<le> j \<and> j < ?w + length d then d ! (j - ?w)
        else if j + ?n < ?w + length d then d ! (j + ?n - ?w) else ?buf ! j)" if "j < ?n" for j
      using that False W d b(3) [of j] b1(2) b1(3) [of j] by (auto simp: nth_drop add.commute)
    show ?thesis
      by (rule that [of b]) (use False W b(1,2) b1(1,2) m nth in \<open>auto simp: rb_write_def Let_def\<close>)
  qed
qed


lemma ring_write_index:
  fixes r w s n l i :: nat
  assumes a: "w = r + n \<or> w + s = r + n" "n + l \<le> s" "r < s" "w < s" "i < n + l"
  defines "j \<equiv> if r + i < s then r + i else r + i - s"
  shows "i < n \<Longrightarrow> \<not> (w \<le> j \<and> j < w + l)" "i < n \<Longrightarrow> \<not> j + s < w + l"
    "n \<le> i \<Longrightarrow> w \<le> j \<and> j < w + l \<Longrightarrow> j - w = i - n"
    "n \<le> i \<Longrightarrow> \<not> (w \<le> j \<and> j < w + l) \<Longrightarrow> j + s < w + l \<and> j + s - w = i - n"
  using a unfolding j_def by (auto split: if_splits)

lemma rb_indices:
  assumes "rb_wf rb"
  shows "rb_write_index rb = rb_read_index rb + rt_ringbuffer_data_len rb
    \<or> rb_write_index rb + rb_size rb = rb_read_index rb + rt_ringbuffer_data_len rb"
  using assms unfolding rb_lens(1) [OF assms] by (auto simp: rb_wf_def)

text \<open>A write that fits adds to the contents.\<close>

lemma rb_write_ok:
  assumes w: "rb_wf rb" and d: "length d \<le> rb_size rb - rt_ringbuffer_data_len rb" "d \<noteq> []"
  obtains c rb' where "rb_write d rb = Some (c, rb')" "rb_wf rb'" "rb_contents rb' = rb_contents rb @ d"
    "rb_size rb' = rb_size rb"
proof -
  have L: "rt_ringbuffer_data_len rb \<le> rb_size rb" by (rule rb_lens(2) [OF w])
  have dl: "length d \<le> rb_size rb" using d by simp
  note W = w [unfolded rb_wf_def] and D = rb_lens(1) [OF w]
  from rb_write_some [OF w dl] obtain b where b:
    "rb_write d rb = Some (rb_size rb \<le> rb_write_index rb + length d,
      rb\<lparr>rb_buffer := b,
         rb_write_mirror := (rb_write_mirror rb \<noteq> (rb_size rb \<le> rb_write_index rb + length d)),
         rb_write_index := (if rb_size rb \<le> rb_write_index rb + length d
                            then rb_write_index rb + length d - rb_size rb else rb_write_index rb + length d)\<rparr>)"
    "length b = length (rb_buffer rb)"
    "\<And>j. j < rb_size rb \<Longrightarrow> b ! j =
       (if rb_write_index rb \<le> j \<and> j < rb_write_index rb + length d then d ! (j - rb_write_index rb)
        else if j + rb_size rb < rb_write_index rb + length d then d ! (j + rb_size rb - rb_write_index rb)
        else rb_buffer rb ! j)" by metis
  define rb' where "rb' = rb\<lparr>rb_buffer := b,
         rb_write_mirror := (rb_write_mirror rb \<noteq> (rb_size rb \<le> rb_write_index rb + length d)),
         rb_write_index := (if rb_size rb \<le> rb_write_index rb + length d
                            then rb_write_index rb + length d - rb_size rb else rb_write_index rb + length d)\<rparr>"
  have w': "rb_wf rb'" using W d(1) b(2) D L dl by (auto simp: rb_wf_def rb'_def split: if_splits)
  have F: "rb_size rb' = rb_size rb" "rb_read_index rb' = rb_read_index rb" "rb_buffer rb' = b"
    by (simp_all add: rb'_def)
  have len: "rt_ringbuffer_data_len rb' = rt_ringbuffer_data_len rb + length d"
    using W d D L dl unfolding rb_lens(1) [OF w'] by (auto simp: rb'_def split: if_splits)
  have "rb_contents rb' = rb_contents rb @ d"
  proof (rule nth_equalityI)
    show "length (rb_contents rb') = length (rb_contents rb @ d)" by (simp add: len)
    fix i
    assume "i < length (rb_contents rb')"
    then have i: "i < rt_ringbuffer_data_len rb + length d" by (simp add: len)
    let ?j = "if rb_read_index rb + i < rb_size rb then rb_read_index rb + i else rb_read_index rb + i - rb_size rb"
    have j: "?j < rb_size rb" using i d L W by auto
    have "rb_contents rb' ! i = b ! ?j" using rb_contents_nth [OF w', of i] i by (simp only: len F)
    also have "\<dots> = (if i < rt_ringbuffer_data_len rb then rb_buffer rb ! ?j else d ! (i - rt_ringbuffer_data_len rb))"
    proof -
      have "rt_ringbuffer_data_len rb + length d \<le> rb_size rb" "rb_read_index rb < rb_size rb"
        "rb_write_index rb < rb_size rb" using d(1) L W by simp_all
      note A = ring_write_index [OF rb_indices [OF w] this i]
      show ?thesis using A(1,2) A(3,4) unfolding b(3) [OF j]
        by (smt (verit) not_less)
    qed
    also have "\<dots> = (rb_contents rb @ d) ! i" using rb_contents_nth [OF w] by (auto simp: nth_append)
    finally show "rb_contents rb' ! i = (rb_contents rb @ d) ! i" .
  qed
  then show ?thesis using that [OF b(1) [folded rb'_def] w'] by (simp add: rb'_def)
qed


text \<open>Taking bytes off the front.\<close>

definition rb_skip :: "nat \<Rightarrow> ringbuffer \<Rightarrow> ringbuffer" where
  "rb_skip n rb = rb\<lparr>rb_read_mirror := (rb_read_mirror rb \<noteq> (rb_size rb \<le> rb_read_index rb + n)),
     rb_read_index := (if rb_size rb \<le> rb_read_index rb + n then rb_read_index rb + n - rb_size rb
                       else rb_read_index rb + n)\<rparr>"

lemma rb_skip_fields [simp]:
  "rb_size (rb_skip n rb) = rb_size rb" "rb_buffer (rb_skip n rb) = rb_buffer rb"
  "rb_write_index (rb_skip n rb) = rb_write_index rb" "rb_write_mirror (rb_skip n rb) = rb_write_mirror rb"
  by (simp_all add: rb_skip_def)

lemma rb_skip_ok:
  assumes w: "rb_wf rb" and n: "n \<le> rt_ringbuffer_data_len rb"
  shows "rb_wf (rb_skip n rb)" "rb_contents (rb_skip n rb) = drop n (rb_contents rb)"
    "rt_ringbuffer_data_len (rb_skip n rb) = rt_ringbuffer_data_len rb - n"
proof -
  note W = w [unfolded rb_wf_def] and D = rb_lens(1) [OF w]
  show w': "rb_wf (rb_skip n rb)" using W n D by (auto simp: rb_wf_def rb_skip_def split: if_splits)
  show len: "rt_ringbuffer_data_len (rb_skip n rb) = rt_ringbuffer_data_len rb - n"
    using W n D unfolding rb_lens(1) [OF w'] by (auto simp: rb_skip_def split: if_splits)
  show "rb_contents (rb_skip n rb) = drop n (rb_contents rb)"
  proof (rule nth_equalityI)
    show "length (rb_contents (rb_skip n rb)) = length (drop n (rb_contents rb))" by (simp add: len)
    fix i
    assume "i < length (rb_contents (rb_skip n rb))"
    then have i: "i < rt_ringbuffer_data_len rb - n" by (simp add: len)
    let ?r = "rb_read_index rb" and ?s = "rb_size rb" and ?r' = "rb_read_index (rb_skip n rb)"
    have e: "(if ?r' + i < ?s then ?r' + i else ?r' + i - ?s)
        = (if ?r + (n + i) < ?s then ?r + (n + i) else ?r + (n + i) - ?s)"
      using i W D by (auto simp: rb_skip_def split: if_splits)
    have "rb_contents (rb_skip n rb) ! i = rb_contents rb ! (n + i)"
      using rb_contents_nth [OF w', of i] rb_contents_nth [OF w, of "n + i"] i n
      by (simp only: len rb_skip_fields e)
    then show "rb_contents (rb_skip n rb) ! i = drop n (rb_contents rb) ! i" using i n by simp
  qed
qed

lemma buf_read_some: "pos + n \<le> length buf \<Longrightarrow> buf_read pos n buf = Some (take n (drop pos buf))"
  by (simp add: buf_read_def)

lemma rt_ringbuffer_get_ok:
  assumes w: "rb_wf rb"
  shows "rt_ringbuffer_get n rb = Some (take n (rb_contents rb), rb_skip (min n (rt_ringbuffer_data_len rb)) rb)"
proof (cases "rt_ringbuffer_data_len rb = 0")
  case True
  moreover have "rb_skip 0 rb = rb" using w by (simp add: rb_skip_def rb_wf_def)
  moreover have "rb_contents rb = []" using True by (simp flip: length_0_conv)
  ultimately show ?thesis by (simp add: rt_ringbuffer_get_def Let_def)
next
  case False
  let ?d = "rt_ringbuffer_data_len rb" and ?r = "rb_read_index rb" and ?s = "rb_size rb" and ?b = "rb_buffer rb"
  define m where "m = min n ?d"
  have mn: "(if ?d < n then ?d else n) = m" by (simp add: m_def min_def)
  have md: "m \<le> ?d" by (simp add: m_def)
  note W = w [unfolded rb_wf_def] and L = rb_lens(2) [OF w]
  have nth: "take n (rb_contents rb) ! i = ?b ! (if ?r + i < ?s then ?r + i else ?r + i - ?s)" if "i < m" for i
    using that rb_contents_nth [OF w, of i] by (simp add: m_def)
  have len: "length (take n (rb_contents rb)) = m" by (simp add: m_def min.commute)
  show ?thesis
  proof (cases "?r + m < ?s")
    case True
    have "take n (rb_contents rb) = take m (drop ?r ?b)"
      by (rule nth_equalityI) (use True W nth len in \<open>auto\<close>)
    then show ?thesis using False True W
      by (simp add: rt_ringbuffer_get_def Let_def mn buf_read_some rb_skip_def flip: m_def)
  next
    case f: False
    have "take n (rb_contents rb) = take (?s - ?r) (drop ?r ?b) @ take (m - (?s - ?r)) ?b" (is "_ = ?x @ ?y")
    proof (rule nth_equalityI)
      have lx: "length ?x = ?s - ?r" "length ?y = m - (?s - ?r)" using W md L by auto
      then show "length (take n (rb_contents rb)) = length (?x @ ?y)" using f by (simp add: len del: length_take)
      fix i
      assume "i < length (take n (rb_contents rb))"
      then have i: "i < m" by (simp only: len)
      show "take n (rb_contents rb) ! i = (?x @ ?y) ! i"
      proof (cases "i < ?s - ?r")
        case True
        then have "?r + i < ?s" by simp
        moreover have "(?x @ ?y) ! i = ?b ! (?r + i)" using True lx(1) W by (simp add: nth_append)
        ultimately show ?thesis using nth [OF i] by simp
      next
        case F: False
        then have "i - (?s - ?r) < m - (?s - ?r)" using i by simp
        then have "(?x @ ?y) ! i = ?b ! (i - (?s - ?r))" using F lx by (simp add: nth_append)
        moreover have "?r + i - ?s = i - (?s - ?r)" "\<not> ?r + i < ?s" using F W by auto
        ultimately show ?thesis using nth [OF i] by simp
      qed
    qed
    moreover have "(m - (?s - ?r)) mod 2 ^ 15 = ?r + m - ?s"
    proof -
      have "m - (?s - ?r) = ?r + m - ?s" "?r + m - ?s < 2 ^ 15" using f W md L by linarith+
      then show ?thesis by simp
    qed
    moreover have "?r + m - ?s \<le> length ?b" using W md L by linarith
    ultimately show ?thesis using False f W
      by (simp add: rt_ringbuffer_get_def Let_def mn buf_read_some rb_skip_def flip: m_def)
  qed
qed


lemma rb_space:
  assumes "rb_wf rb"
  shows "rt_ringbuffer_space_len rb mod 2 ^ 16 = rb_size rb - rt_ringbuffer_data_len rb"
proof -
  have "rb_size rb - rt_ringbuffer_data_len rb < 2 ^ 16" using assms by (auto simp: rb_wf_def)
  then show ?thesis by (simp add: rb_lens(3) [OF assms])
qed

lemma rt_ringbuffer_put_ok:
  assumes w: "rb_wf rb"
  obtains rb' where "rt_ringbuffer_put ptr rb = Some (min (length ptr) (rb_size rb - rt_ringbuffer_data_len rb), rb')"
    "rb_wf rb'" "rb_size rb' = rb_size rb"
    "rb_contents rb' = rb_contents rb @ take (rb_size rb - rt_ringbuffer_data_len rb) ptr"
proof -
  let ?n = "rb_size rb - rt_ringbuffer_data_len rb"
  note n = rb_space [OF w, simplified]
  have t: "(if ?n < length ptr then take ?n ptr else ptr) = take ?n ptr" by simp
  consider "?n = 0" | "ptr = []" "?n \<noteq> 0" | "?n \<noteq> 0" "ptr \<noteq> []" by blast
  then show ?thesis
  proof cases
    case 1
    then show ?thesis using that [of rb] w by (simp add: rt_ringbuffer_put_def n)
  next
    case 2
    have "rb_write [] rb = Some (False, rb)" using w
      by (simp add: rb_write_def rb_wf_def buf_write_def)
    then show ?thesis using that [of rb] 2 w by (simp add: rt_ringbuffer_put_def n Let_def)
  next
    case 3
    have "length (take ?n ptr) \<le> ?n" "take ?n ptr \<noteq> []" using 3 by simp_all
    from rb_write_ok [OF w this] obtain c rb' where
      r: "rb_write (take ?n ptr) rb = Some (c, rb')" "rb_wf rb'" "rb_contents rb' = rb_contents rb @ take ?n ptr"
      "rb_size rb' = rb_size rb" by metis
    show ?thesis by (rule that [of rb']) (use 3 r in \<open>simp_all add: rt_ringbuffer_put_def Let_def n t\<close>)
  qed
qed

text \<open>Writes do not look at the read side.\<close>

lemma rb_write_skip:
  "rb_write d (rb_skip n rb) = map_option (\<lambda>(c, x). (c, x\<lparr>rb_read_mirror := rb_read_mirror (rb_skip n rb),
     rb_read_index := rb_read_index (rb_skip n rb)\<rparr>)) (rb_write d rb)"
  by (auto simp: rb_write_def rb_skip_def Let_def split: bind_splits)

lemma rb_full:
  assumes "rb_wf rb" "rt_ringbuffer_data_len rb = rb_size rb"
  shows "rb_read_index rb = rb_write_index rb" "rb_read_mirror rb = (\<not> rb_write_mirror rb)"
  using assms unfolding rb_lens(1) [OF assms(1)] by (auto simp: rb_wf_def split: if_splits)

lemma rb_write_fields:
  assumes "rb_wf rb" "length d \<le> rb_size rb" "rb_write d rb = Some (c, y)"
  shows "c = (rb_size rb \<le> rb_write_index rb + length d)"
    "rb_write_mirror y = (rb_write_mirror rb \<noteq> c)"
    "rb_write_index y = (if c then rb_write_index rb + length d - rb_size rb else rb_write_index rb + length d)"
    "rb_read_index y = rb_read_index rb" "rb_read_mirror y = rb_read_mirror rb"
  using assms(3) by (rule_tac rb_write_some [OF assms(1,2)]; simp)+

text \<open>A forced write keeps the last bytes that fit.\<close>

lemma rt_ringbuffer_put_force_ok:
  assumes w: "rb_wf rb" and ne: "ptr \<noteq> []"
  obtains rb' where "rt_ringbuffer_put_force ptr rb = Some (min (length ptr) (rb_size rb), rb')"
    "rb_wf rb'" "rb_size rb' = rb_size rb"
    "rb_contents rb' = drop (rt_ringbuffer_data_len rb + length ptr - rb_size rb) (rb_contents rb @ ptr)"
proof -
  let ?n = "rb_size rb" and ?d = "rt_ringbuffer_data_len rb"
  define d where "d = drop (length ptr - ?n) ptr"
  have dd: "(if ?n < length ptr then drop (length ptr - ?n) ptr else ptr) = d" by (simp add: d_def)
  note W = w [unfolded rb_wf_def] and L = rb_lens(2) [OF w]
  have ld: "length d = min (length ptr) ?n" by (simp add: d_def min_def)
  note n = rb_space [OF w, simplified]
  have nd: "d \<noteq> []" 
  proof -
    have "0 < ?n" "0 < length ptr" using W ne by auto
    then have "0 < length d" unfolding ld by simp
    then show ?thesis by simp
  qed
  define k where "k = ?d + length d - ?n"
  have k: "k \<le> ?d" using ld by (simp add: k_def)
  note S = rb_skip_ok [OF w k]
  have fit: "length d \<le> rb_size (rb_skip k rb) - rt_ringbuffer_data_len (rb_skip k rb)"
    unfolding rb_skip_fields S(3) using L ld by (simp add: k_def)
  from rb_write_ok [OF S(1) fit nd] obtain c x where
    x: "rb_write d (rb_skip k rb) = Some (c, x)" "rb_wf x" "rb_contents x = drop k (rb_contents rb) @ d"
    "rb_size x = ?n" unfolding S(2) by auto
  then obtain y where y: "rb_write d rb = Some (c, y)"
    "x = y\<lparr>rb_read_mirror := rb_read_mirror (rb_skip k rb), rb_read_index := rb_read_index (rb_skip k rb)\<rparr>"
    by (auto simp: rb_write_skip)
  have cont: "rb_contents x = drop (?d + length ptr - ?n) (rb_contents rb @ ptr)"
  proof (cases "?n < length ptr")
    case True
    then have "length d = ?n" by (simp add: ld)
    then show ?thesis using True by (simp add: x(3) k_def) (simp add: d_def)
  next
    case False
    then show ?thesis using L by (simp add: x(3) k_def d_def)
  qed
  have f: "rt_ringbuffer_put_force ptr rb = Some (length d,
      if ?n - ?d < length d
      then (let y = (if c \<and> rb_write_index y \<le> rb_read_index y then y\<lparr>rb_read_mirror := \<not> rb_read_mirror y\<rparr> else y)
            in y\<lparr>rb_read_index := rb_write_index y\<rparr>)
      else y)"
    by (simp add: rt_ringbuffer_put_force_def Let_def n dd y(1))
  show ?thesis
  proof (cases "?n - ?d < length d")
    case False
    then have "k = 0" using L by (simp add: k_def)
    then have "rb_skip k rb = rb" using W by (simp add: rb_skip_def)
    then have "x = y" using x(1) y(1) by simp
    then have "rt_ringbuffer_put_force ptr rb = Some (min (length ptr) ?n, x)"
      unfolding f if_not_P [OF False] unfolding ld by simp
    then show ?thesis by (rule that [OF _ x(2,4) cont])
  next
    case True
    have "length (rb_contents x) = ?n" using True L k by (simp add: x(3) k_def)
    then have full: "rt_ringbuffer_data_len x = rb_size x" by (simp add: x(4))
    note F = rb_full [OF x(2) full]
    have dl: "length d \<le> ?n" by (simp add: ld)
    note Y = rb_write_fields [OF w dl y(1)]
    have "(if c \<and> rb_write_index y \<le> rb_read_index y then \<not> rb_read_mirror y else rb_read_mirror y)
        = (\<not> rb_write_mirror y)"
      using True W L dl Y rb_lens(1) [OF w] by (auto split: if_splits)
    then have "(let y = (if c \<and> rb_write_index y \<le> rb_read_index y then y\<lparr>rb_read_mirror := \<not> rb_read_mirror y\<rparr> else y)
            in y\<lparr>rb_read_index := rb_write_index y\<rparr>) = x"
      using F by (cases y) (auto simp: y(2) Let_def)
    then have "rt_ringbuffer_put_force ptr rb = Some (min (length ptr) ?n, x)"
      unfolding f if_P [OF True] unfolding ld by (simp only:)
    then show ?thesis by (rule that [OF _ x(2,4) cont])
  qed
qed


text \<open>The operations on single bytes are those on blocks of one byte.\<close>

lemma rb_write_1:
  assumes "rb_wf rb"
  shows "rb_write [ch] rb = Some (rb_write_index rb + 1 = rb_size rb,
    (if rb_write_index rb + 1 = rb_size rb
     then rb\<lparr>rb_write_mirror := \<not> rb_write_mirror rb, rb_write_index := 0\<rparr>
     else rb\<lparr>rb_write_index := (rb_write_index rb + 1) mod 2 ^ 15\<rparr>)
    \<lparr>rb_buffer := (rb_buffer rb)[rb_write_index rb := ch]\<rparr>)"
proof -
  have w: "rb_write_index rb < rb_size rb" "rb_size rb \<le> length (rb_buffer rb)" using assms by (auto simp: rb_wf_def)
  then have b: "buf_write (rb_write_index rb) [ch] (rb_buffer rb) = Some ((rb_buffer rb)[rb_write_index rb := ch])"
    by (simp add: buf_write_def upd_conv_take_nth_drop)
  show ?thesis
  proof (cases "rb_write_index rb + 1 = rb_size rb")
    case True
    then have r: "rb_size rb - rb_write_index rb = 1" by simp
    show ?thesis using True w by (simp add: rb_write_def r b Let_def) (simp add: buf_write_def)
  next
    case False
    then have "rb_write_index rb + 1 < rb_size rb" using w by simp
    with False show ?thesis by (simp add: rb_write_def b)
  qed
qed

lemma rt_ringbuffer_putchar_eq:
  assumes w: "rb_wf rb"
  shows "rt_ringbuffer_putchar ch rb = rt_ringbuffer_put [ch] rb"
proof -
  have s: "rb_write_index rb < length (rb_buffer rb)" using w by (auto simp: rb_wf_def)
  have z: "rt_ringbuffer_space_len rb = rt_ringbuffer_space_len rb mod 2 ^ 16"
    using rb_space [OF w] rb_lens(3) [OF w] by simp
  show ?thesis
    using s z by (simp add: rt_ringbuffer_putchar_def rt_ringbuffer_put_def rb_store_def rb_write_1 [OF w] Let_def)
qed

lemma rt_ringbuffer_putchar_force_eq:
  assumes w: "rb_wf rb"
  shows "rt_ringbuffer_putchar_force ch rb = rt_ringbuffer_put_force [ch] rb"
proof -
  have s: "rb_write_index rb < length (rb_buffer rb)" "\<not> rb_size rb < Suc 0" using w by (auto simp: rb_wf_def)
  have f: "rt_ringbuffer_status rb = RT_RINGBUFFER_FULL \<longleftrightarrow> rt_ringbuffer_space_len rb mod 2 ^ 16 < 1"
    unfolding rb_space [OF w]
  proof
    assume "rt_ringbuffer_status rb = RT_RINGBUFFER_FULL"
    then have "rt_ringbuffer_data_len rb = rb_size rb" by (simp add: rt_ringbuffer_data_len_def)
    then show "rb_size rb - rt_ringbuffer_data_len rb < 1" by simp
  next
    assume "rb_size rb - rt_ringbuffer_data_len rb < 1"
    then have "rt_ringbuffer_data_len rb = rb_size rb" using rb_lens(2) [OF w] by simp
    from rb_full [OF w this] show "rt_ringbuffer_status rb = RT_RINGBUFFER_FULL"
      by (simp add: rt_ringbuffer_status_def)
  qed
  show ?thesis
    using s f by (simp add: rt_ringbuffer_putchar_force_def rt_ringbuffer_put_force_def rb_store_def rb_write_1 [OF w] Let_def)
qed

lemma rt_ringbuffer_getchar_eq:
  assumes w: "rb_wf rb"
  shows "rt_ringbuffer_getchar rb = (case rb_contents rb of [] \<Rightarrow> Some (None, rb)
    | ch # _ \<Rightarrow> Some (Some ch, rb_skip 1 rb))"
proof (cases "rt_ringbuffer_data_len rb = 0")
  case True
  then have "rb_contents rb = []" by (simp flip: length_0_conv)
  with True show ?thesis by (simp add: rt_ringbuffer_getchar_def)
next
  case False
  then have "rb_contents rb \<noteq> []" by (simp flip: length_0_conv)
  then obtain ch cs where c: "rb_contents rb = ch # cs" by (cases "rb_contents rb") auto
  have r: "rb_read_index rb < rb_size rb" "rb_size rb \<le> length (rb_buffer rb)" "rb_size rb < 2 ^ 15"
    using w by (simp_all add: rb_wf_def)
  have "rb_buffer rb ! rb_read_index rb = ch" using rb_contents_nth [OF w, of 0] False r(1) by (simp add: c)
  then show ?thesis
    using False r by (auto simp: rt_ringbuffer_getchar_def c Let_def rb_skip_def)
qed

text \<open>\<^verbatim>\<open>rt_ringbuffer_peak\<close> hands out, and removes, the bytes up to the end of the array.\<close>

lemma rt_ringbuffer_peak_ok:
  assumes w: "rb_wf rb" and d: "rt_ringbuffer_data_len rb \<noteq> 0"
  obtains n where "rt_ringbuffer_peak rb = (n, Some (rb_read_index rb), rb_skip n rb)" "0 < n"
    "n \<le> rt_ringbuffer_data_len rb" "rb_read_index rb + n \<le> rb_size rb"
    "take n (drop (rb_read_index rb) (rb_buffer rb)) = take n (rb_contents rb)"
proof -
  define n where "n = min (rt_ringbuffer_data_len rb) (rb_size rb - rb_read_index rb)"
  have r: "rb_read_index rb < rb_size rb" "rb_size rb \<le> length (rb_buffer rb)" "rb_size rb < 2 ^ 15"
    using w by (simp_all add: rb_wf_def)
  have n: "0 < n" "n \<le> rt_ringbuffer_data_len rb" "rb_read_index rb + n \<le> rb_size rb"
    using d r by (auto simp: n_def)
  have "take n (drop (rb_read_index rb) (rb_buffer rb)) = take n (rb_contents rb)"
    by (rule nth_equalityI) (use n r rb_contents_nth [OF w] in auto)
  moreover have "rt_ringbuffer_peak rb = (n, Some (rb_read_index rb), rb_skip n rb)"
    using d r by (auto simp: rt_ringbuffer_peak_def rb_skip_def n_def Let_def min_def)
  ultimately show ?thesis using that n by blast
qed

section \<open>A ring buffer is a queue of bytes\<close>

lemma rt_ringbuffer_init_ok:
  assumes "4 \<le> sz" "sz < 2 ^ 15" "sz \<le> length pool"
  obtains rb where "rt_ringbuffer_init pool sz = Some rb" "rb_wf rb" "rb_contents rb = []"
    "rb_size rb = sz div 4 * 4"
proof -
  let ?rb = "\<lparr>rb_buffer = pool, rb_read_mirror = False, rb_read_index = 0,
           rb_write_mirror = False, rb_write_index = 0, rb_size = sz div 4 * 4\<rparr>"
  have s: "sz div 4 * 4 \<le> sz" "0 < sz div 4" using assms(1) by auto
  then have w: "rb_wf ?rb" using assms(2,3) by (auto simp: rb_wf_def)
  moreover have "rb_contents ?rb = []" using rb_lens(1) [OF w] by (simp flip: length_0_conv)
  moreover have "rt_ringbuffer_init pool sz = Some ?rb" using assms by (simp add: rt_ringbuffer_init_def)
  ultimately show ?thesis using that by simp
qed

definition rb_try_put :: "u8 \<Rightarrow> ringbuffer \<Rightarrow> ringbuffer option" where
  "rb_try_put ch rb = (case rt_ringbuffer_putchar ch rb of Some (Suc 0, rb') \<Rightarrow> Some rb' | _ \<Rightarrow> None)"

definition rb_try_get :: "ringbuffer \<Rightarrow> (u8 \<times> ringbuffer) option" where
  "rb_try_get rb = (case rt_ringbuffer_getchar rb of Some (Some ch, rb') \<Rightarrow> Some (ch, rb') | _ \<Rightarrow> None)"

interpretation rbq: bounded_fifo rb_wf rb_contents rb_size "\<lambda>_ _. True" rb_try_put rb_try_get
proof
  fix rb :: ringbuffer and a :: u8 and as
  assume w: "rb_wf rb"
  obtain rb' where p: "rt_ringbuffer_putchar a rb = Some (min (length [a]) (rb_size rb - rt_ringbuffer_data_len rb), rb')"
    "rb_wf rb'" "rb_size rb' = rb_size rb"
    "rb_contents rb' = rb_contents rb @ take (rb_size rb - rt_ringbuffer_data_len rb) [a]"
    unfolding rt_ringbuffer_putchar_eq [OF w] by (rule rt_ringbuffer_put_ok [OF w, of "[a]"])
  show "length (rb_contents rb) \<le> rb_size rb" using rb_lens(2) [OF w] by simp
  show "\<exists>s'. rb_try_put a rb = Some s' \<and> rb_wf s' \<and> rb_contents s' = rb_contents rb @ [a]
      \<and> rb_size s' = rb_size rb \<and> (\<lambda>_. True) = (\<lambda>_. True)" if "length (rb_contents rb) < rb_size rb"
  proof -
    have one: "min (length [a]) (rb_size rb - rt_ringbuffer_data_len rb) = Suc 0"
      "take (rb_size rb - rt_ringbuffer_data_len rb) [a] = [a]" using that by auto
    from p [unfolded one] show ?thesis by (simp add: rb_try_put_def)
  qed
  show "rb_try_put a rb = None" if "length (rb_contents rb) = rb_size rb"
    using that p(1) by (simp add: rb_try_put_def)
  show "rb_try_get rb = None" if "rb_contents rb = []"
    using that by (simp add: rb_try_get_def rt_ringbuffer_getchar_eq [OF w])
  show "\<exists>s'. rb_try_get rb = Some (a, s') \<and> rb_wf s' \<and> rb_contents s' = as
      \<and> rb_size s' = rb_size rb \<and> (\<lambda>_. True) = (\<lambda>_. True)" if c: "rb_contents rb = a # as"
  proof -
    have "1 \<le> rt_ringbuffer_data_len rb" using c length_rb_contents [of rb] by simp
    from rb_skip_ok [OF w this] c show ?thesis
      by (simp add: rb_try_get_def rt_ringbuffer_getchar_eq [OF w])
  qed
qed

text \<open>A program of puts and gets of blocks and single bytes: the bytes accepted, and those delivered.\<close>

datatype rb_op = RbPut "u8 list" | RbGet nat | RbPutchar u8 | RbGetchar

definition rb_step :: "rb_op \<Rightarrow> ringbuffer \<Rightarrow> (u8 list \<times> u8 list \<times> ringbuffer) option" where
  "rb_step op rb =
     (case op of
        RbPut ptr \<Rightarrow> map_option (\<lambda>(n, rb). (take n ptr, [], rb)) (rt_ringbuffer_put ptr rb)
      | RbPutchar ch \<Rightarrow> map_option (\<lambda>(n, rb). (take n [ch], [], rb)) (rt_ringbuffer_putchar ch rb)
      | RbGet n \<Rightarrow> map_option (\<lambda>(out, rb). ([], out, rb)) (rt_ringbuffer_get n rb)
      | RbGetchar \<Rightarrow> map_option (\<lambda>(c, rb). ([], (case c of None \<Rightarrow> [] | Some ch \<Rightarrow> [ch]), rb))
          (rt_ringbuffer_getchar rb))"

fun rb_run :: "rb_op list \<Rightarrow> ringbuffer \<Rightarrow> (u8 list \<times> u8 list \<times> ringbuffer) option" where
  "rb_run [] rb = Some ([], [], rb)"
| "rb_run (op # ops) rb = do {
     (acc, del, rb) \<leftarrow> rb_step op rb;
     (acc', del', rb) \<leftarrow> rb_run ops rb;
     Some (acc @ acc', del @ del', rb) }"

lemma rb_step_ok:
  assumes w: "rb_wf rb"
  shows "\<exists>acc del rb'. rb_step op rb = Some (acc, del, rb') \<and> rb_wf rb'
    \<and> rb_contents rb @ acc = del @ rb_contents rb' \<and> rb_size rb' = rb_size rb"
proof -
  have put: "\<exists>n rb'. rt_ringbuffer_put ptr rb = Some (n, rb') \<and> rb_wf rb'
    \<and> rb_contents rb' = rb_contents rb @ take n ptr \<and> rb_size rb' = rb_size rb" for ptr
  proof -
    obtain rb' where "rt_ringbuffer_put ptr rb = Some (min (length ptr) (rb_size rb - rt_ringbuffer_data_len rb), rb')"
      "rb_wf rb'" "rb_size rb' = rb_size rb"
      "rb_contents rb' = rb_contents rb @ take (rb_size rb - rt_ringbuffer_data_len rb) ptr"
      using rt_ringbuffer_put_ok [OF w] by metis
    moreover have "take (min (length ptr) m) ptr = take m ptr" for m by (simp add: min_def)
    ultimately show ?thesis by metis
  qed
  have skip: "rb_wf (rb_skip n rb) \<and> rb_contents (rb_skip n rb) = drop n (rb_contents rb)"
    if "n \<le> rt_ringbuffer_data_len rb" for n using rb_skip_ok [OF w that] by simp
  show ?thesis
  proof (cases op)
    case (RbPut ptr)
    then show ?thesis using put [of ptr] by (auto simp: rb_step_def)
  next
    case (RbPutchar ch)
    then show ?thesis using put [of "[ch]"] by (auto simp: rb_step_def rt_ringbuffer_putchar_eq [OF w])
  next
    case (RbGet n)
    have "take n c @ drop (min n (length c)) c = c" for c :: "u8 list" by (simp add: min_def)
    from this [of "rb_contents rb"] RbGet show ?thesis using skip [of "min n (rt_ringbuffer_data_len rb)"]
      by (auto simp: rb_step_def rt_ringbuffer_get_ok [OF w])
  next
    case RbGetchar
    show ?thesis
    proof (cases "rb_contents rb")
      case (Cons c cs)
      then have "1 \<le> rt_ringbuffer_data_len rb" using length_rb_contents [of rb] by simp
      from skip [OF this] Cons RbGetchar show ?thesis
        by (simp add: rb_step_def rt_ringbuffer_getchar_eq [OF w])
    qed (use RbGetchar w in \<open>simp add: rb_step_def rt_ringbuffer_getchar_eq\<close>)
  qed
qed

lemma rb_run_ok:
  "rb_wf rb \<Longrightarrow> \<exists>acc del rb'. rb_run ops rb = Some (acc, del, rb') \<and> rb_wf rb'
    \<and> rb_contents rb @ acc = del @ rb_contents rb' \<and> rb_size rb' = rb_size rb"
proof (induction ops arbitrary: rb)
  case (Cons op ops)
  from rb_step_ok [OF Cons.prems] obtain acc del rb1 where
    1: "rb_step op rb = Some (acc, del, rb1)" "rb_wf rb1" "rb_contents rb @ acc = del @ rb_contents rb1"
      "rb_size rb1 = rb_size rb" by blast
  from Cons.IH [OF 1(2)] obtain acc' del' rb2 where
    2: "rb_run ops rb1 = Some (acc', del', rb2)" "rb_wf rb2" "rb_contents rb1 @ acc' = del' @ rb_contents rb2"
      "rb_size rb2 = rb_size rb1" by blast
  have "rb_contents rb @ acc @ acc' = (del @ del') @ rb_contents rb2"
    using 1(3) 2(3) by (metis append.assoc)
  with 1 2 show ?case by simp
qed simp

end
