(* ===== verification/Prop_Drivers.thy ===== *)
theory Prop_Drivers
  imports Rtt_Ringbuffer
begin

text \<open>
  The properties of the driver framework's data structures, each followed by its witness.
\<close>

section \<open>Ring buffers\<close>

text \<open>A ring buffer of eight bytes that holds five, the last of them behind the wrap.\<close>

definition ex_ring :: ringbuffer where
  "ex_ring = \<lparr>rb_buffer = [5, 0, 0, 0, 1, 2, 3, 4], rb_read_mirror = False, rb_read_index = 4,
     rb_write_mirror = True, rb_write_index = 1, rb_size = 8\<rparr>"

lemma ex_ring_wf: "rb_wf ex_ring"
  by (simp add: rb_wf_def ex_ring_def)

lemma ex_ring_contents: "rb_contents ex_ring = [1, 2, 3, 4, 5]"
  by (simp add: rb_contents_def ring_contents_def ex_ring_def rt_ringbuffer_data_len_def
      rt_ringbuffer_status_def upt_rec)

text \<open>C25: a ring buffer is a byte stream: over any program of puts and gets of blocks and of single
  bytes, no access leaves the array, and the bytes delivered, followed by those still in the buffer,
  are the bytes that were in it followed by those accepted, in that order.\<close>

theorem ring_stream:
  assumes "rb_wf rb"
  shows "\<exists>acc del rb'. rb_run ops rb = Some (acc, del, rb') \<and> rb_wf rb'
    \<and> rb_contents rb @ acc = del @ rb_contents rb' \<and> length (rb_contents rb') \<le> rb_size rb"
  using rb_run_ok [OF assms, of ops] rb_lens(2) by fastforce

theorem ring_stream_witness:
  "\<exists>acc del rb'. rb_run [RbPut [6, 7, 8, 9], RbGet 7, RbPutchar 10, RbGetchar] ex_ring = Some (acc, del, rb')
    \<and> [1, 2, 3, 4, 5] @ acc = del @ rb_contents rb'"
  using ring_stream [OF ex_ring_wf, of "[RbPut [6, 7, 8, 9], RbGet 7, RbPutchar 10, RbGetchar]"]
  by (auto simp: ex_ring_contents)

text \<open>C26: \<^verbatim>\<open>rt_ringbuffer_put_force\<close> always takes the data: afterwards the buffer holds the last bytes,
  as many as fit, of what it held followed by the new data; and the forced write of one byte is that
  of a block of one byte.\<close>

theorem ring_force_keeps_last:
  assumes "rb_wf rb" and "ptr \<noteq> []"
  shows "\<exists>rb'. rt_ringbuffer_put_force ptr rb = Some (min (length ptr) (rb_size rb), rb') \<and> rb_wf rb'
    \<and> rb_contents rb' = drop (length (rb_contents rb @ ptr) - rb_size rb) (rb_contents rb @ ptr)
    \<and> rt_ringbuffer_putchar_force (hd ptr) rb = rt_ringbuffer_put_force [hd ptr] rb"
proof -
  obtain rb' where "rt_ringbuffer_put_force ptr rb = Some (min (length ptr) (rb_size rb), rb')" "rb_wf rb'"
    "rb_contents rb' = drop (rt_ringbuffer_data_len rb + length ptr - rb_size rb) (rb_contents rb @ ptr)"
    using rt_ringbuffer_put_force_ok [OF assms] by metis
  then show ?thesis using rt_ringbuffer_putchar_force_eq [OF assms(1)] by simp
qed

theorem ring_force_keeps_last_witness:
  "\<exists>rb'. rt_ringbuffer_put_force [6, 7, 8, 9, 10] ex_ring = Some (5, rb')
    \<and> rb_contents rb' = [3, 4, 5, 6, 7, 8, 9, 10]"
  using ring_force_keeps_last [OF ex_ring_wf, of "[6, 7, 8, 9, 10]"]
  by (auto simp: ex_ring_contents) (auto simp: ex_ring_def)

end
