(* ===== verification/Rtt_Kmem.thy ===== *)
theory Rtt_Kmem
  imports Rtt_Prelude
begin

unbundle bit_operations_syntax

text \<open>
  The memory and string functions of \<^verbatim>\<open>src/kservice.c\<close>. Memory is a partial map from addresses to
  bytes: an address outside it belongs to no object the caller may use, and touching it makes the
  result \<open>None\<close>. A \<^verbatim>\<open>long\<close> is four bytes, lowest first, at an address that is a multiple of four; a
  plain \<^verbatim>\<open>char\<close> is unsigned, as it is on ARM. The functions return their first argument, which the
  model leaves out; an object ends below the top of the address space.
\<close>

section \<open>Memory\<close>

type_synonym mem = "nat \<Rightarrow> u8 option"

definition mem_put :: "nat \<Rightarrow> u8 \<Rightarrow> mem \<Rightarrow> mem option" where
  "mem_put p b m = (if m p = None then None else Some (m(p := Some b)))"

definition long_of_bytes :: "u8 \<Rightarrow> u8 \<Rightarrow> u8 \<Rightarrow> u8 \<Rightarrow> u32" where
  "long_of_bytes a b c d =
     ucast a OR push_bit 8 (ucast b) OR push_bit 16 (ucast c) OR push_bit 24 (ucast d)"

definition mem_get_long :: "nat \<Rightarrow> mem \<Rightarrow> u32 option" where
  "mem_get_long p m = do {
     a \<leftarrow> m p; b \<leftarrow> m (p + 1); c \<leftarrow> m (p + 2); d \<leftarrow> m (p + 3);
     Some (long_of_bytes a b c d) }"

definition mem_put_long :: "nat \<Rightarrow> u32 \<Rightarrow> mem \<Rightarrow> mem option" where
  "mem_put_long p w m = do {
     m \<leftarrow> mem_put p (ucast w) m;
     m \<leftarrow> mem_put (p + 1) (ucast (drop_bit 8 w)) m;
     m \<leftarrow> mem_put (p + 2) (ucast (drop_bit 16 w)) m;
     mem_put (p + 3) (ucast (drop_bit 24 w)) m }"

definition mem_unaligned :: "nat \<Rightarrow> bool" where
  "mem_unaligned p \<longleftrightarrow> p mod 4 \<noteq> 0"

section \<open>Filling\<close>

fun memset_bytes :: "nat \<Rightarrow> u8 \<Rightarrow> nat \<Rightarrow> mem \<Rightarrow> mem option" where
  "memset_bytes p d 0 m = Some m"
| "memset_bytes p d (Suc n) m = do { m \<leftarrow> mem_put p d m; memset_bytes (p + 1) d n m }"

text \<open>The loops over four longs and over one long, with \<^verbatim>\<open>aligned_addr\<close> and \<^verbatim>\<open>count\<close>.\<close>

fun memset_quads :: "u32 \<Rightarrow> nat \<Rightarrow> nat \<Rightarrow> mem \<Rightarrow> (nat \<times> nat \<times> mem) option" where
  "memset_quads buffer p count m =
     (if 16 \<le> count
      then do {
        m \<leftarrow> mem_put_long p buffer m;
        m \<leftarrow> mem_put_long (p + 4) buffer m;
        m \<leftarrow> mem_put_long (p + 8) buffer m;
        m \<leftarrow> mem_put_long (p + 12) buffer m;
        memset_quads buffer (p + 16) (count - 16) m }
      else Some (p, count, m))"

fun memset_longs :: "u32 \<Rightarrow> nat \<Rightarrow> nat \<Rightarrow> mem \<Rightarrow> (nat \<times> nat \<times> mem) option" where
  "memset_longs buffer p count m =
     (if 4 \<le> count
      then do {
        m \<leftarrow> mem_put_long p buffer m;
        memset_longs buffer (p + 4) (count - 4) m }
      else Some (p, count, m))"

definition memset_buffer :: "u32 \<Rightarrow> u32" where
  "memset_buffer d = (let buffer = push_bit 8 d OR d in buffer OR push_bit 16 buffer)"

definition rt_memset :: "nat \<Rightarrow> u32 \<Rightarrow> nat \<Rightarrow> mem \<Rightarrow> mem option" where
  "rt_memset s c count m =
     (let d = c AND 0xff
      in do {
        (p, count, m) \<leftarrow>
          (if 4 \<le> count \<and> \<not> mem_unaligned s
           then do {
             (p, count, m) \<leftarrow> memset_quads (memset_buffer d) s count m;
             memset_longs (memset_buffer d) p count m }
           else Some (s, count, m));
        memset_bytes p (ucast d) count m })"

section \<open>Copying\<close>

fun memcpy_bytes :: "nat \<Rightarrow> nat \<Rightarrow> nat \<Rightarrow> mem \<Rightarrow> mem option" where
  "memcpy_bytes d s 0 m = Some m"
| "memcpy_bytes d s (Suc n) m = do {
     b \<leftarrow> m s;
     m \<leftarrow> mem_put d b m;
     memcpy_bytes (d + 1) (s + 1) n m }"

definition memcpy_long :: "nat \<Rightarrow> nat \<Rightarrow> mem \<Rightarrow> mem option" where
  "memcpy_long d s m = do { w \<leftarrow> mem_get_long s m; mem_put_long d w m }"

fun memcpy_quads :: "nat \<Rightarrow> nat \<Rightarrow> nat \<Rightarrow> mem \<Rightarrow> (nat \<times> nat \<times> nat \<times> mem) option" where
  "memcpy_quads d s len m =
     (if 16 \<le> len
      then do {
        m \<leftarrow> memcpy_long d s m;
        m \<leftarrow> memcpy_long (d + 4) (s + 4) m;
        m \<leftarrow> memcpy_long (d + 8) (s + 8) m;
        m \<leftarrow> memcpy_long (d + 12) (s + 12) m;
        memcpy_quads (d + 16) (s + 16) (len - 16) m }
      else Some (d, s, len, m))"

fun memcpy_longs :: "nat \<Rightarrow> nat \<Rightarrow> nat \<Rightarrow> mem \<Rightarrow> (nat \<times> nat \<times> nat \<times> mem) option" where
  "memcpy_longs d s len m =
     (if 4 \<le> len
      then do {
        m \<leftarrow> memcpy_long d s m;
        memcpy_longs (d + 4) (s + 4) (len - 4) m }
      else Some (d, s, len, m))"

definition rt_memcpy :: "nat \<Rightarrow> nat \<Rightarrow> nat \<Rightarrow> mem \<Rightarrow> mem option" where
  "rt_memcpy dst src len m = do {
     (d, s, len, m) \<leftarrow>
       (if 16 \<le> len \<and> \<not> (mem_unaligned src \<or> mem_unaligned dst)
        then do {
          (d, s, len, m) \<leftarrow> memcpy_quads dst src len m;
          memcpy_longs d s len m }
        else Some (dst, src, len, m));
     memcpy_bytes d s len m }"

fun memmove_down :: "nat \<Rightarrow> nat \<Rightarrow> nat \<Rightarrow> mem \<Rightarrow> mem option" where
  "memmove_down d s 0 m = Some m"
| "memmove_down d s (Suc n) m = do {
     b \<leftarrow> m (s + n);
     m \<leftarrow> mem_put (d + n) b m;
     memmove_down d s n m }"

definition rt_memmove :: "nat \<Rightarrow> nat \<Rightarrow> nat \<Rightarrow> mem \<Rightarrow> mem option" where
  "rt_memmove d s n m =
     (if s < d \<and> d < s + n then memmove_down d s n m else memcpy_bytes d s n m)"

section \<open>Comparing\<close>

fun rt_memcmp :: "nat \<Rightarrow> nat \<Rightarrow> nat \<Rightarrow> mem \<Rightarrow> int option" where
  "rt_memcmp cs ct 0 m = Some 0"
| "rt_memcmp cs ct (Suc n) m = do {
     a \<leftarrow> m cs;
     b \<leftarrow> m ct;
     (let res = uint a - uint b
      in if res \<noteq> 0 then Some res else rt_memcmp (cs + 1) (ct + 1) n m) }"

section \<open>Strings\<close>

partial_function (option) strlen_loop :: "nat \<Rightarrow> mem \<Rightarrow> nat option" where
  "strlen_loop sc m = do { c \<leftarrow> m sc; (if c \<noteq> 0 then strlen_loop (sc + 1) m else Some sc) }"

definition rt_strlen :: "nat \<Rightarrow> mem \<Rightarrow> nat option" where
  "rt_strlen s m = do { sc \<leftarrow> strlen_loop s m; Some (sc - s) }"

text \<open>\<open>i\<close> is \<^verbatim>\<open>maxlen - (sc - s)\<close>; the byte is read before the bound is tested.\<close>

fun strnlen_loop :: "nat \<Rightarrow> nat \<Rightarrow> mem \<Rightarrow> nat option" where
  "strnlen_loop sc 0 m = do { c \<leftarrow> m sc; Some sc }"
| "strnlen_loop sc (Suc i) m =
     do { c \<leftarrow> m sc; (if c \<noteq> 0 then strnlen_loop (sc + 1) i m else Some sc) }"

definition rt_strnlen :: "nat \<Rightarrow> nat \<Rightarrow> mem \<Rightarrow> nat option" where
  "rt_strnlen s maxlen m = do { sc \<leftarrow> strnlen_loop s maxlen m; Some (sc - s) }"

partial_function (option) rt_strcmp :: "nat \<Rightarrow> nat \<Rightarrow> mem \<Rightarrow> int option" where
  "rt_strcmp cs ct m = do {
     a \<leftarrow> m cs;
     (if a = 0 then do { b \<leftarrow> m ct; Some (uint a - uint b) }
      else do {
        b \<leftarrow> m ct;
        (if a = b then rt_strcmp (cs + 1) (ct + 1) m else Some (uint a - uint b)) }) }"

text \<open>The difference is kept in a \<^verbatim>\<open>signed char\<close>.\<close>

fun rt_strncmp :: "nat \<Rightarrow> nat \<Rightarrow> nat \<Rightarrow> mem \<Rightarrow> int option" where
  "rt_strncmp cs ct 0 m = Some 0"
| "rt_strncmp cs ct (Suc n) m = do {
     a \<leftarrow> m cs;
     b \<leftarrow> m ct;
     (if a - b \<noteq> 0 \<or> a = 0 then Some (sint (a - b)) else rt_strncmp (cs + 1) (ct + 1) n m) }"

definition to_lower :: "u8 \<Rightarrow> int" where
  "to_lower c = (if 65 \<le> c \<and> c \<le> 90 then uint c + 32 else uint c)"

partial_function (option) rt_strcasecmp :: "nat \<Rightarrow> nat \<Rightarrow> mem \<Rightarrow> int option" where
  "rt_strcasecmp a b m = do {
     ca \<leftarrow> m a;
     cb \<leftarrow> m b;
     (if to_lower ca = to_lower cb \<and> to_lower ca \<noteq> 0 then rt_strcasecmp (a + 1) (b + 1) m
      else Some (to_lower ca - to_lower cb)) }"

partial_function (option) rt_strcpy :: "nat \<Rightarrow> nat \<Rightarrow> mem \<Rightarrow> mem option" where
  "rt_strcpy d s m = do {
     c \<leftarrow> m s;
     (if c \<noteq> 0 then do { m \<leftarrow> mem_put d c m; rt_strcpy (d + 1) (s + 1) m }
      else mem_put d 0 m) }"

fun rt_strncpy :: "nat \<Rightarrow> nat \<Rightarrow> nat \<Rightarrow> mem \<Rightarrow> mem option" where
  "rt_strncpy d s 0 m = Some m"
| "rt_strncpy d s (Suc n) m = do {
     c \<leftarrow> m s;
     m \<leftarrow> mem_put d c m;
     (if c = 0 then memset_bytes (d + 1) 0 n m else rt_strncpy (d + 1) (s + 1) n m) }"

fun strstr_loop :: "nat \<Rightarrow> nat \<Rightarrow> nat \<Rightarrow> nat \<Rightarrow> mem \<Rightarrow> nat option option" where
  "strstr_loop s1 s2 l1 l2 m =
     (if l2 \<le> l1 \<and> 0 < l1
      then do {
        r \<leftarrow> rt_memcmp s1 s2 l2 m;
        (if r = 0 then Some (Some s1) else strstr_loop (s1 + 1) s2 (l1 - 1) l2 m) }
      else Some None)"

definition rt_strstr :: "nat \<Rightarrow> nat \<Rightarrow> mem \<Rightarrow> nat option option" where
  "rt_strstr s1 s2 m = do {
     l2 \<leftarrow> rt_strlen s2 m;
     (if l2 = 0 then Some (Some s1)
      else do { l1 \<leftarrow> rt_strlen s1 m; strstr_loop s1 s2 l1 l2 m }) }"

declare memset_quads.simps [simp del] memset_longs.simps [simp del]
  memcpy_quads.simps [simp del] memcpy_longs.simps [simp del] strstr_loop.simps [simp del]

section \<open>What the filling and copying functions compute\<close>

definition mem_mapped :: "nat \<Rightarrow> nat \<Rightarrow> mem \<Rightarrow> bool" where
  "mem_mapped p n m \<longleftrightarrow> (\<forall>a\<in>{p..<p + n}. m a \<noteq> None)"

definition mem_fill :: "nat \<Rightarrow> u8 \<Rightarrow> nat \<Rightarrow> mem \<Rightarrow> mem" where
  "mem_fill p d n m = (\<lambda>a. if a \<in> {p..<p + n} then Some d else m a)"

definition mem_move :: "nat \<Rightarrow> nat \<Rightarrow> nat \<Rightarrow> mem \<Rightarrow> mem" where
  "mem_move d s n m = (\<lambda>a. if a \<in> {d..<d + n} then m (s + (a - d)) else m a)"

lemma mem_put_Some: "mem_put p b m = Some m' \<longleftrightarrow> m p \<noteq> None \<and> m' = m(p := Some b)"
  by (auto simp: mem_put_def)

lemma mem_put_None [simp]: "m p = None \<Longrightarrow> mem_put p b m = None"
  by (simp add: mem_put_def)

lemma mem_put_eq [simp]: "m p = Some c \<Longrightarrow> mem_put p b m = Some (m(p := Some b))"
  by (simp add: mem_put_def)

lemma mem_mapped_Suc: "mem_mapped p (Suc n) m \<longleftrightarrow> m p \<noteq> None \<and> mem_mapped (Suc p) n m"
proof -
  have "{p..<p + Suc n} = insert p {Suc p..<Suc p + n}" by auto
  then show ?thesis by (simp add: mem_mapped_def)
qed

lemma mem_mapped_0 [simp]: "mem_mapped p 0 m"
  by (simp add: mem_mapped_def)

lemma mem_mapped_put: "m q = Some c \<Longrightarrow> mem_mapped p n (m(q := Some b)) = mem_mapped p n m"
  by (auto simp: mem_mapped_def)

lemma mem_fill_Suc: "mem_fill (Suc p) d n (m(p := Some d)) = mem_fill p d (Suc n) m"
  by (auto simp: mem_fill_def fun_eq_iff)

lemma memset_bytes_eq:
  "memset_bytes p d n m = (if mem_mapped p n m then Some (mem_fill p d n m) else None)"
proof (induction n arbitrary: p m)
  case 0
  then show ?case by (simp add: mem_fill_def)
next
  case (Suc n)
  show ?case
  proof (cases "m p")
    case None
    then show ?thesis by (simp add: mem_mapped_Suc)
  next
    case (Some c)
    then have "memset_bytes p d (Suc n) m = memset_bytes (Suc p) d n (m(p := Some d))" by simp
    also have "\<dots> = (if mem_mapped (Suc p) n m then Some (mem_fill p d (Suc n) m) else None)"
      by (simp only: Suc.IH mem_fill_Suc mem_mapped_put [where m = m and q = p, OF Some])
    finally show ?thesis using Some by (simp add: mem_mapped_Suc)
  qed
qed

lemma memset_bytes_add:
  "memset_bytes p d (a + b) m = (memset_bytes p d a m \<bind> memset_bytes (p + a) d b)"
proof (induction a arbitrary: p m)
  case (Suc a)
  then show ?case by (cases "mem_put p d m") simp_all
qed simp

lemma memset_buffer_bytes:
  assumes "d = c AND 0xff"
  shows "ucast (memset_buffer d) = (ucast d :: u8)" "ucast (drop_bit 8 (memset_buffer d)) = (ucast d :: u8)"
    "ucast (drop_bit 16 (memset_buffer d)) = (ucast d :: u8)"
    "ucast (drop_bit 24 (memset_buffer d)) = (ucast d :: u8)"
proof -
  have h: "\<not> bit d n" if "8 \<le> n" for n
  proof -
    have m: "(0xff :: u32) = mask 8" by (simp add: mask_eq_exp_minus_1)
    show ?thesis using that unfolding assms m by (simp only: bit_simps) simp
  qed
  note defs = memset_buffer_def Let_def
  show "ucast (memset_buffer d) = (ucast d :: u8)" "ucast (drop_bit 8 (memset_buffer d)) = (ucast d :: u8)"
    "ucast (drop_bit 16 (memset_buffer d)) = (ucast d :: u8)"
    "ucast (drop_bit 24 (memset_buffer d)) = (ucast d :: u8)"
    by (rule bit_eqI; simp add: defs bit_simps h; use h in force)+
qed

lemma memset_bytes_fun:
  "memset_bytes p d (Suc n) = (\<lambda>m. mem_put p d m \<bind> memset_bytes (p + 1) d n)"
  "memset_bytes p d 0 = Some"
  by (simp_all add: fun_eq_iff)

lemma memset_bytes_add_fun:
  "memset_bytes p d (a + b) = (\<lambda>m. memset_bytes p d a m \<bind> memset_bytes (p + a) d b)"
  by (simp add: fun_eq_iff memset_bytes_add)

lemma memset_bytes_4: "memset_bytes p d 4 m =
    (mem_put p d m \<bind> (\<lambda>m. mem_put (p + 1) d m \<bind> (\<lambda>m. mem_put (p + 2) d m \<bind> mem_put (p + 3) d)))"
proof -
  have "4 = Suc (Suc (Suc (Suc 0)))" by simp
  then show ?thesis
    by (simp only: memset_bytes_fun) (simp add: numeral_3_eq_3)
qed

lemma memset_long:
  assumes "d = c AND 0xff"
  shows "mem_put_long p (memset_buffer d) m = memset_bytes p (ucast d) 4 m"
  by (simp only: mem_put_long_def memset_buffer_bytes [OF assms] memset_bytes_4)

lemma memset_quads_eq:
  assumes d: "d = c AND 0xff"
  shows "(memset_quads (memset_buffer d) p n m \<bind> (\<lambda>(p, n, m). memset_bytes p (ucast d) n m))
    = memset_bytes p (ucast d) n m"
proof (induction n arbitrary: p m rule: less_induct)
  case (less n)
  show ?case
  proof (cases "16 \<le> n")
    case True
    have IH: "(memset_quads (memset_buffer d) p (n - 16) m \<bind> (\<lambda>(p, n, m). memset_bytes p (ucast d) n m))
      = memset_bytes p (ucast d) (n - 16) m" for p m
      using less.IH True by simp
    have "memset_bytes p (ucast d) n m = memset_bytes p (ucast d) (4 + (4 + (4 + (4 + (n - 16))))) m"
      using True by simp
    then show ?thesis using True
      by (subst memset_quads.simps)
        (simp only: memset_bytes_add_fun memset_long [OF d] Option.bind_assoc IH add.assoc if_True, simp)
  qed (simp add: memset_quads.simps)
qed

lemma memset_longs_eq:
  assumes d: "d = c AND 0xff"
  shows "(memset_longs (memset_buffer d) p n m \<bind> (\<lambda>(p, n, m). memset_bytes p (ucast d) n m))
    = memset_bytes p (ucast d) n m"
proof (induction n arbitrary: p m rule: less_induct)
  case (less n)
  show ?case
  proof (cases "4 \<le> n")
    case True
    have IH: "(memset_longs (memset_buffer d) p (n - 4) m \<bind> (\<lambda>(p, n, m). memset_bytes p (ucast d) n m))
      = memset_bytes p (ucast d) (n - 4) m" for p m
      using less.IH True by simp
    have "memset_bytes p (ucast d) n m = memset_bytes p (ucast d) (4 + (n - 4)) m" using True by simp
    then show ?thesis using True
      by (subst memset_longs.simps)
        (simp only: memset_bytes_add memset_long [OF d] Option.bind_assoc IH if_True)
  qed (simp add: memset_longs.simps)
qed

lemma rt_memset_eq: "rt_memset s c n m = memset_bytes s (ucast (c AND 0xff)) n m"
proof (cases "4 \<le> n \<and> \<not> mem_unaligned s")
  case True
  then show ?thesis
    using memset_quads_eq [OF refl, of c s n m] memset_longs_eq [OF refl, of c]
    by (cases "memset_quads (memset_buffer (c AND 0xff)) s n m") (auto simp: rt_memset_def Let_def)
qed (auto simp: rt_memset_def Let_def)


theorem rt_memset_fill:
  "rt_memset s c n m =
     (if mem_mapped s n m then Some (mem_fill s (ucast (c AND 0xff)) n m) else None)"
  by (simp only: rt_memset_eq memset_bytes_eq)

section \<open>Copying by longs is copying by bytes\<close>

lemma memcpy_bytes_fun:
  "memcpy_bytes d s (Suc n) = (\<lambda>m. m s \<bind> (\<lambda>b. mem_put d b m \<bind> memcpy_bytes (d + 1) (s + 1) n))"
  "memcpy_bytes d s 0 = Some"
  by (simp_all add: fun_eq_iff)

lemma memcpy_bytes_add:
  "memcpy_bytes d s (a + b) m = (memcpy_bytes d s a m \<bind> memcpy_bytes (d + a) (s + a) b)"
proof (induction a arbitrary: d s m)
  case (Suc a)
  show ?case
  proof (cases "m s")
    case (Some c)
    then show ?thesis using Suc by (cases "mem_put d c m") simp_all
  qed simp
qed simp

lemma memcpy_bytes_add_fun:
  "memcpy_bytes d s (a + b) = (\<lambda>m. memcpy_bytes d s a m \<bind> memcpy_bytes (d + a) (s + a) b)"
  by (simp add: fun_eq_iff memcpy_bytes_add)

lemma long_of_bytes [simp]:
  "ucast (long_of_bytes a b c d) = a" "ucast (drop_bit 8 (long_of_bytes a b c d)) = b"
  "ucast (drop_bit 16 (long_of_bytes a b c d)) = c" "ucast (drop_bit 24 (long_of_bytes a b c d)) = d"
  unfolding long_of_bytes_def by (rule bit_eqI; simp add: bit_simps; force dest: bit_imp_le_length)+

lemma memcpy_bytes_4: "memcpy_bytes d s 4 m = do {
    b \<leftarrow> m s; m \<leftarrow> mem_put d b m; b \<leftarrow> m (s + 1); m \<leftarrow> mem_put (d + 1) b m;
    b \<leftarrow> m (s + 2); m \<leftarrow> mem_put (d + 2) b m; b \<leftarrow> m (s + 3); mem_put (d + 3) b m }"
proof -
  have "4 = Suc (Suc (Suc (Suc 0)))" by simp
  then show ?thesis
    by (simp only: memcpy_bytes_fun) (simp add: numeral_3_eq_3)
qed

lemma memcpy_bytes_mapped:
  "memcpy_bytes d s n m = None \<longleftrightarrow> \<not> (mem_mapped s n m \<and> mem_mapped d n m)"
proof (induction n arbitrary: d s m)
  case (Suc n)
  show ?case
  proof (cases "m s = None \<or> m d = None")
    case True
    then show ?thesis by (cases "m s") (auto simp: mem_mapped_Suc)
  next
    case False
    then obtain b x where b: "m s = Some b" and x: "m d = Some x" by auto
    note P = mem_mapped_put [where m = m and q = d, OF x]
    have "memcpy_bytes d s (Suc n) m = memcpy_bytes (Suc d) (Suc s) n (m(d := Some b))" by (simp add: b x)
    then show ?thesis by (simp only: Suc.IH P) (simp add: mem_mapped_Suc b x)
  qed
qed simp

lemma mem_mapped_4: "mem_mapped p 4 m \<longleftrightarrow>
    m p \<noteq> None \<and> m (p + 1) \<noteq> None \<and> m (p + 2) \<noteq> None \<and> m (p + 3) \<noteq> None"
proof -
  have "{p..<p + 4} = {p, p + 1, p + 2, p + 3}" by auto
  then show ?thesis by (simp add: mem_mapped_def)
qed

lemma memcpy_long_mapped: "memcpy_long d s m = None \<longleftrightarrow> \<not> (mem_mapped s 4 m \<and> mem_mapped d 4 m)"
  unfolding mem_mapped_4 memcpy_long_def mem_get_long_def mem_put_long_def
  by (auto simp: Option.bind_eq_None_conv mem_put_def split: if_splits)

lemma memcpy_long_eq:
  assumes "\<not> mem_unaligned d" "\<not> mem_unaligned s"
  shows "memcpy_long d s = memcpy_bytes d s 4"
proof
  fix m
  show "memcpy_long d s m = memcpy_bytes d s 4 m"
  proof (cases "mem_mapped s 4 m \<and> mem_mapped d 4 m")
    case False
    then show ?thesis using memcpy_long_mapped memcpy_bytes_mapped by metis
  next
    case True
    have "d mod 4 = 0" "s mod 4 = 0" using assms by (simp_all add: mem_unaligned_def)
    then have apart: "d = s \<or> d + 4 \<le> s \<or> s + 4 \<le> d" by presburger
    from True show ?thesis using apart
      by (auto simp: mem_mapped_4 memcpy_long_def mem_get_long_def mem_put_long_def memcpy_bytes_4)
  qed
qed

lemma memcpy_longs_eq:
  assumes "\<not> mem_unaligned d" "\<not> mem_unaligned s"
  shows "(memcpy_longs d s n m \<bind> (\<lambda>(d, s, n, m). memcpy_bytes d s n m)) = memcpy_bytes d s n m"
  using assms
proof (induction n arbitrary: d s m rule: less_induct)
  case (less n)
  show ?case
  proof (cases "4 \<le> n")
    case True
    have u: "\<not> mem_unaligned (d + 4)" "\<not> mem_unaligned (s + 4)"
      using less.prems by (simp_all add: mem_unaligned_def)
    have IH: "(memcpy_longs (d + 4) (s + 4) (n - 4) m \<bind> (\<lambda>(d, s, n, m). memcpy_bytes d s n m))
      = memcpy_bytes (d + 4) (s + 4) (n - 4) m" for m
      using less.IH [of "n - 4", OF _ u] True by simp
    have "memcpy_bytes d s n m = memcpy_bytes d s (4 + (n - 4)) m" using True by simp
    then show ?thesis using True
      by (subst memcpy_longs.simps)
        (simp only: memcpy_bytes_add memcpy_long_eq [OF less.prems] Option.bind_assoc IH if_True)
  qed (simp add: memcpy_longs.simps)
qed

lemma mem_unaligned_add [simp]:
  "mem_unaligned (p + 4) = mem_unaligned p" "mem_unaligned (p + 8) = mem_unaligned p"
  "mem_unaligned (p + 12) = mem_unaligned p" "mem_unaligned (p + 16) = mem_unaligned p"
  by (simp_all add: mem_unaligned_def) presburger+

lemma memcpy_quads_out:
  assumes "\<not> mem_unaligned d" "\<not> mem_unaligned s"
  shows "memcpy_bytes d s n m = (case memcpy_quads d s n m of None \<Rightarrow> None
      | Some (d', s', n', m') \<Rightarrow> memcpy_bytes d' s' n' m')
    \<and> (\<forall>d' s' n' m'. memcpy_quads d s n m = Some (d', s', n', m') \<longrightarrow>
        \<not> mem_unaligned d' \<and> \<not> mem_unaligned s')"
  using assms
proof (induction n arbitrary: d s m rule: less_induct)
  case (less n)
  show ?case
  proof (cases "16 \<le> n")
    case True
    note L = memcpy_long_eq less.prems mem_unaligned_add
    have IH: "memcpy_bytes (d + 16) (s + 16) (n - 16) m = (case memcpy_quads (d + 16) (s + 16) (n - 16) m of
        None \<Rightarrow> None | Some (d', s', n', m') \<Rightarrow> memcpy_bytes d' s' n' m')
      \<and> (\<forall>d' s' n' m'. memcpy_quads (d + 16) (s + 16) (n - 16) m = Some (d', s', n', m') \<longrightarrow>
        \<not> mem_unaligned d' \<and> \<not> mem_unaligned s')" for m
      using less.IH [of "n - 16" "d + 16" "s + 16" m] less.prems True by simp
    have q: "memcpy_quads d s n m = (memcpy_bytes d s 16 m \<bind> memcpy_quads (d + 16) (s + 16) (n - 16))"
    proof -
      have "memcpy_bytes d s 16 m = memcpy_bytes d s (4 + (4 + (4 + 4))) m" by simp
      also have "\<dots> = (memcpy_long d s m \<bind> (\<lambda>m. memcpy_long (d + 4) (s + 4) m \<bind>
          (\<lambda>m. memcpy_long (d + 8) (s + 8) m \<bind> memcpy_long (d + 12) (s + 12))))"
        using less.prems
        by (simp only: memcpy_bytes_add_fun Option.bind_assoc add.assoc)
          (simp add: memcpy_long_eq)
      finally show ?thesis using True
        by (subst memcpy_quads.simps) (simp add: Option.bind_assoc)
    qed
    have "memcpy_bytes d s n m = memcpy_bytes d s (16 + (n - 16)) m" using True by simp
    then have b: "memcpy_bytes d s n m = (memcpy_bytes d s 16 m \<bind> memcpy_bytes (d + 16) (s + 16) (n - 16))"
      by (simp only: memcpy_bytes_add)
    show ?thesis
    proof (cases "memcpy_bytes d s 16 m")
      case None
      then show ?thesis by (simp add: q b)
    next
      case (Some m1)
      with IH [of m1] show ?thesis by (simp add: q b)
    qed
  next
    case False
    with less.prems show ?thesis by (simp add: memcpy_quads.simps)
  qed
qed

lemma rt_memcpy_eq: "rt_memcpy d s n m = memcpy_bytes d s n m"
proof (cases "16 \<le> n \<and> \<not> (mem_unaligned s \<or> mem_unaligned d)")
  case True
  then have u: "\<not> mem_unaligned d" "\<not> mem_unaligned s" by auto
  show ?thesis using True memcpy_quads_out [OF u, of n m] memcpy_longs_eq
    by (cases "memcpy_quads d s n m") (auto simp: rt_memcpy_def)
qed (auto simp: rt_memcpy_def)

lemma memcpy_bytes_forward:
  assumes "d \<le> s \<or> s + n \<le> d" "mem_mapped s n m" "mem_mapped d n m"
  shows "memcpy_bytes d s n m = Some (mem_move d s n m)"
  using assms
proof (induction n arbitrary: d s m)
  case 0
  then show ?case by (simp add: mem_move_def)
next
  case (Suc n)
  obtain b x where b: "m s = Some b" and x: "m d = Some x" using Suc.prems(2,3) by (auto simp: mem_mapped_Suc)
  let ?m = "m(d := Some b)"
  note P = mem_mapped_put [where m = m and q = d, OF x]
  have "memcpy_bytes d s (Suc n) m = memcpy_bytes (Suc d) (Suc s) n ?m" by (simp add: b x)
  also have "\<dots> = Some (mem_move (Suc d) (Suc s) n ?m)"
  proof (rule Suc.IH)
    show "mem_mapped (Suc s) n ?m" "mem_mapped (Suc d) n ?m"
      using Suc.prems(2,3) unfolding P by (simp_all only: mem_mapped_Suc)
  qed (use Suc.prems(1) in auto)
  also have "mem_move (Suc d) (Suc s) n ?m = mem_move d s (Suc n) m"
  proof
    fix a
    consider "a = d" | "Suc d \<le> a" "a < Suc d + n" | "a < d \<or> Suc d + n \<le> a" by linarith
    then show "mem_move (Suc d) (Suc s) n ?m a = mem_move d s (Suc n) m a"
    proof cases
      case 2
      then have "Suc s + (a - Suc d) = s + (a - d)" "s + (a - d) \<noteq> d" using Suc.prems(1) by auto
      with 2 show ?thesis by (simp add: mem_move_def)
    qed (auto simp: mem_move_def b)
  qed
  finally show ?case .
qed

lemma memmove_down_ok:
  assumes "s \<le> d" "mem_mapped s n m" "mem_mapped d n m"
  shows "memmove_down d s n m = Some (mem_move d s n m)"
  using assms(2,3)
proof (induction n arbitrary: m)
  case 0
  then show ?case by (simp add: mem_move_def)
next
  case (Suc n)
  obtain b x where b: "m (s + n) = Some b" and x: "m (d + n) = Some x"
    using Suc.prems by (fastforce simp: mem_mapped_def)
  let ?m = "m(d + n := Some b)"
  note P = mem_mapped_put [where m = m and q = "d + n", OF x]
  have "memmove_down d s (Suc n) m = memmove_down d s n ?m" by (simp add: b x)
  also have "\<dots> = Some (mem_move d s n ?m)"
  proof (rule Suc.IH)
    show "mem_mapped s n ?m" "mem_mapped d n ?m"
      using Suc.prems unfolding P by (simp_all add: mem_mapped_def)
  qed
  also have "mem_move d s n ?m = mem_move d s (Suc n) m"
    using assms(1) b by (auto simp: mem_move_def fun_eq_iff)
  finally show ?case .
qed

theorem rt_memmove_ok:
  assumes "mem_mapped s n m" "mem_mapped d n m"
  shows "rt_memmove d s n m = Some (mem_move d s n m)"
  using memmove_down_ok [of s d n m] memcpy_bytes_forward [of d s n m] assms
  by (auto simp: rt_memmove_def)

section \<open>Comparison\<close>

fun mem_bytes :: "nat \<Rightarrow> nat \<Rightarrow> mem \<Rightarrow> u8 list option" where
  "mem_bytes p 0 m = Some []"
| "mem_bytes p (Suc n) m = do { b \<leftarrow> m p; bs \<leftarrow> mem_bytes (p + 1) n m; Some (b # bs) }"

text \<open>The order of bytes strings: at the first difference, the larger byte wins.\<close>

abbreviation bytes_less :: "(u8 list \<times> u8 list) set" where
  "bytes_less \<equiv> lexord {(a, b). a < b}"

lemma rt_memcmp_eq:
  assumes "mem_bytes p n m = Some xs" "mem_bytes q n m = Some ys"
  shows "\<exists>r. rt_memcmp p q n m = Some r \<and> (r = 0 \<longleftrightarrow> xs = ys)
    \<and> (r < 0 \<longleftrightarrow> (xs, ys) \<in> bytes_less) \<and> (0 < r \<longleftrightarrow> (ys, xs) \<in> bytes_less)"
  using assms
proof (induction n arbitrary: p q xs ys)
  case (Suc n)
  then obtain a as b bs where x: "m p = Some a" "mem_bytes (p + 1) n m = Some as" "xs = a # as"
    and y: "m q = Some b" "mem_bytes (q + 1) n m = Some bs" "ys = b # bs"
    by (auto simp: bind_eq_Some_conv)
  show ?case
  proof (cases "a = b")
    case True
    with Suc.IH [OF x(2) y(2)] show ?thesis by (simp add: x y)
  next
    case False
    then have "uint a - uint b \<noteq> 0" by (simp add: word_uint_eq_iff)
    moreover have "uint a - uint b < 0 \<longleftrightarrow> a < b" "0 < uint a - uint b \<longleftrightarrow> b < a"
      by (simp_all add: word_less_def)
    ultimately show ?thesis using False by (simp add: x y)
  qed
qed simp

section \<open>Strings\<close>

text \<open>\<open>cstring p s m\<close>: the bytes \<open>s\<close> and the terminating NUL are stored at \<open>p\<close>.\<close>

fun cstring :: "nat \<Rightarrow> u8 list \<Rightarrow> mem \<Rightarrow> bool" where
  "cstring p [] m \<longleftrightarrow> m p = Some 0"
| "cstring p (c # cs) m \<longleftrightarrow> m p = Some c \<and> c \<noteq> 0 \<and> cstring (p + 1) cs m"

lemma strlen_loop_eq: "cstring p s m \<Longrightarrow> strlen_loop p m = Some (p + length s)"
  by (induction s arbitrary: p; subst strlen_loop.simps) auto

lemma rt_strlen_ok: "cstring p s m \<Longrightarrow> rt_strlen p m = Some (length s)"
  by (simp add: rt_strlen_def strlen_loop_eq)

lemma rt_strcmp_ok:
  assumes "cstring p s m" "cstring q t m"
  shows "\<exists>r. rt_strcmp p q m = Some r \<and> (r = 0 \<longleftrightarrow> s = t)
    \<and> (r < 0 \<longleftrightarrow> (s, t) \<in> bytes_less) \<and> (0 < r \<longleftrightarrow> (t, s) \<in> bytes_less)"
  using assms
proof (induction s arbitrary: p q t)
  case Nil
  show ?case using Nil
    by (cases t; subst rt_strcmp.simps) (auto simp: word_less_def word_uint_eq_iff order.strict_iff_order)
next
  case (Cons c s)
  show ?case
  proof (cases t)
    case Nil
    with Cons.prems show ?thesis
      by (subst rt_strcmp.simps) (auto simp: word_less_def word_uint_eq_iff order.strict_iff_order)
  next
    case (Cons d t')
    show ?thesis
    proof (cases "c = d")
      case True
      with Cons Cons.prems Cons.IH [of "p + 1" "q + 1" t'] show ?thesis
        by (subst rt_strcmp.simps) auto
    next
      case False
      then have "uint c - uint d \<noteq> 0" by (simp add: word_uint_eq_iff)
      moreover have "uint c - uint d < 0 \<longleftrightarrow> c < d" "0 < uint c - uint d \<longleftrightarrow> d < c"
        by (simp_all add: word_less_def)
      ultimately show ?thesis using False Cons Cons.prems by (subst rt_strcmp.simps) auto
    qed
  qed
qed

lemma cstring_bytes: "cstring p s m \<Longrightarrow> n \<le> length s \<Longrightarrow> mem_bytes p n m = Some (take n s)"
proof (induction s arbitrary: p n)
  case (Cons c s)
  then show ?case by (cases n) auto
qed simp

text \<open>\<open>t\<close> occurs in \<open>s\<close> at offset \<open>i\<close>.\<close>

definition occurs_at :: "'a list \<Rightarrow> nat \<Rightarrow> 'a list \<Rightarrow> bool" where
  "occurs_at t i s \<longleftrightarrow> take (length t) (drop i s) = t"

lemma occurs_at_Suc [simp]: "occurs_at t (Suc i) (c # s) = occurs_at t i s"
  by (simp add: occurs_at_def)

lemma strstr_loop_ok:
  assumes "cstring p s m" "cstring q t m" "t \<noteq> []"
  shows "\<exists>r. strstr_loop p q (length s) (length t) m = Some r \<and>
    (case r of None \<Rightarrow> \<forall>i. \<not> occurs_at t i s
     | Some a \<Rightarrow> \<exists>i. a = p + i \<and> occurs_at t i s \<and> (\<forall>j<i. \<not> occurs_at t j s))"
  using assms(1)
proof (induction s arbitrary: p)
  case Nil
  with assms(3) show ?case by (subst strstr_loop.simps) (simp add: occurs_at_def)
next
  case (Cons c s)
  show ?case
  proof (cases "length t \<le> length (c # s)")
    case False
    then have "\<not> occurs_at t i (c # s)" for i
      unfolding occurs_at_def by (metis length_drop length_take min.cobounded1 le_trans diff_le_self min.commute)
    with False show ?thesis by (subst strstr_loop.simps) auto
  next
    case True
    obtain r where r: "rt_memcmp p q (length t) m = Some r" "r = 0 \<longleftrightarrow> take (length t) (c # s) = t"
      using rt_memcmp_eq [OF cstring_bytes [OF Cons.prems True] cstring_bytes [OF assms(2) order.refl]] by auto
    show ?thesis
    proof (cases "r = 0")
      case True2: True
      with True r show ?thesis
        by (subst strstr_loop.simps) (auto simp: occurs_at_def intro: exI [of _ 0])
    next
      case False
      then have n0: "\<not> occurs_at t 0 (c # s)" using r by (simp add: occurs_at_def)
      from Cons.prems have "cstring (p + 1) s m" by simp
      from Cons.IH [OF this] obtain r' where
        r': "strstr_loop (p + 1) q (length s) (length t) m = Some r'"
          "case r' of None \<Rightarrow> \<forall>i. \<not> occurs_at t i s
           | Some a \<Rightarrow> \<exists>i. a = p + 1 + i \<and> occurs_at t i s \<and> (\<forall>j<i. \<not> occurs_at t j s)" by blast
      have e: "strstr_loop p q (length (c # s)) (length t) m = Some r'"
        using True r False r'(1) by (subst strstr_loop.simps) simp
      show ?thesis
      proof (cases r')
        case None
        have "\<not> occurs_at t i (c # s)" for i
          using n0 r'(2) None by (cases i) auto
        with e None show ?thesis by auto
      next
        case (Some a)
        then obtain i where i: "a = p + 1 + i" "occurs_at t i s" "\<forall>j<i. \<not> occurs_at t j s" using r'(2) by auto
        have "\<not> occurs_at t j (c # s)" if "j < Suc i" for j
          using n0 i(3) that by (cases j) auto
        with e Some i show ?thesis by (auto intro!: exI [of _ "Suc i"])
      qed
    qed
  qed
qed

lemma occurs_at_Nil [simp]: "occurs_at [] i s"
  by (simp add: occurs_at_def)

lemma rt_strstr_ok:
  assumes "cstring p s m" "cstring q t m"
  shows "\<exists>r. rt_strstr p q m = Some r \<and>
    (case r of None \<Rightarrow> \<forall>i. \<not> occurs_at t i s
     | Some a \<Rightarrow> \<exists>i. a = p + i \<and> occurs_at t i s \<and> (\<forall>j<i. \<not> occurs_at t j s))"
proof (cases "t = []")
  case True
  then show ?thesis using assms(1) rt_strlen_ok [OF assms(2)] by (simp add: rt_strstr_def)
next
  case False
  then show ?thesis using assms strstr_loop_ok [OF assms False] by (simp add: rt_strstr_def rt_strlen_ok)
qed

lemma strnlen_loop_ok:
  assumes "mem_bytes p n m = Some bs" "0 \<notin> set bs"
  shows "strnlen_loop p n m = (if m (p + n) = None then None else Some (p + n))"
  using assms
proof (induction n arbitrary: p bs)
  case (Suc n)
  then show ?case by (auto simp: bind_eq_Some_conv)
qed auto

lemma rt_strnlen_string: "cstring p s m \<Longrightarrow> rt_strnlen p n m = Some (min (length s) n)"
proof -
  have "cstring p s m \<Longrightarrow> strnlen_loop p n m = Some (p + min (length s) n)"
  proof (induction s arbitrary: p n)
    case Nil
    then show ?case by (cases n) auto
  next
    case (Cons c s)
    then show ?case by (cases n) auto
  qed
  then show "cstring p s m \<Longrightarrow> rt_strnlen p n m = Some (min (length s) n)" by (simp add: rt_strnlen_def)
qed

lemma cstring_upd:
  "p < q \<or> q + length s < p \<Longrightarrow> cstring q s (m(p := b)) = cstring q s m"
proof (induction s arbitrary: q)
  case (Cons c s)
  then show ?case by auto
qed auto

lemma rt_strcpy_ok:
  assumes "cstring q s m" "mem_mapped p (length s + 1) m"
    "p + length s < q \<or> q + length s < p"
  shows "rt_strcpy p q m = memcpy_bytes p q (length s + 1) m"
  using assms
proof (induction s arbitrary: p q m)
  case Nil
  then show ?case by (subst rt_strcpy.simps) (cases "mem_put p 0 m"; simp)
next
  case (Cons c s)
  obtain x where x: "m p = Some x" using Cons.prems(2) by (auto simp: mem_mapped_Suc)
  have "cstring (q + 1) s (m(p := Some c))" using Cons.prems by (auto simp: cstring_upd)
  moreover have "mem_mapped (p + 1) (length s + 1) (m(p := Some c))"
    using Cons.prems(2) unfolding mem_mapped_put [where m = m and q = p, OF x] by (simp add: mem_mapped_Suc)
  moreover have "p + 1 + length s < q + 1 \<or> q + 1 + length s < p + 1" using Cons.prems(3) by auto
  ultimately have "rt_strcpy (p + 1) (q + 1) (m(p := Some c))
      = memcpy_bytes (p + 1) (q + 1) (length s + 1) (m(p := Some c))" by (rule Cons.IH)
  with Cons.prems(1) show ?case by (subst rt_strcpy.simps) (simp add: x)
qed

lemma to_lower_0 [simp]: "to_lower c = 0 \<longleftrightarrow> c = 0"
proof
  assume "to_lower c = 0"
  moreover have "uint c + 32 \<noteq> 0" using uint_ge_0 [of c] by linarith
  ultimately show "c = 0" by (auto simp: to_lower_def word_uint_eq_iff split: if_splits)
qed (simp add: to_lower_def)

lemma rt_strcasecmp_ok:
  assumes "cstring p s m" "cstring q t m"
  shows "\<exists>r. rt_strcasecmp p q m = Some r \<and> (r = 0 \<longleftrightarrow> map to_lower s = map to_lower t)"
  using assms
proof (induction s arbitrary: p q t)
  case Nil
  then show ?case by (cases t; subst rt_strcasecmp.simps) (auto simp: to_lower_def [of 0])
next
  case (Cons c s)
  show ?case
  proof (cases t)
    case Nil
    with Cons.prems show ?thesis by (subst rt_strcasecmp.simps) (auto simp: to_lower_def [of 0])
  next
    case t: (Cons d t')
    with Cons.prems Cons.IH [of "p + 1" "q + 1" t'] show ?thesis
      by (subst rt_strcasecmp.simps) auto
  qed
qed

lemma rt_strncpy_ok:
  assumes "cstring q s m" "mem_mapped p n m" "{p..<p + n} \<inter> {q..q + length s} = {}"
  shows "rt_strncpy p q n m =
    Some (\<lambda>a. if a \<in> {p..<p + n} then Some ((s @ replicate n 0) ! (a - p)) else m a)"
  using assms
proof (induction n arbitrary: p q s m)
  case (Suc n)
  obtain x where x: "m p = Some x" using Suc.prems(2) by (auto simp: mem_mapped_Suc)
  have mp: "mem_mapped (Suc p) n (m(p := Some b))" for b
    using Suc.prems(2) unfolding mem_mapped_put [where m = m and q = p, OF x] by (simp add: mem_mapped_Suc)
  have pq: "p \<noteq> q + i" if "i \<le> length s" for i
  proof
    assume "p = q + i"
    with that have "p \<in> {p..<p + Suc n} \<inter> {q..q + length s}" by simp
    then show False using Suc.prems(3) by blast
  qed
  show ?case
  proof (cases s)
    case Nil
    with Suc.prems(1) have "rt_strncpy p q (Suc n) m = memset_bytes (Suc p) 0 n (m(p := Some 0))"
      by (simp add: x)
    also have "\<dots> = Some (mem_fill (Suc p) 0 n (m(p := Some 0)))" by (simp only: memset_bytes_eq mp if_True)
    also have "mem_fill (Suc p) 0 n (m(p := Some 0))
      = (\<lambda>a. if a \<in> {p..<p + Suc n} then Some ((s @ replicate (Suc n) 0) ! (a - p)) else m a)"
      by (auto simp: Nil mem_fill_def fun_eq_iff nth_Cons')
    finally show ?thesis .
  next
    case (Cons c s')
    have "p < q \<or> q + length s < p"
    proof (rule ccontr)
      assume "\<not> (p < q \<or> q + length s < p)"
      then have "p - q \<le> length s" "p = q + (p - q)" by linarith+
      then show False using pq by blast
    qed
    then have k: "cstring (q + 1) s' (m(p := Some c))"
      using Suc.prems(1) Cons by (auto simp: cstring_upd)
    have "rt_strncpy p q (Suc n) m = rt_strncpy (p + 1) (q + 1) n (m(p := Some c))"
      using Suc.prems(1) by (simp add: Cons x)
    also have "\<dots> = Some (\<lambda>a. if a \<in> {p + 1..<p + 1 + n}
        then Some ((s' @ replicate n 0) ! (a - (p + 1))) else (m(p := Some c)) a)"
    proof (rule Suc.IH [OF k])
      show "mem_mapped (p + 1) n (m(p := Some c))" using mp by simp
      have "{p + 1..<p + 1 + n} \<subseteq> {p..<p + Suc n}" "{q + 1..q + 1 + length s'} \<subseteq> {q..q + length s}"
        by (auto simp: Cons)
      then show "{p + 1..<p + 1 + n} \<inter> {q + 1..q + 1 + length s'} = {}"
        using Suc.prems(3) by blast
    qed
    also have "(\<lambda>a. if a \<in> {p + 1..<p + 1 + n}
        then Some ((s' @ replicate n 0) ! (a - (p + 1))) else (m(p := Some c)) a)
      = (\<lambda>a. if a \<in> {p..<p + Suc n} then Some ((s @ replicate (Suc n) 0) ! (a - p)) else m a)"
    proof
      fix a
      have "(s' @ replicate n 0) ! (a - Suc p) = (s' @ 0 # replicate n 0) ! (a - Suc p)"
        if "Suc p \<le> a" "a < Suc p + n"
        using that by (auto simp: nth_append nth_Cons split: nat.split)
      then show "(if a \<in> {p + 1..<p + 1 + n}
        then Some ((s' @ replicate n 0) ! (a - (p + 1))) else (m(p := Some c)) a)
        = (if a \<in> {p..<p + Suc n} then Some ((s @ replicate (Suc n) 0) ! (a - p)) else m a)"
        by (auto simp: Cons nth_Cons')
    qed
    finally show ?thesis .
  qed
qed auto

text \<open>With bytes below 128 the 8-bit difference has the sign of the comparison; beyond it has not.\<close>

lemma sint_diff_small:
  assumes "a < (128 :: u8)" "b < 128"
  shows "sint (a - b) = uint a - uint b"
proof -
  have "uint a < 128" "uint b < 128" using assms by (simp_all add: word_less_def)
  moreover have "0 \<le> uint a" "0 \<le> uint b" by (rule uint_ge_0)+
  moreover have "(2 :: int) ^ 7 = 128" by simp
  ultimately have d: "- (2 ^ 7) \<le> uint a - uint b" "uint a - uint b < 2 ^ 7" by (simp_all only:)
  have "sint (a - b) = signed_take_bit 7 (take_bit 8 (uint a - uint b))"
    by (simp add: sint_uint uint_word_ariths take_bit_eq_mod)
  also have "\<dots> = signed_take_bit 7 (uint a - uint b)" by (simp add: signed_take_bit_take_bit)
  also have "\<dots> = uint a - uint b" by (rule signed_take_bit_int_eq_self [OF d])
  finally show ?thesis .
qed

lemma rt_strncmp_ok:
  assumes "cstring p s m" "cstring q t m" "\<forall>c\<in>set s \<union> set t. c < 128"
  shows "\<exists>r. rt_strncmp p q n m = Some r \<and> (r = 0 \<longleftrightarrow> take n s = take n t)
    \<and> (r < 0 \<longleftrightarrow> (take n s, take n t) \<in> bytes_less) \<and> (0 < r \<longleftrightarrow> (take n t, take n s) \<in> bytes_less)"
  using assms
proof (induction n arbitrary: p q s t)
  case (Suc n)
  have diff: "sint (a - b) \<noteq> 0" "sint (a - b) < 0 \<longleftrightarrow> a < b" "0 < sint (a - b) \<longleftrightarrow> b < a"
    if "a < 128" "b < 128" "a \<noteq> b" for a b :: u8
    using that by (simp_all add: sint_diff_small) (auto simp: word_less_def word_uint_eq_iff)
  have pos: "0 < c" if "c \<noteq> 0" for c :: u8 using that by (simp add: word_neq_0_conv)
  show ?case
  proof (cases s)
    case Nil
    show ?thesis
    proof (cases t)
      case t: (Cons d t')
      then show ?thesis using Suc.prems Nil diff [of 0 d] pos [of d] by (auto simp: word_neq_0_conv)
    qed (use Suc.prems Nil in simp)
  next
    case s: (Cons c s')
    show ?thesis
    proof (cases t)
      case Nil
      then show ?thesis using Suc.prems s diff [of c 0] pos [of c] by auto
    next
      case t: (Cons d t')
      show ?thesis
      proof (cases "c = d")
        case True
        with s t Suc.prems Suc.IH [of "p + 1" s' "q + 1" t'] show ?thesis by auto
      next
        case False
        with s t Suc.prems diff [of c d] show ?thesis by auto
      qed
    qed
  qed
qed simp

lemma rt_strncmp_wrong_sign:
  assumes "m p = Some a" "m q = Some b" "sint (a - b) < 0" "b < a"
  shows "\<exists>r<0. rt_strncmp p q (Suc n) m = Some r"
  using assms by auto

end
