(* ===== verification/Rtt_Kprintf.thy ===== *)
theory Rtt_Kprintf
  imports Rtt_Kmem
begin

unbundle bit_operations_syntax

text \<open>
  The formatted output of \<^verbatim>\<open>src/kservice.c\<close>, with \<^verbatim>\<open>RT_PRINTF_PRECISION\<close> and without
  \<^verbatim>\<open>RT_PRINTF_SPECIAL\<close> and \<^verbatim>\<open>RT_KPRINTF_USING_LONGLONG\<close>. A format is the string before its NUL. The
  arguments of the \<^verbatim>\<open>va_list\<close> are machine words and C strings; taking an argument that is not there, or
  one of the other kind, is undefined in C and makes the result \<open>None\<close>, like a signed overflow. Output
  goes to memory at the address \<open>str\<close>, and nothing is stored at \<^verbatim>\<open>end\<close> or beyond.
\<close>

section \<open>Arguments and flags\<close>

datatype va = Va_word u32 | Va_str "string option"

fun va_word :: "va list \<Rightarrow> (u32 \<times> va list) option" where
  "va_word (Va_word w # args) = Some (w, args)"
| "va_word _ = None"

fun va_str :: "va list \<Rightarrow> (string option \<times> va list) option" where
  "va_str (Va_str s # args) = Some (s, args)"
| "va_str _ = None"

definition ZEROPAD :: u8 where "ZEROPAD = 1"
definition SIGN :: u8 where "SIGN = 2"
definition PLUS :: u8 where "PLUS = 4"
definition SPACE :: u8 where "SPACE = 8"
definition LEFT :: u8 where "LEFT = 16"
definition SPECIAL :: u8 where "SPECIAL = 32"
definition LARGE :: u8 where "LARGE = 64"

lemmas flag_defs = ZEROPAD_def SIGN_def PLUS_def SPACE_def LEFT_def SPECIAL_def LARGE_def

definition has_flag :: "u8 \<Rightarrow> u8 \<Rightarrow> bool" where
  "has_flag flags f \<longleftrightarrow> flags AND f \<noteq> 0"

definition INT_MAX :: int where "INT_MAX = 2147483647"

section \<open>Output\<close>

type_synonym out = "nat \<times> mem"

text \<open>\<^verbatim>\<open>if (str < end) *str = c; ++ str;\<close>\<close>

definition put_char :: "nat \<Rightarrow> char \<Rightarrow> out \<Rightarrow> out option" where
  "put_char e c st =
     (case st of (p, m) \<Rightarrow> do {
        m \<leftarrow> (if p < e then mem_put p (of_char c) m else Some m);
        Some (p + 1, m) })"

fun put_chars :: "nat \<Rightarrow> string \<Rightarrow> out \<Rightarrow> out option" where
  "put_chars e [] st = Some st"
| "put_chars e (c # cs) st = do { st \<leftarrow> put_char e c st; put_chars e cs st }"

text \<open>\<^verbatim>\<open>while (size-- > 0)\<close> and \<^verbatim>\<open>while (--field_width > 0)\<close> around one character.\<close>

function pad_loop :: "nat \<Rightarrow> char \<Rightarrow> int \<Rightarrow> out \<Rightarrow> (int \<times> out) option" where
  "pad_loop e c sz st =
     (if 0 < sz then do { st \<leftarrow> put_char e c st; pad_loop e c (sz - 1) st }
      else Some (sz - 1, st))"
  by pat_completeness auto
termination by (relation "measure (\<lambda>(e, c, sz, st). nat sz)") auto

function pad_before :: "nat \<Rightarrow> int \<Rightarrow> out \<Rightarrow> (int \<times> out) option" where
  "pad_before e width st =
     (if 0 < width - 1 then do { st \<leftarrow> put_char e CHR '' '' st; pad_before e (width - 1) st }
      else Some (width - 1, st))"
  by pat_completeness auto
termination by (relation "measure (\<lambda>(e, width, st). nat width)") auto

text \<open>\<^verbatim>\<open>while (len < field_width--)\<close>\<close>

function pad_string :: "nat \<Rightarrow> int \<Rightarrow> int \<Rightarrow> out \<Rightarrow> (int \<times> out) option" where
  "pad_string e len width st =
     (if len < width then do { st \<leftarrow> put_char e CHR '' '' st; pad_string e len (width - 1) st }
      else Some (width - 1, st))"
  by pat_completeness auto
termination by (relation "measure (\<lambda>(e, len, width, st). nat (width - len))") auto

section \<open>Numbers\<close>

text \<open>\<^verbatim>\<open>divide\<close> returns the digit and leaves the quotient; every base but 10 is taken for 16.\<close>

definition divide :: "u32 \<Rightarrow> nat \<Rightarrow> u32 \<times> u32" where
  "divide n base = (if base = 10 then (n mod 10, n div 10) else (n mod 16, n div 16))"

definition digit_char :: "bool \<Rightarrow> u32 \<Rightarrow> char" where
  "digit_char large d =
     (if large then ''0123456789ABCDEF'' else ''0123456789abcdef'') ! unat d"

lemma divide_less:
  assumes "(d, q) = divide num base" "num \<noteq> 0"
  shows "unat q < unat num"
proof -
  have "unat (num div c) < unat num" if "1 < unat c" for c
    using assms(2) that by (simp add: unat_div unat_gt_0)
  with assms(1) show ?thesis by (auto simp: divide_def split: if_splits)
qed

text \<open>The digits as they are stored in \<^verbatim>\<open>tmp\<close>, the lowest first.\<close>

function number_tmp :: "bool \<Rightarrow> nat \<Rightarrow> u32 \<Rightarrow> string" where
  "number_tmp large base num =
     (if num = 0 then []
      else (case divide num base of (d, q) \<Rightarrow> digit_char large d # number_tmp large base q))"
  by pat_completeness auto
termination
  by (relation "measure (\<lambda>(large, base, num). unat num)") (auto simp: divide_less)

text \<open>
  The sign character of a number and the number that is printed; \<^verbatim>\<open>-num\<close> of the least number wraps.
\<close>

definition number_sign :: "u8 \<Rightarrow> u32 \<Rightarrow> string \<times> u32" where
  "number_sign flags num =
     (if has_flag flags SIGN
      then (if num <s 0 then (''-'', - num)
            else if has_flag flags PLUS then (''+'', num)
            else if has_flag flags SPACE then ('' '', num)
            else ('''', num))
      else ('''', num))"

definition print_number ::
    "nat \<Rightarrow> u32 \<Rightarrow> nat \<Rightarrow> int \<Rightarrow> int \<Rightarrow> u8 \<Rightarrow> out \<Rightarrow> out option" where
  "print_number e num base s precision flags st =
     (let flags = (if has_flag flags LEFT then flags AND NOT ZEROPAD else flags);
          c = (if has_flag flags ZEROPAD then CHR ''0'' else CHR '' '');
          (sign, num) = number_sign flags num;
          tmp = (if num = 0 then ''0'' else number_tmp (has_flag flags LARGE) base num);
          i = int (length tmp);
          precision_bak = precision;
          precision = (if precision < i then i else precision);
          sz = s - precision
      in do {
        (sz, st) \<leftarrow>
          (if \<not> has_flag flags (ZEROPAD OR LEFT)
           then pad_loop e CHR '' '' (if sign \<noteq> '''' \<and> 0 < sz then sz - 1 else sz) st
           else Some (sz, st));
        st \<leftarrow> put_chars e sign st;
        let sz = (if sign \<noteq> '''' then sz - 1 else sz);
        (sz, st) \<leftarrow> (if \<not> has_flag flags LEFT then pad_loop e c sz st else Some (sz, st));
        st \<leftarrow> put_chars e (replicate (nat (precision - i)) CHR ''0'') st;
        st \<leftarrow> (if precision_bak \<noteq> 0 then put_chars e (rev tmp) st else Some st);
        (sz, st) \<leftarrow> pad_loop e CHR '' '' sz st;
        Some st })"

section \<open>Reading a conversion\<close>

definition is_digit :: "char \<Rightarrow> bool" where
  "is_digit c \<longleftrightarrow> (of_char c - 48 :: u32) < 10"

fun parse_flags :: "u8 \<Rightarrow> string \<Rightarrow> u8 \<times> string" where
  "parse_flags flags [] = (flags, [])"
| "parse_flags flags (c # cs) =
     (if c = CHR ''-'' then parse_flags (flags OR LEFT) cs
      else if c = CHR ''+'' then parse_flags (flags OR PLUS) cs
      else if c = CHR '' '' then parse_flags (flags OR SPACE) cs
      else if c = CHR ''#'' then parse_flags (flags OR SPECIAL) cs
      else if c = CHR ''0'' then parse_flags (flags OR ZEROPAD) cs
      else (flags, c # cs))"

fun skip_atoi :: "int \<Rightarrow> string \<Rightarrow> (int \<times> string) option" where
  "skip_atoi i [] = Some (i, [])"
| "skip_atoi i (c # cs) =
     (if is_digit c
      then do {
        rt_assert (i * 10 + of_char c \<le> INT_MAX);
        skip_atoi (i * 10 + of_char c - 48) cs }
      else Some (i, c # cs))"

definition parse_width :: "u8 \<Rightarrow> string \<Rightarrow> va list \<Rightarrow> (int \<times> u8 \<times> string \<times> va list) option" where
  "parse_width flags fmt args =
     (if fmt \<noteq> [] \<and> is_digit (hd fmt)
      then do { (w, fmt) \<leftarrow> skip_atoi 0 fmt; Some (w, flags, fmt, args) }
      else if fmt \<noteq> [] \<and> hd fmt = CHR ''*''
      then do {
        (w, args) \<leftarrow> va_word args;
        (if sint w < 0
         then do { rt_assert (- sint w \<le> INT_MAX); Some (- sint w, flags OR LEFT, tl fmt, args) }
         else Some (sint w, flags, tl fmt, args)) }
      else Some (- 1, flags, fmt, args))"

definition parse_precision :: "string \<Rightarrow> va list \<Rightarrow> (int \<times> string \<times> va list) option" where
  "parse_precision fmt args =
     (if fmt \<noteq> [] \<and> hd fmt = CHR ''.''
      then do {
        let fmt = tl fmt;
        (precision, fmt, args) \<leftarrow>
          (if fmt \<noteq> [] \<and> is_digit (hd fmt)
           then do { (i, fmt) \<leftarrow> skip_atoi 0 fmt; Some (i, fmt, args) }
           else if fmt \<noteq> [] \<and> hd fmt = CHR ''*''
           then do { (w, args) \<leftarrow> va_word args; Some (sint w, tl fmt, args) }
           else Some (- 1, fmt, args));
        Some (if precision < 0 then 0 else precision, fmt, args) }
      else Some (- 1, fmt, args))"

definition parse_qualifier :: "string \<Rightarrow> char option \<times> string" where
  "parse_qualifier fmt =
     (if fmt \<noteq> [] \<and> (hd fmt = CHR ''h'' \<or> hd fmt = CHR ''l'') then (Some (hd fmt), tl fmt)
      else (None, fmt))"

section \<open>One conversion\<close>

text \<open>The length of a string that is printed: the loop stops at the field width, and at the NUL.\<close>

fun string_len :: "int \<Rightarrow> int \<Rightarrow> string \<Rightarrow> int" where
  "string_len len width [] = len"
| "string_len len width (c # cs) =
     (if len \<noteq> width then string_len (len + 1) width cs else len)"

definition print_char :: "nat \<Rightarrow> u8 \<Rightarrow> int \<Rightarrow> va list \<Rightarrow> out \<Rightarrow> (va list \<times> out) option" where
  "print_char e flags width args st = do {
     (width, st) \<leftarrow> (if \<not> has_flag flags LEFT then pad_before e width st else Some (width, st));
     (w, args) \<leftarrow> va_word args;
     st \<leftarrow> put_char e (char_of (unat (ucast w :: u8))) st;
     (width, st) \<leftarrow> pad_before e width st;
     Some (args, st) }"

definition print_string ::
    "nat \<Rightarrow> u8 \<Rightarrow> int \<Rightarrow> int \<Rightarrow> va list \<Rightarrow> out \<Rightarrow> (va list \<times> out) option" where
  "print_string e flags width precision args st = do {
     (s, args) \<leftarrow> va_str args;
     let s = (case s of None \<Rightarrow> ''(NULL)'' | Some s \<Rightarrow> s);
     let len = string_len 0 width s;
     let len = (if 0 < precision \<and> precision < len then precision else len);
     (width, st) \<leftarrow> (if \<not> has_flag flags LEFT then pad_string e len width st else Some (width, st));
     st \<leftarrow> put_chars e (take (nat len) s) st;
     (width, st) \<leftarrow> pad_string e len width st;
     Some (args, st) }"

text \<open>The word a numeric conversion takes, by its qualifier.\<close>

definition number_arg :: "char option \<Rightarrow> u8 \<Rightarrow> u32 \<Rightarrow> u32" where
  "number_arg qualifier flags w =
     (if qualifier = Some CHR ''h''
      then (if has_flag flags SIGN then signed (ucast w :: u16) else ucast (ucast w :: u16))
      else w)"

definition print_numeric ::
    "nat \<Rightarrow> char option \<Rightarrow> nat \<Rightarrow> int \<Rightarrow> int \<Rightarrow> u8 \<Rightarrow> va list \<Rightarrow> out \<Rightarrow> (va list \<times> out) option" where
  "print_numeric e qualifier base width precision flags args st = do {
     (w, args) \<leftarrow> va_word args;
     st \<leftarrow> print_number e (number_arg qualifier flags w) base width precision flags st;
     Some (args, st) }"

definition print_conversion ::
    "nat \<Rightarrow> char \<Rightarrow> char option \<Rightarrow> int \<Rightarrow> int \<Rightarrow> u8 \<Rightarrow> va list \<Rightarrow> out \<Rightarrow> (va list \<times> out) option" where
  "print_conversion e c qualifier width precision flags args st =
     (if c = CHR ''c'' then print_char e flags width args st
      else if c = CHR ''s'' then print_string e flags width precision args st
      else if c = CHR ''p''
      then do {
        (w, args) \<leftarrow> va_word args;
        st \<leftarrow> print_number e w 16 (if width = - 1 then 8 else width) precision
                (if width = - 1 then flags OR ZEROPAD else flags) st;
        Some (args, st) }
      else if c = CHR ''%'' then do { st \<leftarrow> put_char e CHR ''%'' st; Some (args, st) }
      else if c = CHR ''o'' then print_numeric e qualifier 8 width precision flags args st
      else if c = CHR ''X'' then print_numeric e qualifier 16 width precision (flags OR LARGE) args st
      else if c = CHR ''x'' then print_numeric e qualifier 16 width precision flags args st
      else if c = CHR ''d'' \<or> c = CHR ''i''
      then print_numeric e qualifier 10 width precision (flags OR SIGN) args st
      else if c = CHR ''u'' then print_numeric e qualifier 10 width precision flags args st
      else do { st \<leftarrow> put_char e CHR ''%'' st; st \<leftarrow> put_char e c st; Some (args, st) })"

text \<open>What stands between a percent sign and its conversion character.\<close>

definition parse_spec ::
    "string \<Rightarrow> va list \<Rightarrow> (u8 \<times> int \<times> int \<times> char option \<times> string \<times> va list) option" where
  "parse_spec fmt args =
     (case parse_flags 0 fmt of (flags, fmt) \<Rightarrow> do {
        (width, flags, fmt, args) \<leftarrow> parse_width flags fmt args;
        (precision, fmt, args) \<leftarrow> parse_precision fmt args;
        (case parse_qualifier fmt of (qualifier, fmt) \<Rightarrow>
          Some (flags, width, precision, qualifier, fmt, args)) })"

lemma parse_flags_length: "length (snd (parse_flags flags fmt)) \<le> length fmt"
  by (induction flags fmt rule: parse_flags.induct) auto

lemma skip_atoi_length: "skip_atoi i fmt = Some (w, fmt') \<Longrightarrow> length fmt' \<le> length fmt"
  by (induction i fmt arbitrary: w fmt' rule: skip_atoi.induct) (fastforce split: if_splits)+

lemma parse_width_length:
  "parse_width flags fmt args = Some (w, flags', fmt', args') \<Longrightarrow> length fmt' \<le> length fmt"
  by (auto simp: parse_width_def bind_eq_Some_conv split: if_splits dest: skip_atoi_length)

lemma parse_precision_length:
  "parse_precision fmt args = Some (p, fmt', args') \<Longrightarrow> length fmt' \<le> length fmt"
  by (auto simp: parse_precision_def bind_eq_Some_conv Let_def split: if_splits dest: skip_atoi_length)

lemma parse_qualifier_length: "length (snd (parse_qualifier fmt)) \<le> length fmt"
  by (simp add: parse_qualifier_def)

lemma parse_spec_length:
  assumes "parse_spec fmt args = Some (flags, width, precision, qualifier, fmt', args')"
  shows "length fmt' \<le> length fmt"
proof -
  let ?f = "parse_flags 0 fmt"
  obtain w f2 fmt2 args2 p fmt3 args3
    where w: "parse_width (fst ?f) (snd ?f) args = Some (w, f2, fmt2, args2)"
      and p: "parse_precision fmt2 args2 = Some (p, fmt3, args3)"
      and q: "fmt' = snd (parse_qualifier fmt3)"
    using assms by (auto simp: parse_spec_def split_def bind_eq_Some_conv)
  show ?thesis
    using parse_flags_length [of 0 fmt] parse_width_length [OF w] parse_precision_length [OF p]
      parse_qualifier_length [of fmt3] by (simp add: q)
qed

section \<open>The formatting loop\<close>

function vsnprintf_loop :: "nat \<Rightarrow> string \<Rightarrow> va list \<Rightarrow> out \<Rightarrow> out option" where
  "vsnprintf_loop e fmt args st =
     (case fmt of
        [] \<Rightarrow> Some st
      | c # fmt \<Rightarrow>
          (if c \<noteq> CHR ''%''
           then do { st \<leftarrow> put_char e c st; vsnprintf_loop e fmt args st }
           else do {
             (flags, width, precision, qualifier, fmt, args) \<leftarrow> parse_spec fmt args;
             (case fmt of
                [] \<Rightarrow> put_char e CHR ''%'' st
              | c # fmt \<Rightarrow> do {
                  (args, st) \<leftarrow> print_conversion e c qualifier width precision flags args st;
                  vsnprintf_loop e fmt args st }) }))"
  by pat_completeness auto
termination
  by (relation "measure (\<lambda>(e, fmt, args, st). length fmt)")
    (auto dest!: parse_spec_length)

text \<open>\<open>buf\<close> is the buffer's address; a size that would wrap around is cut off.\<close>

definition vsnprintf_size :: "nat \<Rightarrow> nat \<Rightarrow> nat" where
  "vsnprintf_size buf sz = (if buf + sz < 2 ^ 32 then sz else 2 ^ 32 - 1 - buf)"

definition rt_vsnprintf :: "nat \<Rightarrow> nat \<Rightarrow> string \<Rightarrow> va list \<Rightarrow> mem \<Rightarrow> (nat \<times> mem) option" where
  "rt_vsnprintf buf sz fmt args m =
     (let sz = vsnprintf_size buf sz; e = buf + sz
      in do {
        (p, m) \<leftarrow> vsnprintf_loop e fmt args (buf, m);
        m \<leftarrow> (if 0 < sz then (if p < e then mem_put p 0 m else mem_put (e - 1) 0 m) else Some m);
        Some (p - buf, m) })"

definition rt_snprintf :: "nat \<Rightarrow> nat \<Rightarrow> string \<Rightarrow> va list \<Rightarrow> mem \<Rightarrow> (nat \<times> mem) option" where
  "rt_snprintf buf sz fmt args m = rt_vsnprintf buf sz fmt args m"

definition rt_vsprintf :: "nat \<Rightarrow> string \<Rightarrow> va list \<Rightarrow> mem \<Rightarrow> (nat \<times> mem) option" where
  "rt_vsprintf buf fmt args m = rt_vsnprintf buf (2 ^ 32 - 1) fmt args m"

definition rt_sprintf :: "nat \<Rightarrow> string \<Rightarrow> va list \<Rightarrow> mem \<Rightarrow> (nat \<times> mem) option" where
  "rt_sprintf buf fmt args m = rt_vsprintf buf fmt args m"

text \<open>
  \<^verbatim>\<open>rt_kprintf\<close> formats into its static buffer at \<open>log_buf\<close> and hands \<open>len\<close> bytes of it to the console
  device; the result has these bytes.
\<close>

definition RT_CONSOLEBUF_SIZE :: nat where "RT_CONSOLEBUF_SIZE = 256"

definition rt_kprintf :: "nat \<Rightarrow> string \<Rightarrow> va list \<Rightarrow> mem \<Rightarrow> (nat \<times> u8 list \<times> mem) option" where
  "rt_kprintf log_buf fmt args m = do {
     (n, m) \<leftarrow> rt_vsnprintf log_buf (RT_CONSOLEBUF_SIZE - 1) fmt args m;
     let len = (if RT_CONSOLEBUF_SIZE - 1 < n then RT_CONSOLEBUF_SIZE - 1 else n);
     bs \<leftarrow> mem_bytes log_buf len m;
     Some (len, bs, m) }"

declare pad_loop.simps [simp del] pad_before.simps [simp del] pad_string.simps [simp del]
  number_tmp.simps [simp del] vsnprintf_loop.simps [simp del]

section \<open>The text a format stands for\<close>

definition spaces :: "int \<Rightarrow> string" where
  "spaces n = replicate (nat n) CHR '' ''"

definition number_text :: "u8 \<Rightarrow> nat \<Rightarrow> int \<Rightarrow> int \<Rightarrow> u32 \<Rightarrow> string" where
  "number_text flags base width precision num =
     (let (sign, n) = number_sign flags num;
          digits = (if n = 0 then ''0'' else rev (number_tmp (has_flag flags LARGE) base n));
          body = replicate (nat (precision - int (length digits))) CHR ''0'' @
            (if precision = 0 then [] else digits);
          fill = width - max precision (int (length digits)) - int (length sign)
      in if has_flag flags LEFT then sign @ body @ spaces fill
         else if has_flag flags ZEROPAD then sign @ replicate (nat fill) CHR ''0'' @ body
         else spaces fill @ sign @ body)"

definition char_text :: "u8 \<Rightarrow> int \<Rightarrow> u32 \<Rightarrow> string" where
  "char_text flags width w =
     (let c = char_of (unat (ucast w :: u8))
      in if has_flag flags LEFT then c # spaces (width - 1) else spaces (width - 1) @ [c])"

definition string_text :: "u8 \<Rightarrow> int \<Rightarrow> int \<Rightarrow> string option \<Rightarrow> string" where
  "string_text flags width precision s =
     (let s = (case s of None \<Rightarrow> ''(NULL)'' | Some s \<Rightarrow> s);
          n = (if 0 \<le> width then min width (int (length s)) else int (length s));
          n = (if 0 < precision then min precision n else n);
          t = take (nat n) s
      in if has_flag flags LEFT then t @ spaces (width - n) else spaces (width - n) @ t)"

definition conversion_text ::
    "char \<Rightarrow> char option \<Rightarrow> int \<Rightarrow> int \<Rightarrow> u8 \<Rightarrow> va list \<Rightarrow> (string \<times> va list) option" where
  "conversion_text c qualifier width precision flags args =
     (let number = (\<lambda>base flags. do {
            (w, args) \<leftarrow> va_word args;
            Some (number_text flags base width precision (number_arg qualifier flags w), args) })
      in if c = CHR ''c'' then do { (w, args) \<leftarrow> va_word args; Some (char_text flags width w, args) }
         else if c = CHR ''s''
         then do { (s, args) \<leftarrow> va_str args; Some (string_text flags width precision s, args) }
         else if c = CHR ''p''
         then do {
           (w, args) \<leftarrow> va_word args;
           Some (number_text (if width = - 1 then flags OR ZEROPAD else flags) 16
             (if width = - 1 then 8 else width) precision w, args) }
         else if c = CHR ''%'' then Some (''%'', args)
         else if c = CHR ''o'' then number 8 flags
         else if c = CHR ''X'' then number 16 (flags OR LARGE)
         else if c = CHR ''x'' then number 16 flags
         else if c = CHR ''d'' \<or> c = CHR ''i'' then number 10 (flags OR SIGN)
         else if c = CHR ''u'' then number 10 flags
         else Some ([CHR ''%'', c], args))"

function format_text :: "string \<Rightarrow> va list \<Rightarrow> string option" where
  "format_text fmt args =
     (case fmt of
        [] \<Rightarrow> Some []
      | c # fmt \<Rightarrow>
          (if c \<noteq> CHR ''%'' then do { t \<leftarrow> format_text fmt args; Some (c # t) }
           else do {
             (flags, width, precision, qualifier, fmt, args) \<leftarrow> parse_spec fmt args;
             (case fmt of
                [] \<Rightarrow> Some ''%''
              | c # fmt \<Rightarrow> do {
                  (t, args) \<leftarrow> conversion_text c qualifier width precision flags args;
                  t' \<leftarrow> format_text fmt args;
                  Some (t @ t') }) }))"
  by pat_completeness auto
termination
  by (relation "measure (\<lambda>(fmt, args). length fmt)") (auto dest!: parse_spec_length)

declare format_text.simps [simp del]

section \<open>The code writes this text\<close>

lemma put_chars_append: "put_chars e (xs @ ys) st = (put_chars e xs st \<bind> put_chars e ys)"
proof (induction xs arbitrary: st)
  case (Cons a xs)
  then show ?case by (cases "put_char e a st") simp_all
qed simp

lemma put_chars_Nil_fun [simp]: "put_chars e [] = Some"
  by (simp add: fun_eq_iff)

lemma put_chars_single [simp]: "put_chars e [c] st = put_char e c st"
  by (cases "put_char e c st") simp_all

lemma pad_loop_eq:
  "pad_loop e c sz st = (put_chars e (replicate (nat sz) c) st
     \<bind> (\<lambda>st. Some (if 0 < sz then - 1 else sz - 1, st)))"
proof (induction "nat sz" arbitrary: sz st)
  case 0
  then show ?case by (simp add: pad_loop.simps)
next
  case (Suc n)
  then have sz: "0 < sz" and n: "nat (sz - 1) = n" by simp_all
  have "nat sz = Suc n" using Suc.hyps(2) by simp
  then show ?case
    using sz n Suc.hyps(1) [of "sz - 1"]
    by (subst pad_loop.simps) (auto simp: Option.bind_assoc intro!: bind_option_cong)
qed

lemma pad_before_eq:
  "pad_before e w st = (put_chars e (spaces (w - 1)) st \<bind> (\<lambda>st. Some (min (w - 1) 0, st)))"
proof (induction "nat (w - 1)" arbitrary: w st)
  case 0
  then show ?case by (simp add: pad_before.simps spaces_def)
next
  case (Suc n)
  then have w: "0 < w - 1" and n: "nat (w - 1 - 1) = n" by simp_all
  have "nat (w - 1) = Suc n" using Suc.hyps(2) by simp
  then show ?case
    using w n Suc.hyps(1) [of "w - 1"]
    by (subst pad_before.simps) (auto simp: spaces_def Option.bind_assoc intro!: bind_option_cong)
qed

lemma pad_string_eq:
  "pad_string e len w st = (put_chars e (spaces (w - len)) st \<bind> (\<lambda>st. Some (min len w - 1, st)))"
proof (induction "nat (w - len)" arbitrary: w st)
  case 0
  then show ?case by (simp add: pad_string.simps spaces_def)
next
  case (Suc n)
  then have w: "len < w" and n: "nat (w - 1 - len) = n" by simp_all
  have "nat (w - len) = Suc n" using Suc.hyps(2) by simp
  then show ?case
    using w n Suc.hyps(1) [of "w - 1"]
    by (subst pad_string.simps) (auto simp: spaces_def Option.bind_assoc intro!: bind_option_cong)
qed

lemma flag_bits:
  "has_flag f ZEROPAD = bit f 0" "has_flag f SIGN = bit f 1" "has_flag f PLUS = bit f 2"
  "has_flag f SPACE = bit f 3" "has_flag f LEFT = bit f 4" "has_flag f SPECIAL = bit f 5"
  "has_flag f LARGE = bit f 6"
proof -
  have "f AND 2 ^ n \<noteq> 0 \<longleftrightarrow> bit f n" if "n < 8" for n
    using that and_exp_eq_0_iff_not_bit [of f n] by simp
  from this [of 0] this [of 1] this [of 2] this [of 3] this [of 4] this [of 5] this [of 6]
  show "has_flag f ZEROPAD = bit f 0" "has_flag f SIGN = bit f 1" "has_flag f PLUS = bit f 2"
    "has_flag f SPACE = bit f 3" "has_flag f LEFT = bit f 4" "has_flag f SPECIAL = bit f 5"
    "has_flag f LARGE = bit f 6"
    by (simp_all add: has_flag_def flag_defs)
qed

lemma flag_left_zeropad:
  "has_flag (flags AND NOT ZEROPAD) LEFT = has_flag flags LEFT"
  "has_flag (flags AND NOT ZEROPAD) SIGN = has_flag flags SIGN"
  "has_flag (flags AND NOT ZEROPAD) PLUS = has_flag flags PLUS"
  "has_flag (flags AND NOT ZEROPAD) SPACE = has_flag flags SPACE"
  "has_flag (flags AND NOT ZEROPAD) LARGE = has_flag flags LARGE"
  "\<not> has_flag (flags AND NOT ZEROPAD) ZEROPAD"
  unfolding flag_bits by (simp_all add: bit_simps ZEROPAD_def bit_1_iff)

lemma flag_zeropad_left: "has_flag flags (ZEROPAD OR LEFT) \<longleftrightarrow> has_flag flags ZEROPAD \<or> has_flag flags LEFT"
  by (simp add: has_flag_def bit.conj_disj_distrib or_eq_0_iff)

lemma number_sign_left:
  "number_sign (flags AND NOT ZEROPAD) num = number_sign flags num"
  by (simp add: number_sign_def flag_left_zeropad)

lemma number_layout:
  assumes "length sign \<le> 1"
  shows "(do {
        (sz, st) \<leftarrow>
          (if \<not> (z \<or> l)
           then pad_loop e CHR '' '' (if sign \<noteq> '''' \<and> 0 < sz then sz - 1 else sz) st
           else Some (sz, st));
        st \<leftarrow> put_chars e sign st;
        let sz = (if sign \<noteq> '''' then sz - 1 else sz);
        (sz, st) \<leftarrow> (if \<not> l then pad_loop e (if z then CHR ''0'' else CHR '' '') sz st else Some (sz, st));
        st \<leftarrow> put_chars e zeros st;
        st \<leftarrow> put_chars e body st;
        (sz, st) \<leftarrow> pad_loop e CHR '' '' sz st;
        Some st })
    = put_chars e (if l then sign @ zeros @ body @ spaces (sz - int (length sign))
        else if z then sign @ replicate (nat (sz - int (length sign))) CHR ''0'' @ zeros @ body
        else spaces (sz - int (length sign)) @ sign @ zeros @ body) st"
proof -
  have s: "sign = [] \<or> (\<exists>c. sign = [c])" using assms by (cases sign) auto
  show ?thesis
    using s by (auto simp: Let_def pad_loop_eq put_chars_append spaces_def Option.bind_assoc
        intro!: bind_option_cong)
qed

lemma print_number_eq:
  "print_number e num base s precision flags st = put_chars e (number_text flags base s precision num) st"
proof -
  obtain sign n where sn: "number_sign flags num = (sign, n)" by fastforce
  have l: "length sign \<le> 1" using sn by (auto simp: number_sign_def split: if_splits)
  obtain tmp where tmp: "(if n = 0 then ''0'' else number_tmp (has_flag flags LARGE) base n) = tmp" by simp
  have tmp': "(if n = 0 then ''0'' else rev (number_tmp (has_flag flags LARGE) base n)) = rev tmp"
    using tmp by auto
  have m: "s - (if precision < i then i else precision) = s - max precision i" for i by simp
  have b: "(if precision \<noteq> 0 then put_chars e (rev tmp) st else Some st)
      = put_chars e (if precision = 0 then [] else rev tmp) st" for st by simp
  have z: "nat ((if precision < i then i else precision) - i) = nat (precision - i)" for i by simp
  show ?thesis
  proof (cases "has_flag flags LEFT")
    case True
    show ?thesis
      using number_layout [OF l, of False True e "s - max precision (int (length tmp))" st
          "replicate (nat (precision - int (length tmp))) CHR ''0''" "if precision = 0 then [] else rev tmp"] True
      unfolding print_number_def number_text_def Let_def
      by (simp only: if_True flag_left_zeropad flag_zeropad_left number_sign_left sn prod.case tmp tmp' m b z
          length_rev append_assoc)
  next
    case False
    show ?thesis
      using number_layout [OF l, of "has_flag flags ZEROPAD" False e "s - max precision (int (length tmp))" st
          "replicate (nat (precision - int (length tmp))) CHR ''0''" "if precision = 0 then [] else rev tmp"] False
      unfolding print_number_def number_text_def Let_def
      by (simp only: if_False flag_zeropad_left sn prod.case tmp tmp' m b z length_rev append_assoc)
  qed
qed

lemma string_len_eq:
  assumes "0 \<le> len" "width < 0 \<or> len \<le> width"
  shows "string_len len width s = (if 0 \<le> width then min width (len + int (length s)) else len + int (length s))"
  using assms by (induction len width s rule: string_len.induct) auto

lemma print_char_eq:
  "print_char e flags width args st = do {
     (w, args) \<leftarrow> va_word args;
     st \<leftarrow> put_chars e (char_text flags width w) st;
     Some (args, st) }"
proof (cases "va_word args")
  case None
  then show ?thesis by (cases "pad_before e width st") (auto simp: print_char_def)
next
  case (Some a)
  moreover obtain w args' where "a = (w, args')" by fastforce
  ultimately show ?thesis
    by (cases "has_flag flags LEFT")
      (auto simp: print_char_def char_text_def Let_def pad_before_eq put_chars_append spaces_def
        Option.bind_assoc intro!: bind_option_cong)
qed

lemma print_string_eq:
  assumes "- 1 \<le> width"
  shows "print_string e flags width precision args st = do {
     (s, args) \<leftarrow> va_str args;
     st \<leftarrow> put_chars e (string_text flags width precision s) st;
     Some (args, st) }"
proof (cases "va_str args")
  case (Some a)
  obtain s args' where a: "a = (s, args')" by fastforce
  let ?s = "case s of None \<Rightarrow> ''(NULL)'' | Some s \<Rightarrow> s"
  have l: "string_len 0 width ?s = (if 0 \<le> width then min width (int (length ?s)) else int (length ?s))"
    using string_len_eq [of 0 width ?s] by simp
  have p: "(if 0 < precision \<and> precision < n then precision else n)
      = (if 0 < precision then min precision n else n)" for n by simp
  define n where "n = (if 0 < precision then min precision (string_len 0 width ?s) else string_len 0 width ?s)"
  have t: "string_text flags width precision s =
      (if has_flag flags LEFT then take (nat n) ?s @ spaces (width - n) else spaces (width - n) @ take (nat n) ?s)"
    unfolding string_text_def Let_def n_def l by simp
  show ?thesis
    unfolding print_string_def Let_def p Some a
    by (simp only: Option.bind_lunit prod.case n_def [symmetric])
      (auto simp: t pad_string_eq put_chars_append spaces_def Option.bind_assoc intro!: bind_option_cong)
qed (simp add: print_string_def)

lemma print_numeric_eq:
  "print_numeric e qualifier base width precision flags args st = do {
     (w, args) \<leftarrow> va_word args;
     st \<leftarrow> put_chars e (number_text flags base width precision (number_arg qualifier flags w)) st;
     Some (args, st) }"
  by (simp add: print_numeric_def print_number_eq)

lemma print_conversion_eq:
  assumes "- 1 \<le> width"
  shows "print_conversion e c qualifier width precision flags args st = do {
     (t, args) \<leftarrow> conversion_text c qualifier width precision flags args;
     st \<leftarrow> put_chars e t st;
     Some (args, st) }"
  unfolding print_conversion_def conversion_text_def Let_def
  by (simp add: print_char_eq print_string_eq [OF assms] print_numeric_eq print_number_eq
      Option.bind_assoc split_def)

lemma is_digit_iff: "is_digit c \<longleftrightarrow> 48 \<le> (of_char c :: nat) \<and> (of_char c :: nat) < 58"
proof -
  define n where "n = (of_char c :: nat)"
  have n: "n < 256" by (simp add: n_def)
  have w: "(of_char c :: u32) = of_nat n" by (simp add: n_def of_nat_of_char)
  have u: "unat (of_nat n :: u32) = n" using n by (simp add: unat_of_nat take_bit_eq_mod)
  have "(of_nat n - 48 :: u32) < 10 \<longleftrightarrow> 48 \<le> n \<and> n < 58"
  proof (cases "48 \<le> n")
    case True
    then have "unat (of_nat n - 48 :: u32) = n - 48" using u by (simp add: unat_sub word_le_nat_alt)
    with True show ?thesis by (auto simp: word_less_nat_alt)
  next
    case False
    then have "unat (of_nat n - 48 :: u32) = 2 ^ 32 - (48 - n)"
      using u by (simp add: unat_sub_if_size word_size)
    with False show ?thesis by (simp add: word_less_nat_alt)
  qed
  then show ?thesis by (simp add: is_digit_def w flip: n_def)
qed

lemma of_char_int: "(of_char c :: int) = int (of_char c)"
  by (simp add: of_nat_of_char)

lemma parse_width_bound:
  assumes "parse_width flags fmt args = Some (w, r)"
  shows "- 1 \<le> w"
proof -
  have "0 \<le> i \<Longrightarrow> skip_atoi i cs = Some (v, cs') \<Longrightarrow> 0 \<le> v" for i cs v cs'
  proof (induction i cs rule: skip_atoi.induct)
    case (2 i c cs)
    have "0 \<le> i * 10 + of_char c - 48" if "is_digit c"
      using that 2(2) unfolding is_digit_iff of_char_int by linarith
    with 2 show ?case by (auto split: if_splits)
  qed simp
  with assms show ?thesis by (fastforce simp: parse_width_def bind_eq_Some_conv split: if_splits)
qed

lemma parse_spec_width:
  assumes "parse_spec fmt args = Some (flags, width, r)"
  shows "- 1 \<le> width"
  using assms by (auto simp: parse_spec_def split_def bind_eq_Some_conv dest!: parse_width_bound)

lemma vsnprintf_loop_eq:
  "vsnprintf_loop e fmt args st = do { t \<leftarrow> format_text fmt args; put_chars e t st }"
proof (induction fmt args arbitrary: st rule: format_text.induct)
  case (1 fmt args)
  show ?case
  proof (cases fmt)
    case Nil
    then show ?thesis by (simp add: vsnprintf_loop.simps format_text.simps)
  next
    case (Cons c cs)
    show ?thesis
    proof (cases "c = CHR ''%''")
      case False
      have IH: "vsnprintf_loop e cs args st = do { t \<leftarrow> format_text cs args; put_chars e t st }" for st
        using "1.IH"(1) [OF Cons] False by simp
      show ?thesis
        using False Cons
        by (subst vsnprintf_loop.simps, subst format_text.simps)
          (cases "put_char e c st"; cases "format_text cs args"; simp add: IH)
    next
      case pct: True
      show ?thesis
      proof (cases "parse_spec cs args")
        case None
        then show ?thesis
          using pct Cons by (subst vsnprintf_loop.simps, subst format_text.simps) simp
      next
        case (Some x)
        obtain flags width precision qualifier fmt' args' where
          x: "x = (flags, width, precision, qualifier, fmt', args')" by (metis prod_cases6)
        show ?thesis
        proof (cases fmt')
          case Nil
          then show ?thesis
            using pct Cons Some x by (subst vsnprintf_loop.simps, subst format_text.simps) simp
        next
          case f: (Cons d ds)
          have IH: "vsnprintf_loop e ds args'' st = do { t \<leftarrow> format_text ds args''; put_chars e t st }"
            if "conversion_text d qualifier width precision flags args' = Some (t, args'')" for st t args''
            using "1.IH"(2) [OF Cons, of x] pct Some x f that by auto
          have w: "- 1 \<le> width" using parse_spec_width Some x by blast
          show ?thesis
          proof (cases "conversion_text d qualifier width precision flags args'")
            case None
            then show ?thesis
              using pct Cons Some x f
              by (subst vsnprintf_loop.simps, subst format_text.simps) (simp add: print_conversion_eq [OF w])
          next
            case c: (Some y)
            obtain t args'' where y: "y = (t, args'')" by fastforce
            show ?thesis
              using pct Cons Some x f c y
              by (subst vsnprintf_loop.simps, subst format_text.simps)
                (cases "put_chars e t st"; cases "format_text ds args''";
                  simp add: print_conversion_eq [OF w] IH put_chars_append)
          qed
        qed
      qed
    qed
  qed
qed

text \<open>The bytes of a text, and memory after \<open>t\<close> has been printed at \<open>p\<close>.\<close>

definition put_text :: "nat \<Rightarrow> string \<Rightarrow> nat \<Rightarrow> mem \<Rightarrow> mem" where
  "put_text e t p m = (\<lambda>a. if p \<le> a \<and> a < e \<and> a < p + length t then Some (of_char (t ! (a - p))) else m a)"

lemma put_chars_mem:
  assumes "\<forall>a\<in>{p..<e}. m a \<noteq> None"
  shows "put_chars e t (p, m) = Some (p + length t, put_text e t p m)"
  using assms
proof (induction t arbitrary: p m)
  case Nil
  then show ?case by (auto simp: put_text_def fun_eq_iff)
next
  case (Cons c t)
  show ?case
  proof (cases "p < e")
    case True
    with Cons.prems have "m p \<noteq> None" by simp
    then obtain b where b: "m p = Some b" by auto
    let ?m = "m(p := Some (of_char c))"
    have "\<forall>a\<in>{p + 1..<e}. ?m a \<noteq> None" using Cons.prems by auto
    from Cons.IH [OF this] have "put_chars e t (p + 1, ?m) = Some (p + 1 + length t, put_text e t (p + 1) ?m)" .
    moreover have "put_text e t (p + 1) ?m = put_text e (c # t) p m"
      using True by (auto simp: put_text_def fun_eq_iff nth_Cons')
    ultimately show ?thesis using True b by (simp add: put_char_def)
  next
    case False
    then have "\<forall>a\<in>{p + 1..<e}. m a \<noteq> None" by simp
    from Cons.IH [OF this] False show ?thesis
      by (auto simp: put_char_def put_text_def fun_eq_iff)
  qed
qed

text \<open>What the buffer holds afterwards: as much of the text as fits, and a NUL behind it.\<close>

definition format_result :: "nat \<Rightarrow> nat \<Rightarrow> string \<Rightarrow> mem \<Rightarrow> mem" where
  "format_result buf sz t m =
     (if sz = 0 then m
      else (\<lambda>a. if buf \<le> a \<and> a < buf + min (length t) (sz - 1) then Some (of_char (t ! (a - buf)))
                else if a = buf + min (length t) (sz - 1) then Some 0 else m a))"

theorem rt_vsnprintf_eq:
  assumes "mem_mapped buf (vsnprintf_size buf sz) m"
  shows "rt_vsnprintf buf sz fmt args m = do {
    t \<leftarrow> format_text fmt args;
    Some (length t, format_result buf (vsnprintf_size buf sz) t m) }"
proof (cases "format_text fmt args")
  case None
  then show ?thesis by (simp add: rt_vsnprintf_def vsnprintf_loop_eq)
next
  case (Some t)
  let ?s = "vsnprintf_size buf sz"
  let ?e = "buf + ?s"
  have m: "\<forall>a\<in>{buf..<?e}. m a \<noteq> None" using assms by (simp add: mem_mapped_def)
  have l: "vsnprintf_loop ?e fmt args (buf, m) = Some (buf + length t, put_text ?e t buf m)"
    by (simp add: vsnprintf_loop_eq Some put_chars_mem [OF m])
  show ?thesis
  proof (cases "?s = 0")
    case True
    have "put_text ?e t buf m = m" by (auto simp: put_text_def fun_eq_iff True)
    with True l Some show ?thesis by (simp add: rt_vsnprintf_def Let_def format_result_def)
  next
    case False
    define q where "q = (if length t < ?s then buf + length t else ?e - 1)"
    have q: "q = buf + min (length t) (?s - 1)" "q < ?e" "buf \<le> q" using False by (auto simp: q_def)
    have "put_text ?e t buf m q \<noteq> None" using m q(2,3) by (simp add: put_text_def)
    then have "mem_put q 0 (put_text ?e t buf m) = Some ((put_text ?e t buf m)(q := Some 0))"
      by (auto simp: mem_put_Some)
    moreover have "(put_text ?e t buf m)(q := Some 0) = format_result buf ?s t m"
      using False by (auto simp: put_text_def format_result_def fun_eq_iff q(1))
    ultimately show ?thesis using False l Some
      by (simp add: rt_vsnprintf_def Let_def q_def split: if_splits)
  qed
qed

section \<open>Numbers read back\<close>

lemma digit_char_decimal:
  assumes "unat d < 10"
  shows "of_char (digit_char large d) = (48 + unat d :: nat)"
proof -
  have "unat d \<in> {0, 1, 2, 3, 4, 5, 6, 7, 8, 9}" using assms by auto
  then show ?thesis by (cases large) (auto simp: digit_char_def)
qed

lemma skip_atoi_number:
  assumes "uint n + 48 \<le> INT_MAX"
  shows "skip_atoi 0 (rev (number_tmp large 10 n) @ cs) = skip_atoi (uint n) cs"
  using assms
proof (induction large "10 :: nat" n arbitrary: cs rule: number_tmp.induct)
  case (1 large n)
  show ?case
  proof (cases "n = 0")
    case True
    then show ?thesis by (simp add: number_tmp.simps)
  next
    case False
    define q d where "q = n div 10" and "d = n mod 10"
    have u: "uint n = 10 * uint q + int (unat d)"
      by (simp add: q_def d_def uint_div uint_mod flip: uint_nat)
    have dl: "unat d < 10" by (simp add: d_def unat_mod)
    note D = digit_char_decimal [OF dl, of large]
    have c: "is_digit (digit_char large d)" using D dl by (simp add: is_digit_iff)
    have i: "(of_char (digit_char large d) :: int) = 48 + int (unat d)" by (simp add: of_char_int D)
    have t: "number_tmp large 10 n = digit_char large d # number_tmp large 10 q"
      using False by (subst number_tmp.simps) (simp add: divide_def q_def d_def)
    have "uint q + 48 \<le> INT_MAX" using "1.prems" u uint_ge_0 [of q] by linarith
    with "1.hyps" [OF False] have "skip_atoi 0 (rev (number_tmp large 10 q) @ digit_char large d # cs)
        = skip_atoi (uint q) (digit_char large d # cs)"
      by (simp add: divide_def q_def)
    also have "\<dots> = skip_atoi (uint n) cs"
      using c "1.prems" u by (simp add: i mult.commute)
    finally show ?thesis by (simp add: t)
  qed
qed

lemma format_d: "format_text ''%d'' [Va_word w] =
  Some (if w <s 0 then CHR ''-'' # rev (number_tmp False 10 (- w))
        else if w = 0 then ''0'' else rev (number_tmp False 10 w))"
proof -
  have f: "format_text [] args = Some []" for args by (simp add: format_text.simps)
  have d: "\<not> is_digit CHR ''d''" by (simp add: is_digit_iff)
  have p: "parse_spec ''d'' args = Some (0, - 1, - 1, None, ''d'', args)" for args
    by (simp add: parse_spec_def parse_width_def parse_precision_def parse_qualifier_def d)
  have nz: "w <s 0 \<Longrightarrow> - w \<noteq> 0" by auto
  have fl: "has_flag SIGN SIGN" "\<not> has_flag SIGN PLUS" "\<not> has_flag SIGN SPACE" "\<not> has_flag SIGN LEFT"
    "\<not> has_flag SIGN ZEROPAD" "\<not> has_flag SIGN LARGE" "(0 :: u8) OR SIGN = SIGN"
    by (simp_all add: has_flag_def flag_defs)
  show ?thesis
    using nz
    by (subst format_text.simps) (auto simp: p conversion_text_def f number_text_def number_sign_def fl
        number_arg_def spaces_def Let_def)
qed

end
