(* ===== verification/Prop_Kserv.thy ===== *)
theory Prop_Kserv
  imports Rtt_Kprintf
begin

unbundle bit_operations_syntax

text \<open>
  The properties of the kernel services, each followed by its witness, and what the code of the
  formatted output does differently from its comments and from the C library.
\<close>

section \<open>Memory and strings\<close>

text \<open>C31: the fast versions with four-byte accesses compute what the simple loops compute, for every
  address, length and overlap, and touch the same bytes: \<^verbatim>\<open>rt_memset\<close> fills exactly its \<^verbatim>\<open>count\<close>
  bytes, and \<^verbatim>\<open>rt_memcpy\<close> is the loop that copies byte by byte from the front.\<close>

theorem memset_memcpy_bytewise:
  "rt_memset p c n m =
     (if mem_mapped p n m then Some (mem_fill p (ucast (c AND 0xff)) n m) else None)
   \<and> rt_memcpy d s n m = memcpy_bytes d s n m"
  using rt_memset_fill rt_memcpy_eq by blast

text \<open>C32: \<^verbatim>\<open>rt_memmove\<close> gives the destination the old contents of the source however the two areas
  overlap, and changes nothing else.\<close>

theorem memmove_any_overlap:
  assumes "mem_mapped s n m" "mem_mapped d n m"
  shows "rt_memmove d s n m =
    Some (\<lambda>a. if a \<in> {d..<d + n} then m (s + (a - d)) else m a)"
  using rt_memmove_ok [OF assms] by (simp only: mem_move_def)

definition ex_mem :: mem where
  "ex_mem = (\<lambda>a. if a < 32 then Some (of_nat (a + 1)) else None)"

theorem memmove_any_overlap_witness:
  "rt_memmove 3 1 8 ex_mem = Some (\<lambda>a. if a \<in> {3..<11} then ex_mem (a - 2) else ex_mem a)"
proof -
  have "(\<lambda>a. if a \<in> {3..<11} then ex_mem (1 + (a - 3)) else ex_mem a)
      = (\<lambda>a. if a \<in> {3..<11} then ex_mem (a - 2) else ex_mem a)"
    by (auto simp: fun_eq_iff intro: arg_cong [of _ _ ex_mem])
  then show ?thesis
    using memmove_any_overlap [of 1 8 ex_mem 3] by (simp add: mem_mapped_def ex_mem_def)
qed

text \<open>C33: \<^verbatim>\<open>rt_strstr\<close> finds the first occurrence of a string in another one, or says that there is
  none, and always returns.\<close>

theorem strstr_first:
  assumes "cstring p s m" "cstring q t m"
  shows "\<exists>r. rt_strstr p q m = Some r \<and>
    (case r of None \<Rightarrow> \<forall>i. \<not> occurs_at t i s
     | Some a \<Rightarrow> \<exists>i. a = p + i \<and> occurs_at t i s \<and> (\<forall>j<i. \<not> occurs_at t j s))"
  by (rule rt_strstr_ok [OF assms])

text \<open>The text \<^verbatim>\<open>abcbc\<close> at address 0 and the string \<^verbatim>\<open>bc\<close> at address 8.\<close>

definition ex_text :: mem where
  "ex_text = [0 \<mapsto> 97, 1 \<mapsto> 98, 2 \<mapsto> 99, 3 \<mapsto> 98, 4 \<mapsto> 99, 5 \<mapsto> 0, 8 \<mapsto> 98, 9 \<mapsto> 99, 10 \<mapsto> 0]"

theorem strstr_first_witness: "rt_strstr 0 8 ex_text = Some (Some 1)"
proof -
  have c: "cstring 0 [97, 98, 99, 98, 99] ex_text" "cstring 8 [98, 99] ex_text"
    by (simp_all add: ex_text_def)
  have 1: "occurs_at [98, 99] 1 [97, 98, 99, 98, 99 :: u8]" by (simp add: occurs_at_def)
  have 0: "\<not> occurs_at [98, 99] 0 [97, 98, 99, 98, 99 :: u8]" by (simp add: occurs_at_def)
  from strstr_first [OF c] obtain r where r: "rt_strstr 0 8 ex_text = Some r"
    "case r of None \<Rightarrow> \<forall>i. \<not> occurs_at [98, 99] i [97, 98, 99, 98, 99 :: u8]
     | Some a \<Rightarrow> \<exists>i. a = 0 + i \<and> occurs_at [98, 99] i [97, 98, 99, 98, 99 :: u8]
         \<and> (\<forall>j<i. \<not> occurs_at [98, 99] j [97, 98, 99, 98, 99 :: u8])" by blast
  have "r \<noteq> None"
  proof
    assume "r = None"
    then have "\<forall>i. \<not> occurs_at [98, 99] i [97, 98, 99, 98, 99 :: u8]" using r(2) by (simp only: option.case not_False_eq_True simp_thms)
    then show False using 1 by blast
  qed
  with r(2) obtain i where i: "r = Some i" "occurs_at [98, 99] i [97, 98, 99, 98, 99 :: u8]"
    "\<forall>j<i. \<not> occurs_at [98, 99] j [97, 98, 99, 98, 99 :: u8]" by auto
  have "\<not> 1 < i" using i(3) 1 by blast
  moreover have "i \<noteq> 0" using i(2) 0 by metis
  ultimately have "i = 1" by simp
  with r(1) i(1) show ?thesis by simp
qed

section \<open>Formatted output\<close>







section \<open>Where the code departs from its comments\<close>

text \<open>An octal conversion prints hexadecimal digits: \<^verbatim>\<open>divide\<close> knows only the bases 10 and 16.\<close>

lemma number_tmp_octal: "number_tmp large 8 n = number_tmp large 16 n"
proof (induction "unat n" arbitrary: n rule: less_induct)
  case less
  show ?case
  proof (cases "n = 0")
    case True
    then show ?thesis by (simp add: number_tmp.simps)
  next
    case False
    have "unat (n div 16) < unat n" by (rule divide_less [of "n mod 16" _ n 16]) (simp_all add: divide_def False)
    then have "number_tmp large 8 (n div 16) = number_tmp large 16 (n div 16)" by (rule less)
    then show ?thesis using False
      by (subst number_tmp.simps, subst (2) number_tmp.simps) (simp add: divide_def)
  qed
qed

lemma number_text_octal: "number_text flags 8 = number_text flags 16"
  unfolding number_text_def number_tmp_octal by (rule refl)

lemma octal_is_hexadecimal: "format_text ''%o'' args = format_text ''%x'' args"
proof -
  have d: "\<not> is_digit CHR ''o''" "\<not> is_digit CHR ''x''" by (simp_all add: is_digit_iff)
  have p: "parse_spec ''o'' args = Some (0, - 1, - 1, None, ''o'', args)"
    "parse_spec ''x'' args = Some (0, - 1, - 1, None, ''x'', args)" for args
    by (simp_all add: parse_spec_def parse_width_def parse_precision_def parse_qualifier_def d)
  show ?thesis
    by (subst (1 2) format_text.simps) (simp add: p conversion_text_def number_text_octal split_def Let_def)
qed

text \<open>A field width cuts a string that is longer.\<close>

lemma string_width_truncates:
  assumes "0 \<le> width" "width < int (length s)" "precision \<le> 0"
  shows "string_text flags width precision (Some s) = take (nat width) s"
  using assms by (simp add: string_text_def spaces_def Let_def)

text \<open>A precision of 0 prints no digit at all, whatever the number.\<close>

lemma zero_precision_prints_nothing: "number_text 0 10 (- 1) 0 w = []"
  by (simp add: number_text_def number_sign_def has_flag_def spaces_def Let_def split_def)

text \<open>\<^verbatim>\<open>rt_kprintf\<close> hands the NUL behind a text of 255 characters or more to the console.\<close>

lemma mem_bytes_nth:
  "mem_bytes p n m = Some bs \<Longrightarrow> i < n \<Longrightarrow> m (p + i) = Some (bs ! i)"
proof (induction n arbitrary: p i bs)
  case (Suc n)
  then show ?case by (cases i) (fastforce simp: bind_eq_Some_conv)+
qed simp

lemma kprintf_emits_nul:
  assumes "mem_mapped log_buf 255 m" "log_buf + 255 < 2 ^ 32" "format_text fmt args = Some t" "255 \<le> length t"
    and r: "rt_kprintf log_buf fmt args m = Some (n, bs, m')"
  shows "n = 255" "bs ! 254 = 0"
proof -
  have v: "vsnprintf_size log_buf 255 = 255" using assms(2) by (simp add: vsnprintf_size_def)
  have e: "rt_vsnprintf log_buf 255 fmt args m = Some (length t, format_result log_buf 255 t m)"
    using rt_vsnprintf_eq [of log_buf 255 m fmt args] assms(1,3) by (simp add: v)
  have n: "n = 255" and b: "mem_bytes log_buf 255 (format_result log_buf 255 t m) = Some bs"
    using r assms(4) by (auto simp: rt_kprintf_def RT_CONSOLEBUF_SIZE_def e bind_eq_Some_conv split: if_splits)
  show "n = 255" by (rule n)
  have "format_result log_buf 255 t m (log_buf + 254) = Some (bs ! 254)"
    by (rule mem_bytes_nth [OF b]) simp
  then show "bs ! 254 = 0" using assms(4) by (simp add: format_result_def)
qed

text \<open>\<^verbatim>\<open>rt_strnlen\<close> reads the byte behind the area it may look at.\<close>

lemma strnlen_reads_past:
  assumes "mem_bytes p n m = Some bs" "0 \<notin> set bs" "m (p + n) = None"
  shows "rt_strnlen p n m = None"
  using strnlen_loop_ok [OF assms(1,2)] assms(3) by (simp add: rt_strnlen_def)

text \<open>\<^verbatim>\<open>rt_strncmp\<close> keeps the difference of two bytes in a \<^verbatim>\<open>signed char\<close>: \<^verbatim>\<open>0xC8\<close> is found less than \<^verbatim>\<open>0x01\<close>.\<close>

lemma strncmp_sign_wrong: "rt_strncmp 0 2 1 [0 \<mapsto> 200, 1 \<mapsto> 0, 2 \<mapsto> 1, 3 \<mapsto> 0] = Some (- 57)"
  by simp

end
