(* ===== verification/Rtt_Worker.thy ===== *)
theory Rtt_Worker
  imports Rtt_Workqueue Rtt_Channels
begin

text \<open>
  The worker's loop as a whole: \<open>worker_run q f n\<close> is \<open>n\<close> rounds of \<^verbatim>\<open>_workqueue_thread_entry\<close> in which the
  worker finds a work each time, \<open>f\<close> being the functions of the works. It runs the works of the list, all
  of them, in their order.
\<close>

fun worker_run ::
    "nat \<Rightarrow> (nat \<Rightarrow> kernel \<Rightarrow> kernel option) \<Rightarrow> nat \<Rightarrow> kernel \<Rightarrow> (nat list \<times> kernel) option" where
  "worker_run q f 0 k = Some ([], k)"
| "worker_run q f (Suc n) k = do {
     (r, k) \<leftarrow> workqueue_thread_begin q k;
     (case r of
        None \<Rightarrow> Some ([], k)
      | Some w \<Rightarrow> do {
          k \<leftarrow> f w k;
          (_, k) \<leftarrow> workqueue_thread_end q k;
          (ws, k) \<leftarrow> worker_run q f n k;
          Some (w # ws, k) }) }"

text \<open>The states between two steps of the worker, and what a work's function must keep of them.\<close>

definition worker_state :: "nat \<Rightarrow> kernel \<Rightarrow> bool" where
  "worker_state q k \<longleftrightarrow> api_ok k \<and> work_inv k \<and> sem_inv k \<and> rt_scheduler_lock_nest k = 0
     \<and> sem_object (sems k (wkq_sem (workq_of k q))) \<noteq> Obj_none"

definition work_func_ok :: "nat \<Rightarrow> (nat \<Rightarrow> kernel \<Rightarrow> kernel option) \<Rightarrow> bool" where
  "work_func_ok q f \<longleftrightarrow> (\<forall>w k. worker_state q k \<and> work_current k q = Some w
     \<longrightarrow> (\<exists>k'. f w k = Some k' \<and> worker_state q k' \<and> work_list k' q = work_list k q))"

lemma worker_begin:
  assumes s: "worker_state q k" and w: "work_list k q = w # ws"
  shows "\<exists>k'. workqueue_thread_begin q k = Some (Some w, k') \<and> worker_state q k' \<and> work_list k' q = ws
    \<and> work_current k' q = Some w"
proof -
  have S: "api_ok k" "work_inv k" "sem_inv k" using s by (simp_all add: worker_state_def)
  have k: "kernel_ok k" using S(1) by (simp add: api_ok_def)
  let ?k = "upd_work w (\<lambda>x. x\<lparr>wk_workqueue := None\<rparr>) (upd_work w (clear_work_flag RT_WORK_STATE_PENDING)
      (upd_workq q (\<lambda>x. x\<lparr>wkq_work_current := Some w\<rparr>) (work_unlink w k)))"
  have b: "workqueue_thread_begin q k = Some (Some w, ?k)" by (simp add: workqueue_thread_begin_def w Let_def)
  note B = workqueue_thread_begin_ok [OF wks.step_refl [OF k S(2)] b]
  note E = workqueue_thread_begin_effect [OF S(2) b w]
  have "sem_inv ?k" by (rule sem_inv_class [OF S(3) class_stepD(3) [OF B]]) simp
  moreover have "api_ok ?k" using S(1) class_stepD(1) [OF B] by (simp add: api_ok_def stacks_ok_def)
  ultimately have "worker_state q ?k" using s class_stepD(2) [OF B] by (simp add: worker_state_def)
  with b E(2,3) show ?thesis by blast
qed

text \<open>Ending a work returns, too: it leaves the scheduler unlocked.\<close>

lemma worker_end:
  assumes s: "worker_state q k"
  shows "\<exists>k'. workqueue_thread_end q k = Some (RT_EOK, k') \<and> worker_state q k' \<and> work_list k' q = work_list k q
    \<and> work_current k' q = None"
proof -
  have S: "api_ok k" "work_inv k" "sem_inv k" "rt_scheduler_lock_nest k = 0" using s by (simp_all add: worker_state_def)
  have K: "kernel_ok k" "stacks_ok k" "rt_current_thread k \<noteq> None" using S(1) by (simp_all add: api_ok_def)
  let ?s = "wkq_sem (workq_of k q)"
  let ?c = "upd_workq q (\<lambda>x. x\<lparr>wkq_work_current := None\<rparr>) k"
  let ?l = "rt_enter_critical ?c"
  have l: "kernel_ok ?l" "thread_level ?c ?l" "rt_scheduler_lock_nest ?l = 1"
    using K(1) S(4) by (simp_all add: rt_enter_critical_def)
  have sl: "sem_inv ?l"
    by (rule sem_inv_thread_level [OF sem_inv_class [OF S(3) work_class_frames(2)] l(2)]) simp
  have ol: "sem_object (sems ?l ?s) \<noteq> Obj_none" "rt_scheduler_lock_nest ?l \<noteq> 0"
    using s l(3) by (simp_all add: worker_state_def rt_enter_critical_def)
  obtain k3 where lp: "work_completion_loop ?s ?l = Some (RT_EOK, k3)" and s3: "class_step Sem_class sem_inv ?l k3"
    and d3: "devs k3 = devs ?l" and n3: "rt_scheduler_lock_nest k3 = 1" "rt_current_thread k3 = rt_current_thread ?l"
    "sem_object (sems k3 ?s) = sem_object (sems ?l ?s)" "stacks_ok ?l \<longrightarrow> stacks_ok k3"
    using work_completion_loop_ok [OF l(1) sl ol] l(3) by auto
  let ?u = "k3\<lparr>rt_scheduler_lock_nest := 0\<rparr>"
  have st: "stacks_ok ?l" using K(2) by (simp add: stacks_ok_def rt_enter_critical_def)
  obtain c where c: "rt_current_thread ?u = Some c" using K(3) n3(2) by (auto simp: rt_enter_critical_def)
  have ku: "kernel_ok ?u" using class_stepD(1) [OF s3] by simp
  have su: "stacks_ok ?u" using st n3(4) by (simp add: stacks_ok_def)
  obtain k4 where k4: "rt_schedule ?u = Some k4" using rt_schedule_returns [OF kernel_okD(1) [OF ku] su c] by blast
  have ex: "rt_exit_critical k3 = Some k4" using k4 c n3(1) by (simp add: rt_exit_critical_def Let_def)
  have e: "workqueue_thread_end q k = Some (RT_EOK, k4)"
    using lp ex by (simp add: workqueue_thread_end_def workqueue_work_completion_def)
  have o: "sem_object (sems k ?s) \<noteq> Obj_none" using s by (simp add: worker_state_def)
  have n: "rt_scheduler_lock_nest k + 1 \<noteq> 0" using S(4) by simp
  note E = workqueue_thread_end_ok [OF wks.step_refl [OF K(1) S(2)] S(3) o e n]
  obtain k2 where k2: "work_step k k2" "class_step Sem_class sem_inv k2 k4" using E(2) by blast
  have wi: "work_inv k4"
    by (rule wks.other_class [OF class_stepD(2) [OF k2(1)] class_stepD(3) [OF k2(2)]]) simp
  note F = ipc_frameD [OF rt_schedule_ipc_frame [OF k4]]
  have "rt_current_thread ?u \<noteq> None" using c by simp
  then have "api_ok k4"
    using class_stepD(1) [OF k2(2)] ipc_frame_stacks_ok [OF rt_schedule_ipc_frame [OF k4] su]
      rt_schedule_current [OF _ k4] by (simp add: api_ok_def)
  moreover have "wkq_sem (workq_of k4 q) = ?s" by (simp add: F(14) d3) (simp add: rt_enter_critical_def)
  ultimately have "worker_state q k4"
    using wi class_stepD(2) [OF k2(2)] ol(1) n3(3) by (simp add: worker_state_def F(2,4))
  with e E(4,7) show ?thesis by blast
qed

lemma worker_run_all:
  assumes "worker_state q k" and f: "work_func_ok q f"
  shows "\<exists>k'. worker_run q f (length (work_list k q)) k = Some (work_list k q, k') \<and> worker_state q k'
    \<and> work_list k' q = [] \<and> (work_list k q \<noteq> [] \<longrightarrow> work_current k' q = None)"
  using assms(1)
proof (induction "work_list k q" arbitrary: k)
  case Nil
  then show ?case by simp
next
  case (Cons w ws)
  note w = Cons.hyps(2) [symmetric]
  obtain k1 where k1: "workqueue_thread_begin q k = Some (Some w, k1)" "worker_state q k1" "work_list k1 q = ws"
    "work_current k1 q = Some w" using worker_begin [OF Cons.prems w] by blast
  obtain k2 where k2: "f w k1 = Some k2" "worker_state q k2" "work_list k2 q = ws"
    using f k1 unfolding work_func_ok_def by metis
  obtain k3 where k3: "workqueue_thread_end q k2 = Some (RT_EOK, k3)" "worker_state q k3" "work_list k3 q = ws"
    "work_current k3 q = None" using worker_end [OF k2(2)] k2(3) by auto
  from Cons.hyps(1) [OF k3(3) [symmetric] k3(2)] obtain k' where
    k': "worker_run q f (length ws) k3 = Some (ws, k')" "worker_state q k'" "work_list k' q = []"
    "ws \<noteq> [] \<longrightarrow> work_current k' q = None" by (auto simp: k3(3))
  have "work_current k' q = None" using k' k3(4) by (cases "ws = []") auto
  then show ?case using k1(1) k2(1) k3(1) k' by (simp add: w)
qed

end
