(* ===== verification/Prop_Devipc.thy ===== *)
theory Prop_Devipc
  imports Rtt_Worker Rtt_Example
begin

text \<open>
  The properties of the driver framework's data queues, completions, wait queues and work queues, each
  followed by its witness.
\<close>

section \<open>Data queues\<close>

text \<open>C34: a data queue is a bounded queue: over any sequence of \<^verbatim>\<open>rt_data_queue_push\<close> and
  \<^verbatim>\<open>rt_data_queue_pop\<close> calls that do not wait, with the waking and scheduling they do, the items that
  come out are those that were accepted, in order, after those that were there; a push is refused
  exactly when the queue is full, \<^verbatim>\<open>rt_data_queue_peek\<close> shows the first item, and
  \<^verbatim>\<open>rt_data_queue_len\<close> counts the items of a queue of at most 32768.\<close>

theorem dataqueue_fifo:
  assumes "dq_api_ok q k" and "fifo_run (dq_push_now q) (dq_pop_now q) ops k = (accepted, delivered, k')"
  shows "dq_api_ok q k'
    \<and> dq_contents (dataq k q) @ accepted = delivered @ dq_contents (dataq k' q)
    \<and> (dq_push_now q v k = None \<longleftrightarrow> dq_is_full (dataq k q))
    \<and> rt_data_queue_peek q k = Some (case dq_contents (dataq k q) of
         [] \<Rightarrow> (RT_EEMPTY, None) | x # xs \<Rightarrow> (RT_EOK, Some x))
    \<and> (dq_size (dataq k q) \<le> 2 ^ 15 \<longrightarrow> rt_data_queue_len q k = Some (length (dq_contents (dataq k q))))"
proof -
  have i: "dataqueue_inv k" "dq_magic (dataq k q) = DATAQUEUE_MAGIC" using assms(1) by (simp_all add: dq_api_ok_def)
  have "dq_api_ok q k' \<and> dq_contents (dataq k q) @ accepted = delivered @ dq_contents (dataq k' q)
      \<and> dq_places (dataq k' q) = dq_places (dataq k q)"
    by (rule dq_api.run_order [OF assms(1) _ assms(2)]) simp
  moreover have "dq_push_now q v k = None \<longleftrightarrow> dq_is_full (dataq k q)"
    using dq_api.enq_full [OF assms(1), of v] dq_api.enq_room [OF assms(1), of v] dq_api.bounded [OF assms(1)]
      dq_count_full [OF dataqueue_invD [OF i]]
    by (cases "dq_is_full (dataq k q)") auto
  ultimately show ?thesis using rt_data_queue_peek_first [OF i] rt_data_queue_len_contents [OF i] by blast
qed

lemma demo_dq_api: "dq_api_ok d (demo q)"
  using demo_stacks demo_kernel_ok by (simp add: dq_api_ok_def api_ok_def demo_devs dataqueue_inv_def dq_new_wf)

theorem dataqueue_fifo_witness:
  "\<exists>a b k'. fifo_run (dq_push_now 0) (dq_pop_now 0) [Put (7, 1), Put (8, 2), Put (9, 3), Get, Put (5, 1), Get]
      (demo (DqPopWait 0)) = (a, b, k') \<and> a = b @ dq_contents (dataq k' 0)"
proof -
  obtain a b k' where r: "fifo_run (dq_push_now 0) (dq_pop_now 0)
      [Put (7, 1), Put (8, 2), Put (9, 3), Get, Put (5, 1), Get] (demo (DqPopWait 0)) = (a, b, k')" by (rule prod_cases3)
  have "dq_contents (dataq (demo (DqPopWait 0)) 0) = []"
    by (simp add: demo_devs dq_contents_def dq_count_def) (simp add: dq_new_def)
  with dataqueue_fifo [OF demo_dq_api r] r show ?thesis by simp
qed

section \<open>Completions\<close>

text \<open>C35: \<^verbatim>\<open>rt_completion_done\<close> makes the thread that waits for the completion ready to return \<^verbatim>\<open>RT_EOK\<close>;
  with nobody waiting it is kept, and serves one wait: the next \<^verbatim>\<open>rt_completion_wait\<close> returns \<^verbatim>\<open>RT_EOK\<close> at
  once and the one after it does not.\<close>

theorem completion_serves_one:
  assumes "kernel_ok k" and "completion_inv k" and "rt_completion_done c k = Some k'"
  shows "completion_inv k' \<and> completion_flag k' c = RT_COMPLETED \<and> waitq k' (CompletionWait c) = []
    \<and> (\<forall>t\<in>set (waitq k (CompletionWait c)). thread_stat k' t \<in> {RT_THREAD_READY, RT_THREAD_RUNNING}
         \<and> fst (rt_completion_wait_resume c t k') = error (threads k t)
         \<and> completion_flag (snd (rt_completion_wait_resume c t k')) c = RT_UNCOMPLETED)
    \<and> (\<exists>k''. rt_completion_wait c 0 k' = Some (Returned RT_EOK, k'')
         \<and> rt_completion_wait c 0 k'' = Some (Returned RT_ETIMEOUT, k''))"
proof -
  note S = rt_completion_done_ok [OF assms]
  note W = rt_completion_done_effect [OF assms]
  have "\<exists>k''. rt_completion_wait c 0 k' = Some (Returned RT_EOK, k'')
         \<and> rt_completion_wait c 0 k'' = Some (Returned RT_ETIMEOUT, k'')"
    using W(1,2) by (simp add: rt_completion_wait_def debug_defs RT_COMPLETED_def RT_UNCOMPLETED_def)
  then show ?thesis
    using class_stepD(2) [OF S] W by (auto simp: rt_completion_wait_resume_def Let_def)
qed

theorem completion_serves_one_witness:
  "\<exists>k'. rt_completion_done 0 (demo (CompletionWait 0)) = Some k' \<and> completion_flag k' 0 = RT_COMPLETED
    \<and> waitq k' (CompletionWait 0) = [] \<and> fst (rt_completion_wait_resume 0 3 k') = RT_EOK
    \<and> thread_stat k' 3 \<in> {RT_THREAD_READY, RT_THREAD_RUNNING}"
proof -
  let ?k = "demo (CompletionWait 0)"
  have i: "completion_inv ?k" using sys_invD(3) [OF demo_sys_inv, of "CompletionWait 0" Completion_class] by simp
  have "stacks_ok (set_completion 0 RT_COMPLETED ?k)" using demo_stacks by (simp add: stacks_ok_def)
  then have a: "api_ok (set_completion 0 RT_COMPLETED ?k)" using demo_kernel_ok by (simp add: api_ok_def)
  obtain k' where "rt_completion_done 0 ?k = Some k'"
    using api_wake [OF a, of "CompletionWait 0"] by (auto simp: rt_completion_done_def demo_devs RT_COMPLETED_def)
  from completion_serves_one [OF demo_kernel_ok i this] this show ?thesis by (simp add: ex_threads_def ex_thread_def)
qed

section \<open>Wait queues\<close>

text \<open>C36: \<^verbatim>\<open>rt_wqueue_wakeup\<close> takes the first node whose function accepts the key off the list and makes
  its thread ready, if it sleeps; if no node accepts, no thread is woken and the wake-up is kept: the next
  \<^verbatim>\<open>rt_wqueue_wait\<close> returns at once. Every node stays on one list at most.\<close>

theorem wqueue_wakeup_first_or_kept:
  assumes "kernel_ok k" and "wqueue_inv k" and "rt_wqueue_wakeup q key k = Some k'"
    and "rt_current_thread k = Some t" and "debug_scheduler_available True k = Some ()"
  shows "kernel_ok k' \<and> wqueue_inv k'
    \<and> ((\<exists>ms n ns. waiting_list k q = ms @ n # ns \<and> (\<forall>m\<in>set ms. \<not> wakes_node k key m) \<and> wakes_node k key n
          \<and> waiting_list k' q = ms @ ns
          \<and> (thread_stat k (wn_polling_thread (wqnodes (devs k) n)) = RT_THREAD_SUSPEND
             \<longrightarrow> thread_stat k' (wn_polling_thread (wqnodes (devs k) n)) \<in> {RT_THREAD_READY, RT_THREAD_RUNNING}))
      \<or> (\<forall>n\<in>set (waiting_list k q). \<not> wakes_node k key n)
          \<and> waiting_list k' q = waiting_list k q \<and> threads k' = threads k
          \<and> (\<forall>n msec. \<exists>k2. rt_wqueue_wait q n 0 msec k' = Some (Returned RT_EOK, k2)))"
  using assms(3)
proof (cases rule: rt_wqueue_wakeup_cases)
  case nobody
  have "\<forall>n msec. \<exists>k2. rt_wqueue_wait q n 0 msec k' = Some (Returned RT_EOK, k2)"
    using wakeup_kept [OF assms(3) nobody(1) assms(4,5)] by blast
  then show ?thesis using class_stepD(1,2) [OF rt_wqueue_wakeup_ok [OF assms(1-3)]] nobody by simp
next
  case (node ms n ns)
  have "n \<notin> set ms"
    using assms(2) node(1) unfolding wqueue_inv_def by (metis Un_iff distinct_append list.set_intros(1) disjoint_iff)
  note F = rt_wqueue_wakeup_first [OF assms(1,3) node(1-3) this]
  show ?thesis
    using class_stepD(1,2) [OF rt_wqueue_wakeup_ok [OF assms(1-3)]] F node(1-3) by blast
qed

text \<open>Thread 3 sleeps on wait queue 0 with node 9, behind node 8, which accepts the key 5 only.\<close>

definition ex_wqueue :: kernel where
  "ex_wqueue = set_wqnode 8 \<lparr>wn_polling_thread = 2, wn_wakeup = (\<lambda>key. if key = 5 then 0 else 1)\<rparr>
     (set_wqnode 9 \<lparr>wn_polling_thread = 3, wn_wakeup = wqueue_default_wake\<rparr>
       (upd_wqueue 0 (\<lambda>x. x\<lparr>wq_waiting_list := [8, 9]\<rparr>) (demo (EventWait 7))))"

theorem wqueue_wakeup_first_or_kept_witness:
  "\<exists>k'. rt_wqueue_wakeup 0 4 ex_wqueue = Some k' \<and> waiting_list k' 0 = [8]
    \<and> thread_stat k' 3 \<in> {RT_THREAD_READY, RT_THREAD_RUNNING}"
proof -
  let ?d = "demo (EventWait 7)"
  have wl: "waiting_list ex_wqueue r = (if r = 0 then [8, 9] else [])" for r
    by (simp add: ex_wqueue_def) (simp add: demo_def cleared_memory_def)
  have i: "wqueue_inv ex_wqueue" by (simp add: wqueue_inv_def wl)
  have wn: "wakes_node ex_wqueue 4 9" "\<not> wakes_node ex_wqueue 4 8"
    by (simp_all add: wakes_node_def ex_wqueue_def wqueue_default_wake_def)
  have pt: "wn_polling_thread (wqnodes (devs ex_wqueue) 9) = 3" by (simp add: ex_wqueue_def)
  have k: "kernel_ok ex_wqueue" by (simp add: ex_wqueue_def demo_kernel_ok)
  have c: "rt_current_thread ex_wqueue = Some 1" by (simp add: ex_wqueue_def)
  have d: "debug_scheduler_available True ex_wqueue = Some ()"
    by (simp add: ex_wqueue_def debug_defs set_wqnode_def upd_wqueue_def)
  have st: "thread_stat ex_wqueue 3 = RT_THREAD_SUSPEND" by (simp add: ex_wqueue_def)
  obtain k' where r: "rt_wqueue_wakeup 0 4 ex_wqueue = Some k'"
    using wqueue_wakeup_returns [OF k _ c, of 0 4] demo_stacks by (auto simp: ex_wqueue_def stacks_ok_def)
  from wqueue_wakeup_first_or_kept [OF k i r c d]
  have "\<exists>ms n ns. [8, 9] = ms @ n # ns \<and> (\<forall>m\<in>set ms. \<not> wakes_node ex_wqueue 4 m) \<and> wakes_node ex_wqueue 4 n
          \<and> waiting_list k' 0 = ms @ ns
          \<and> (thread_stat ex_wqueue (wn_polling_thread (wqnodes (devs ex_wqueue) n)) = RT_THREAD_SUSPEND
             \<longrightarrow> thread_stat k' (wn_polling_thread (wqnodes (devs ex_wqueue) n)) \<in> {RT_THREAD_READY, RT_THREAD_RUNNING})"
    using wn(1) by (simp add: wl)
  then obtain ms n ns where m: "[8, 9] = ms @ n # ns" "\<forall>m\<in>set ms. \<not> wakes_node ex_wqueue 4 m" "wakes_node ex_wqueue 4 n"
    "waiting_list k' 0 = ms @ ns" "thread_stat ex_wqueue (wn_polling_thread (wqnodes (devs ex_wqueue) n)) = RT_THREAD_SUSPEND
             \<longrightarrow> thread_stat k' (wn_polling_thread (wqnodes (devs ex_wqueue) n)) \<in> {RT_THREAD_READY, RT_THREAD_RUNNING}"
    by blast
  have "ms = [8] \<and> n = 9 \<and> ns = []" using m(1,3) wn(2) by (cases ms) (auto simp: Cons_eq_append_conv)
  then show ?thesis using r m(4,5) pt st by simp
qed

section \<open>Work queues\<close>

text \<open>
  Queue 0 has the works 7 and 8 on its list; its worker is thread 1, which runs, and thread 3 waits on its
  semaphore for the end of a work.
\<close>

definition ex_work :: kernel where
  "ex_work = upd_work 7 (\<lambda>_. \<lparr>wk_flags = RT_WORK_STATE_PENDING, wk_workqueue = Some 0\<rparr>)
     (upd_work 8 (\<lambda>_. \<lparr>wk_flags = RT_WORK_STATE_PENDING, wk_workqueue = Some 0\<rparr>)
       (upd_workq 0 (\<lambda>_. \<lparr>wkq_work_list = [7, 8], wkq_delayed_list = [], wkq_work_current = None, wkq_sem = 0,
          wkq_work_thread = 1\<rparr>) (demo (SemWait 0))))"

lemma ex_work_fields [simp]:
  "work_list ex_work q = (if q = 0 then [7, 8] else [])" "delayed_list ex_work q = []"
  "work_current ex_work q = None" "wkq_sem (workq_of ex_work q) = 0" "work_thread ex_work 0 = 1"
  "work_of ex_work w = (if w = 7 \<or> w = 8 then \<lparr>wk_flags = RT_WORK_STATE_PENDING, wk_workqueue = Some 0\<rparr>
     else \<lparr>wk_flags = 0, wk_workqueue = None\<rparr>)"
  "kernel_ok ex_work" "timer_list ex_work = [ThreadTimer 3]" "thread_stat ex_work = thread_stat (demo (SemWait 0))"
  by (simp_all add: ex_work_def demo_kernel_ok) (simp_all add: demo_def cleared_memory_def)

lemma ex_work_inv: "work_inv ex_work"
  by (auto simp: work_inv_def work_lists_def split: if_splits)


text \<open>C37: \<^verbatim>\<open>rt_workqueue_dowork\<close> puts a work at the end of the list, \<^verbatim>\<open>rt_workqueue_urgent_work\<close> at its front,
  in both cases once and nowhere else; a work that is being run is refused by the former with
  \<^verbatim>\<open>-RT_EBUSY\<close>; the worker of an idle queue does not sleep afterwards. \<^verbatim>\<open>rt_workqueue_cancel_work\<close> takes the
  work off every list and stops its timer. A work stays on one list at most.\<close>

theorem work_submission:
  assumes "kernel_ok k" and "work_inv k" and "work_timer_idle k w"
    and "rt_workqueue_dowork q w k = Some (e1, k1)" and "rt_workqueue_urgent_work q w k = Some (e2, k2)"
    and "rt_workqueue_cancel_work q w k = Some (e3, k3)"
  shows "work_inv k1 \<and> work_inv k2 \<and> work_inv k3
    \<and> e1 = (if work_current k q = Some w then RT_EBUSY else RT_EOK)
    \<and> work_list k1 q = removeAll w (work_list k q) @ (if work_current k q = Some w then [] else [w])
    \<and> e2 = RT_EOK \<and> work_list k2 q = w # removeAll w (work_list k q)
    \<and> (work_current k q = None \<longrightarrow> thread_stat k1 (work_thread k q) \<noteq> RT_THREAD_SUSPEND
         \<and> thread_stat k2 (work_thread k q) \<noteq> RT_THREAD_SUSPEND)
    \<and> e3 = (if work_current k q = Some w then RT_EBUSY else RT_EOK)
    \<and> work_free k3 w \<and> work_list k3 q = removeAll w (work_list k q) \<and> UserTimer w \<notin> set (timer_list k3)"
proof -
  note s = wks.step_refl [OF assms(1,2)]
  have c: "workqueue_cancel_work q w k = Some (e3, k3)" using assms(6) by (simp add: rt_workqueue_cancel_work_def)
  have i1: "work_inv k1"
    using class_stepD(2) [OF workqueue_submit_work_ok [OF assms(1-3)]] assms(4) by (simp add: rt_workqueue_dowork_def)
  have i2: "work_inv k2" by (rule class_stepD(2) [OF rt_workqueue_urgent_work_ok [OF s assms(5)]])
  note C = workqueue_cancel_work_ok [OF s c]
  show ?thesis
    using i1 i2 class_stepD(2) [OF C(1)] C(2,6,8) C(7) [OF assms(3)] rt_workqueue_dowork_effect(1,2,7) [OF assms(1,4)]
      rt_workqueue_urgent_work_effect(1,2,7) [OF assms(1,5)] by blast
qed

theorem work_submission_witness:
  "\<exists>k1 k2. rt_workqueue_dowork 0 7 ex_work = Some (RT_EOK, k1) \<and> work_list k1 0 = [8, 7]
    \<and> rt_workqueue_urgent_work 0 8 ex_work = Some (RT_EOK, k2) \<and> work_list k2 0 = [8, 7]"
proof -
  have w: "workqueue_wake 0 k = Some k" if "work_thread k 0 = 1" "thread_stat k 1 = RT_THREAD_RUNNING" for k
    using that by (simp add: workqueue_wake_def)
  have "\<exists>k1 k2 e3 k3. rt_workqueue_dowork 0 w ex_work = Some (RT_EOK, k1)
      \<and> rt_workqueue_urgent_work 0 w ex_work = Some (RT_EOK, k2) \<and> rt_workqueue_cancel_work 0 w ex_work = Some (e3, k3)" for w
    by (simp add: rt_workqueue_dowork_def submit_eq Let_def work_take_def w rt_workqueue_urgent_work_def
        rt_workqueue_cancel_work_def workqueue_cancel_work_def clear_work_flag_def)
  note ex = this
  have t: "work_timer_idle ex_work w" for w by (simp add: work_timer_idle_def)
  obtain a1 a2 a3 x3 b1 b2 b3 y3 where
    a: "rt_workqueue_dowork 0 7 ex_work = Some (RT_EOK, a1)" "rt_workqueue_urgent_work 0 7 ex_work = Some (RT_EOK, a2)"
      "rt_workqueue_cancel_work 0 7 ex_work = Some (x3, a3)"
    and b: "rt_workqueue_dowork 0 8 ex_work = Some (RT_EOK, b1)" "rt_workqueue_urgent_work 0 8 ex_work = Some (RT_EOK, b2)"
      "rt_workqueue_cancel_work 0 8 ex_work = Some (y3, b3)" using ex [of 7] ex [of 8] by metis
  note A = work_submission [OF ex_work_fields(7) ex_work_inv t a]
  note B = work_submission [OF ex_work_fields(7) ex_work_inv t b]
  have "work_list a1 0 = [8, 7]" "work_list b2 0 = [8, 7]" using A B by simp_all
  with a(1) b(2) show ?thesis by blast
qed



text \<open>C39: the loop of \<^verbatim>\<open>_workqueue_work_completion\<close> ends: every thread that waits for the end of the work is
  made ready, and the semaphore's value, if it was 0, is 0 again.\<close>

theorem work_completion_ends:
  assumes "kernel_ok k" and "sem_inv k" and "sem_object (sems k s) \<noteq> Obj_none" and "rt_scheduler_lock_nest k \<noteq> 0"
  shows "\<exists>k'. work_completion_loop s k = Some (RT_EOK, k') \<and> kernel_ok k' \<and> waitq k' (SemWait s) = []
    \<and> sem_value (sems k' s) = sem_value (sems k s) - (if sem_value (sems k s) = 0 then 0 else 1)
    \<and> (\<forall>t\<in>set (waitq k (SemWait s)). thread_stat k' t \<in> {RT_THREAD_READY, RT_THREAD_RUNNING})
    \<and> (\<forall>t. t \<notin> set (waitq k (SemWait s)) \<longrightarrow> thread_stat k' t = thread_stat k t)"
  using work_completion_loop_ok [OF assms] by (auto simp: class_step_def)

theorem work_completion_ends_witness:
  "\<exists>k'. work_completion_loop 0 (rt_enter_critical (demo (SemWait 0))) = Some (RT_EOK, k')
    \<and> waitq k' (SemWait 0) = [] \<and> thread_stat k' 3 \<in> {RT_THREAD_READY, RT_THREAD_RUNNING}"
proof -
  let ?d = "demo (SemWait 0)" and ?k = "rt_enter_critical (demo (SemWait 0))"
  have "sem_inv ?d" using sys_invD(3) [OF demo_sys_inv, of "SemWait 0" Sem_class] by simp
  then have "sem_inv ?k" by (rule sem_inv_thread_level) (simp add: rt_enter_critical_def)
  moreover have "kernel_ok ?k" "sem_object (sems ?k 0) \<noteq> Obj_none" "rt_scheduler_lock_nest ?k \<noteq> 0"
    using demo_kernel_ok by (simp_all add: rt_enter_critical_def)
  moreover have "waitq ?k (SemWait 0) = [3]" by (simp add: rt_enter_critical_def)
  ultimately show ?thesis using work_completion_ends [of ?k 0] by auto
qed

text \<open>C40: a work submitted with a delay goes to the delay list, its timer armed for that number of ticks;
  when the timer's function runs and the work has not been moved, it goes to the end of its queue's list,
  unless it is being run, and the worker of an idle queue does not sleep.\<close>

theorem delayed_work_due:
  assumes "kernel_ok k" and "work_inv k" and "work_timer_idle k w" and "ticks \<noteq> 0"
    and "rt_workqueue_submit_work q w ticks k = Some (e, k1)"
    and "kernel_ok k2" and "devs k2 = devs k1" and "delayed_work_timeout_handler w k2 = Some k3"
  shows "e = RT_EOK \<and> work_inv k1 \<and> work_list k1 q = removeAll w (work_list k q)
    \<and> delayed_list k1 q = removeAll w (delayed_list k q) @ [w]
    \<and> UserTimer w \<in> set (timer_list k1) \<and> tm_timeout_tick (timers k1 (UserTimer w)) = rt_tick k + ticks
    \<and> work_inv k3 \<and> delayed_list k3 q = removeAll w (delayed_list k q)
    \<and> work_list k3 q = removeAll w (work_list k q) @ (if work_current k q = Some w then [] else [w])
    \<and> (work_current k q = None \<longrightarrow> thread_stat k3 (work_thread k q) \<noteq> RT_THREAD_SUSPEND)"
proof -
  have sw: "workqueue_submit_work q w ticks k = Some (e, k1)"
    using assms(5) by (simp add: rt_workqueue_submit_work_def bind_eq_Some_conv)
  have i1: "work_inv k1" by (rule class_stepD(2) [OF workqueue_submit_work_ok [OF assms(1-3) sw]])
  note S = rt_workqueue_submit_delayed_effect [OF assms(4,5)]
  have "w \<in> set (delayed_list k1 q)" by (simp add: S(3))
  then have q: "wk_workqueue (work_of k2 w) = Some q" using i1 assms(7) unfolding work_inv_def by simp
  have i2: "work_inv k2" using i1 assms(7) by (intro work_inv_same [OF i1]) simp_all
  note H = delayed_work_timeout_handler_effect [OF assms(6) q assms(8)]
  have i3: "work_inv k3" by (rule class_stepD(2) [OF delayed_work_timeout_handler_ok [OF assms(6) i2 assms(8)]])
  show ?thesis using S H i1 i3 assms(7) by simp
qed

theorem delayed_work_due_witness:
  "\<exists>k1 k3. rt_workqueue_submit_work 0 7 50 ex_work = Some (RT_EOK, k1) \<and> work_list k1 0 = [8]
    \<and> delayed_list k1 0 = [7] \<and> tm_timeout_tick (timers k1 (UserTimer 7)) = 50
    \<and> delayed_work_timeout_handler 7 k1 = Some k3 \<and> work_list k3 0 = [8, 7]"
proof -
  have t: "work_timer_idle ex_work 7" by (simp add: work_timer_idle_def)
  obtain e k1 where s: "rt_workqueue_submit_work 0 7 50 ex_work = Some (e, k1)"
    by (auto simp: rt_workqueue_submit_work_def submit_eq Let_def half_tick_max_value work_take_def clear_work_flag_def
        rt_timer_init_def)
  then have sw: "workqueue_submit_work 0 7 50 ex_work = Some (e, k1)"
    by (simp add: rt_workqueue_submit_work_def bind_eq_Some_conv)
  have k1: "kernel_ok k1" by (rule class_stepD(1) [OF workqueue_submit_work_ok [OF ex_work_fields(7) ex_work_inv t sw]])
  have n: "(50 :: u32) \<noteq> 0" by simp
  note S = rt_workqueue_submit_delayed_effect [OF n s]
  have "work_thread k1 0 = 1" "thread_stat k1 = thread_stat ex_work" "tm_static (timers k1 (UserTimer 7))"
    using S(5) [of 0] S(11) by (simp_all add: thread_stat_def [abs_def] S(9) del: ex_work_fields(9))
  moreover have "workqueue_wake 0 k = Some k" if "work_thread k 0 = 1" "thread_stat k 1 = RT_THREAD_RUNNING" for k
    using that by (simp add: workqueue_wake_def)
  ultimately obtain k3 where h: "delayed_work_timeout_handler 7 k1 = Some k3"
    using S(10) S(4) [of 0] by (simp add: delayed_work_timeout_handler_def rt_timer_detach_def Let_def rt_assert_def)
  have "rt_tick ex_work = 0" by (simp add: ex_work_def)
  with delayed_work_due [OF ex_work_fields(7) ex_work_inv t n s k1 refl h] s h show ?thesis by auto
qed

end
